(* ===== verification/UCDD_Prelude.thy ===== *)
theory UCDD_Prelude
  imports "HOL-Library.Word"
begin

unbundle bit_operations_syntax

text \<open>
  Shared vocabulary of the development: the ways a run of the C code can stop, the
  state-passing functions of the model with their sequencing combinator, the
  weakest-precondition predicate all stateful lemmas are stated with, tagged pointers
  (the negation bit of \<^verbatim>\<open>include/cdd/kernel.h\<close>), and generic lemmas on lists and sums.
\<close>

section \<open>Faults and state-passing functions\<close>

text \<open>
  \<open>Segv\<close>: the C code has undefined behaviour here (a load or store through a pointer that
  addresses no object, an index past the end of an array, a call through a NULL pointer).
  \<open>AssertFail\<close>: an \<^verbatim>\<open>assert\<close> fails.  \<open>NoMem\<close>: the operating system refuses memory, which
  the code does not check for, so the process dies.  \<open>NoFuel\<close>: the depth bound given to a
  recursive function of the model is used up; it is no behaviour of the code, and the
  lemmas show it does not occur.
\<close>

datatype fault = Segv | AssertFail | NoMem | NoFuel

type_synonym ('s, 'a) M = "'s \<Rightarrow> fault + ('a \<times> 's)"

definition ret :: "'a \<Rightarrow> ('s, 'a) M" where
  "ret x s = Inr (x, s)"

definition fail :: "fault \<Rightarrow> ('s, 'a) M" where
  "fail f s = Inl f"

definition bindM :: "('s, 'a) M \<Rightarrow> ('a \<Rightarrow> ('s, 'b) M) \<Rightarrow> ('s, 'b) M" where
  "bindM m k s = (case m s of Inl f \<Rightarrow> Inl f | Inr (x, t) \<Rightarrow> k x t)"

definition thenM :: "('s, 'a) M \<Rightarrow> ('s, 'b) M \<Rightarrow> ('s, 'b) M" where
  "thenM m k = bindM m (\<lambda>_. k)"

definition gets :: "('s \<Rightarrow> 'a) \<Rightarrow> ('s, 'a) M" where
  "gets g s = Inr (g s, s)"

definition modifyM :: "('s \<Rightarrow> 's) \<Rightarrow> ('s, unit) M" where
  "modifyM g s = Inr ((), g s)"

definition guardM :: "fault \<Rightarrow> bool \<Rightarrow> ('s, unit) M" where
  "guardM f c s = (if c then Inr ((), s) else Inl f)"

definition someM :: "fault \<Rightarrow> 'a option \<Rightarrow> ('s, 'a) M" where
  "someM f x s = (case x of None \<Rightarrow> Inl f | Some y \<Rightarrow> Inr (y, s))"

definition whenM :: "bool \<Rightarrow> ('s, unit) M \<Rightarrow> ('s, unit) M" where
  "whenM c m = (if c then m else ret ())"

primrec forM :: "'a list \<Rightarrow> ('a \<Rightarrow> ('s, unit) M) \<Rightarrow> ('s, unit) M" where
  "forM [] f = ret ()"
| "forM (x # xs) f = thenM (f x) (forM xs f)"

section \<open>Weakest preconditions\<close>

text \<open>
  \<open>wp m Q s\<close>: run from \<open>s\<close>, \<open>m\<close> either returns a value and a state satisfying \<open>Q\<close>, or
  memory ran out.  It rules out undefined behaviour, failed assertions and missing fuel,
  so a \<open>wp\<close> statement is a total-correctness statement up to memory exhaustion.
\<close>

definition wp :: "('s, 'a) M \<Rightarrow> ('a \<Rightarrow> 's \<Rightarrow> bool) \<Rightarrow> 's \<Rightarrow> bool" where
  "wp m Q s = (case m s of Inl f \<Rightarrow> f = NoMem | Inr (x, t) \<Rightarrow> Q x t)"

named_theorems wp_simps

lemma wp_ret [wp_simps]: "wp (ret x) Q s = Q x s"
  by (simp add: wp_def ret_def)

lemma wp_fail [wp_simps]: "wp (fail f) Q s = (f = NoMem)"
  by (simp add: wp_def fail_def)

lemma wp_bind [wp_simps]: "wp (bindM m k) Q s = wp m (\<lambda>x. wp (k x) Q) s"
  by (auto simp: wp_def bindM_def split: sum.splits prod.splits)

lemma wp_then [wp_simps]: "wp (thenM m k) Q s = wp m (\<lambda>_. wp k Q) s"
  by (simp add: thenM_def wp_bind)

lemma wp_gets [wp_simps]: "wp (gets g) Q s = Q (g s) s"
  by (simp add: wp_def gets_def)

lemma wp_modify [wp_simps]: "wp (modifyM g) Q s = Q () (g s)"
  by (simp add: wp_def modifyM_def)

lemma wp_guard [wp_simps]: "wp (guardM f c) Q s = (if c then Q () s else f = NoMem)"
  by (simp add: wp_def guardM_def)

lemma wp_some [wp_simps]:
  "wp (someM f x) Q s = (case x of None \<Rightarrow> f = NoMem | Some y \<Rightarrow> Q y s)"
  by (cases x) (simp_all add: wp_def someM_def)

lemma wp_when [wp_simps]: "wp (whenM c m) Q s = (if c then wp m Q s else Q () s)"
  by (simp add: whenM_def wp_ret)

lemma wp_if [wp_simps]: "wp (if c then m else n) Q s = (if c then wp m Q s else wp n Q s)"
  by simp

lemma wp_mono: "wp m Q s \<Longrightarrow> (\<And>x t. Q x t \<Longrightarrow> R x t) \<Longrightarrow> wp m R s"
  by (auto simp: wp_def split: sum.splits prod.splits)

lemma wp_conj: "wp m Q s \<Longrightarrow> wp m R s \<Longrightarrow> wp m (\<lambda>x t. Q x t \<and> R x t) s"
  by (auto simp: wp_def split: sum.splits prod.splits)

lemma wp_InrD: "wp m Q s \<Longrightarrow> m s = Inr (x, t) \<Longrightarrow> Q x t"
  by (simp add: wp_def)

lemma wp_cases: "wp m Q s \<Longrightarrow> (\<And>x t. m s = Inr (x, t) \<Longrightarrow> Q x t \<Longrightarrow> P) \<Longrightarrow> (m s = Inl NoMem \<Longrightarrow> P) \<Longrightarrow> P"
  by (auto simp: wp_def split: sum.splits)

lemma wp_forM:
  assumes "I [] s"
    and "\<And>pre x rest t. xs = pre @ x # rest \<Longrightarrow> I pre t \<Longrightarrow> wp (f x) (\<lambda>_. I (pre @ [x])) t"
  shows "wp (forM xs f) (\<lambda>_. I xs) s"
proof -
  have "I pre t \<Longrightarrow> xs = pre @ rest \<Longrightarrow> wp (forM rest f) (\<lambda>_. I xs) t" for pre rest t
  proof (induction rest arbitrary: pre t)
    case Nil
    then show ?case by (simp add: wp_simps)
  next
    case (Cons x rest)
    have "wp (f x) (\<lambda>_. I (pre @ [x])) t"
      using assms(2) Cons.prems by blast
    then show ?case
      unfolding forM.simps wp_then
      by (rule wp_mono) (rule Cons.IH, use Cons.prems in auto)
  qed
  from this [OF assms(1)] show ?thesis by simp
qed

section \<open>Tagged pointers\<close>

text \<open>
  Addresses of a 32-bit build: the repository's \<^verbatim>\<open>i686\<close> tool chains, and the sizes
  \<^verbatim>\<open>SIZEOF_INT\<close> and \<^verbatim>\<open>SIZEOF_VOID_P\<close> that \<^verbatim>\<open>src/kernel.c\<close> writes down.  Nodes have even
  addresses; the least significant bit of a node pointer negates the diagram it points to.
\<close>

type_synonym ptr = "32 word"

definition cdd_rglr :: "ptr \<Rightarrow> ptr" where
  "cdd_rglr p = p AND NOT 1"

definition cdd_is_negated :: "ptr \<Rightarrow> ptr" where
  "cdd_is_negated p = p AND 1"

definition cdd_mask :: "ptr \<Rightarrow> ptr" where
  "cdd_mask p = p AND 1"

definition cdd_neg_cond :: "ptr \<Rightarrow> ptr \<Rightarrow> ptr" where
  "cdd_neg_cond p m = p XOR m"

definition cdd_neg :: "ptr \<Rightarrow> ptr" where
  "cdd_neg p = p XOR 1"

lemma bit_rglr: "bit (cdd_rglr p) n \<longleftrightarrow> bit p n \<and> n \<noteq> 0"
proof -
  have "bit p n \<Longrightarrow> n < 32"
    using bit_imp_le_length [of p n] by simp
  then show ?thesis
    by (auto simp: cdd_rglr_def bit_and_iff bit_not_iff bit_1_iff)
qed

lemma bit_mask1: "bit (cdd_mask p) n \<longleftrightarrow> bit p n \<and> n = 0"
  by (auto simp: cdd_mask_def bit_simps bit_1_iff)

lemma rglr_rglr [simp]: "cdd_rglr (cdd_rglr p) = cdd_rglr p"
  by (rule bit_word_eqI) (simp add: bit_rglr)

lemma mask_rglr [simp]: "cdd_mask (cdd_rglr p) = 0"
  by (rule bit_word_eqI) (auto simp: bit_rglr bit_mask1)

lemma mask_cases: "cdd_mask p = 0 \<or> cdd_mask p = 1"
  by (simp add: cdd_mask_def and_one_eq mod_2_eq_odd)

lemma mask_01E:
  obtains "cdd_mask p = 0" | "cdd_mask p = 1"
  using mask_cases by blast

lemma rglr_neg_cond [simp]:
  assumes "m = 0 \<or> m = 1"
  shows "cdd_rglr (cdd_neg_cond p m) = cdd_rglr p"
proof -
  have "bit m n \<longrightarrow> n = 0" for n
    using assms by (auto simp: bit_1_iff)
  then show ?thesis
    by (intro bit_word_eqI) (auto simp: bit_rglr cdd_neg_cond_def bit_xor_iff)
qed

lemma rglr_neg_mask [simp]: "cdd_rglr (cdd_neg_cond p (cdd_mask q)) = cdd_rglr p"
  using mask_cases by simp

lemma rglr_neg [simp]: "cdd_rglr (cdd_neg p) = cdd_rglr p"
  using rglr_neg_cond [of 1 p] by (simp add: cdd_neg_cond_def cdd_neg_def)

lemma neg_neg [simp]: "cdd_neg (cdd_neg p) = p"
  by (simp add: cdd_neg_def xor.assoc)

lemma neg_cond_0 [simp]: "cdd_neg_cond p 0 = p"
  by (simp add: cdd_neg_cond_def)

lemma neg_cond_1 [simp]: "cdd_neg_cond p 1 = cdd_neg p"
  by (simp add: cdd_neg_cond_def cdd_neg_def)

lemma neg_neq [simp]: "cdd_neg p \<noteq> p" "p \<noteq> cdd_neg p"
proof -
  have "bit (cdd_neg p) 0 \<noteq> bit p 0"
    by (simp add: cdd_neg_def bit_xor_iff)
  then show "cdd_neg p \<noteq> p" and "p \<noteq> cdd_neg p" by auto
qed

lemma neg_eq_iff [simp]: "cdd_neg p = cdd_neg q \<longleftrightarrow> p = q"
proof
  assume "cdd_neg p = cdd_neg q"
  then have "cdd_neg (cdd_neg p) = cdd_neg (cdd_neg q)" by (rule arg_cong)
  then show "p = q" by (simp only: neg_neg)
qed simp

lemma rglr_mask [simp]: "cdd_neg_cond (cdd_rglr p) (cdd_mask p) = p"
  by (rule bit_word_eqI) (auto simp: bit_rglr bit_mask1 cdd_neg_cond_def bit_simps)

lemma neg_cond_twice [simp]: "cdd_neg_cond (cdd_neg_cond p m) m = p"
  by (simp add: cdd_neg_cond_def xor.assoc)

lemma mask_neg_cond:
  assumes "m = 0 \<or> m = 1"
  shows "cdd_mask (cdd_neg_cond p m) = cdd_mask p XOR m"
proof -
  have "bit m n \<longrightarrow> n = 0" for n
    using assms by (auto simp: bit_1_iff)
  then show ?thesis
    by (intro bit_word_eqI) (auto simp: bit_mask1 cdd_neg_cond_def bit_xor_iff)
qed

lemma mask_neg: "cdd_mask (cdd_neg p) = (if cdd_mask p = 0 then 1 else 0)"
  using mask_neg_cond [of 1 p] mask_cases [of p] by auto

lemma ptr_eq_iff: "p = q \<longleftrightarrow> cdd_rglr p = cdd_rglr q \<and> cdd_mask p = cdd_mask q"
proof
  assume "cdd_rglr p = cdd_rglr q \<and> cdd_mask p = cdd_mask q"
  then have "cdd_neg_cond (cdd_rglr p) (cdd_mask p) = cdd_neg_cond (cdd_rglr q) (cdd_mask q)"
    by (simp only:)
  then show "p = q" by (simp only: rglr_mask)
qed simp

lemma ptr_eqI: "cdd_rglr p = cdd_rglr q \<Longrightarrow> cdd_mask p = cdd_mask q \<Longrightarrow> p = q"
  using ptr_eq_iff [of p q] by blast

lemma regular_iff: "cdd_mask p = 0 \<longleftrightarrow> cdd_rglr p = p"
proof
  assume "cdd_mask p = 0"
  then show "cdd_rglr p = p" using rglr_mask [of p] by simp
next
  assume "cdd_rglr p = p"
  then have "cdd_mask p = cdd_mask (cdd_rglr p)" by (simp only:)
  then show "cdd_mask p = 0" by simp
qed

lemma neg_cond_mask_self [simp]: "cdd_neg_cond p (cdd_mask p) = cdd_rglr p"
  using neg_cond_twice [of "cdd_rglr p" "cdd_mask p"] by simp

lemma mask_nonzero: "cdd_mask p \<noteq> 0 \<longleftrightarrow> cdd_mask p = 1"
  using mask_cases [of p] by auto

lemma ptr_cases:
  obtains (regular) "cdd_mask p = 0" "cdd_rglr p = p"
  | (negated) "cdd_mask p = 1" "p = cdd_neg (cdd_rglr p)"
proof (cases rule: mask_01E [of p])
  case 1
  then show ?thesis using regular rglr_mask [of p] by simp
next
  case 2
  then show ?thesis using negated rglr_mask [of p] by simp
qed

lemma rglr_eq_cases:
  assumes eq: "cdd_rglr p = cdd_rglr q"
  shows "p = q \<or> p = cdd_neg q"
proof (cases "cdd_mask p = cdd_mask q")
  case True
  with eq have "p = q" by (rule ptr_eqI)
  then show ?thesis by (rule disjI1)
next
  case False
  have "a \<noteq> b \<Longrightarrow> a = 0 \<or> a = 1 \<Longrightarrow> b = 0 \<or> b = 1 \<Longrightarrow> a = (if b = 0 then 1 else 0)" for a b :: ptr
    by auto
  from this [OF False mask_cases mask_cases] have "cdd_mask p = cdd_mask (cdd_neg q)"
    unfolding mask_neg .
  moreover have "cdd_rglr p = cdd_rglr (cdd_neg q)"
    unfolding rglr_neg by (rule eq)
  ultimately have "p = cdd_neg q" by (rule ptr_eqI [rotated])
  then show ?thesis by (rule disjI2)
qed

section \<open>Lists\<close>

lemma count_list_map_remove: "x \<in> set xs \<Longrightarrow> 0 < count_list xs x"
  by (induction xs) auto

lemma sorted_wrt_takeWhile_drop:
  assumes "sorted_wrt R xs" "y \<in> set (takeWhile P xs)" "z \<in> set (dropWhile P xs)"
  shows "R y z"
proof -
  have "sorted_wrt R (takeWhile P xs @ dropWhile P xs)"
    using assms(1) by simp
  then show ?thesis
    using assms(2,3) by (auto simp: sorted_wrt_append simp del: takeWhile_dropWhile_id)
qed

lemma set_list_update_subset: "set (xs[i := y]) \<subseteq> insert y (set xs)"
  by (rule set_update_subset_insert)

lemma length_concat_map_const: "(\<And>x. x \<in> set xs \<Longrightarrow> length (f x) = n) \<Longrightarrow> length (concat (map f xs)) = n * length xs"
  by (induction xs) auto

end
