(* ===== verification/Bounds.thy ===== *)
theory Bounds
  imports Complex_Main UCDD_Prelude
begin

text \<open>
  Bounds: the encoding of constraints on clock differences as integers (\<^verbatim>\<open>raw_t\<close>) and the
  macros of \<^verbatim>\<open>include/cdd/kernel.h\<close> that convert, flip and add them.  A bound holds a limit
  in its upper bits and a strictness bit.  The same number is read as an upper bound
  (\<open>bnd_sat\<close>) and, negated, as a lower bound, which is how CDD nodes use it.
  \<^verbatim>\<open>raw_t\<close> is a 32-bit integer in C; signed overflow is undefined there, so bounds are
  integers here and the range \<open>- bnd_INF .. bnd_INF\<close> is a hypothesis where it matters.
\<close>

section \<open>The macros\<close>

type_synonym raw_t = int

definition bnd_INF :: raw_t where
  "bnd_INF = 0x7FFFFFFE"

definition bnd_upper :: "int \<Rightarrow> bool \<Rightarrow> raw_t" where
  "bnd_upper limit strict = push_bit 1 limit OR (if strict then 0 else 1)"

definition bnd_lower :: "int \<Rightarrow> bool \<Rightarrow> raw_t" where
  "bnd_lower limit strict = push_bit 1 limit OR (if strict then 1 else 0)"

definition bnd_get_limit :: "raw_t \<Rightarrow> int" where
  "bnd_get_limit b = drop_bit 1 b"

definition bnd_is_upper_strict :: "raw_t \<Rightarrow> bool" where
  "bnd_is_upper_strict b \<longleftrightarrow> \<not> (b AND 1 \<noteq> 0)"

definition bnd_is_lower_strict :: "raw_t \<Rightarrow> bool" where
  "bnd_is_lower_strict b \<longleftrightarrow> b AND 1 \<noteq> 0"

definition bnd_add :: "raw_t \<Rightarrow> raw_t \<Rightarrow> raw_t" where
  "bnd_add a b =
     (if a = bnd_INF \<or> b = bnd_INF then bnd_INF
      else ((a AND NOT 1) + (b AND NOT 1)) OR (a AND b AND 1))"

definition bnd_l2u :: "raw_t \<Rightarrow> raw_t" where
  "bnd_l2u b = (if b = - bnd_INF then bnd_INF else ((- (b AND NOT 1)) OR (b AND 1)) XOR 1)"

definition bnd_u2l :: "raw_t \<Rightarrow> raw_t" where
  "bnd_u2l b = (if b = bnd_INF then - bnd_INF else ((- (b AND NOT 1)) OR (b AND 1)) XOR 1)"

definition maximum :: "int \<Rightarrow> int \<Rightarrow> int" where
  "maximum a b = (if a > b then a else b)"

definition minimum :: "int \<Rightarrow> int \<Rightarrow> int" where
  "minimum a b = (if a < b then a else b)"

lemma minimum_min [simp]: "minimum a b = min a b"
  by (simp add: minimum_def min_def)

lemma maximum_max [simp]: "maximum a b = max a b"
  by (simp add: maximum_def max_def)

section \<open>Arithmetic form of the bit operations\<close>

lemma and_m2: "(b::int) AND - 2 = 2 * (b div 2)"
proof -
  have "b AND NOT 1 = push_bit 1 (drop_bit 1 b)"
  proof (rule bit_eqI)
    fix n :: nat
    have "n \<noteq> 0 \<Longrightarrow> 1 + (n - 1) = n" for n :: nat by simp
    then show "bit (b AND NOT 1) n = bit (push_bit 1 (drop_bit 1 b)) n"
      by (cases "n = 0") (simp_all only: bit_and_iff bit_not_iff bit_1_iff bit_push_bit_iff bit_drop_bit_eq
          comp_apply, simp_all)
  qed
  then show ?thesis by (simp add: push_bit_eq_mult drop_bit_eq_div)
qed

lemma flip_bits: "((- ((b::int) AND NOT 1)) OR (b AND 1)) XOR 1 = 1 - b"
proof (cases "even b")
  case True
  then have "b AND 1 = 0" and "b AND - 2 = b"
    by (auto simp: and_one_eq and_m2)
  with True show ?thesis by (simp add: xor_one_eq)
next
  case False
  then have "b AND 1 = 1" and "b AND - 2 = b - 1"
    by (auto simp: and_one_eq and_m2 elim!: oddE)
  with False show ?thesis by (simp add: xor_one_eq or_one_eq)
qed

lemma bnd_l2u_eq: "b \<noteq> - bnd_INF \<Longrightarrow> bnd_l2u b = 1 - b"
  unfolding bnd_l2u_def flip_bits by simp

lemma bnd_u2l_eq: "b \<noteq> bnd_INF \<Longrightarrow> bnd_u2l b = 1 - b"
  unfolding bnd_u2l_def flip_bits by simp

lemma bnd_add_eq:
  assumes "a \<noteq> bnd_INF" "b \<noteq> bnd_INF"
  shows "bnd_add a b = a + b - (if odd a \<or> odd b then 1 else 0)"
proof -
  have "bnd_add a b = (2 * (a div 2) + 2 * (b div 2)) OR (if odd a \<and> odd b then 1 else 0)"
  proof -
    have "a AND b AND 1 = (if odd a \<and> odd b then 1 else 0)"
      by (cases "odd b"; cases "odd a")
        (simp_all add: and_one_eq odd_iff_mod_2_eq_one even_iff_mod_2_eq_zero)
    then show ?thesis
      using assms by (simp add: bnd_add_def and_m2)
  qed
  moreover have "even (2 * (a div 2) + 2 * (b div 2))" by simp
  ultimately have "bnd_add a b = 2 * (a div 2) + 2 * (b div 2) + (if odd a \<and> odd b then 1 else 0)"
    by (simp add: or_one_eq)
  then show ?thesis by (auto elim!: evenE oddE)
qed

section \<open>What a bound means\<close>

text \<open>
  \<open>bnd_sat x b\<close>: the real number \<open>x\<close> lies below the bound \<open>b\<close>, read as an upper bound.
  A CDD edge with lower bound \<open>l\<close> and upper bound \<open>u\<close> covers the \<open>x\<close> that satisfy \<open>u\<close> and
  do not satisfy \<open>l\<close>.
\<close>

definition bnd_sat :: "real \<Rightarrow> raw_t \<Rightarrow> bool" where
  "bnd_sat x b =
     (if b \<ge> bnd_INF then True
      else if b \<le> - bnd_INF then False
      else if b mod 2 = 1 then x \<le> of_int (b div 2)
      else x < of_int (b div 2))"

lemma bnd_sat_INF [simp]: "bnd_sat x bnd_INF" "\<not> bnd_sat x (- bnd_INF)"
  by (simp_all add: bnd_sat_def bnd_INF_def)

lemma bnd_sat_mono:
  assumes "a \<le> b" "bnd_sat x a"
  shows "bnd_sat x b"
proof -
  have "real_of_int (a div 2) \<le> of_int (b div 2)"
    using assms(1) by (simp add: zdiv_mono1)
  moreover have "a mod 2 = 1 \<Longrightarrow> b mod 2 \<noteq> 1 \<Longrightarrow> a div 2 + 1 \<le> b div 2"
    using assms(1) by presburger
  then have "a mod 2 = 1 \<Longrightarrow> b mod 2 \<noteq> 1 \<Longrightarrow> real_of_int (a div 2) + 1 \<le> of_int (b div 2)"
    by (metis of_int_add of_int_le_iff of_int_1)
  ultimately show ?thesis
    using assms by (auto simp: bnd_sat_def split: if_splits)
qed

lemma bnd_sat_upper:
  assumes "\<bar>k\<bar> < 2 ^ 30 - 1"
  shows "bnd_sat x (bnd_upper k strict) = (if strict then x < of_int k else x \<le> of_int k)"
proof -
  have "bnd_upper k strict = 2 * k + (if strict then 0 else 1)"
    by (simp add: bnd_upper_def push_bit_eq_mult or_one_eq)
  moreover have "(2 * k + 1) div 2 = k" "(2 * k + 1) mod 2 = 1" by presburger+
  ultimately show ?thesis using assms
    by (auto simp: bnd_sat_def bnd_INF_def abs_less_iff)
qed

lemma bnd_sat_lower:
  assumes "\<bar>k\<bar> < 2 ^ 30 - 1"
  shows "\<not> bnd_sat x (bnd_lower k strict) \<longleftrightarrow> (if strict then of_int k < x else of_int k \<le> x)"
proof -
  have "bnd_lower k strict = 2 * k + (if strict then 1 else 0)"
    by (simp add: bnd_lower_def push_bit_eq_mult or_one_eq)
  moreover have "(2 * k + 1) div 2 = k" "(2 * k + 1) mod 2 = 1" by presburger+
  ultimately show ?thesis using assms
    by (auto simp: bnd_sat_def bnd_INF_def abs_less_iff)
qed

section \<open>Flipping and adding bounds\<close>

lemma bnd_u2l_l2u: "b \<noteq> - bnd_INF \<Longrightarrow> b \<noteq> 1 - bnd_INF \<Longrightarrow> bnd_u2l (bnd_l2u b) = b"
  by (simp add: bnd_l2u_eq bnd_u2l_eq)

lemma bnd_u2l_l2u_INF: "bnd_u2l (bnd_l2u (- bnd_INF)) = - bnd_INF"
  by (simp add: bnd_u2l_def bnd_l2u_def)

lemma half_neg: "b mod 2 = 1 \<Longrightarrow> (1 - b) div 2 = - (b div 2)" for b :: int
  by presburger

lemma half_neg_even: "b mod 2 \<noteq> 1 \<Longrightarrow> (1 - b) div 2 = - (b div 2)" for b :: int
  by presburger

lemma mod2_flip: "(1 - b) mod 2 = 1 \<longleftrightarrow> b mod 2 \<noteq> 1" for b :: int
  by presburger

lemma bnd_sat_l2u:
  assumes "- bnd_INF \<le> b" "b < bnd_INF" "b \<noteq> 1 - bnd_INF"
  shows "bnd_sat (- x) (bnd_l2u b) \<longleftrightarrow> \<not> bnd_sat x b"
proof (cases "b = - bnd_INF")
  case True
  then show ?thesis by (simp add: bnd_l2u_def)
next
  case False
  have "bnd_INF > 0" by (simp add: bnd_INF_def)
  with assms False have r: "- bnd_INF < b" "\<not> bnd_INF \<le> b" "\<not> bnd_INF \<le> 1 - b" "\<not> 1 - b \<le> - bnd_INF"
    by (auto simp: bnd_INF_def)
  show ?thesis
  proof (cases "b mod 2 = 1")
    case odd: True
    then have "(1 - b) mod 2 \<noteq> 1" using mod2_flip [of b] by blast
    with odd r show ?thesis
      by (simp add: bnd_l2u_eq [OF False] bnd_sat_def half_neg not_le)
  next
    case ev: False
    then have "(1 - b) mod 2 = 1" using mod2_flip [of b] by blast
    with ev r show ?thesis
      by (simp add: bnd_l2u_eq [OF False] bnd_sat_def half_neg_even not_less)
  qed
qed

lemma bnd_sat_u2l:
  assumes "- bnd_INF < b" "b \<le> bnd_INF" "b \<noteq> 1 - bnd_INF"
  shows "bnd_sat (- x) (bnd_u2l b) \<longleftrightarrow> \<not> bnd_sat x b"
proof (cases "b = bnd_INF")
  case True
  then show ?thesis by (simp add: bnd_u2l_def)
next
  case False
  then have "bnd_u2l b = bnd_l2u b"
    using assms by (simp add: bnd_u2l_eq bnd_l2u_eq)
  with assms False bnd_sat_l2u [of b x] show ?thesis by simp
qed

lemma bnd_add_sound:
  assumes "bnd_sat x a" "bnd_sat y b" "- bnd_INF < a + b - 1" "a \<le> bnd_INF" "b \<le> bnd_INF"
  shows "bnd_sat (x + y) (bnd_add a b)"
proof (cases "a = bnd_INF \<or> b = bnd_INF")
  case True
  then show ?thesis by (auto simp: bnd_add_def)
next
  case False
  have fin: "\<not> a \<le> - bnd_INF" "\<not> b \<le> - bnd_INF" "\<not> bnd_INF \<le> a" "\<not> bnd_INF \<le> b"
    using assms False by (auto simp: bnd_sat_def split: if_splits)
  define c where "c = bnd_add a b"
  have c: "c = a + b - (if odd a \<or> odd b then 1 else 0)"
    using False unfolding c_def by (intro bnd_add_eq) auto
  have cd: "real_of_int (c div 2) = of_int (a div 2) + of_int (b div 2)"
  proof -
    have "c div 2 = a div 2 + b div 2"
      unfolding c by (auto elim!: evenE oddE)
    then show ?thesis by simp
  qed
  have cm: "c mod 2 = 1 \<longleftrightarrow> a mod 2 = 1 \<and> b mod 2 = 1"
    unfolding c by (auto simp: odd_iff_mod_2_eq_one; presburger)
  have "\<not> c \<le> - bnd_INF" using assms(3) unfolding c by auto
  then show ?thesis
    using assms(1,2) fin cm
    unfolding c_def [symmetric] bnd_sat_def cd by (auto split: if_splits)
qed

end
