(* ===== verification/Op_Cache.thy ===== *)
theory Op_Cache
  imports Bounds
begin

text \<open>
  The operation caches (\<^verbatim>\<open>src/cache.h\<close>, \<^verbatim>\<open>src/cache.c\<close>, \<^verbatim>\<open>src/relax.h\<close>, \<^verbatim>\<open>src/relax.c\<close>):
  direct-mapped tables whose entries hold node pointers without owning references.  The
  garbage collector flushes them before it frees nodes.  The interface \<open>node_cache\<close> says
  what the operators need of a cache: flushing invents no entry and leaves only entries
  all of whose nodes are referenced.  Both caches provide it.
\<close>

section \<open>CddCache\<close>

record cache_data =
  c_res :: ptr
  c_a :: ptr
  c_b :: ptr
  c_c :: int

record cddcache =
  cache_table :: "cache_data list"
  cache_tablesize :: nat

text \<open>
  \<open>malloc\<close> cannot return a block of \<open>2 ^ 32\<close> bytes or more in a 32-bit address space; smaller
  requests are taken to succeed.  \<open>sizeof(CddCacheData)\<close> is 16.  The result and operation of
  a fresh entry are indeterminate in C; no code reads them while \<open>a\<close> is NULL, and the model
  takes 0.
\<close>

definition malloc_ok :: "nat \<Rightarrow> bool" where
  "malloc_ok bytes \<longleftrightarrow> bytes < 2 ^ 32"

definition CDD_MEMORY :: int where
  "CDD_MEMORY = - 1"

definition CddCache_init :: "nat \<Rightarrow> int \<times> cddcache" where
  "CddCache_init sz =
     (if malloc_ok (16 * sz)
      then (0, \<lparr>cache_table = replicate sz \<lparr>c_res = 0, c_a = 0, c_b = 0, c_c = 0\<rparr>, cache_tablesize = sz\<rparr>)
      else (CDD_MEMORY, \<lparr>cache_table = [], cache_tablesize = 0\<rparr>))"

definition CddCache_done :: "cddcache \<Rightarrow> cddcache" where
  "CddCache_done c = c\<lparr>cache_table := [], cache_tablesize := 0\<rparr>"

definition CddCache_reset :: "cddcache \<Rightarrow> cddcache" where
  "CddCache_reset c =
     c\<lparr>cache_table := map (\<lambda>_. \<lparr>c_res = 0, c_a = 0, c_b = 0, c_c = 0\<rparr>) (cache_table c)\<rparr>"

text \<open>
  The test of \<^verbatim>\<open>CddCache_flush\<close>, with C's short-circuit evaluation; \<open>refof\<close> reads the
  reference count of the node at an address (None: there is no node there).
\<close>

definition flush_entry :: "(ptr \<Rightarrow> nat option) \<Rightarrow> cache_data \<Rightarrow> cache_data option" where
  "flush_entry refof n =
     (if c_a n = 0 then Some n
      else case refof (cdd_rglr (c_a n)) of None \<Rightarrow> None | Some ra \<Rightarrow>
        if ra = 0 then Some (n\<lparr>c_a := 0, c_b := 0\<rparr>)
        else case refof (cdd_rglr (c_res n)) of None \<Rightarrow> None | Some rr \<Rightarrow>
          if rr = 0 then Some (n\<lparr>c_a := 0, c_b := 0\<rparr>)
          else if c_b n = 0 then Some n
          else case refof (cdd_rglr (c_b n)) of None \<Rightarrow> None | Some rb \<Rightarrow>
            if rb = 0 then Some (n\<lparr>c_a := 0, c_b := 0\<rparr>) else Some n)"

definition CddCache_flush :: "(ptr \<Rightarrow> nat option) \<Rightarrow> cddcache \<Rightarrow> cddcache option" where
  "CddCache_flush refof c =
     map_option (\<lambda>t. c\<lparr>cache_table := t\<rparr>) (those (map (flush_entry refof) (cache_table c)))"

text \<open>\<open>CddCache_lookup\<close> gives the position of an entry; the division is undefined for an empty table.\<close>

definition CddCache_lookup :: "cddcache \<Rightarrow> nat \<Rightarrow> nat option" where
  "CddCache_lookup c hash = (if cache_tablesize c = 0 then None else Some (hash mod cache_tablesize c))"

section \<open>CddRelaxCache\<close>

record relax_data =
  x_res :: ptr
  x_node :: ptr
  x_lower :: raw_t
  x_upper :: raw_t
  x_clock1 :: int
  x_clock2 :: int
  x_op :: int

record relaxcache =
  relax_table :: "relax_data list"
  relax_tablesize :: nat

definition relax_zero :: relax_data where
  "relax_zero = \<lparr>x_res = 0, x_node = 0, x_lower = 0, x_upper = 0, x_clock1 = 0, x_clock2 = 0, x_op = 0\<rparr>"

text \<open>\<open>sizeof(CddRelaxCacheData)\<close> is 28.\<close>

definition CddRelaxCache_init :: "nat \<Rightarrow> int \<times> relaxcache" where
  "CddRelaxCache_init sz =
     (if malloc_ok (28 * sz)
      then (0, \<lparr>relax_table = replicate sz relax_zero, relax_tablesize = sz\<rparr>)
      else (CDD_MEMORY, \<lparr>relax_table = [], relax_tablesize = 0\<rparr>))"

definition CddRelaxCache_done :: "relaxcache \<Rightarrow> relaxcache" where
  "CddRelaxCache_done c = c\<lparr>relax_table := [], relax_tablesize := 0\<rparr>"

definition CddRelaxCache_reset :: "relaxcache \<Rightarrow> relaxcache" where
  "CddRelaxCache_reset c = c\<lparr>relax_table := map (\<lambda>_. relax_zero) (relax_table c)\<rparr>"

section \<open>The interface\<close>

text \<open>
  \<open>purge\<close> is what \<^verbatim>\<open>cdd_operator_flush\<close> does to the cache before nodes are freed.
\<close>

locale node_cache =
  fixes entries :: "'c \<Rightarrow> 'e list"
    and live :: "'e \<Rightarrow> bool"
    and ptrs :: "'e \<Rightarrow> ptr list"
    and purge :: "(ptr \<Rightarrow> nat option) \<Rightarrow> 'c \<Rightarrow> 'c option"
    and reset :: "'c \<Rightarrow> 'c"
  assumes purge_sound: "purge r c = Some d \<Longrightarrow> e \<in> set (entries d) \<Longrightarrow> live e \<Longrightarrow>
      e \<in> set (entries c) \<and> (\<forall>p \<in> set (ptrs e). \<exists>n. r (cdd_rglr p) = Some n \<and> n \<noteq> 0)"
    and purge_total: "(\<And>e p. e \<in> set (entries c) \<Longrightarrow> live e \<Longrightarrow> p \<in> set (ptrs e) \<Longrightarrow> r (cdd_rglr p) \<noteq> None)
      \<Longrightarrow> \<exists>d. purge r c = Some d"
    and reset_dead: "e \<in> set (entries (reset c)) \<Longrightarrow> \<not> live e"
begin

definition all_live :: "('e \<Rightarrow> bool) \<Rightarrow> 'c \<Rightarrow> bool" where
  "all_live P c \<longleftrightarrow> (\<forall>e \<in> set (entries c). live e \<longrightarrow> P e)"

lemma all_live_purge:
  assumes "all_live P c" "purge r c = Some d"
  shows "all_live (\<lambda>e. P e \<and> (\<forall>p \<in> set (ptrs e). \<exists>n. r (cdd_rglr p) = Some n \<and> n \<noteq> 0)) d"
  using assms purge_sound unfolding all_live_def by blast

lemma all_live_reset: "all_live P (reset c)"
  using reset_dead unfolding all_live_def by blast

lemma purge_returns:
  assumes "all_live (\<lambda>e. \<forall>p \<in> set (ptrs e). r (cdd_rglr p) \<noteq> None) c"
  obtains d where "purge r c = Some d"
  using assms purge_total [of c r] unfolding all_live_def by blast

end

definition cache_live :: "cache_data \<Rightarrow> bool" where
  "cache_live e \<longleftrightarrow> c_a e \<noteq> 0"

definition cache_ptrs :: "cache_data \<Rightarrow> ptr list" where
  "cache_ptrs e = [c_a e, c_res e] @ (if c_b e = 0 then [] else [c_b e])"

definition relax_live :: "relax_data \<Rightarrow> bool" where
  "relax_live e \<longleftrightarrow> x_node e \<noteq> 0"

definition relax_ptrs :: "relax_data \<Rightarrow> ptr list" where
  "relax_ptrs e = [x_node e, x_res e]"

lemma those_SomeD: "those xs = Some ys \<Longrightarrow> xs = map Some ys"
  by (induction xs arbitrary: ys) (auto split: option.splits)

lemma those_total: "(\<And>x. x \<in> set xs \<Longrightarrow> x \<noteq> None) \<Longrightarrow> \<exists>ys. those xs = Some ys"
  by (induction xs) (auto split: option.splits)

lemma flush_entry_live:
  assumes "flush_entry r n = Some e" "cache_live e"
  shows "e = n \<and> (\<forall>p \<in> set (cache_ptrs e). \<exists>k. r (cdd_rglr p) = Some k \<and> k \<noteq> 0)"
  using assms
  by (auto simp: flush_entry_def cache_live_def cache_ptrs_def split: if_splits option.splits)

lemma flush_entry_total:
  assumes "cache_live n \<Longrightarrow> (\<forall>p \<in> set (cache_ptrs n). r (cdd_rglr p) \<noteq> None)"
  shows "\<exists>e. flush_entry r n = Some e"
proof (cases "c_a n = 0")
  case True
  then show ?thesis by (simp add: flush_entry_def)
next
  case False
  with assms show ?thesis
    by (auto simp: flush_entry_def cache_live_def cache_ptrs_def split: if_splits option.splits)
qed

lemma length_flush [simp]:
  "CddCache_flush r c = Some d \<Longrightarrow> length (cache_table d) = length (cache_table c)"
  by (auto simp: CddCache_flush_def dest!: those_SomeD arg_cong [where f = length])

lemma tablesize_flush [simp]:
  "CddCache_flush r c = Some d \<Longrightarrow> cache_tablesize d = cache_tablesize c"
  by (auto simp: CddCache_flush_def)

interpretation opcache: node_cache cache_table cache_live cache_ptrs CddCache_flush CddCache_reset
proof (unfold_locales, goal_cases)
  case (1 r c d e)
  from 1(1) obtain t where t: "those (map (flush_entry r) (cache_table c)) = Some t" "d = c\<lparr>cache_table := t\<rparr>"
    by (auto simp: CddCache_flush_def)
  from t(1) have m: "map (flush_entry r) (cache_table c) = map Some t"
    by (rule those_SomeD)
  from 1(2) t(2) have "Some e \<in> set (map Some t)" by simp
  then obtain n where "n \<in> set (cache_table c)" "flush_entry r n = Some e"
    unfolding m [symmetric] by auto
  with 1(3) show ?case using flush_entry_live by blast
next
  case (2 c r)
  have "x \<in> set (map (flush_entry r) (cache_table c)) \<Longrightarrow> x \<noteq> None" for x
    using flush_entry_total [of _ r] 2 by fastforce
  then obtain ys where "those (map (flush_entry r) (cache_table c)) = Some ys"
    using those_total by blast
  then show ?case by (simp add: CddCache_flush_def)
next
  case (3 e c)
  then show ?case by (auto simp: CddCache_reset_def cache_live_def)
qed

interpretation relaxc: node_cache relax_table relax_live relax_ptrs
  "\<lambda>_ c. Some (CddRelaxCache_reset c)" CddRelaxCache_reset
  by unfold_locales (auto simp: CddRelaxCache_reset_def relax_live_def relax_zero_def)

end
