(* ===== verification/External.thy ===== *)
theory External
  imports Bounds
begin

text \<open>
  The functions of the libraries UDBM and UUtils that the code calls.  They are not part of
  the repository, so the model takes them as parameters: a record of functions, passed to
  the definitions that use them.  A DBM is an array of \<open>dim * dim\<close> bounds, and a bit set an
  array of 32-bit words; C updates both in place, here the new array is returned.
\<close>

text \<open>\<open>constraint_t\<close>: the bound \<open>value\<close> on the difference of the clocks \<open>i\<close> and \<open>j\<close>.\<close>

record constraint_t =
  con_i :: nat
  con_j :: nat
  con_value :: raw_t

text \<open>\<open>fed_t\<close>, a federation: the zones that iterating over it yields.\<close>

type_synonym fed_t = "raw_t list list"

record extlib =
  dbm_LS_INFINITY :: raw_t
  dbm_raw2bound :: "raw_t \<Rightarrow> int"
  dbm_rawIsStrict :: "raw_t \<Rightarrow> int"
  dbm_rawIsWeak :: "raw_t \<Rightarrow> int"
  base_resetBits :: "32 word list \<Rightarrow> nat \<Rightarrow> 32 word list"
  base_getOneBit :: "32 word list \<Rightarrow> nat \<Rightarrow> bool"
  base_readOneBit :: "32 word list \<Rightarrow> nat \<Rightarrow> bool"
  base_setOneBit :: "32 word list \<Rightarrow> nat \<Rightarrow> 32 word list"
  base_toggleOneBit :: "32 word list \<Rightarrow> nat \<Rightarrow> 32 word list"
  bits2intsize :: "nat \<Rightarrow> nat"
  dbm_init :: "nat \<Rightarrow> raw_t list"
  dbm_isValid :: "raw_t list \<Rightarrow> nat \<Rightarrow> bool"
  dbm_constrainN :: "raw_t list \<Rightarrow> nat \<Rightarrow> constraint_t list \<Rightarrow> bool \<times> raw_t list"
  dbm_constrain :: "raw_t list \<Rightarrow> nat \<Rightarrow> nat \<Rightarrow> nat \<Rightarrow> raw_t \<Rightarrow> 32 word list \<Rightarrow> raw_t list \<times> 32 word list"
  dbm_closex :: "raw_t list \<Rightarrow> nat \<Rightarrow> 32 word list \<Rightarrow> raw_t list"
  dbm_analyzeForMinDBM :: "raw_t list \<Rightarrow> nat \<Rightarrow> 32 word list"
  dbm_up :: "raw_t list \<Rightarrow> nat \<Rightarrow> raw_t list"
  dbm_down :: "raw_t list \<Rightarrow> nat \<Rightarrow> raw_t list"
  dbm_updateValue :: "raw_t list \<Rightarrow> nat \<Rightarrow> int \<Rightarrow> int \<Rightarrow> raw_t list"
  dbm_freeClock :: "raw_t list \<Rightarrow> nat \<Rightarrow> int \<Rightarrow> raw_t list"
  fed_of_dbm :: "raw_t list \<Rightarrow> nat \<Rightarrow> fed_t"
  fed_new :: "nat \<Rightarrow> fed_t"
  fed_add :: "fed_t \<Rightarrow> raw_t list \<Rightarrow> nat \<Rightarrow> fed_t"
  fed_isEmpty :: "fed_t \<Rightarrow> bool"
  fed_predt :: "fed_t \<Rightarrow> fed_t \<Rightarrow> fed_t"

text \<open>
  What the code relies on, as the libraries document it: the encoding of bounds is the one
  of \<^verbatim>\<open>include/cdd/kernel.h\<close>, and bits that are set can be read back.
\<close>

definition bounds_lib :: "extlib \<Rightarrow> bool" where
  "bounds_lib lib \<longleftrightarrow> dbm_LS_INFINITY lib = bnd_INF \<and>
     (\<forall>b. dbm_raw2bound lib b = bnd_get_limit b) \<and>
     (\<forall>b. dbm_rawIsStrict lib b = (if bnd_is_upper_strict b then 1 else 0))"

definition bits_lib :: "extlib \<Rightarrow> bool" where
  "bits_lib lib \<longleftrightarrow>
     (\<forall>bs k. base_getOneBit lib bs k = base_readOneBit lib bs k) \<and>
     (\<forall>bs n k. k < n \<longrightarrow> \<not> base_readOneBit lib (base_resetBits lib bs (bits2intsize lib n)) k) \<and>
     (\<forall>bs n k. base_readOneBit lib (base_setOneBit lib bs n) k = (k = n \<or> base_readOneBit lib bs k)) \<and>
     (\<forall>bs n k. base_readOneBit lib (base_toggleOneBit lib bs n) k = ((k = n) \<noteq> base_readOneBit lib bs k))"

end
