(* ===== verification/Kernel_State.thy ===== *)
theory Kernel_State
  imports Op_Cache External
begin

text \<open>
  The state of the library: nodes, chunks, subtables, node managers, levels and the global
  variables of \<^verbatim>\<open>src/kernel.c\<close> and \<^verbatim>\<open>src/cddop.c\<close>, with the accessor macros of
  \<^verbatim>\<open>include/cdd/kernel.h\<close>.  Memory is a map from addresses to nodes; an address without a
  node (never allocated, or on a free list) cannot be read or written: doing so is the
  fault \<open>Segv\<close>.  The lists that C threads through the nodes' \<open>next\<close> fields (hash chains,
  free lists, chunk lists) are lists of addresses here.
\<close>

section \<open>Constants\<close>

definition MAXREF :: nat where
  "MAXREF = 0x3FF"

definition MAXLEVEL :: nat where
  "MAXLEVEL = 2 ^ 20 - 1"

definition HASH_DENSITY :: int where
  "HASH_DENSITY = 4"

definition THRESHOLD :: int where
  "THRESHOLD = 5"

definition MINFREE :: int where
  "MINFREE = 20"

definition CHUNKSIZE :: nat where
  "CHUNKSIZE = 0x10000"

definition CDD_DEREF :: int where
  "CDD_DEREF = - 4"

definition CDD_RUNNING :: int where
  "CDD_RUNNING = - 5"

definition CDD_ILLCDD :: int where
  "CDD_ILLCDD = - 18"

definition CDD_MAXSIZE :: int where
  "CDD_MAXSIZE = - 21"

definition DD_P1 :: "32 word" where
  "DD_P1 = 12582917"

definition DD_P2 :: "32 word" where
  "DD_P2 = 4256249"

section \<open>Nodes\<close>

record elem =
  e_child :: ptr
  e_bnd :: raw_t

text \<open>
  \<open>Term\<close> is the terminal \<^verbatim>\<open>cdd_terminal\<close>, \<open>XTerm\<close> an extra terminal (\<^verbatim>\<open>MULTI_TERMINAL\<close>); in C
  both are recognised by their level.
\<close>

datatype body = Term | XTerm int | Bdd ptr ptr | Cdd "elem list"

text \<open>\<open>n_level\<close>, \<open>n_ref\<close> and \<open>n_flag\<close> are bit fields of 20, 10 and 2 bits.\<close>

record ddnode =
  n_level :: nat
  n_ref :: nat
  n_flag :: nat
  n_body :: body

datatype node_type = TYPE_CDD | TYPE_BDD

record LevelInfo =
  li_type :: node_type
  li_clock1 :: nat
  li_clock2 :: nat
  li_diff :: nat

section \<open>Node managers\<close>

text \<open>The managers are named by their variable: \<^verbatim>\<open>bddmanager\<close> or \<^verbatim>\<open>cddmanager[n]\<close>.\<close>

datatype mid = BddMan | CddMan nat

text \<open>\<^verbatim>\<open>buckets\<close> is the length of \<open>t_hash\<close>.\<close>

record subtable =
  t_level :: nat
  t_deadcnt :: int
  t_keys :: int
  t_maxkeys :: int
  t_shift :: nat
  t_hash :: "ptr list list"

definition t_buckets :: "subtable \<Rightarrow> nat" where
  "t_buckets t = length (t_hash t)"

record nodemanager =
  m_nodesize :: nat
  m_freecnt :: int
  m_chunkcnt :: int
  m_alloccnt :: int
  m_deadcnt :: int
  m_usedcnt :: int
  m_gbccnt :: int
  m_free :: "ptr list"
  m_nodes :: "ptr list"
  m_sentinel :: ptr
  m_subtables :: "subtable option list"

section \<open>The environment\<close>

text \<open>
  Code outside the repository that the kernel calls: \<^verbatim>\<open>hash_computeU32\<close> of the UTAP/UUtils
  library, and the operating system's \<^verbatim>\<open>memalign\<close> and \<^verbatim>\<open>malloc\<close>.  \<open>env_chunk i\<close> and
  \<open>env_xterm i\<close> are the results of the \<open>i\<close>-th request for a chunk and for an extra
  terminal; 0 is a refused request.  \<open>env_lib\<close> holds the functions of UDBM and UUtils that the
  operators call.
\<close>

record environment =
  env_lib :: extlib
  env_hash :: "32 word list \<Rightarrow> 32 word \<Rightarrow> 32 word"
  env_chunk :: "nat \<Rightarrow> ptr"
  env_xterm :: "nat \<Rightarrow> ptr"

section \<open>The global state\<close>

text \<open>
  The hooks are user functions; the state records whether one is installed, and they are
  taken not to touch the library.  \<open>chunk_man\<close> is the \<^verbatim>\<open>man\<close> field of the chunk header at a
  chunk's address, \<open>os_chunks\<close> the number of chunks requested from the operating system so far.
  \<open>cell_flag\<close> gives the two flag bits that lie in a memory cell without a node: no code
  initialises them, neither for a new chunk nor when a cell is used again.
  \<open>stderr\<close> collects the error codes printed, the last one first.  \<open>cdd_refstack\<close> is the part of the stack below \<^verbatim>\<open>cdd_refstacktop\<close>.
\<close>

record kstate =
  env :: environment
  nodes :: "ptr \<Rightarrow> ddnode option"
  cell_flag :: "ptr \<Rightarrow> nat"
  chunk_man :: "ptr \<Rightarrow> mid option"
  os_chunks :: nat
  bddmanager :: "nodemanager option"
  cddmanager :: "nodemanager option list"
  cdd_levelcnt :: nat
  cdd_gbccnt :: int
  cdd_rehashcnt :: int
  cdd_maxcddsize :: nat
  cdd_maxcddused :: nat
  cdd_chunkcnt :: int
  bdd_start_level :: nat
  cdd_clocknum :: nat
  cdd_varnum :: nat
  cdd_levelinfo :: "LevelInfo list"
  cdd_diff2level :: "nat list"
  cdd_running :: bool
  cdd_errorcond :: int
  cdd_refstack :: "elem list"
  cdd_refstacksize :: nat
  pregbc_handler :: bool
  postgbc_handler :: bool
  prerehash_handler :: bool
  postrehash_handler :: bool
  extra_terminals :: "ptr list"
  applycache :: cddcache
  quantcache :: cddcache
  replacecache :: cddcache
  relaxcache :: relaxcache
  applyop :: int
  opid :: int
  stderr :: "int list"

text \<open>
  \<^verbatim>\<open>cddfalse\<close> is the address of the static variable \<^verbatim>\<open>cdd_terminal\<close>, a fixed address below
  every chunk.
\<close>

definition cddfalse :: ptr where
  "cddfalse = 16"

definition cddtrue :: ptr where
  "cddtrue = cdd_neg cddfalse"

type_synonym 'a K = "(kstate, 'a) M"

section \<open>Access to nodes\<close>

definition get_node :: "ptr \<Rightarrow> ddnode K" where
  "get_node p s = someM Segv (nodes s (cdd_rglr p)) s"

definition set_node :: "ptr \<Rightarrow> ddnode \<Rightarrow> kstate \<Rightarrow> kstate" where
  "set_node p n s = s\<lparr>nodes := (nodes s)(cdd_rglr p \<mapsto> n)\<rparr>"

definition upd_node :: "ptr \<Rightarrow> (ddnode \<Rightarrow> ddnode) \<Rightarrow> unit K" where
  "upd_node p f = bindM (get_node p) (\<lambda>n. modifyM (set_node p (f n)))"

text \<open>
  Counters of 10 bits: the increment stays in range because it stops at \<open>MAXREF\<close>, the
  decrement of 0 wraps around to \<open>MAXREF\<close>.
\<close>

definition cdd_satinc :: "nat \<Rightarrow> nat" where
  "cdd_satinc r = r + (if r \<noteq> MAXREF then 1 else 0)"

definition cdd_satdec :: "nat \<Rightarrow> nat" where
  "cdd_satdec r = (if r = MAXREF then r else if r = 0 then MAXREF else r - 1)"

definition cdd_ref :: "ptr \<Rightarrow> unit K" where
  "cdd_ref p = upd_node p (\<lambda>n. n\<lparr>n_ref := cdd_satinc (n_ref n)\<rparr>)"

definition cdd_deref :: "ptr \<Rightarrow> unit K" where
  "cdd_deref p = upd_node p (\<lambda>n. n\<lparr>n_ref := cdd_satdec (n_ref n)\<rparr>)"

definition MARKON :: nat where
  "MARKON = 1"

definition MARKOFF :: nat where
  "MARKOFF = 2"

definition cdd_setmark :: "ptr \<Rightarrow> unit K" where
  "cdd_setmark p = upd_node p (\<lambda>n. n\<lparr>n_flag := n_flag n OR MARKON\<rparr>)"

definition cdd_resetmark :: "ptr \<Rightarrow> unit K" where
  "cdd_resetmark p = upd_node p (\<lambda>n. n\<lparr>n_flag := n_flag n AND MARKOFF\<rparr>)"

definition cdd_ismarked :: "ptr \<Rightarrow> bool K" where
  "cdd_ismarked p = bindM (get_node p) (\<lambda>n. ret (n_flag n AND MARKON \<noteq> 0))"

definition cdd_isterminal :: "ptr \<Rightarrow> bool K" where
  "cdd_isterminal p = bindM (get_node p) (\<lambda>n. ret (n_level n = MAXLEVEL))"

definition cdd_is_tfterminal :: "ptr \<Rightarrow> bool" where
  "cdd_is_tfterminal p \<longleftrightarrow> cdd_rglr p = cddfalse"

definition cdd_is_extra_terminal :: "ptr \<Rightarrow> bool K" where
  "cdd_is_extra_terminal p = (if cdd_rglr p \<noteq> cddfalse then cdd_isterminal p else ret False)"

definition level_of :: "ptr \<Rightarrow> nat K" where
  "level_of p = bindM (get_node p) (\<lambda>n. ret (n_level n))"

text \<open>\<^verbatim>\<open>cdd_info(node)\<close>; an index past the level table is a fault.\<close>

definition levelinfo_at :: "nat \<Rightarrow> LevelInfo K" where
  "levelinfo_at k s =
     (if k < length (cdd_levelinfo s) then Inr (cdd_levelinfo s ! k, s) else Inl Segv)"

definition cdd_info :: "ptr \<Rightarrow> LevelInfo K" where
  "cdd_info p = bindM (level_of p) levelinfo_at"

definition bdd_node :: "ptr \<Rightarrow> (ptr \<times> ptr) K" where
  "bdd_node p = bindM (get_node p)
     (\<lambda>n. case n_body n of Bdd lo hi \<Rightarrow> ret (lo, hi) | _ \<Rightarrow> fail Segv)"

definition bdd_low :: "ptr \<Rightarrow> ptr K" where
  "bdd_low p = bindM (bdd_node p) (\<lambda>(lo, hi). ret (cdd_neg_cond lo (cdd_mask p)))"

definition bdd_high :: "ptr \<Rightarrow> ptr K" where
  "bdd_high p = bindM (bdd_node p) (\<lambda>(lo, hi). ret (cdd_neg_cond hi (cdd_mask p)))"

definition cdd_elems :: "ptr \<Rightarrow> elem list K" where
  "cdd_elems p = bindM (get_node p)
     (\<lambda>n. case n_body n of Cdd es \<Rightarrow> ret es | _ \<Rightarrow> fail Segv)"

text \<open>The position \<open>i\<close> of a node's element array; reading past the array is a fault.\<close>

definition elem_at :: "ptr \<Rightarrow> nat \<Rightarrow> elem K" where
  "elem_at p i = bindM (cdd_elems p)
     (\<lambda>es. if i < length es then ret (es ! i) else fail Segv)"

section \<open>Iterators over the children of a CDD node\<close>

text \<open>\<open>it_p\<close> is the element pointer: the node it points into and the index.\<close>

record cdd_iterator =
  it_low :: raw_t
  it_neg :: ptr
  it_node :: ptr
  it_p :: nat

definition cdd_it_init :: "ptr \<Rightarrow> cdd_iterator" where
  "cdd_it_init p = \<lparr>it_low = - bnd_INF, it_neg = cdd_mask p, it_node = cdd_rglr p, it_p = 0\<rparr>"

definition cdd_it_lower :: "cdd_iterator \<Rightarrow> raw_t" where
  "cdd_it_lower it = it_low it"

definition cdd_it_child :: "cdd_iterator \<Rightarrow> ptr K" where
  "cdd_it_child it = bindM (elem_at (it_node it) (it_p it))
     (\<lambda>e. ret (cdd_neg_cond (e_child e) (it_neg it)))"

definition cdd_it_upper :: "cdd_iterator \<Rightarrow> raw_t K" where
  "cdd_it_upper it = bindM (elem_at (it_node it) (it_p it)) (\<lambda>e. ret (e_bnd e))"

definition cdd_it_atend :: "cdd_iterator \<Rightarrow> bool" where
  "cdd_it_atend it \<longleftrightarrow> it_low it = bnd_INF"

definition cdd_it_next :: "cdd_iterator \<Rightarrow> cdd_iterator K" where
  "cdd_it_next it = bindM (cdd_it_upper it)
     (\<lambda>u. ret (it\<lparr>it_low := u, it_p := it_p it + 1\<rparr>))"

text \<open>
  A loop \<^verbatim>\<open>for (cdd_it_init(it, node); !cdd_it_atend(it); cdd_it_next(it))\<close> visits the elements
  \<open>it_run es (- bnd_INF)\<close>: up to and including the first one whose bound is \<^verbatim>\<open>INF\<close>.
  Without such a bound the loop reads past the array.
\<close>

fun it_run :: "elem list \<Rightarrow> raw_t \<Rightarrow> elem list option" where
  "it_run [] low = (if low = bnd_INF then Some [] else None)"
| "it_run (e # es) low =
     (if low = bnd_INF then Some [] else map_option (Cons e) (it_run es (e_bnd e)))"

definition cdd_it_children :: "ptr \<Rightarrow> ptr list K" where
  "cdd_it_children p = bindM (cdd_elems p) (\<lambda>es.
     bindM (someM Segv (it_run es (- bnd_INF))) (\<lambda>run.
     ret (map (\<lambda>e. cdd_neg_cond (e_child e) (cdd_mask p)) run)))"

section \<open>Access to managers and subtables\<close>

fun man_of :: "kstate \<Rightarrow> mid \<Rightarrow> nodemanager option" where
  "man_of s BddMan = bddmanager s"
| "man_of s (CddMan n) = (if n < length (cddmanager s) then cddmanager s ! n else None)"

fun put_man :: "mid \<Rightarrow> nodemanager \<Rightarrow> kstate \<Rightarrow> kstate" where
  "put_man BddMan m s = s\<lparr>bddmanager := Some m\<rparr>"
| "put_man (CddMan n) m s = s\<lparr>cddmanager := (cddmanager s)[n := Some m]\<rparr>"

definition get_man :: "mid \<Rightarrow> nodemanager K" where
  "get_man i s = someM Segv (man_of s i) s"

definition upd_man :: "mid \<Rightarrow> (nodemanager \<Rightarrow> nodemanager) \<Rightarrow> unit K" where
  "upd_man i f = bindM (get_man i) (\<lambda>m. modifyM (put_man i (f m)))"

definition table_of :: "nodemanager \<Rightarrow> nat \<Rightarrow> subtable option" where
  "table_of m k = (if k < length (m_subtables m) then m_subtables m ! k else None)"

text \<open>\<^verbatim>\<open>man->subtables[level]\<close>: an index past the array is a fault, a NULL entry is not.\<close>

definition get_subtable :: "mid \<Rightarrow> nat \<Rightarrow> subtable option K" where
  "get_subtable i k = bindM (get_man i)
     (\<lambda>m. if k < length (m_subtables m) then ret (m_subtables m ! k) else fail Segv)"

definition put_subtable :: "nat \<Rightarrow> subtable option \<Rightarrow> nodemanager \<Rightarrow> nodemanager" where
  "put_subtable k t m = m\<lparr>m_subtables := (m_subtables m)[k := t]\<rparr>"

definition upd_subtable :: "mid \<Rightarrow> nat \<Rightarrow> (subtable \<Rightarrow> subtable) \<Rightarrow> unit K" where
  "upd_subtable i k f = bindM (get_subtable i k)
     (\<lambda>t. case t of None \<Rightarrow> fail Segv | Some t \<Rightarrow> upd_man i (put_subtable k (Some (f t))))"

text \<open>\<^verbatim>\<open>cdd_node2chunk(node)->man\<close>.\<close>

definition cdd_node2chunk :: "ptr \<Rightarrow> ptr" where
  "cdd_node2chunk p = p AND NOT 0xFFFF"

definition node_man :: "ptr \<Rightarrow> mid K" where
  "node_man p s = someM Segv (chunk_man s (cdd_node2chunk p)) s"

definition cdd_error :: "int \<Rightarrow> int K" where
  "cdd_error e = thenM (modifyM (\<lambda>s. s\<lparr>stderr := e # stderr s\<rparr>)) (ret e)"

definition cdd_push :: "ptr \<Rightarrow> raw_t \<Rightarrow> unit K" where
  "cdd_push p b = modifyM (\<lambda>s. s\<lparr>cdd_refstack := cdd_refstack s @ [\<lparr>e_child = p, e_bnd = b\<rparr>]\<rparr>)"

end
