(* ===== verification/Kernel_Memory.thy ===== *)
theory Kernel_Memory
  imports Kernel_State
begin

text \<open>
  Memory management of \<^verbatim>\<open>src/kernel.c\<close>: chunks, node managers, subtables, reference
  counting with dead nodes, reclaiming, garbage collection and allocation of nodes.
  The work lists of \<^verbatim>\<open>cdd_rec_deref\<close> and \<^verbatim>\<open>cdd_reclaim\<close>, which C keeps above the top of
  the reference stack, are lists with the top first; both loops are total functions, by
  a measure on the number of nodes with (without) references.
\<close>

section \<open>Flushing and resetting the operation caches\<close>

definition ref_of :: "kstate \<Rightarrow> ptr \<Rightarrow> nat option" where
  "ref_of s p = map_option n_ref (nodes s p)"

definition cdd_operator_flush :: "unit K" where
  "cdd_operator_flush =
     bindM (gets (\<lambda>s. CddCache_flush (ref_of s) (applycache s))) (\<lambda>c.
     bindM (someM Segv c) (\<lambda>c.
     thenM (modifyM (\<lambda>s. s\<lparr>applycache := c\<rparr>)) (
     bindM (gets (\<lambda>s. CddCache_flush (ref_of s) (quantcache s))) (\<lambda>c.
     bindM (someM Segv c) (\<lambda>c.
     thenM (modifyM (\<lambda>s. s\<lparr>quantcache := c\<rparr>)) (
     bindM (gets (\<lambda>s. CddCache_flush (ref_of s) (replacecache s))) (\<lambda>c.
     bindM (someM Segv c) (\<lambda>c.
     thenM (modifyM (\<lambda>s. s\<lparr>replacecache := c\<rparr>))
     (modifyM (\<lambda>s. s\<lparr>relaxcache := CddRelaxCache_reset (relaxcache s)\<rparr>))))))))))"

definition cdd_operator_reset :: "unit K" where
  "cdd_operator_reset = modifyM (\<lambda>s.
     s\<lparr>applycache := CddCache_reset (applycache s),
       quantcache := CddCache_reset (quantcache s),
       replacecache := CddCache_reset (replacecache s),
       relaxcache := CddRelaxCache_reset (relaxcache s)\<rparr>)"

definition cdd_operator_done :: "unit K" where
  "cdd_operator_done = modifyM (\<lambda>s.
     s\<lparr>applycache := CddCache_done (applycache s),
       quantcache := CddCache_done (quantcache s),
       replacecache := CddCache_done (replacecache s),
       relaxcache := CddRelaxCache_done (relaxcache s)\<rparr>)"

definition cdd_operator_init :: "nat \<Rightarrow> int K" where
  "cdd_operator_init sz =
     (let (e, c) = CddCache_init sz in
      thenM (modifyM (\<lambda>s. s\<lparr>applycache := c\<rparr>))
        (if e < 0 then cdd_error CDD_MEMORY else
      thenM (modifyM (\<lambda>s. s\<lparr>quantcache := c\<rparr>))
        (if e < 0 then cdd_error CDD_MEMORY else
      thenM (modifyM (\<lambda>s. s\<lparr>replacecache := c\<rparr>))
        (if e < 0 then cdd_error CDD_MEMORY else
      (let (e, c) = CddRelaxCache_init sz in
      thenM (modifyM (\<lambda>s. s\<lparr>relaxcache := c\<rparr>))
        (if e < 0 then cdd_error CDD_MEMORY else ret 0))))))"

section \<open>Subtables, chunks and node managers\<close>

definition new_subtable :: "nat \<Rightarrow> subtable" where
  "new_subtable level =
     \<lparr>t_level = level, t_deadcnt = 0, t_keys = 0, t_maxkeys = 256 * HASH_DENSITY,
      t_shift = 32 - 8, t_hash = replicate 256 []\<rparr>"

definition cdd_alloc_subtable :: "mid \<Rightarrow> nat \<Rightarrow> subtable K" where
  "cdd_alloc_subtable i level =
     bindM (get_man i) (\<lambda>m.
     thenM (guardM Segv (level < length (m_subtables m)))
    (thenM (upd_man i (put_subtable level (Some (new_subtable level))))
           (ret (new_subtable level))))"

text \<open>
  \<^verbatim>\<open>cdd_alloc_chunk\<close>: the address comes from \<^verbatim>\<open>memalign\<close>, whose failure the code does not check;
  a chunk that cannot hold a single node makes the initialisation write below the chunk.
  \<open>sizeof(Chunk)\<close> is 8.
\<close>

definition chunk_nodes :: "nat \<Rightarrow> nat" where
  "chunk_nodes nodesize = (CHUNKSIZE - 8) div nodesize"

definition chunk_cells :: "ptr \<Rightarrow> nat \<Rightarrow> ptr list" where
  "chunk_cells chunk nodesize =
     map (\<lambda>k. chunk + 8 + of_nat (k * nodesize)) [0..<chunk_nodes nodesize]"

definition cdd_alloc_chunk :: "mid \<Rightarrow> unit K" where
  "cdd_alloc_chunk i =
     bindM (get_man i) (\<lambda>m.
     bindM (gets (\<lambda>s. env_chunk (env s) (os_chunks s))) (\<lambda>chunk.
     thenM (modifyM (\<lambda>s. s\<lparr>os_chunks := os_chunks s + 1\<rparr>)) (
     thenM (guardM NoMem (chunk \<noteq> 0)) (
     thenM (guardM Segv (0 < chunk_nodes (m_nodesize m))) (
     thenM (modifyM (\<lambda>s. s\<lparr>chunk_man := (chunk_man s)(chunk \<mapsto> i)\<rparr>)) (
     thenM (upd_man i (\<lambda>m. m\<lparr>
         m_nodes := chunk # m_nodes m,
         m_free := chunk_cells chunk (m_nodesize m) @ m_free m,
         m_freecnt := m_freecnt m + int (chunk_nodes (m_nodesize m)),
         m_chunkcnt := m_chunkcnt m + 1,
         m_alloccnt := m_alloccnt m + int (chunk_nodes (m_nodesize m))\<rparr>))
     (modifyM (\<lambda>s. s\<lparr>cdd_chunkcnt := cdd_chunkcnt s + 1\<rparr>))))))))"

section \<open>Recursive dereferencing\<close>

text \<open>
  One round of the loop of \<^verbatim>\<open>cdd_rec_deref\<close>: None when it returns with the error
  \<^verbatim>\<open>CDD_DEREF\<close>, otherwise the pointers it pushes, in the order pushed.
\<close>

definition bury :: "ptr \<Rightarrow> nat \<Rightarrow> unit K" where
  "bury p level =
     bindM (node_man p) (\<lambda>i.
     thenM (upd_man i (\<lambda>m. m\<lparr>m_usedcnt := m_usedcnt m - 1, m_deadcnt := m_deadcnt m + 1\<rparr>))
           (upd_subtable i level (\<lambda>t. t\<lparr>t_deadcnt := t_deadcnt t + 1\<rparr>)))"

definition pushed_children :: "ptr \<Rightarrow> ptr list K" where
  "pushed_children p =
     bindM (cdd_info p) (\<lambda>info.
     case li_type info of
       TYPE_BDD \<Rightarrow> bindM (bdd_node p) (\<lambda>(lo, hi). ret [lo, hi])
     | TYPE_CDD \<Rightarrow> cdd_it_children p)"

definition rec_deref_step :: "ptr \<Rightarrow> ptr list option K" where
  "rec_deref_step p =
     bindM (get_node p) (\<lambda>n.
     if n_ref n = 0 then thenM (cdd_error CDD_DEREF) (ret None)
     else thenM (cdd_deref p) (
     bindM (get_node p) (\<lambda>n.
     if n_ref n = 0 then
       thenM (bury p (n_level n)) (bindM (pushed_children p) (\<lambda>cs. ret (Some cs)))
     else ret (Some []))))"

text \<open>The memory footprint of the helpers, which the termination proofs need.\<close>

definition live_set :: "kstate \<Rightarrow> ptr set" where
  "live_set s = {p. \<exists>n. nodes s p = Some n \<and> n_ref n \<noteq> 0}"

definition dead_set :: "kstate \<Rightarrow> ptr set" where
  "dead_set s = {p. \<exists>n. nodes s p = Some n \<and> n_ref n = 0}"

lemma finite_ptrs [simp]: "finite (A :: ptr set)"
  by (rule finite_subset [OF subset_UNIV]) simp

lemma bindM_InrE:
  assumes "bindM m k s = Inr (x, t)"
  obtains y u where "m s = Inr (y, u)" "k y u = Inr (x, t)"
  using assms by (auto simp: bindM_def split: sum.splits)

lemma thenM_InrE:
  assumes "thenM m k s = Inr (x, t)"
  obtains y u where "m s = Inr (y, u)" "k u = Inr (x, t)"
  using assms by (auto simp: thenM_def elim: bindM_InrE)

lemma ret_Inr [simp]: "ret x s = Inr (y, t) \<longleftrightarrow> y = x \<and> t = s"
  by (auto simp: ret_def)

lemma fail_Inr [simp]: "\<not> fail f s = Inr y"
  by (simp add: fail_def)

lemma gets_Inr [simp]: "gets g s = Inr (y, t) \<longleftrightarrow> y = g s \<and> t = s"
  by (auto simp: gets_def)

lemma modifyM_Inr [simp]: "modifyM g s = Inr (y, t) \<longleftrightarrow> t = g s"
  by (auto simp: modifyM_def)

lemma guardM_Inr [simp]: "guardM f c s = Inr (y, t) \<longleftrightarrow> c \<and> t = s"
  by (auto simp: guardM_def)

lemma someM_Inr [simp]: "someM f x s = Inr (y, t) \<longleftrightarrow> x = Some y \<and> t = s"
  by (auto simp: someM_def split: option.splits)

lemma get_node_Inr [simp]: "get_node p s = Inr (n, t) \<longleftrightarrow> nodes s (cdd_rglr p) = Some n \<and> t = s"
  by (auto simp: get_node_def)

lemma nodes_put_man [simp]: "nodes (put_man i m s) = nodes s"
  by (cases i) simp_all

lemma nodes_upd_man: "upd_man i f s = Inr (x, t) \<Longrightarrow> nodes t = nodes s"
  by (auto simp: upd_man_def get_man_def elim!: bindM_InrE)

lemma nodes_get_subtable: "get_subtable i k s = Inr (x, t) \<Longrightarrow> t = s"
  by (auto simp: get_subtable_def get_man_def elim!: bindM_InrE split: if_splits)

lemma nodes_upd_subtable: "upd_subtable i k f s = Inr (x, t) \<Longrightarrow> nodes t = nodes s"
  by (auto simp: upd_subtable_def elim!: bindM_InrE split: option.splits
      dest!: nodes_get_subtable nodes_upd_man)

lemma nodes_bury: "bury p k s = Inr (x, t) \<Longrightarrow> nodes t = nodes s"
  by (auto simp: bury_def node_man_def elim!: bindM_InrE thenM_InrE
      dest!: nodes_upd_man nodes_upd_subtable)

lemma same_cdd_info: "cdd_info p s = Inr (x, t) \<Longrightarrow> t = s"
  by (auto simp: cdd_info_def level_of_def levelinfo_at_def elim!: bindM_InrE split: if_splits)

lemma same_bdd_node: "bdd_node p s = Inr (x, t) \<Longrightarrow> t = s"
  by (auto simp: bdd_node_def elim!: bindM_InrE split: body.splits)

lemma same_cdd_elems: "cdd_elems p s = Inr (x, t) \<Longrightarrow> t = s"
  by (auto simp: cdd_elems_def elim!: bindM_InrE split: body.splits)

lemma same_it_children: "cdd_it_children p s = Inr (x, t) \<Longrightarrow> t = s"
  by (auto simp: cdd_it_children_def elim!: bindM_InrE dest!: same_cdd_elems)

lemma same_pushed_children: "pushed_children p s = Inr (x, t) \<Longrightarrow> t = s"
  by (auto simp: pushed_children_def elim!: bindM_InrE split: node_type.splits
      dest!: same_cdd_info same_bdd_node same_it_children)

lemma upd_node_Inr:
  "upd_node p f s = Inr (x, t) \<longleftrightarrow>
     (\<exists>n. nodes s (cdd_rglr p) = Some n \<and> t = set_node p (f n) s)"
  by (auto simp: upd_node_def bindM_def get_node_def someM_def modifyM_def split: option.splits)

lemma nodes_set_node [simp]: "nodes (set_node p n s) = (nodes s)(cdd_rglr p \<mapsto> n)"
  by (simp add: set_node_def)

lemma rec_deref_step_live:
  assumes "rec_deref_step p s = Inr (Some cs, t)"
  shows "live_set t \<subset> live_set s \<or> live_set t = live_set s \<and> cs = []"
proof -
  from assms obtain n u m where n: "nodes s (cdd_rglr p) = Some n" "n_ref n \<noteq> 0"
    and u: "cdd_deref p s = Inr ((), u)" and m: "nodes u (cdd_rglr p) = Some m"
    and t: "if n_ref m = 0 then nodes t = nodes u else t = u \<and> cs = []"
    unfolding rec_deref_step_def
    by (force elim!: bindM_InrE thenM_InrE split: if_splits
        dest: nodes_bury same_pushed_children)
  from u n(1) have u': "nodes u = (nodes s)(cdd_rglr p \<mapsto> n\<lparr>n_ref := cdd_satdec (n_ref n)\<rparr>)"
    by (simp add: cdd_deref_def upd_node_Inr)
  show ?thesis
  proof (cases "n_ref m = 0")
    case True
    then have "live_set t = live_set s - {cdd_rglr p}"
      using t u' m by (auto simp: live_set_def split: if_splits)
    moreover have "cdd_rglr p \<in> live_set s" using n by (simp add: live_set_def)
    ultimately show ?thesis by auto
  next
    case False
    then have "live_set t = live_set s"
      using t u' m n by (auto simp: live_set_def split: if_splits)
    with False t show ?thesis by simp
  qed
qed

function (sequential) rec_deref_loop :: "ptr list \<Rightarrow> kstate \<Rightarrow> fault + (unit \<times> kstate)" where
  "rec_deref_loop [] s = ret () s"
| "rec_deref_loop (p # stk) s =
     (case rec_deref_step (cdd_rglr p) s of
        Inl f \<Rightarrow> Inl f
      | Inr (None, t) \<Rightarrow> ret () t
      | Inr (Some cs, t) \<Rightarrow> rec_deref_loop (rev cs @ stk) t)"
  by pat_completeness auto

termination
  by (relation "measures [\<lambda>(stk, s). card (live_set s), \<lambda>(stk, s). length stk]")
    (auto dest!: rec_deref_step_live intro: psubset_card_mono)

definition cdd_rec_deref :: "ptr \<Rightarrow> unit K" where
  "cdd_rec_deref p = rec_deref_loop [cdd_rglr p]"

section \<open>Reclaiming dead nodes\<close>

definition unbury :: "ptr \<Rightarrow> nat \<Rightarrow> unit K" where
  "unbury p level =
     bindM (node_man p) (\<lambda>i.
     thenM (upd_man i (\<lambda>m. m\<lparr>m_usedcnt := m_usedcnt m + 1, m_deadcnt := m_deadcnt m - 1\<rparr>))
           (upd_subtable i level (\<lambda>t. t\<lparr>t_deadcnt := t_deadcnt t - 1\<rparr>)))"

definition is_dead :: "ptr \<Rightarrow> bool K" where
  "is_dead p = bindM (get_node p) (\<lambda>n. ret (n_ref n = 0))"

text \<open>The children of a CDD node are tested and referenced one after the other.\<close>

fun reclaim_elems :: "ptr list \<Rightarrow> ptr list K" where
  "reclaim_elems [] = ret []"
| "reclaim_elems (c # cs) =
     bindM (is_dead c) (\<lambda>d.
     thenM (cdd_ref c) (
     bindM (reclaim_elems cs) (\<lambda>ps. ret (if d then c # ps else ps))))"

text \<open>The children of a BDD node are both tested before they are referenced.\<close>

definition reclaim_pair :: "ptr \<Rightarrow> ptr \<Rightarrow> ptr list K" where
  "reclaim_pair lo hi =
     bindM (is_dead lo) (\<lambda>dl. bindM (is_dead hi) (\<lambda>dh.
     thenM (cdd_ref lo) (thenM (cdd_ref hi)
       (ret ((if dl then [lo] else []) @ (if dh then [hi] else []))))))"

definition reclaim_step :: "ptr \<Rightarrow> ptr list K" where
  "reclaim_step p =
     bindM (get_node p) (\<lambda>n.
     thenM (unbury p (n_level n)) (
     bindM (cdd_info p) (\<lambda>info.
     case li_type info of
       TYPE_CDD \<Rightarrow> bindM (cdd_it_children p) reclaim_elems
     | TYPE_BDD \<Rightarrow> bindM (bdd_node p) (\<lambda>(lo, hi). reclaim_pair lo hi))))"

lemma nodes_unbury: "unbury p k s = Inr (x, t) \<Longrightarrow> nodes t = nodes s"
  by (auto simp: unbury_def node_man_def elim!: bindM_InrE thenM_InrE
      dest!: nodes_upd_man nodes_upd_subtable)

lemma dead_set_ref:
  assumes "cdd_ref p s = Inr (x, t)"
  shows "dead_set t = dead_set s - {cdd_rglr p}"
proof -
  from assms obtain n where n: "nodes s (cdd_rglr p) = Some n"
    and t: "nodes t = (nodes s)(cdd_rglr p \<mapsto> n\<lparr>n_ref := cdd_satinc (n_ref n)\<rparr>)"
    by (auto simp: cdd_ref_def upd_node_Inr)
  have "cdd_satinc (n_ref n) \<noteq> 0" by (simp add: cdd_satinc_def MAXREF_def)
  then show ?thesis unfolding dead_set_def t by auto
qed

lemma is_dead_Inr:
  "is_dead p s = Inr (d, t) \<longleftrightarrow> t = s \<and> nodes s (cdd_rglr p) \<noteq> None \<and> d = (cdd_rglr p \<in> dead_set s)"
  by (auto simp: is_dead_def bindM_def get_node_def someM_def dead_set_def split: option.splits)

lemma reclaim_elems_dead:
  "reclaim_elems cs s = Inr (ps, t) \<Longrightarrow>
     dead_set t \<subseteq> dead_set s \<and> length ps + card (dead_set t) \<le> card (dead_set s)"
proof (induction cs arbitrary: s ps)
  case Nil
  then show ?case by simp
next
  case (Cons c cs)
  from Cons.prems obtain d u qs where d: "d = (cdd_rglr c \<in> dead_set s)"
    and u: "cdd_ref c s = Inr ((), u)" and qs: "reclaim_elems cs u = Inr (qs, t)"
    and ps: "ps = (if d then c # qs else qs)"
    by (auto simp: is_dead_Inr elim!: bindM_InrE thenM_InrE)
  from Cons.IH [OF qs] dead_set_ref [OF u]
  have IH: "dead_set t \<subseteq> dead_set s - {cdd_rglr c}"
    "length qs + card (dead_set t) \<le> card (dead_set s - {cdd_rglr c})" by auto
  show ?case
  proof (cases d)
    case True
    then have "card (dead_set s) = Suc (card (dead_set s - {cdd_rglr c}))"
      using d by (intro card.remove) auto
    then show ?thesis using IH True ps by auto
  next
    case False
    then show ?thesis using IH d ps by auto
  qed
qed

lemma reclaim_pair_dead:
  assumes "reclaim_pair lo hi s = Inr (ps, t)"
  shows "length ps + 2 * card (dead_set t) \<le> 2 * card (dead_set s) \<and> dead_set t \<subseteq> dead_set s"
proof -
  from assms obtain u where u: "cdd_ref lo s = Inr ((), u)" "cdd_ref hi u = Inr ((), t)"
    and ps: "ps = (if cdd_rglr lo \<in> dead_set s then [lo] else [])
               @ (if cdd_rglr hi \<in> dead_set s then [hi] else [])"
    by (auto simp: reclaim_pair_def is_dead_Inr elim!: bindM_InrE thenM_InrE)
  have t: "dead_set t = dead_set s - {cdd_rglr lo, cdd_rglr hi}"
    using dead_set_ref [OF u(1)] dead_set_ref [OF u(2)] by auto
  have sub: "dead_set t \<subseteq> dead_set s" using t by auto
  show ?thesis
  proof (cases "dead_set t = dead_set s")
    case True
    then show ?thesis using ps t by auto
  next
    case False
    then have "card (dead_set t) < card (dead_set s)"
      using sub by (simp add: psubset_card_mono psubset_eq)
    moreover have "length ps \<le> 2" using ps by auto
    ultimately show ?thesis using sub by simp
  qed
qed

lemma dead_set_nodes: "nodes t = nodes s \<Longrightarrow> dead_set t = dead_set s"
  by (simp add: dead_set_def)

lemma reclaim_step_dead:
  assumes "reclaim_step p s = Inr (ps, t)"
  shows "length ps + 2 * card (dead_set t) \<le> 2 * card (dead_set s)"
proof -
  from assms obtain n s' z u v info where s': "get_node p s = Inr (n, s')"
    and u: "unbury p (n_level n) s' = Inr (z, u)"
    and i: "cdd_info p u = Inr (info, v)"
    and k: "(case li_type info of TYPE_CDD \<Rightarrow> bindM (cdd_it_children p) reclaim_elems
            | TYPE_BDD \<Rightarrow> bindM (bdd_node p) (\<lambda>(lo, hi). reclaim_pair lo hi)) v = Inr (ps, t)"
    unfolding reclaim_step_def by (elim bindM_InrE thenM_InrE) blast
  have v: "dead_set v = dead_set s"
    using s' same_cdd_info [OF i] nodes_unbury [OF u] by (simp add: dead_set_def)
  show ?thesis
  proof (cases "li_type info")
    case TYPE_CDD
    with k obtain cs w where "cdd_it_children p v = Inr (cs, w)" "reclaim_elems cs w = Inr (ps, t)"
      by (auto elim!: bindM_InrE)
    with same_it_children reclaim_elems_dead have "length ps + card (dead_set t) \<le> card (dead_set v)"
      and "card (dead_set t) \<le> card (dead_set v)"
      by (blast, blast intro: card_mono finite_ptrs)
    with v show ?thesis by simp
  next
    case TYPE_BDD
    with k obtain lo hi w where "bdd_node p v = Inr ((lo, hi), w)" "reclaim_pair lo hi w = Inr (ps, t)"
      by (auto elim!: bindM_InrE)
    with same_bdd_node [of p v] reclaim_pair_dead [of lo hi w ps t] v show ?thesis by simp
  qed
qed

function (sequential) reclaim_loop :: "ptr list \<Rightarrow> kstate \<Rightarrow> fault + (unit \<times> kstate)" where
  "reclaim_loop [] s = ret () s"
| "reclaim_loop (p # stk) s =
     (case reclaim_step (cdd_rglr p) s of
        Inl f \<Rightarrow> Inl f
      | Inr (cs, t) \<Rightarrow> reclaim_loop (rev cs @ stk) t)"
  by pat_completeness auto

termination
  by (relation "measure (\<lambda>(stk, s). 2 * card (dead_set s) + length stk)")
    (auto dest!: reclaim_step_dead)

definition cdd_reclaim :: "ptr \<Rightarrow> unit K" where
  "cdd_reclaim p = reclaim_loop [cdd_rglr p]"

section \<open>Garbage collection\<close>

definition free_cell :: "mid \<Rightarrow> ptr \<Rightarrow> unit K" where
  "free_cell i p =
     bindM (get_node p) (\<lambda>n.
     thenM (modifyM (\<lambda>s. s\<lparr>nodes := (nodes s)(p := None), cell_flag := (cell_flag s)(p := n_flag n)\<rparr>))
           (upd_man i (\<lambda>m. m\<lparr>m_free := p # m_free m\<rparr>)))"

fun gbc_chain :: "mid \<Rightarrow> ptr list \<Rightarrow> ptr list K" where
  "gbc_chain i [] = ret []"
| "gbc_chain i (p # ps) =
     bindM (get_node p) (\<lambda>n.
     if n_ref n = 0 then thenM (free_cell i p) (gbc_chain i ps)
     else bindM (gbc_chain i ps) (\<lambda>qs. ret (p # qs)))"

fun gbc_buckets :: "mid \<Rightarrow> ptr list list \<Rightarrow> ptr list list K" where
  "gbc_buckets i [] = ret []"
| "gbc_buckets i (c # cs) =
     bindM (gbc_chain i c) (\<lambda>d. bindM (gbc_buckets i cs) (\<lambda>ds. ret (d # ds)))"

definition gbc_subtable :: "mid \<Rightarrow> nat \<Rightarrow> unit K" where
  "gbc_subtable i k =
     bindM (get_subtable i k) (\<lambda>t. case t of
       None \<Rightarrow> ret ()
     | Some tbl \<Rightarrow>
         if t_deadcnt tbl = 0 then ret ()
         else bindM (gbc_buckets i (t_hash tbl)) (\<lambda>h.
              upd_subtable i k (\<lambda>t. t\<lparr>t_hash := h, t_keys := t_keys t - t_deadcnt t, t_deadcnt := 0\<rparr>)))"

definition cdd_gbc_nodemanager :: "mid \<Rightarrow> unit K" where
  "cdd_gbc_nodemanager i =
     bindM (gets cdd_levelcnt) (\<lambda>n.
     thenM (forM [0..<n] (gbc_subtable i)) (
     thenM (upd_man i (\<lambda>m. m\<lparr>m_freecnt := m_freecnt m + m_deadcnt m, m_deadcnt := 0,
                             m_gbccnt := m_gbccnt m + 1\<rparr>))
     (modifyM (\<lambda>s. s\<lparr>cdd_gbccnt := cdd_gbccnt s + 1\<rparr>))))"

definition gbc_due :: "nodemanager \<Rightarrow> bool" where
  "gbc_due m \<longleftrightarrow> THRESHOLD * m_alloccnt m \<ge> 100 * m_freecnt m \<and>
     MINFREE * m_alloccnt m < 100 * m_deadcnt m"

definition gbc_if_due :: "mid \<Rightarrow> unit K" where
  "gbc_if_due i =
     bindM (gets (\<lambda>s. man_of s i)) (\<lambda>m. case m of
       None \<Rightarrow> ret ()
     | Some m \<Rightarrow> if gbc_due m then cdd_gbc_nodemanager i else ret ())"

text \<open>\<open>bddmanager\<close> is not NULL while the library runs; \<open>get_man\<close> checks this.\<close>

definition cdd_gbc :: "unit K" where
  "cdd_gbc =
     thenM cdd_operator_flush (
     thenM (bindM (get_man BddMan) (\<lambda>m. whenM (gbc_due m) (cdd_gbc_nodemanager BddMan))) (
     bindM (gets cdd_maxcddused) (\<lambda>n.
     bindM (gets (\<lambda>s. length (cddmanager s))) (\<lambda>len.
     thenM (guardM Segv (n < 2 \<or> n < len))
       (forM [2..<n + 1] (\<lambda>k. gbc_if_due (CddMan k)))))))"

section \<open>Allocation of nodes and node managers\<close>

definition ensure_free :: "mid \<Rightarrow> unit K" where
  "ensure_free i =
     bindM (get_man i) (\<lambda>m.
     whenM (m_free m = [])
       (if MINFREE * m_alloccnt m < 100 * m_deadcnt m
        then thenM cdd_operator_flush (cdd_gbc_nodemanager i)
        else cdd_alloc_chunk i))"

definition take_free :: "mid \<Rightarrow> ptr K" where
  "take_free i =
     bindM (get_man i) (\<lambda>m. case m_free m of
       [] \<Rightarrow> fail Segv
     | p # ps \<Rightarrow>
         thenM (upd_man i (\<lambda>m. m\<lparr>m_free := ps, m_usedcnt := m_usedcnt m + 1,
                                 m_freecnt := m_freecnt m - 1\<rparr>))
               (ret p))"

definition cdd_alloc_node :: "mid \<Rightarrow> ptr K" where
  "cdd_alloc_node i = thenM (ensure_free i) (take_free i)"

text \<open>Writing a node into a cell that \<open>cdd_alloc_node\<close> returned; the flag bits are not written.\<close>

definition init_node :: "ptr \<Rightarrow> nat \<Rightarrow> body \<Rightarrow> unit K" where
  "init_node p level b = modifyM (\<lambda>s. set_node p
     \<lparr>n_level = level mod 2 ^ 20, n_ref = 0, n_flag = cell_flag s p mod 4, n_body = b\<rparr> s)"

fun zero_body :: "mid \<Rightarrow> body" where
  "zero_body BddMan = Bdd 0 0"
| "zero_body (CddMan n) = Cdd (replicate n \<lparr>e_child = 0, e_bnd = 0\<rparr>)"

definition new_nodemanager :: "nat \<Rightarrow> nat \<Rightarrow> nodemanager" where
  "new_nodemanager sz levels =
     \<lparr>m_nodesize = sz, m_freecnt = 0, m_chunkcnt = 0, m_alloccnt = 0, m_deadcnt = 0,
      m_usedcnt = 0, m_gbccnt = 0, m_free = [], m_nodes = [], m_sentinel = 0,
      m_subtables = replicate levels None\<rparr>"

text \<open>
  The manager is entered under its name before its sentinel is allocated; C stores the
  pointer when \<^verbatim>\<open>cdd_alloc_nodemanager\<close> returns, and nothing reads it in between.
\<close>

definition cdd_alloc_nodemanager :: "mid \<Rightarrow> nat \<Rightarrow> unit K" where
  "cdd_alloc_nodemanager i sz =
     bindM (gets cdd_levelcnt) (\<lambda>levels.
     thenM (modifyM (put_man i (new_nodemanager sz levels))) (
     bindM (cdd_alloc_node i) (\<lambda>p.
     thenM (modifyM (set_node p \<lparr>n_level = 0, n_ref = 0, n_flag = 0, n_body = zero_body i\<rparr>))
           (upd_man i (\<lambda>m. m\<lparr>m_sentinel := p\<rparr>)))))"

end
