(* ===== verification/Kernel_Make.thy ===== *)
theory Kernel_Make
  imports Kernel_Memory
begin

text \<open>
  The node constructors of \<^verbatim>\<open>src/kernel.c\<close>: hashing, the search of a hash chain, insertion,
  rehashing, and the diagrams of a single test.  The elements that C passes on the
  reference stack above its top are list arguments.
\<close>

section \<open>Hash functions\<close>

definition bddHash :: "ptr \<Rightarrow> ptr \<Rightarrow> 32 word" where
  "bddHash f g = (f * DD_P1 + g) * DD_P2"

definition elem_words :: "elem list \<Rightarrow> 32 word list" where
  "elem_words es = concat (map (\<lambda>e. [e_child e, word_of_int (e_bnd e)]) es)"

definition cddHash :: "elem list \<Rightarrow> 32 word K" where
  "cddHash es = gets (\<lambda>s. env_hash (env s) (elem_words es) (of_nat (length es)))"

definition bdd_hash_func :: "ptr \<Rightarrow> 32 word K" where
  "bdd_hash_func p = bindM (bdd_node p) (\<lambda>(lo, hi). ret (bddHash lo hi))"

text \<open>\<open>sizeof(cddNode)\<close> and \<open>sizeof(Elem)\<close> are 8.\<close>

definition cdd_hash_func :: "mid \<Rightarrow> ptr \<Rightarrow> 32 word K" where
  "cdd_hash_func i p =
     bindM (get_man i) (\<lambda>m. bindM (cdd_elems p) (\<lambda>es.
     let len = (m_nodesize m - 8) div 8 in
     thenM (guardM Segv (len \<le> length es)) (cddHash (take len es))))"

fun man_hash :: "mid \<Rightarrow> ptr \<Rightarrow> 32 word K" where
  "man_hash BddMan p = bdd_hash_func p"
| "man_hash (CddMan n) p = cdd_hash_func (CddMan n) p"

definition bucket_index :: "nat \<Rightarrow> 32 word \<Rightarrow> nat" where
  "bucket_index shift h = unat (drop_bit shift h)"

definition bucket_at :: "subtable \<Rightarrow> nat \<Rightarrow> ptr list K" where
  "bucket_at t b = (if b < length (t_hash t) then ret (t_hash t ! b) else fail Segv)"

section \<open>Rehashing\<close>

fun split_bucket :: "mid \<Rightarrow> nat \<Rightarrow> ptr list \<Rightarrow> (ptr list \<times> ptr list) K" where
  "split_bucket i shift [] = ret ([], [])"
| "split_bucket i shift (p # ps) =
     bindM (man_hash i p) (\<lambda>h.
     bindM (split_bucket i shift ps) (\<lambda>(a, b).
     if odd (bucket_index shift h) then ret (a, p # b) else ret (p # a, b)))"

fun rehash_buckets :: "mid \<Rightarrow> nat \<Rightarrow> ptr list list \<Rightarrow> ptr list list K" where
  "rehash_buckets i shift [] = ret []"
| "rehash_buckets i shift (c # cs) =
     bindM (split_bucket i shift c) (\<lambda>(a, b).
     bindM (rehash_buckets i shift cs) (\<lambda>rest. ret (a # b # rest)))"

text \<open>
  The handler called is \<^verbatim>\<open>postrehash_handler\<close>, under a test of \<^verbatim>\<open>postgbc_handler\<close>.  A table of
  \<open>2 ^ 30\<close> buckets does not fit into memory.
\<close>

definition cdd_rehash :: "mid \<Rightarrow> nat \<Rightarrow> unit K" where
  "cdd_rehash i level =
     bindM (get_subtable i level) (\<lambda>t. bindM (someM Segv t) (\<lambda>tbl.
     thenM (guardM NoMem (malloc_ok (2 * t_buckets tbl * 4))) (
     thenM (guardM Segv (0 < t_shift tbl)) (
     bindM (rehash_buckets i (t_shift tbl - 1) (t_hash tbl)) (\<lambda>h.
     thenM (upd_subtable i level (\<lambda>t. t\<lparr>t_maxkeys := 2 * t_maxkeys t, t_shift := t_shift t - 1, t_hash := h\<rparr>)) (
     thenM (modifyM (\<lambda>s. s\<lparr>cdd_rehashcnt := cdd_rehashcnt s + 1\<rparr>)) (
     bindM (gets postgbc_handler) (\<lambda>pg.
     bindM (gets postrehash_handler) (\<lambda>pr.
     whenM pg (guardM Segv pr))))))))))"

definition rehash_if_full :: "mid \<Rightarrow> nat \<Rightarrow> unit K" where
  "rehash_if_full i level =
     bindM (get_subtable i level) (\<lambda>t. bindM (someM Segv t) (\<lambda>tbl.
     whenM (t_maxkeys tbl < t_keys tbl) (cdd_rehash i level)))"

section \<open>Searching a hash chain\<close>

text \<open>
  \<open>seek t sent ch\<close> is the loop \<^verbatim>\<open>while (t(*p)) p = &(*p)->next\<close> over the chain \<open>ch\<close> that ends
  in the sentinel: the number of nodes skipped.  Walking past the sentinel is a fault.
\<close>

fun seek :: "(ptr \<Rightarrow> bool K) \<Rightarrow> ptr \<Rightarrow> ptr list \<Rightarrow> nat K" where
  "seek t sent [] = bindM (t sent) (\<lambda>b. if b then fail Segv else ret 0)"
| "seek t sent (p # ps) =
     bindM (t p) (\<lambda>b. if b then bindM (seek t sent ps) (\<lambda>n. ret (Suc n)) else ret 0)"

definition chain_at :: "ptr list \<Rightarrow> ptr \<Rightarrow> nat \<Rightarrow> ptr" where
  "chain_at ch sent i = (if i < length ch then ch ! i else sent)"

definition bdd_seek :: "ptr \<Rightarrow> ptr \<Rightarrow> ptr \<Rightarrow> ptr list \<Rightarrow> nat K" where
  "bdd_seek low high sent ch =
     bindM (seek (\<lambda>p. bindM (bdd_node p) (\<lambda>(l, h). ret (low < l))) sent ch) (\<lambda>i.
     bindM (seek (\<lambda>p. bindM (bdd_node p) (\<lambda>(l, h). ret (low = l \<and> high < h))) sent (drop i ch)) (\<lambda>j.
     ret (i + j)))"

text \<open>\<^verbatim>\<open>memcmp\<close> on element arrays: the bytes of child and bound, in little-endian order.\<close>

definition word_bytes :: "32 word \<Rightarrow> 32 word list" where
  "word_bytes w = map (\<lambda>i. drop_bit (8 * i) w AND 0xFF) [0, 1, 2, 3]"

definition elem_bytes :: "elem list \<Rightarrow> 32 word list" where
  "elem_bytes es = concat (map word_bytes (elem_words es))"

fun memcmp :: "32 word list \<Rightarrow> 32 word list \<Rightarrow> int" where
  "memcmp (x # xs) (y # ys) = (if x = y then memcmp xs ys else if x < y then - 1 else 1)"
| "memcmp _ _ = 0"

definition elem_cmp :: "elem list \<Rightarrow> ptr \<Rightarrow> int K" where
  "elem_cmp es p = bindM (cdd_elems p) (\<lambda>fs.
     thenM (guardM Segv (length es \<le> length fs)) (ret (memcmp (elem_bytes es) (elem_bytes fs))))"

definition cdd_seek :: "elem list \<Rightarrow> ptr \<Rightarrow> ptr list \<Rightarrow> nat K" where
  "cdd_seek es = seek (\<lambda>p. bindM (elem_cmp es p) (\<lambda>c. ret (c < 0)))"

section \<open>Making nodes\<close>

definition find_subtable :: "mid \<Rightarrow> nat \<Rightarrow> subtable K" where
  "find_subtable i level =
     bindM (get_subtable i level) (\<lambda>t. case t of
       None \<Rightarrow> cdd_alloc_subtable i level
     | Some tbl \<Rightarrow> ret tbl)"

definition revive :: "ptr \<Rightarrow> unit K" where
  "revive p = bindM (is_dead p) (\<lambda>d. whenM d (cdd_reclaim p))"

definition insert_at :: "nat \<Rightarrow> 'a \<Rightarrow> 'a list \<Rightarrow> 'a list" where
  "insert_at i x xs = take i xs @ x # drop i xs"

text \<open>
  From the allocation to the end, common to both constructors: take a cell, search again if
  a garbage collection has run, link the node in, fill it, count it, rehash.
\<close>

definition insert_node :: "mid \<Rightarrow> nat \<Rightarrow> nat \<Rightarrow> (ptr \<Rightarrow> ptr list \<Rightarrow> nat K) \<Rightarrow> nat \<Rightarrow> body \<Rightarrow> ptr K" where
  "insert_node man level bucket search pos b =
     bindM (gets cdd_gbccnt) (\<lambda>cnt.
     bindM (cdd_alloc_node man) (\<lambda>node.
     bindM (gets cdd_gbccnt) (\<lambda>cnt'.
     bindM (get_man man) (\<lambda>m.
     bindM (get_subtable man level) (\<lambda>t. bindM (someM Segv t) (\<lambda>tbl.
     bindM (bucket_at tbl bucket) (\<lambda>ch.
     bindM (if cnt \<noteq> cnt' then search (m_sentinel m) ch else ret pos) (\<lambda>i.
     thenM (init_node node level b) (
     thenM (upd_subtable man level
       (\<lambda>t. t\<lparr>t_hash := (t_hash t)[bucket := insert_at i node ch], t_keys := t_keys t + 1\<rparr>)) (
     thenM (rehash_if_full man level)
     (ret node)))))))))))"

definition cdd_make_bdd_node :: "nat \<Rightarrow> ptr \<Rightarrow> ptr \<Rightarrow> ptr K" where
  "cdd_make_bdd_node level low high =
     (if low = high then ret low else
      let mask = cdd_mask low; lo = cdd_rglr low; hi = cdd_neg_cond high mask in
      bindM (find_subtable BddMan level) (\<lambda>tbl.
      bindM (get_man BddMan) (\<lambda>m.
      let bucket = bucket_index (t_shift tbl) (bddHash lo hi) in
      bindM (bucket_at tbl bucket) (\<lambda>ch.
      bindM (bdd_seek lo hi (m_sentinel m) ch) (\<lambda>i.
      let q = chain_at ch (m_sentinel m) i in
      bindM (bdd_node q) (\<lambda>(l, h).
      if lo = l \<and> hi = h then thenM (revive q) (ret (cdd_neg_cond q mask))
      else
        thenM (cdd_ref lo) (
        thenM (cdd_ref hi) (
        bindM (insert_node BddMan level bucket (bdd_seek lo hi) i (Bdd lo hi)) (\<lambda>node.
        ret (cdd_neg_cond node mask))))))))))"

definition find_cddmanager :: "nat \<Rightarrow> unit K" where
  "find_cddmanager len =
     bindM (gets (\<lambda>s. cddmanager s)) (\<lambda>ms.
     thenM (guardM Segv (len < length ms)) (
     whenM (ms ! len = None) (
       thenM (cdd_alloc_nodemanager (CddMan len) (8 + 8 * len))
       (modifyM (\<lambda>s. if cdd_maxcddused s < len then s\<lparr>cdd_maxcddused := len\<rparr> else s)))))"

definition cdd_make_cdd_node :: "nat \<Rightarrow> elem list \<Rightarrow> ptr K" where
  "cdd_make_cdd_node level es =
     bindM (gets cdd_maxcddsize) (\<lambda>mx.
     let len = length es in
     if mx < len then thenM (cdd_error CDD_MAXSIZE) (ret 0)
     else if len = 1 then ret (e_child (es ! 0))
     else
       thenM (find_cddmanager len) (
       bindM (find_subtable (CddMan len) level) (\<lambda>tbl.
       bindM (get_man (CddMan len)) (\<lambda>m.
       bindM (cddHash es) (\<lambda>h.
       let bucket = bucket_index (t_shift tbl) h in
       bindM (bucket_at tbl bucket) (\<lambda>ch.
       bindM (cdd_seek es (m_sentinel m) ch) (\<lambda>i.
       let q = chain_at ch (m_sentinel m) i in
       bindM (elem_cmp es q) (\<lambda>c.
       if c = 0 then thenM (revive q) (ret q)
       else
         thenM (forM es (\<lambda>e. cdd_ref (e_child e)))
         (insert_node (CddMan len) level bucket (cdd_seek es) i (Cdd es))))))))))"

section \<open>Diagrams of a single test\<close>

definition cdd_bddvar :: "nat \<Rightarrow> ptr K" where
  "cdd_bddvar level = cdd_make_bdd_node level cddfalse cddtrue"

definition cdd_interval_from_level :: "nat \<Rightarrow> raw_t \<Rightarrow> raw_t \<Rightarrow> ptr K" where
  "cdd_interval_from_level level low high =
     (if low > - bnd_INF
      then cdd_make_cdd_node level
        ([\<lparr>e_child = cddfalse, e_bnd = low\<rparr>, \<lparr>e_child = cddtrue, e_bnd = high\<rparr>] @
         (if high < bnd_INF then [\<lparr>e_child = cddfalse, e_bnd = bnd_INF\<rparr>] else []))
      else bindM (cdd_make_cdd_node level
        [\<lparr>e_child = cddfalse, e_bnd = high\<rparr>, \<lparr>e_child = cddtrue, e_bnd = bnd_INF\<rparr>])
        (\<lambda>p. ret (cdd_neg p)))"

definition cdd_upper_from_level :: "nat \<Rightarrow> raw_t \<Rightarrow> ptr K" where
  "cdd_upper_from_level level b =
     (if b = bnd_INF then ret cddtrue
      else if b = - bnd_INF then ret cddfalse
      else bindM (cdd_make_cdd_node level
        [\<lparr>e_child = cddfalse, e_bnd = b\<rparr>, \<lparr>e_child = cddtrue, e_bnd = bnd_INF\<rparr>])
        (\<lambda>p. ret (cdd_neg p)))"

definition cdd_difference_count :: "nat \<Rightarrow> nat" where
  "cdd_difference_count n = n * (n - 1) div 2"

definition cdd_difference :: "nat \<Rightarrow> nat \<Rightarrow> nat" where
  "cdd_difference c d = cdd_difference_count c + d"

definition diff2level :: "nat \<Rightarrow> nat \<Rightarrow> nat K" where
  "diff2level i j s =
     (if cdd_difference i j < length (cdd_diff2level s)
      then Inr (cdd_diff2level s ! cdd_difference i j, s) else Inl Segv)"

definition cdd_interval :: "nat \<Rightarrow> nat \<Rightarrow> raw_t \<Rightarrow> raw_t \<Rightarrow> ptr K" where
  "cdd_interval i j low high =
     (if i > j then bindM (diff2level i j) (\<lambda>k. cdd_interval_from_level k low high)
      else bindM (diff2level j i) (\<lambda>k. cdd_interval_from_level k (bnd_u2l high) (bnd_l2u low)))"

definition cdd_upper :: "nat \<Rightarrow> nat \<Rightarrow> raw_t \<Rightarrow> ptr K" where
  "cdd_upper i j b =
     (if i > j then bindM (diff2level i j) (\<lambda>k. cdd_upper_from_level k b)
      else bindM (diff2level j i) (\<lambda>k.
           bindM (cdd_upper_from_level k (bnd_u2l b)) (\<lambda>p. ret (cdd_neg p))))"

end
