(* ===== verification/Store_Inv.thy ===== *)
theory Store_Inv
  imports Kernel_Make
begin

text \<open>
  What the node store promises: the meaning of a diagram (\<open>eval\<close>), when a diagram is
  well formed (\<open>sound\<close>), and the invariant \<open>INV\<close> of the library's state, with the views of
  the state it is stated over: the contents of the nodes (levels and bodies), their
  reference counts, and the set of nodes in the hash tables.
\<close>

section \<open>Views of the state\<close>

type_synonym contents = "ptr \<Rightarrow> (nat \<times> body) option"

definition cont :: "kstate \<Rightarrow> contents" where
  "cont s p = map_option (\<lambda>n. (n_level n, n_body n)) (nodes s p)"

definition rf :: "kstate \<Rightarrow> ptr \<Rightarrow> nat" where
  "rf s p = (case nodes s p of None \<Rightarrow> 0 | Some n \<Rightarrow> n_ref n)"

definition tbl :: "kstate \<Rightarrow> mid \<Rightarrow> nat \<Rightarrow> subtable option" where
  "tbl s i k = (case man_of s i of None \<Rightarrow> None | Some m \<Rightarrow> table_of m k)"

definition chained :: "subtable \<Rightarrow> ptr set" where
  "chained t = set (concat (t_hash t))"

definition tabled :: "kstate \<Rightarrow> ptr set" where
  "tabled s = {p. \<exists>i k t. tbl s i k = Some t \<and> p \<in> chained t}"

fun kids :: "body \<Rightarrow> ptr list" where
  "kids (Bdd lo hi) = [lo, hi]"
| "kids (Cdd es) = map e_child es"
| "kids _ = []"

definition lv :: "contents \<Rightarrow> ptr \<Rightarrow> nat" where
  "lv C p = (case C (cdd_rglr p) of None \<Rightarrow> 0 | Some (k, b) \<Rightarrow> k)"

definition kids_of :: "contents \<Rightarrow> ptr \<Rightarrow> ptr list" where
  "kids_of C p = (case C (cdd_rglr p) of None \<Rightarrow> [] | Some (k, b) \<Rightarrow> kids b)"

section \<open>The meaning of a diagram\<close>

text \<open>
  An assignment gives each level a value: a real number for a clock difference, a truth
  value for a boolean variable.  A CDD node selects the first child whose bound the value
  satisfies; a negated pointer negates.
\<close>

type_synonym asg = "(nat \<Rightarrow> real) \<times> (nat \<Rightarrow> bool)"

definition select :: "real \<Rightarrow> elem list \<Rightarrow> elem option" where
  "select x es = find (\<lambda>e. bnd_sat x (e_bnd e)) es"

definition next_child :: "asg \<Rightarrow> nat \<Rightarrow> body \<Rightarrow> ptr option" where
  "next_child a k b = (case b of
     Bdd lo hi \<Rightarrow> Some (if snd a k then hi else lo)
   | Cdd es \<Rightarrow> map_option e_child (select (fst a k) es)
   | _ \<Rightarrow> None)"

function eval :: "contents \<Rightarrow> asg \<Rightarrow> ptr \<Rightarrow> bool" where
  "eval C a p =
     ((cdd_mask p \<noteq> 0) \<noteq>
      (case C (cdd_rglr p) of
         None \<Rightarrow> False
       | Some (k, b) \<Rightarrow>
           (case next_child a k b of
              None \<Rightarrow> False
            | Some c \<Rightarrow> if k < lv C c \<and> k < MAXLEVEL then eval C a c else False)))"
  by pat_completeness auto
termination
  by (relation "measure (\<lambda>(C, a, p). MAXLEVEL - lv C p)") (auto simp: lv_def split: option.splits)

declare eval.simps [simp del]

section \<open>Well-formed diagrams\<close>

definition shape_ok :: "LevelInfo list \<Rightarrow> (nat \<Rightarrow> raw_t set) \<Rightarrow> nat \<Rightarrow> body \<Rightarrow> bool" where
  "shape_ok L B k b \<longleftrightarrow> k < length L \<and>
     (case b of
        Bdd lo hi \<Rightarrow> li_type (L ! k) = TYPE_BDD \<and> cdd_mask lo = 0 \<and> lo \<noteq> hi
      | Cdd es \<Rightarrow> li_type (L ! k) = TYPE_CDD \<and> 2 \<le> length es \<and>
          sorted_wrt (<) (map e_bnd es) \<and> e_bnd (last es) = bnd_INF \<and>
          e_bnd ` set es \<subseteq> B k \<and> cdd_mask (e_child (hd es)) = 0 \<and>
          distinct_adj (map e_child es)
      | _ \<Rightarrow> False)"

inductive sound :: "contents \<Rightarrow> ptr set \<Rightarrow> LevelInfo list \<Rightarrow> (nat \<Rightarrow> raw_t set) \<Rightarrow> ptr \<Rightarrow> bool"
  for C T L B where
  sound_term: "cdd_rglr p = cddfalse \<Longrightarrow> sound C T L B p"
| sound_node: "C (cdd_rglr p) = Some (k, b) \<Longrightarrow> cdd_rglr p \<in> T \<Longrightarrow> shape_ok L B k b \<Longrightarrow>
    (\<And>c. c \<in> set (kids b) \<Longrightarrow> sound C T L B c) \<Longrightarrow>
    (\<And>c. c \<in> set (kids b) \<Longrightarrow> k < lv C c) \<Longrightarrow> sound C T L B p"

inductive_cases soundE: "sound C T L B p"

section \<open>The invariant\<close>

fun nodesize_of :: "mid \<Rightarrow> nat" where
  "nodesize_of BddMan = 16"
| "nodesize_of (CddMan n) = 8 + 8 * n"

fun fits :: "mid \<Rightarrow> body \<Rightarrow> bool" where
  "fits BddMan b \<longleftrightarrow> (\<exists>lo hi. b = Bdd lo hi)"
| "fits (CddMan n) b \<longleftrightarrow> (\<exists>es. b = Cdd es \<and> length es = n \<and> (\<forall>e \<in> set es. \<bar>e_bnd e\<bar> \<le> bnd_INF))"

fun body_hash :: "environment \<Rightarrow> body \<Rightarrow> 32 word" where
  "body_hash v (Bdd lo hi) = bddHash lo hi"
| "body_hash v (Cdd es) = env_hash v (elem_words es) (of_nat (length es))"
| "body_hash v _ = 0"

fun body_key :: "body \<Rightarrow> 32 word list" where
  "body_key (Bdd lo hi) = [lo, hi]"
| "body_key (Cdd es) = elem_bytes es"
| "body_key _ = []"

definition key_at :: "contents \<Rightarrow> ptr \<Rightarrow> 32 word list" where
  "key_at C p = (case C p of None \<Rightarrow> [] | Some (k, b) \<Rightarrow> body_key b)"

definition descending :: "contents \<Rightarrow> ptr list \<Rightarrow> bool" where
  "descending C ch \<longleftrightarrow> sorted_wrt (\<lambda>p q. memcmp (key_at C q) (key_at C p) < 0) ch"

text \<open>\<open>in_place\<close>: the node at \<open>p\<close> belongs to bucket \<open>b\<close> of the level-\<open>k\<close> table of manager \<open>i\<close>.\<close>

definition in_place :: "environment \<Rightarrow> contents \<Rightarrow> (ptr \<Rightarrow> mid option) \<Rightarrow> mid \<Rightarrow> nat \<Rightarrow> nat \<Rightarrow> nat \<Rightarrow> ptr \<Rightarrow> bool" where
  "in_place v C M i k sh b p \<longleftrightarrow>
     cdd_rglr p = p \<and> M (cdd_node2chunk p) = Some i \<and>
     (\<exists>body. C p = Some (k, body) \<and> fits i body \<and> bucket_index sh (body_hash v body) = b)"

definition table_ok :: "environment \<Rightarrow> contents \<Rightarrow> (ptr \<Rightarrow> mid option) \<Rightarrow> mid \<Rightarrow> nat \<Rightarrow> subtable \<Rightarrow> bool" where
  "table_ok v C M i k t \<longleftrightarrow>
     t_shift t \<le> 32 \<and> length (t_hash t) = 2 ^ (32 - t_shift t) \<and>
     (\<forall>b < length (t_hash t). descending C (t_hash t ! b) \<and>
        (\<forall>p \<in> set (t_hash t ! b). in_place v C M i k (t_shift t) b p))"

definition tables_ok :: "kstate \<Rightarrow> bool" where
  "tables_ok s \<longleftrightarrow> (\<forall>i k t. tbl s i k = Some t \<longrightarrow> table_ok (env s) (cont s) (chunk_man s) i k t)"

definition table_deads :: "nodemanager \<Rightarrow> int" where
  "table_deads m = (\<Sum>t\<leftarrow>m_subtables m. case t of None \<Rightarrow> 0 | Some t \<Rightarrow> t_deadcnt t)"

text \<open>
  \<open>man_ok\<close>: the cells on a free list are empty cells of the manager's chunks, the sentinel is
  a node of zeros outside the tables, and the dead nodes of the manager are those of its tables.
\<close>

definition cell_ok :: "kstate \<Rightarrow> mid \<Rightarrow> ptr \<Rightarrow> bool" where
  "cell_ok s i p \<longleftrightarrow> cdd_rglr p = p \<and> chunk_man s (cdd_node2chunk p) = Some i"

definition man_ok :: "kstate \<Rightarrow> mid \<Rightarrow> nodemanager \<Rightarrow> bool" where
  "man_ok s i m \<longleftrightarrow>
     m_nodesize m = nodesize_of i \<and> length (m_subtables m) = cdd_levelcnt s \<and> 0 \<le> m_alloccnt m \<and>
     distinct (m_free m) \<and> (\<forall>p \<in> set (m_free m). nodes s p = None \<and> cell_ok s i p) \<and>
     cell_ok s i (m_sentinel m) \<and> m_sentinel m \<notin> tabled s \<and>
     (\<exists>k. cont s (m_sentinel m) = Some (k, zero_body i)) \<and>
     m_deadcnt m = table_deads m"

definition mans_ok :: "kstate \<Rightarrow> bool" where
  "mans_ok s \<longleftrightarrow> (\<forall>i m. man_of s i = Some m \<longrightarrow> man_ok s i m)"

text \<open>
  Owners: the nodes whose edges count as references.  These are the nodes with references
  of their own, and the nodes of \<open>F\<close>: those that an operation has just made or revived, whose
  children are referenced although nobody references them yet.  \<open>W\<close> holds nodes that
  \<^verbatim>\<open>cdd_reclaim\<close> has on its work list.
\<close>

definition own :: "ptr set \<Rightarrow> (ptr \<Rightarrow> nat) \<Rightarrow> ptr set \<Rightarrow> ptr set \<Rightarrow> ptr set" where
  "own T R F W = {p \<in> T. (0 < R p \<or> p \<in> F) \<and> p \<notin> W}"

definition indeg :: "contents \<Rightarrow> ptr set \<Rightarrow> ptr \<Rightarrow> nat" where
  "indeg C O' q = (\<Sum>p\<in>O'. count_list (map cdd_rglr (kids_of C p)) q)"

definition refs_ok :: "kstate \<Rightarrow> (ptr \<Rightarrow> nat) \<Rightarrow> ptr set \<Rightarrow> ptr set \<Rightarrow> bool" where
  "refs_ok s X F W \<longleftrightarrow>
     (\<forall>q \<in> tabled s. rf s q \<le> MAXREF \<and>
        (rf s q \<noteq> MAXREF \<longrightarrow> X q + indeg (cont s) (own (tabled s) (rf s) F W) q \<le> rf s q)) \<and>
     (\<forall>q. 0 < X q \<longrightarrow> q \<in> tabled s \<or> q = cddfalse)"

definition owners_sound :: "kstate \<Rightarrow> ptr set \<Rightarrow> ptr set \<Rightarrow> (nat \<Rightarrow> raw_t set) \<Rightarrow> bool" where
  "owners_sound s F W B \<longleftrightarrow>
     (\<forall>p \<in> own (tabled s) (rf s) F {} \<union> W. sound (cont s) (tabled s) (cdd_levelinfo s) B p)"

definition dead_ok :: "kstate \<Rightarrow> ptr set \<Rightarrow> ptr set \<Rightarrow> bool" where
  "dead_ok s F W \<longleftrightarrow> (\<forall>i k t. tbl s i k = Some t \<longrightarrow>
     t_deadcnt t \<le> int (card {p \<in> chained t. rf s p = 0 \<and> p \<notin> F \<or> p \<in> W}))"

text \<open>
  The environment: chunks are aligned, and a new chunk is none of those in use.  The
  repository's \<^verbatim>\<open>MAXLEVEL\<close> bounds the number of levels; a node of 8190 elements still fits
  into a chunk.
\<close>

definition static_ok :: "kstate \<Rightarrow> (nat \<Rightarrow> raw_t set) \<Rightarrow> bool" where
  "static_ok s B \<longleftrightarrow>
     (\<forall>n \<ge> os_chunks s. env_chunk (env s) n AND 0xFFFF = 0 \<and> chunk_man s (env_chunk (env s) n) = None \<and>
        (\<forall>m \<ge> os_chunks s. m \<noteq> n \<longrightarrow> env_chunk (env s) m = env_chunk (env s) n \<longrightarrow> env_chunk (env s) n = 0) \<and>
        (\<forall>p. cdd_node2chunk p = env_chunk (env s) n \<longrightarrow> env_chunk (env s) n \<noteq> 0 \<longrightarrow> nodes s p = None)) \<and>
     chunk_man s 0 = None \<and>
     length (cdd_levelinfo s) = cdd_levelcnt s \<and> cdd_levelcnt s \<le> MAXLEVEL \<and>
     length (cddmanager s) = cdd_maxcddsize s + 1 \<and> 2 \<le> cdd_maxcddsize s \<and> cdd_maxcddsize s \<le> 8190 \<and>
     bddmanager s \<noteq> None \<and>
     (postgbc_handler s \<longrightarrow> postrehash_handler s) \<and> cdd_errorcond s = 0 \<and>
     (\<exists>fl. nodes s cddfalse = Some \<lparr>n_level = MAXLEVEL, n_ref = MAXREF, n_flag = fl, n_body = Term\<rparr>) \<and>
     (\<forall>k. finite (B k) \<and> bnd_INF \<in> B k \<and> (\<forall>b \<in> B k. \<bar>b\<bar> \<le> bnd_INF) \<and> card (B k) \<le> cdd_maxcddsize s)"

definition core :: "kstate \<Rightarrow> (ptr \<Rightarrow> nat) \<Rightarrow> ptr set \<Rightarrow> ptr set \<Rightarrow> (nat \<Rightarrow> raw_t set) \<Rightarrow> bool" where
  "core s X F W B \<longleftrightarrow> static_ok s B \<and> tables_ok s \<and> mans_ok s \<and> refs_ok s X F W \<and>
     owners_sound s F W B \<and> dead_ok s F W"

section \<open>The caches\<close>

definition cddop_and :: int where
  "cddop_and = 0"

definition cddop_xor :: int where
  "cddop_xor = 1"

definition op_sem :: "int \<Rightarrow> bool \<Rightarrow> bool \<Rightarrow> bool" where
  "op_sem op x y = (if op = cddop_and then x \<and> y else x \<noteq> y)"

text \<open>An entry of the apply cache is right if its diagrams are well formed and it states the
  result of its operation, at a level no higher in the diagram than its arguments.\<close>

definition apply_entry_ok :: "kstate \<Rightarrow> (nat \<Rightarrow> raw_t set) \<Rightarrow> cache_data \<Rightarrow> bool" where
  "apply_entry_ok s B e \<longleftrightarrow>
     (\<forall>p \<in> set (cache_ptrs e). sound (cont s) (tabled s) (cdd_levelinfo s) B p) \<and>
     (c_b e \<noteq> 0 \<longrightarrow> c_c e = cddop_and \<or> c_c e = cddop_xor \<longrightarrow>
        min (lv (cont s) (c_a e)) (lv (cont s) (c_b e)) \<le> lv (cont s) (c_res e) \<and>
        (\<forall>a. eval (cont s) a (c_res e) = op_sem (c_c e) (eval (cont s) a (c_a e)) (eval (cont s) a (c_b e))))"

definition entry_sound :: "kstate \<Rightarrow> (nat \<Rightarrow> raw_t set) \<Rightarrow> cache_data \<Rightarrow> bool" where
  "entry_sound s B e \<longleftrightarrow>
     (\<forall>p \<in> set (cache_ptrs e). sound (cont s) (tabled s) (cdd_levelinfo s) B p)"

text \<open>
  The entries of the other two caches have one argument and the number of the call that wrote them.  What
  such an entry must state about its argument and its result is a parameter: \<open>T c\<close> relates the two
  for the call \<open>c\<close>, so that a call can rely on the entries it wrote itself.
\<close>

type_synonym meaning = "int \<Rightarrow> (asg \<Rightarrow> bool) \<Rightarrow> (asg \<Rightarrow> bool) \<Rightarrow> bool"

definition any_meaning :: meaning where
  "any_meaning c \<phi> \<psi> \<longleftrightarrow> True"

definition entry_means :: "meaning \<Rightarrow> kstate \<Rightarrow> (nat \<Rightarrow> raw_t set) \<Rightarrow> cache_data \<Rightarrow> bool" where
  "entry_means T s B e \<longleftrightarrow> entry_sound s B e \<and> T (c_c e) (\<lambda>a. eval (cont s) a (c_a e)) (\<lambda>a. eval (cont s) a (c_res e))"

definition cache_shape :: "cddcache \<Rightarrow> bool" where
  "cache_shape c \<longleftrightarrow> 0 < cache_tablesize c \<and> length (cache_table c) = cache_tablesize c"

definition unary_cache :: "cddcache \<Rightarrow> bool" where
  "unary_cache c \<longleftrightarrow> cache_shape c \<and> (\<forall>e \<in> set (cache_table c). c_b e = 0)"

definition caches_mean :: "meaning \<Rightarrow> kstate \<Rightarrow> (nat \<Rightarrow> raw_t set) \<Rightarrow> bool" where
  "caches_mean T s B \<longleftrightarrow>
     cache_shape (applycache s) \<and> unary_cache (quantcache s) \<and> unary_cache (replacecache s) \<and>
     opcache.all_live (apply_entry_ok s B) (applycache s) \<and>
     opcache.all_live (entry_means T s B) (quantcache s) \<and>
     opcache.all_live (entry_means T s B) (replacecache s)"

abbreviation caches_ok :: "kstate \<Rightarrow> (nat \<Rightarrow> raw_t set) \<Rightarrow> bool" where
  "caches_ok \<equiv> caches_mean any_meaning"

lemmas caches_ok_def = caches_mean_def [where T = any_meaning]

text \<open>
  \<open>INV s X F B\<close>: \<open>X p\<close> references to the node \<open>p\<close> are held outside the library, \<open>F\<close> are the
  nodes returned without a reference, \<open>B k\<close> the bounds that may occur at level \<open>k\<close>.
\<close>

definition INV :: "kstate \<Rightarrow> (ptr \<Rightarrow> nat) \<Rightarrow> ptr set \<Rightarrow> (nat \<Rightarrow> raw_t set) \<Rightarrow> bool" where
  "INV s X F B \<longleftrightarrow> core s X F {} B \<and> caches_ok s B"

text \<open>The diagrams a client may use: those it holds references to, with their descendants.\<close>

inductive_set held :: "contents \<Rightarrow> (ptr \<Rightarrow> nat) \<Rightarrow> ptr set" for C X where
  held_term: "cddfalse \<in> held C X"
| held_token: "0 < X p \<Longrightarrow> p \<in> held C X"
| held_kid: "p \<in> held C X \<Longrightarrow> c \<in> set (kids_of C p) \<Longrightarrow> cdd_rglr c \<in> held C X"

end
