(* ===== verification/Store_Lemmas.thy ===== *)
theory Store_Lemmas
  imports Store_Inv
begin

text \<open>
  Consequences of the invariant that all operations use: the evaluation of well-formed
  diagrams, what survives when the store changes elsewhere, the uniqueness of a node's
  place, and the bookkeeping of references.
\<close>

section \<open>Evaluation\<close>

lemma lv_rglr [simp]: "lv C (cdd_rglr p) = lv C p"
  by (simp add: lv_def)

lemma lv_neg [simp]: "lv C (cdd_neg p) = lv C p"
  by (simp add: lv_def)

lemma lv_neg_mask [simp]: "lv C (cdd_neg_cond p (cdd_mask q)) = lv C p"
  by (simp add: lv_def)

lemma kids_of_rglr [simp]: "kids_of C (cdd_rglr p) = kids_of C p"
  by (simp add: kids_of_def)

lemma eval_split: "eval C a p = ((cdd_mask p \<noteq> 0) \<noteq> eval C a (cdd_rglr p))"
  by (subst (1 2) eval.simps) simp

lemma eval_None: "C (cdd_rglr p) = None \<Longrightarrow> eval C a p \<longleftrightarrow> cdd_mask p \<noteq> 0"
  by (subst eval.simps) simp

lemma eval_Some:
  assumes "C (cdd_rglr p) = Some (k, b)"
  shows "eval C a p \<longleftrightarrow> (cdd_mask p \<noteq> 0) \<noteq>
    (case next_child a k b of None \<Rightarrow> False | Some c \<Rightarrow> k < lv C c \<and> k < MAXLEVEL \<and> eval C a c)"
  by (subst eval.simps) (auto simp: assms split: option.splits)

lemma eval_neg [simp]: "eval C a (cdd_neg p) = (\<not> eval C a p)"
  using eval_split [of C a p] eval_split [of C a "cdd_neg p"] by (auto simp: mask_neg)

lemma eval_neg_cond: "eval C a (cdd_neg_cond p (cdd_mask q)) = (eval C a p \<noteq> (cdd_mask q \<noteq> 0))"
  using mask_cases [of q] by auto

lemma eval_term:
  assumes "C cddfalse = Some (k, Term)" "cdd_rglr p = cddfalse"
  shows "eval C a p = (cdd_mask p \<noteq> 0)"
  by (subst eval.simps) (simp add: assms next_child_def)

lemma mask_cddfalse [simp]: "cdd_mask cddfalse = 0"
  by (simp add: cddfalse_def cdd_mask_def)

lemma rglr_cddfalse [simp]: "cdd_rglr cddfalse = cddfalse"
  using regular_iff [of cddfalse] by simp

lemma rglr_cddtrue [simp]: "cdd_rglr cddtrue = cddfalse"
  by (simp add: cddtrue_def)

lemma mask_cddtrue [simp]: "cdd_mask cddtrue = 1"
  by (simp add: cddtrue_def mask_neg)

lemma tf_cases: "cdd_rglr p = cddfalse \<Longrightarrow> p = cddfalse \<or> p = cddtrue"
  using rglr_eq_cases [of p cddfalse] by (simp add: cddtrue_def)

section \<open>Soundness\<close>

lemma sound_rglr_iff: "sound C T L B (cdd_rglr p) \<longleftrightarrow> sound C T L B p"
proof
  assume "sound C T L B (cdd_rglr p)"
  then show "sound C T L B p"
    by (cases rule: soundE) (auto intro: sound.intros)
next
  assume "sound C T L B p"
  then show "sound C T L B (cdd_rglr p)"
    by (cases rule: soundE) (auto intro: sound.intros)
qed

lemma sound_neg [simp]: "sound C T L B (cdd_neg p) \<longleftrightarrow> sound C T L B p"
  by (metis sound_rglr_iff rglr_neg)

lemma sound_neg_mask [simp]: "sound C T L B (cdd_neg_cond p (cdd_mask q)) \<longleftrightarrow> sound C T L B p"
  by (metis sound_rglr_iff rglr_neg_mask)

lemma sound_cddfalse [simp]: "sound C T L B cddfalse"
  by (rule sound_term) simp

lemma sound_cddtrue [simp]: "sound C T L B cddtrue"
  by (rule sound_term) simp

lemma sound_place: "sound C T L B p \<Longrightarrow> cdd_rglr p \<in> T \<or> cdd_rglr p = cddfalse"
  by (erule soundE) auto

lemma sound_kid:
  assumes "sound C T L B p" "c \<in> set (kids_of C p)" "C cddfalse = Some (k, Term)"
  shows "sound C T L B c \<and> lv C p < lv C c"
  using assms(1) by (cases rule: soundE) (use assms(2,3) in \<open>auto simp: kids_of_def lv_def\<close>)

lemma sound_level:
  assumes "sound C T L B p" "cdd_rglr p \<noteq> cddfalse"
  shows "lv C p < length L"
  using assms by (auto elim!: soundE simp: lv_def shape_ok_def)

text \<open>What is kept on a set of nodes closed under edges keeps its meaning there.\<close>

definition closed_set :: "contents \<Rightarrow> ptr set \<Rightarrow> bool" where
  "closed_set C K \<longleftrightarrow> (\<forall>p \<in> K. \<forall>c \<in> set (kids_of C p). cdd_rglr c \<in> K)"

lemma lv_keep: "C' (cdd_rglr p) = C (cdd_rglr p) \<Longrightarrow> lv C' p = lv C p"
  by (simp add: lv_def)

lemma sound_keep:
  assumes "sound C T L B p" "closed_set C K" "\<And>q. q \<in> K \<Longrightarrow> C' q = C q" "K \<inter> T \<subseteq> T'" "cdd_rglr p \<in> K"
  shows "sound C' T' L B p"
  using assms(1,5)
proof (induction rule: sound.induct)
  case (sound_term p)
  then show ?case by (auto intro: sound.intros)
next
  case (sound_node p k b)
  have kid: "c \<in> set (kids b) \<Longrightarrow> cdd_rglr c \<in> K" for c
    using assms(2) sound_node.prems sound_node.hyps(1) unfolding closed_set_def kids_of_def
    by (force split: option.splits)
  show ?case
  proof (rule sound.sound_node)
    show "C' (cdd_rglr p) = Some (k, b)" using assms(3) [OF sound_node.prems] sound_node.hyps(1) by simp
    show "cdd_rglr p \<in> T'" using assms(4) sound_node.prems sound_node.hyps(2) by blast
    show "shape_ok L B k b" by fact
    show "c \<in> set (kids b) \<Longrightarrow> sound C' T' L B c" for c
      using sound_node.IH kid by blast
    show "c \<in> set (kids b) \<Longrightarrow> k < lv C' c" for c
      using sound_node.hyps(5) [of c] lv_keep [of C' c C] assms(3) [of "cdd_rglr c"] kid [of c] by simp
  qed
qed

lemma next_child_kid: "next_child a k b = Some c \<Longrightarrow> c \<in> set (kids b)"
  by (auto simp: next_child_def select_def find_Some_iff split: body.splits)

lemma eval_keep:
  assumes "closed_set C K" "\<And>q. q \<in> K \<Longrightarrow> C' q = C q" "cdd_rglr p \<in> K"
  shows "eval C' a p = eval C a p"
  using assms(3)
proof (induction "MAXLEVEL - lv C p" arbitrary: p rule: less_induct)
  case less
  show ?case
  proof (cases "C (cdd_rglr p)")
    case None
    then show ?thesis
      using assms(2) [OF less.prems] by (simp add: eval_None)
  next
    case (Some kb)
    then obtain k b where kb: "C (cdd_rglr p) = Some (k, b)" by (cases kb) auto
    then have kb': "C' (cdd_rglr p) = Some (k, b)" using assms(2) [OF less.prems] by simp
    have kp: "k = lv C p" using kb by (simp add: lv_def)
    show ?thesis
    proof (cases "next_child a k b")
      case None
      then show ?thesis by (simp add: eval_Some [of C p k b, OF kb] eval_Some [of C' p k b, OF kb'])
    next
      case (Some c)
      then have "c \<in> set (kids_of C (cdd_rglr p))"
        using next_child_kid kb by (fastforce simp: kids_of_def)
      then have cK: "cdd_rglr c \<in> K"
        using assms(1) less.prems unfolding closed_set_def by blast
      then have lc: "lv C' c = lv C c" by (intro lv_keep assms(2))
      have "k < lv C c \<Longrightarrow> k < MAXLEVEL \<Longrightarrow> eval C' a c = eval C a c"
        using less.hyps [of c] cK kp by simp
      then show ?thesis
        using Some lc by (auto simp: eval_Some [of C p k b, OF kb] eval_Some [of C' p k b, OF kb'])
    qed
  qed
qed

section \<open>A node's place in the tables\<close>

lemma man_of_put_man [simp]:
  "man_of s i \<noteq> None \<Longrightarrow> man_of (put_man i m s) j = (if j = i then Some m else man_of s j)"
  by (cases i; cases j) (auto split: if_splits)

lemma tbl_iff: "tbl s i k = Some t \<longleftrightarrow> (\<exists>m. man_of s i = Some m \<and> table_of m k = Some t)"
  by (auto simp: tbl_def split: option.splits)

lemma chained_iff: "p \<in> chained t \<longleftrightarrow> (\<exists>b < length (t_hash t). p \<in> set (t_hash t ! b))"
  by (simp add: chained_def) (metis in_set_conv_nth)

lemma tabled_iff: "p \<in> tabled s \<longleftrightarrow> (\<exists>i k t. tbl s i k = Some t \<and> p \<in> chained t)"
  by (simp add: tabled_def)

lemma tabledI: "tbl s i k = Some t \<Longrightarrow> p \<in> chained t \<Longrightarrow> p \<in> tabled s"
  by (auto simp: tabled_iff)

lemma chained_place:
  assumes "tables_ok s" "tbl s i k = Some t" "p \<in> chained t"
  obtains b body where "b < length (t_hash t)" "p \<in> set (t_hash t ! b)" "cdd_rglr p = p"
    "chunk_man s (cdd_node2chunk p) = Some i" "cont s p = Some (k, body)" "fits i body"
    "bucket_index (t_shift t) (body_hash (env s) body) = b"
  using assms unfolding tables_ok_def table_ok_def in_place_def chained_iff by blast

lemma tabled_node:
  assumes "tables_ok s" "p \<in> tabled s"
  obtains n where "nodes s p = Some n" "cdd_rglr p = p"
  using assms unfolding tabled_iff
  by (auto elim!: chained_place simp: cont_def)

lemma place_unique:
  assumes "tables_ok s" "tbl s i k = Some t" "p \<in> chained t" "tbl s i' k' = Some t'" "p \<in> chained t'"
  shows "i' = i \<and> k' = k \<and> t' = t"
proof -
  from chained_place [OF assms(1-3)] obtain b where 1: "chunk_man s (cdd_node2chunk p) = Some i" "cont s p = Some (k, b)" .
  from chained_place [OF assms(1) assms(4,5)] obtain b' where 2: "chunk_man s (cdd_node2chunk p) = Some i'" "cont s p = Some (k', b')" .
  have "i' = i" "k' = k" using 1 2 by simp_all
  with assms(2,4) show ?thesis by simp
qed

section \<open>States that differ in counters only\<close>

text \<open>
  \<open>sim\<close>: the same nodes in the same chains; reference counts, marks and the counters of dead
  and used nodes may differ.
\<close>

definition blank :: "kstate \<Rightarrow> kstate" where
  "blank s = s\<lparr>nodes := (\<lambda>_. None), bddmanager := None, cddmanager := [], stderr := [], cdd_rehashcnt := 0\<rparr>"

definition mshape :: "nodemanager \<Rightarrow> nodemanager" where
  "mshape m = m\<lparr>m_deadcnt := 0, m_usedcnt := 0,
     m_subtables := map (map_option (\<lambda>t. t\<lparr>t_deadcnt := 0\<rparr>)) (m_subtables m)\<rparr>"

definition sim :: "kstate \<Rightarrow> kstate \<Rightarrow> bool" where
  "sim s s' \<longleftrightarrow> blank s' = blank s \<and> cont s' = cont s \<and>
     (\<forall>i. map_option mshape (man_of s' i) = map_option mshape (man_of s i)) \<and>
     length (cddmanager s') = length (cddmanager s)"

lemma sim_refl [simp]: "sim s s"
  by (simp add: sim_def)

lemma sim_trans: "sim s t \<Longrightarrow> sim t u \<Longrightarrow> sim s u"
  by (simp add: sim_def)

lemma sim_sym: "sim s t \<Longrightarrow> sim t s"
  by (simp add: sim_def)

lemma blank_fields:
  assumes "blank s' = blank s"
  shows "env s' = env s" "cell_flag s' = cell_flag s" "chunk_man s' = chunk_man s" "os_chunks s' = os_chunks s"
    "cdd_levelcnt s' = cdd_levelcnt s" "cdd_gbccnt s' = cdd_gbccnt s"
    "cdd_maxcddsize s' = cdd_maxcddsize s" "cdd_maxcddused s' = cdd_maxcddused s"
    "cdd_clocknum s' = cdd_clocknum s" "cdd_levelinfo s' = cdd_levelinfo s" "cdd_diff2level s' = cdd_diff2level s"
    "cdd_errorcond s' = cdd_errorcond s" "cdd_refstack s' = cdd_refstack s"
    "postgbc_handler s' = postgbc_handler s" "postrehash_handler s' = postrehash_handler s"
    "extra_terminals s' = extra_terminals s"
    "applycache s' = applycache s" "quantcache s' = quantcache s" "replacecache s' = replacecache s"
    "relaxcache s' = relaxcache s" "applyop s' = applyop s" "opid s' = opid s" "cdd_running s' = cdd_running s"
  using arg_cong [OF assms, of env]
    arg_cong [OF assms, of cell_flag]
    arg_cong [OF assms, of chunk_man]
    arg_cong [OF assms, of os_chunks]
    arg_cong [OF assms, of cdd_levelcnt]
    arg_cong [OF assms, of cdd_gbccnt]
    arg_cong [OF assms, of cdd_maxcddsize]
    arg_cong [OF assms, of cdd_maxcddused]
    arg_cong [OF assms, of cdd_clocknum]
    arg_cong [OF assms, of cdd_levelinfo]
    arg_cong [OF assms, of cdd_diff2level]
    arg_cong [OF assms, of cdd_errorcond]
    arg_cong [OF assms, of cdd_refstack]
    arg_cong [OF assms, of postgbc_handler]
    arg_cong [OF assms, of postrehash_handler]
    arg_cong [OF assms, of extra_terminals]
    arg_cong [OF assms, of applycache]
    arg_cong [OF assms, of quantcache]
    arg_cong [OF assms, of replacecache]
    arg_cong [OF assms, of relaxcache]
    arg_cong [OF assms, of applyop]
    arg_cong [OF assms, of opid]
    arg_cong [OF assms, of cdd_running]
  by (simp_all add: blank_def)

lemma nodes_None_cont: "nodes s p = None \<longleftrightarrow> cont s p = None"
  by (simp add: cont_def)

lemma mshape_eqD:
  assumes "mshape m' = mshape m"
  shows "m_nodesize m' = m_nodesize m" "m_freecnt m' = m_freecnt m" "m_alloccnt m' = m_alloccnt m"
    "m_free m' = m_free m" "m_nodes m' = m_nodes m" "m_sentinel m' = m_sentinel m"
    "length (m_subtables m') = length (m_subtables m)"
  using arg_cong [OF assms, of m_nodesize] arg_cong [OF assms, of m_freecnt] arg_cong [OF assms, of m_alloccnt]
    arg_cong [OF assms, of m_free] arg_cong [OF assms, of m_nodes] arg_cong [OF assms, of m_sentinel]
    arg_cong [OF assms, of "length \<circ> m_subtables"]
  by (simp_all add: mshape_def)

lemma mshape_table:
  assumes "mshape m' = mshape m" "table_of m k = Some t"
  obtains t' where "table_of m' k = Some t'" "t_hash t' = t_hash t" "t_shift t' = t_shift t"
    "t_keys t' = t_keys t" "t_maxkeys t' = t_maxkeys t"
proof -
  have len: "length (m_subtables m') = length (m_subtables m)"
    using mshape_eqD [OF assms(1)] by simp
  have k: "k < length (m_subtables m)" "m_subtables m ! k = Some t"
    using assms(2) by (auto simp: table_of_def split: if_splits)
  have "map (map_option (\<lambda>t. t\<lparr>t_deadcnt := 0\<rparr>)) (m_subtables m') ! k
      = map (map_option (\<lambda>t. t\<lparr>t_deadcnt := 0\<rparr>)) (m_subtables m) ! k"
    using arg_cong [OF assms(1), of m_subtables] by (simp add: mshape_def)
  then have "map_option (\<lambda>t. t\<lparr>t_deadcnt := 0\<rparr>) (m_subtables m' ! k) = Some (t\<lparr>t_deadcnt := 0\<rparr>)"
    using k len by simp
  then obtain t' where t': "m_subtables m' ! k = Some t'" "t'\<lparr>t_deadcnt := 0\<rparr> = t\<lparr>t_deadcnt := 0\<rparr>"
    by auto
  show ?thesis
  proof (rule that)
    show "table_of m' k = Some t'" using t' k len by (simp add: table_of_def)
    show "t_hash t' = t_hash t" "t_shift t' = t_shift t" "t_keys t' = t_keys t" "t_maxkeys t' = t_maxkeys t"
      using arg_cong [OF t'(2), of t_hash] arg_cong [OF t'(2), of t_shift]
        arg_cong [OF t'(2), of t_keys] arg_cong [OF t'(2), of t_maxkeys] by simp_all
  qed
qed

lemma sim_man:
  assumes "sim s s'" "man_of s i = Some m"
  obtains m' where "man_of s' i = Some m'" "mshape m' = mshape m"
proof -
  have "map_option mshape (man_of s' i) = Some (mshape m)"
    using assms by (simp add: sim_def)
  then show ?thesis using that by auto
qed

lemma sim_tbl:
  assumes "sim s s'" "tbl s i k = Some t"
  obtains t' where "tbl s' i k = Some t'" "t_hash t' = t_hash t" "t_shift t' = t_shift t"
    "t_keys t' = t_keys t" "t_maxkeys t' = t_maxkeys t"
proof -
  from assms(2) obtain m where m: "man_of s i = Some m" "table_of m k = Some t" by (auto simp: tbl_iff)
  from sim_man [OF assms(1) m(1)] obtain m' where m': "man_of s' i = Some m'" "mshape m' = mshape m" .
  from mshape_table [OF m'(2) m(2)] obtain t' where "table_of m' k = Some t'" "t_hash t' = t_hash t"
    "t_shift t' = t_shift t" "t_keys t' = t_keys t" "t_maxkeys t' = t_maxkeys t" .
  with m'(1) that show ?thesis by (auto simp: tbl_iff)
qed

lemma sim_tabled: "sim s s' \<Longrightarrow> tabled s' = tabled s"
  by (rule set_eqI) (metis (no_types) chained_def sim_sym sim_tbl tabled_iff)

lemma sim_bdd: "sim s s' \<Longrightarrow> bddmanager s \<noteq> None \<Longrightarrow> bddmanager s' \<noteq> None"
  using sim_man [of s s' BddMan] by auto

lemma sim_fields:
  assumes "sim s s'"
  shows "cont s' = cont s" "blank s' = blank s" "tabled s' = tabled s"
    "length (cddmanager s') = length (cddmanager s)"
  using assms sim_tabled [OF assms] by (simp_all add: sim_def)

lemma sim_tables_ok:
  assumes "sim s s'" "tables_ok s"
  shows "tables_ok s'"
  unfolding tables_ok_def
proof (intro allI impI)
  fix i k t'
  assume "tbl s' i k = Some t'"
  from sim_tbl [OF sim_sym [OF assms(1)] this] obtain t where t: "tbl s i k = Some t"
    "t_hash t = t_hash t'" "t_shift t = t_shift t'" by blast
  have "table_ok (env s) (cont s) (chunk_man s) i k t"
    using assms(2) t(1) by (simp add: tables_ok_def)
  moreover have "env s' = env s" "chunk_man s' = chunk_man s"
    using blank_fields sim_fields(2) [OF assms(1)] by blast+
  ultimately show "table_ok (env s') (cont s') (chunk_man s') i k t'"
    by (simp add: table_ok_def sim_fields(1) [OF assms(1)] t)
qed

lemma cont_term:
  "nodes s cddfalse = Some \<lparr>n_level = MAXLEVEL, n_ref = MAXREF, n_flag = fl, n_body = Term\<rparr>
    \<Longrightarrow> cont s cddfalse = Some (MAXLEVEL, Term) \<and> rf s cddfalse = MAXREF"
  by (simp add: cont_def rf_def)

lemma sim_static:
  assumes "sim s s'" "static_ok s B" "rf s' cddfalse = MAXREF"
  shows "static_ok s' B"
proof -
  note f = blank_fields [OF sim_fields(2) [OF assms(1)]] sim_fields [OF assms(1)]
  have n: "nodes s' p = None \<longleftrightarrow> nodes s p = None" for p
    by (simp add: nodes_None_cont f)
  from assms(2) have "cont s cddfalse = Some (MAXLEVEL, Term)"
    by (auto simp: static_ok_def cont_def)
  then have "cont s' cddfalse = Some (MAXLEVEL, Term)" by (simp add: f)
  with assms(3) obtain nd where nd: "nodes s' cddfalse = Some nd" "n_level nd = MAXLEVEL" "n_body nd = Term" "n_ref nd = MAXREF"
    by (auto simp: cont_def rf_def)
  have "nd = \<lparr>n_level = MAXLEVEL, n_ref = MAXREF, n_flag = n_flag nd, n_body = Term\<rparr>"
    using nd by (cases nd) simp
  with nd(1) have "\<exists>fl. nodes s' cddfalse = Some \<lparr>n_level = MAXLEVEL, n_ref = MAXREF, n_flag = fl, n_body = Term\<rparr>"
    by metis
  moreover have "bddmanager s' \<noteq> None"
    using assms(2) sim_bdd [OF assms(1)] by (simp add: static_ok_def)
  ultimately show ?thesis
    using assms(2) unfolding static_ok_def by (simp add: f n del: not_None_eq)
qed

lemma sim_mans:
  assumes "sim s s'" "mans_ok s"
    and "\<And>i m. man_of s' i = Some m \<Longrightarrow> m_deadcnt m = table_deads m"
  shows "mans_ok s'"
  unfolding mans_ok_def
proof (intro allI impI)
  fix i m'
  assume m': "man_of s' i = Some m'"
  from sim_man [OF sim_sym [OF assms(1)] this] obtain m where m: "man_of s i = Some m" "mshape m = mshape m'" .
  have ok: "man_ok s i m" using assms(2) m(1) by (simp add: mans_ok_def)
  note f = blank_fields [OF sim_fields(2) [OF assms(1)]] sim_fields [OF assms(1)]
  show "man_ok s' i m'"
    using ok mshape_eqD [OF m(2)] assms(3) [OF m']
    unfolding man_ok_def cell_ok_def by (simp add: f nodes_None_cont)
qed

lemma sim_core:
  assumes "sim s s'" "core s X F W B" "rf s' cddfalse = MAXREF"
    and "\<And>i m. man_of s' i = Some m \<Longrightarrow> m_deadcnt m = table_deads m"
    and "refs_ok s' X' F' W'" "owners_sound s' F' W' B" "dead_ok s' F' W'"
  shows "core s' X' F' W' B"
  using assms unfolding core_def by (blast intro: sim_static sim_tables_ok sim_mans)

lemma sim_caches:
  assumes "sim s s'" "caches_mean T s B"
  shows "caches_mean T s' B"
proof -
  note f = blank_fields [OF sim_fields(2) [OF assms(1)]] sim_fields [OF assms(1)]
  have "apply_entry_ok s' B = apply_entry_ok s B" "entry_means T s' B = entry_means T s B"
    by (simp_all add: fun_eq_iff apply_entry_ok_def entry_means_def entry_sound_def f)
  with assms(2) show ?thesis by (simp add: caches_mean_def f)
qed

end
