(* ===== verification/Ref_Counting.thy ===== *)
theory Ref_Counting
  imports Store_Lemmas
begin

text \<open>
  Reference counting (\<^verbatim>\<open>cdd_ref\<close>, \<^verbatim>\<open>cdd_deref\<close>, \<^verbatim>\<open>cdd_rec_deref\<close>, \<^verbatim>\<open>cdd_reclaim\<close>): each
  keeps the invariant, moving references between the client's account, the work list and
  the edges of the store.  Contents of nodes and hash chains do not change (\<open>sim\<close>).
\<close>

section \<open>Owners and in-degrees\<close>

lemma indeg_mono: "O' \<subseteq> P \<Longrightarrow> indeg C O' q \<le> indeg C P q"
  unfolding indeg_def by (rule sum_mono2) auto

lemma indeg_insert: "p \<notin> O' \<Longrightarrow> indeg C (insert p O') q = count_list (map cdd_rglr (kids_of C p)) q + indeg C O' q"
  unfolding indeg_def by simp

lemma indeg_insert_le: "indeg C (insert p O') q \<le> count_list (map cdd_rglr (kids_of C p)) q + indeg C O' q"
  by (cases "p \<in> O'") (simp_all add: insert_absorb indeg_insert)

lemma indeg_remove:
  "p \<in> O' \<Longrightarrow> indeg C O' q = count_list (map cdd_rglr (kids_of C p)) q + indeg C (O' - {p}) q"
  unfolding indeg_def by (simp add: sum.remove)

lemma indeg_kid:
  assumes "p \<in> O'" "c \<in> set (kids_of C p)"
  shows "0 < indeg C O' (cdd_rglr c)"
proof -
  have "cdd_rglr c \<in> set (map cdd_rglr (kids_of C p))" using assms(2) by simp
  then have "0 < count_list (map cdd_rglr (kids_of C p)) (cdd_rglr c)"
    by (rule count_list_map_remove)
  then show ?thesis using indeg_remove [OF assms(1)] by simp
qed

lemma own_mono: "F' \<subseteq> F \<Longrightarrow> own T R F' W \<subseteq> own T R F W"
  by (auto simp: own_def)

lemma refs_ok_antitone:
  assumes "refs_ok s X F W" "F' \<subseteq> F" "\<And>q. X' q \<le> X q"
  shows "refs_ok s X' F' W"
  unfolding refs_ok_def
proof (intro conjI ballI allI impI)
  fix q assume q: "q \<in> tabled s"
  then show "rf s q \<le> MAXREF" using assms(1) by (simp add: refs_ok_def)
  assume "rf s q \<noteq> MAXREF"
  then have "X q + indeg (cont s) (own (tabled s) (rf s) F W) q \<le> rf s q"
    using assms(1) q by (simp add: refs_ok_def)
  moreover have "indeg (cont s) (own (tabled s) (rf s) F' W) q \<le> indeg (cont s) (own (tabled s) (rf s) F W) q"
    by (intro indeg_mono own_mono assms)
  ultimately show "X' q + indeg (cont s) (own (tabled s) (rf s) F' W) q \<le> rf s q"
    using assms(3) [of q] by linarith
next
  fix q assume "0 < X' q"
  then show "q \<in> tabled s \<or> q = cddfalse"
    using assms(1) assms(3) [of q] by (auto simp: refs_ok_def)
qed

lemma dead_ok_antitone:
  assumes "dead_ok s F W" "F' \<subseteq> F"
  shows "dead_ok s F' W"
  unfolding dead_ok_def
proof (intro allI impI)
  fix i k t assume "tbl s i k = Some t"
  then have "t_deadcnt t \<le> int (card {p \<in> chained t. rf s p = 0 \<and> p \<notin> F \<or> p \<in> W})"
    using assms(1) by (simp add: dead_ok_def)
  also have "\<dots> \<le> int (card {p \<in> chained t. rf s p = 0 \<and> p \<notin> F' \<or> p \<in> W})"
    by (rule of_nat_mono, rule card_mono) (use assms(2) in auto)
  finally show "t_deadcnt t \<le> \<dots>" .
qed

lemma core_antitone:
  assumes "core s X F W B" "F' \<subseteq> F" "\<And>q. X' q \<le> X q"
  shows "core s X' F' W B"
proof -
  have "refs_ok s X' F' W" by (rule refs_ok_antitone [OF _ assms(2,3)]) (use assms(1) in \<open>simp add: core_def\<close>)
  moreover have "dead_ok s F' W" by (rule dead_ok_antitone [OF _ assms(2)]) (use assms(1) in \<open>simp add: core_def\<close>)
  moreover have "owners_sound s F' W B"
    using assms(1) own_mono [OF assms(2)] unfolding core_def owners_sound_def by blast
  ultimately show ?thesis using assms(1) by (simp add: core_def)
qed

text \<open>A node with references may be listed in \<open>F\<close> or not.\<close>

lemma core_insert_live:
  assumes "core s X F W B" "0 < rf s p \<or> p \<notin> tabled s"
  shows "core s X (insert p F) W B"
proof -
  have o: "own (tabled s) (rf s) (insert p F) V = own (tabled s) (rf s) F V" for V
    using assms(2) by (auto simp: own_def)
  have "{q \<in> chained t. rf s q = 0 \<and> q \<notin> insert p F \<or> q \<in> W} = {q \<in> chained t. rf s q = 0 \<and> q \<notin> F \<or> q \<in> W}"
    if "tbl s i k = Some t" for i k t
    using assms(2) tabledI [OF that] by auto
  then have "dead_ok s (insert p F) W \<longleftrightarrow> dead_ok s F W"
    unfolding dead_ok_def by simp
  with assms(1) show ?thesis
    unfolding core_def refs_ok_def owners_sound_def o by blast
qed

lemma core_term:
  assumes "core s X F W B"
  shows "cont s cddfalse = Some (MAXLEVEL, Term)" "rf s cddfalse = MAXREF"
  using assms cont_term unfolding core_def static_ok_def by blast+

lemma term_not_tabled:
  assumes "core s X F W B"
  shows "cddfalse \<notin> tabled s"
proof
  assume "cddfalse \<in> tabled s"
  then obtain i k t where t: "tbl s i k = Some t" "cddfalse \<in> chained t" by (auto simp: tabled_iff)
  have "tables_ok s" using assms by (simp add: core_def)
  from chained_place [OF this t] obtain body where "cont s cddfalse = Some (k, body)" "fits i body" .
  with core_term [OF assms] show False by (cases i) auto
qed

section \<open>The client's view: held diagrams are owned\<close>

lemma held_live:
  assumes "core s X F {} B" "q \<in> held (cont s) X"
  shows "q = cddfalse \<or> q \<in> tabled s \<and> 0 < rf s q"
  using assms(2)
proof (induction rule: held.induct)
  case held_term
  then show ?case by simp
next
  case (held_token p)
  have "p \<in> tabled s \<Longrightarrow> rf s p \<noteq> MAXREF \<Longrightarrow> X p \<le> rf s p"
    using assms(1) unfolding core_def refs_ok_def by fastforce
  moreover have "p \<in> tabled s \<or> p = cddfalse"
    using assms(1) held_token unfolding core_def refs_ok_def by blast
  ultimately show ?case
    using held_token by (cases "rf s p = MAXREF") (auto simp: MAXREF_def)
next
  case (held_kid p c)
  have refs: "refs_ok s X F {}" and os: "owners_sound s F {} B"
    using assms(1) by (simp_all add: core_def)
  show ?case
  proof (cases "p = cddfalse")
    case True
    then show ?thesis using held_kid core_term(1) [OF assms(1)] by (simp add: kids_of_def)
  next
    case False
    with held_kid have p: "p \<in> tabled s" "0 < rf s p" by auto
    then have po: "p \<in> own (tabled s) (rf s) F {}" by (simp add: own_def)
    then have "sound (cont s) (tabled s) (cdd_levelinfo s) B p"
      using os by (simp add: owners_sound_def)
    then have "sound (cont s) (tabled s) (cdd_levelinfo s) B c"
      using sound_kid held_kid core_term(1) [OF assms(1)] by blast
    then have "cdd_rglr c \<in> tabled s \<or> cdd_rglr c = cddfalse" by (rule sound_place)
    moreover have "0 < indeg (cont s) (own (tabled s) (rf s) F {}) (cdd_rglr c)"
      by (rule indeg_kid [OF po held_kid.hyps(2)])
    ultimately show ?thesis
      using refs unfolding refs_ok_def MAXREF_def by fastforce
  qed
qed

lemma held_sound:
  assumes "core s X F {} B" "cdd_rglr p \<in> held (cont s) X"
  shows "sound (cont s) (tabled s) (cdd_levelinfo s) B p"
  using held_live [OF assms]
proof
  assume "cdd_rglr p = cddfalse"
  then show ?thesis by (rule sound_term)
next
  assume "cdd_rglr p \<in> tabled s \<and> 0 < rf s (cdd_rglr p)"
  then have "cdd_rglr p \<in> own (tabled s) (rf s) F {}" by (simp add: own_def)
  then have "sound (cont s) (tabled s) (cdd_levelinfo s) B (cdd_rglr p)"
    using assms(1) by (simp add: core_def owners_sound_def)
  then show ?thesis by (simp only: sound_rglr_iff)
qed

lemma closed_held: "closed_set C (held C X)"
  by (auto simp: closed_set_def intro: held_kid)

lemma held_mono: "(\<And>q. 0 < X q \<Longrightarrow> 0 < X' q) \<Longrightarrow> held C X \<subseteq> held C X'"
proof
  fix q assume X: "\<And>q. 0 < X q \<Longrightarrow> 0 < X' q" and "q \<in> held C X"
  from this(2) show "q \<in> held C X'" by induction (auto intro: held.intros X)
qed

section \<open>Giving and taking one reference\<close>

text \<open>\<open>with_toks X ps\<close>: the account \<open>X\<close> with one more reference for each entry of \<open>ps\<close>.\<close>

definition with_toks :: "(ptr \<Rightarrow> nat) \<Rightarrow> ptr list \<Rightarrow> ptr \<Rightarrow> nat" where
  "with_toks X ps q = X q + count_list (map cdd_rglr ps) q"

lemma with_toks_Nil [simp]: "with_toks X [] = X"
  by (simp add: with_toks_def fun_eq_iff)

lemma with_toks_Cons: "with_toks X (p # ps) q = with_toks X ps q + (if q = cdd_rglr p then 1 else 0)"
  by (simp add: with_toks_def)

lemma with_toks_app: "with_toks X (ps @ qs) q = with_toks X qs q + count_list (map cdd_rglr ps) q"
  by (simp add: with_toks_def)

lemma with_toks_le: "X q \<le> with_toks X ps q"
  by (simp add: with_toks_def)

lemma with_toks_rev: "with_toks X (rev ps @ qs) = with_toks X (ps @ qs)"
  by (simp add: fun_eq_iff with_toks_app flip: rev_map)

lemma sim_set_ref:
  assumes "nodes s (cdd_rglr p) = Some n"
  shows "sim s (set_node p (n\<lparr>n_ref := r\<rparr>) s)"
    and "rf (set_node p (n\<lparr>n_ref := r\<rparr>) s) = (rf s)(cdd_rglr p := r)"
    and "man_of (set_node p (n\<lparr>n_ref := r\<rparr>) s) i = man_of s i"
proof -
  show m: "man_of (set_node p (n\<lparr>n_ref := r\<rparr>) s) i = man_of s i" for i
    by (cases i) (simp_all add: set_node_def)
  show "rf (set_node p (n\<lparr>n_ref := r\<rparr>) s) = (rf s)(cdd_rglr p := r)"
    by (simp add: fun_eq_iff rf_def)
  have "cont (set_node p (n\<lparr>n_ref := r\<rparr>) s) = cont s"
    using assms by (simp add: fun_eq_iff cont_def)
  then show "sim s (set_node p (n\<lparr>n_ref := r\<rparr>) s)"
    by (simp add: sim_def m) (simp add: blank_def set_node_def)
qed

lemma wp_upd_node:
  assumes "nodes s (cdd_rglr p) = Some n"
  shows "wp (upd_node p f) Q s = Q () (set_node p (f n) s)"
  using assms by (simp add: wp_def upd_node_def bindM_def get_node_def someM_def modifyM_def)

lemma core_mans: "core s X F W B \<Longrightarrow> man_of s i = Some m \<Longrightarrow> m_deadcnt m = table_deads m"
  by (simp add: core_def mans_ok_def man_ok_def)

lemma core_node:
  assumes "core s X F W B" "p \<in> tabled s \<or> p = cddfalse"
  obtains n where "nodes s p = Some n" "n_ref n = rf s p"
proof -
  have "cont s p \<noteq> None"
    using assms core_term [OF assms(1)] unfolding core_def by (metis cont_def map_option_eq_Some option.distinct(1) tabled_node)
  then show ?thesis using that by (auto simp: cont_def rf_def)
qed

lemma sim_tbl_same:
  assumes "\<And>i. man_of s' i = man_of s i"
  shows "tbl s' i k = tbl s i k"
  by (simp add: tbl_def assms)

lemma cdd_ref_spec:
  assumes c: "core s (with_toks X ps) F {} B"
    and p: "cdd_rglr p = cddfalse \<or> cdd_rglr p \<in> tabled s \<and> (0 < rf s (cdd_rglr p) \<or> cdd_rglr p \<in> F)"
  shows "wp (cdd_ref p) (\<lambda>_ s'. core s' (with_toks X (p # ps)) F {} B \<and> sim s s' \<and>
           rf s' = (rf s)(cdd_rglr p := cdd_satinc (rf s (cdd_rglr p)))) s"
proof -
  obtain n where n: "nodes s (cdd_rglr p) = Some n" "n_ref n = rf s (cdd_rglr p)"
    using core_node [OF c] p by blast
  define s' where "s' = set_node p (n\<lparr>n_ref := cdd_satinc (n_ref n)\<rparr>) s"
  note S = sim_set_ref [OF n(1), of "cdd_satinc (n_ref n)", folded s'_def]
  have rf': "rf s' = (rf s)(cdd_rglr p := cdd_satinc (rf s (cdd_rglr p)))"
    using S(2) n(2) by simp
  have T: "tabled s' = tabled s" using sim_tabled [OF S(1)] .
  have C: "cont s' = cont s" using sim_fields(1) [OF S(1)] .
  have own: "own (tabled s) (rf s') F W = own (tabled s) (rf s) F W" for W
    unfolding rf' own_def cdd_satinc_def using p term_not_tabled [OF c] by (auto simp: MAXREF_def)
  have "core s' (with_toks X (p # ps)) F {} B"
  proof (rule sim_core [OF S(1) c])
    show "rf s' cddfalse = MAXREF"
      using core_term(2) [OF c] by (simp add: rf' cdd_satinc_def)
    show "m_deadcnt m = table_deads m" if "man_of s' i = Some m" for i m
      using core_mans [OF c] that S(3) by simp
    show "refs_ok s' (with_toks X (p # ps)) F {}"
      unfolding refs_ok_def T C own
    proof (intro conjI ballI allI impI)
      fix q assume q: "q \<in> tabled s"
      have old: "rf s q \<le> MAXREF" "rf s q \<noteq> MAXREF \<longrightarrow>
          with_toks X ps q + indeg (cont s) (own (tabled s) (rf s) F {}) q \<le> rf s q"
        using c q by (simp_all add: core_def refs_ok_def)
      then show "rf s' q \<le> MAXREF" by (auto simp: rf' cdd_satinc_def)
      assume "rf s' q \<noteq> MAXREF"
      then show "with_toks X (p # ps) q + indeg (cont s) (own (tabled s) (rf s) F {}) q \<le> rf s' q"
        using old by (auto simp: rf' cdd_satinc_def with_toks_Cons split: if_splits)
    next
      fix q assume "0 < with_toks X (p # ps) q"
      then show "q \<in> tabled s \<or> q = cddfalse"
        using c p by (auto simp: with_toks_Cons core_def refs_ok_def split: if_splits)
    qed
    show "owners_sound s' F {} B"
      using c sim_fields(2) [OF S(1), THEN blank_fields(10)]
      unfolding owners_sound_def T C own core_def by simp
    show "dead_ok s' F {}"
    proof -
      have "{r \<in> chained t. rf s' r = 0 \<and> r \<notin> F \<or> r \<in> {}} = {r \<in> chained t. rf s r = 0 \<and> r \<notin> F \<or> r \<in> {}}"
        if "tbl s i k = Some t" for i k t
        using p term_not_tabled [OF c] tabledI [OF that] by (auto simp: rf' cdd_satinc_def MAXREF_def)
      then show ?thesis
        using c unfolding core_def dead_ok_def sim_tbl_same [OF S(3)] by simp
    qed
  qed
  then show ?thesis
    unfolding cdd_ref_def wp_upd_node [OF n(1)] s'_def [symmetric] using S(1) rf' by simp
qed

lemma cdd_deref_spec:
  assumes c: "core s (with_toks X (p # ps)) F {} B"
  shows "wp (cdd_deref p) (\<lambda>_ s'. core s' (with_toks X ps) (insert (cdd_rglr p) F) {} B \<and> sim s s') s"
proof -
  have pt: "cdd_rglr p \<in> tabled s \<or> cdd_rglr p = cddfalse"
    using c by (simp add: core_def refs_ok_def with_toks_Cons)
  obtain n where n: "nodes s (cdd_rglr p) = Some n" "n_ref n = rf s (cdd_rglr p)"
    using core_node [OF c pt] .
  define s' where "s' = set_node p (n\<lparr>n_ref := cdd_satdec (n_ref n)\<rparr>) s"
  note S = sim_set_ref [OF n(1), of "cdd_satdec (n_ref n)", folded s'_def]
  have rf': "rf s' = (rf s)(cdd_rglr p := cdd_satdec (rf s (cdd_rglr p)))"
    using S(2) n(2) by simp
  have T: "tabled s' = tabled s" using sim_tabled [OF S(1)] .
  have C: "cont s' = cont s" using sim_fields(1) [OF S(1)] .
  have old: "rf s q \<le> MAXREF \<and> (rf s q \<noteq> MAXREF \<longrightarrow>
      with_toks X (p # ps) q + indeg (cont s) (own (tabled s) (rf s) F {}) q \<le> rf s q)" if "q \<in> tabled s" for q
    using c that by (simp add: core_def refs_ok_def)
  have pos: "0 < rf s (cdd_rglr p)"
  proof (cases "cdd_rglr p = cddfalse \<or> rf s (cdd_rglr p) = MAXREF")
    case True
    then show ?thesis using core_term(2) [OF c] by (auto simp: MAXREF_def)
  next
    case False
    then show ?thesis using old [of "cdd_rglr p"] pt by (auto simp: with_toks_Cons)
  qed
  let ?F = "insert (cdd_rglr p) F"
  have own: "own (tabled s) (rf s') ?F W = own (tabled s) (rf s) F W" for W
    unfolding rf' own_def using pos by auto
  have "core s' (with_toks X ps) ?F {} B"
  proof (rule sim_core [OF S(1) c])
    show "rf s' cddfalse = MAXREF"
      using core_term(2) [OF c] by (simp add: rf' cdd_satdec_def)
    show "m_deadcnt m = table_deads m" if "man_of s' i = Some m" for i m
      using core_mans [OF c] that S(3) by simp
    show "refs_ok s' (with_toks X ps) ?F {}"
      unfolding refs_ok_def T C own
    proof (intro conjI ballI allI impI)
      fix q assume q: "q \<in> tabled s"
      show "rf s' q \<le> MAXREF" using old [OF q] by (auto simp: rf' cdd_satdec_def)
      assume "rf s' q \<noteq> MAXREF"
      then show "with_toks X ps q + indeg (cont s) (own (tabled s) (rf s) F {}) q \<le> rf s' q"
        using old [OF q] pos by (auto simp: rf' cdd_satdec_def with_toks_Cons split: if_splits)
    next
      fix q assume "0 < with_toks X ps q"
      then have "0 < with_toks X (p # ps) q" by (simp add: with_toks_Cons)
      then show "q \<in> tabled s \<or> q = cddfalse"
        using c unfolding core_def refs_ok_def by blast
    qed
    show "owners_sound s' ?F {} B"
      using c sim_fields(2) [OF S(1), THEN blank_fields(10)]
      unfolding owners_sound_def T C own core_def by simp
    show "dead_ok s' ?F {}"
    proof -
      have "{r \<in> chained t. rf s' r = 0 \<and> r \<notin> ?F \<or> r \<in> {}} = {r \<in> chained t. rf s r = 0 \<and> r \<notin> F \<or> r \<in> {}}"
        for t using pos by (auto simp: rf')
      then show ?thesis
        using c unfolding core_def dead_ok_def sim_tbl_same [OF S(3)] by simp
    qed
  qed
  then show ?thesis
    unfolding cdd_deref_def wp_upd_node [OF n(1)] s'_def [symmetric] using S(1) by simp
qed

section \<open>Moving a node between used and dead\<close>

lemma upd_man_eq: "man_of s i = Some m \<Longrightarrow> upd_man i f s = Inr ((), put_man i (f m) s)"
  by (simp add: upd_man_def bindM_def get_man_def someM_def modifyM_def)

lemma upd_subtable_eq:
  assumes "man_of s i = Some m" "table_of m k = Some t"
  shows "upd_subtable i k f s = Inr ((), put_man i (put_subtable k (Some (f t)) m) s)"
proof -
  have "k < length (m_subtables m)" "m_subtables m ! k = Some t"
    using assms(2) by (auto simp: table_of_def split: if_splits)
  then have "get_subtable i k s = Inr (Some t, s)"
    using assms(1) by (simp add: get_subtable_def bindM_def get_man_def someM_def ret_def)
  then show ?thesis
    by (simp add: upd_subtable_def bindM_def upd_man_eq [OF assms(1)])
qed

lemma put_man_put_man [simp]: "put_man i m' (put_man i m s) = put_man i m' s"
  by (cases i) simp_all

definition count_dead :: "int \<Rightarrow> nat \<Rightarrow> nodemanager \<Rightarrow> subtable \<Rightarrow> nodemanager" where
  "count_dead d k m t = m\<lparr>m_usedcnt := m_usedcnt m - d, m_deadcnt := m_deadcnt m + d,
     m_subtables := (m_subtables m)[k := Some (t\<lparr>t_deadcnt := t_deadcnt t + d\<rparr>)]\<rparr>"

lemma table_of_update:
  "k < length (m_subtables m) \<Longrightarrow>
     table_of (m\<lparr>m_subtables := (m_subtables m)[k := x]\<rparr>) j = (if j = k then x else table_of m j)"
  by (auto simp: table_of_def)

lemma table_of_lt: "table_of m k = Some t \<Longrightarrow> k < length (m_subtables m) \<and> m_subtables m ! k = Some t"
  by (auto simp: table_of_def split: if_splits)

lemma sum_list_map_update:
  "k < length xs \<Longrightarrow> (\<Sum>x\<leftarrow>xs[k := y]. f x) = (\<Sum>x\<leftarrow>xs. f x) - f (xs ! k) + (f y :: int)"
proof (induction xs arbitrary: k)
  case Nil
  then show ?case by simp
next
  case (Cons x xs)
  then show ?case by (cases k) auto
qed

lemma count_dead_deads:
  assumes "table_of m k = Some t" "m_deadcnt m = table_deads m"
  shows "m_deadcnt (count_dead d k m t) = table_deads (count_dead d k m t)"
  using table_of_lt [OF assms(1)] assms(2)
  by (simp add: count_dead_def table_deads_def sum_list_map_update)

lemma count_dead_shape:
  assumes "table_of m k = Some t"
  shows "mshape (count_dead d k m t) = mshape m"
proof -
  have "map (map_option (\<lambda>t. t\<lparr>t_deadcnt := 0\<rparr>)) (m_subtables (count_dead d k m t))
      = map (map_option (\<lambda>t. t\<lparr>t_deadcnt := 0\<rparr>)) (m_subtables m)"
    using table_of_lt [OF assms] by (intro nth_equalityI) (auto simp: count_dead_def nth_list_update)
  then show ?thesis by (simp add: mshape_def count_dead_def)
qed

lemma length_put_man [simp]: "length (cddmanager (put_man i m s)) = length (cddmanager s)"
  by (cases i) simp_all

lemma cont_put_man [simp]: "cont (put_man i m s) = cont s"
  by (simp add: fun_eq_iff cont_def)

lemma rf_put_man [simp]: "rf (put_man i m s) = rf s"
  by (simp add: fun_eq_iff rf_def)

lemma blank_put_man [simp]: "blank (put_man i m s) = blank s"
  by (cases i) (simp_all add: blank_def)

lemma put_man_fields [simp]:
  "env (put_man i m s) = env s" "chunk_man (put_man i m s) = chunk_man s"
  "cdd_levelinfo (put_man i m s) = cdd_levelinfo s" "cdd_levelcnt (put_man i m s) = cdd_levelcnt s"
  by (cases i; simp)+

lemma sim_count_dead:
  assumes "man_of s i = Some m" "table_of m k = Some t"
  shows "sim s (put_man i (count_dead d k m t) s)"
  using assms count_dead_shape [OF assms(2)] by (simp add: sim_def)

lemma tbl_count_dead:
  assumes "man_of s i = Some m" "table_of m k = Some t"
  shows "tbl (put_man i (count_dead d k m t) s) j l =
     (if j = i \<and> l = k then Some (t\<lparr>t_deadcnt := t_deadcnt t + d\<rparr>) else tbl s j l)"
  using assms table_of_lt [OF assms(2)]
  by (auto simp: tbl_def count_dead_def table_of_def nth_list_update)

lemma node_man_eq: "chunk_man s (cdd_node2chunk p) = Some i \<Longrightarrow> node_man p s = Inr (i, s)"
  by (simp add: node_man_def someM_def)

lemma tabled_home:
  assumes "tables_ok s" "p \<in> tabled s"
  obtains i k t m b where "tbl s i k = Some t" "p \<in> chained t" "man_of s i = Some m" "table_of m k = Some t"
    "chunk_man s (cdd_node2chunk p) = Some i" "cont s p = Some (k, b)" "fits i b"
  using assms unfolding tabled_iff by (metis chained_place tbl_iff)

lemma bury_eq:
  assumes "man_of s i = Some m" "table_of m k = Some t" "chunk_man s (cdd_node2chunk p) = Some i"
  shows "bury p k s = Inr ((), put_man i (count_dead 1 k m t) s)"
proof -
  let ?m = "m\<lparr>m_usedcnt := m_usedcnt m - 1, m_deadcnt := m_deadcnt m + 1\<rparr>"
  have 1: "man_of (put_man i ?m s) i = Some ?m" using assms(1) by simp
  have 2: "table_of ?m k = Some t" using assms(2) by (auto simp: table_of_def split: if_splits)
  have "bury p k s = upd_subtable i k (\<lambda>t. t\<lparr>t_deadcnt := t_deadcnt t + 1\<rparr>) (put_man i ?m s)"
    by (simp add: bury_def bindM_def thenM_def node_man_eq [OF assms(3)] upd_man_eq [OF assms(1)])
  also have "\<dots> = Inr ((), put_man i (count_dead 1 k m t) s)"
    unfolding upd_subtable_eq [OF 1 2] by (simp add: count_dead_def put_subtable_def)
  finally show ?thesis .
qed

lemma unbury_eq:
  assumes "man_of s i = Some m" "table_of m k = Some t" "chunk_man s (cdd_node2chunk p) = Some i"
  shows "unbury p k s = Inr ((), put_man i (count_dead (- 1) k m t) s)"
proof -
  let ?m = "m\<lparr>m_usedcnt := m_usedcnt m + 1, m_deadcnt := m_deadcnt m - 1\<rparr>"
  have 1: "man_of (put_man i ?m s) i = Some ?m" using assms(1) by simp
  have 2: "table_of ?m k = Some t" using assms(2) by (auto simp: table_of_def split: if_splits)
  have "unbury p k s = upd_subtable i k (\<lambda>t. t\<lparr>t_deadcnt := t_deadcnt t - 1\<rparr>) (put_man i ?m s)"
    by (simp add: unbury_def bindM_def thenM_def node_man_eq [OF assms(3)] upd_man_eq [OF assms(1)])
  also have "\<dots> = Inr ((), put_man i (count_dead (- 1) k m t) s)"
    unfolding upd_subtable_eq [OF 1 2] by (simp add: count_dead_def put_subtable_def)
  finally show ?thesis .
qed

section \<open>The children of a well-formed node\<close>

lemma it_run_full:
  assumes "sorted_wrt (<) (map e_bnd es)" "es \<noteq> []" "e_bnd (last es) = bnd_INF" "low \<noteq> bnd_INF"
  shows "it_run es low = Some es"
  using assms
proof (induction es arbitrary: low)
  case Nil
  then show ?case by simp
next
  case (Cons e es)
  show ?case
  proof (cases es)
    case Nil
    with Cons.prems show ?thesis by simp
  next
    case (Cons f fs)
    then have "last es \<in> set es" by simp
    then have "e_bnd e < e_bnd (last es)" using Cons.prems(1) by auto
    with Cons.IH [of "e_bnd e"] Cons.prems \<open>es = f # fs\<close> show ?thesis by auto
  qed
qed

lemma pushed_children_eq:
  assumes "sound (cont s) T (cdd_levelinfo s) B p" "cdd_rglr p = p" "p \<noteq> cddfalse"
  shows "pushed_children p s = Inr (kids_of (cont s) p, s)"
proof -
  from assms obtain k b where kb: "cont s p = Some (k, b)" "shape_ok (cdd_levelinfo s) B k b"
    by (auto elim!: soundE)
  then obtain n where n: "nodes s p = Some n" "n_level n = k" "n_body n = b"
    by (auto simp: cont_def)
  have info: "cdd_info p s = Inr (cdd_levelinfo s ! k, s)"
    using kb n assms(2)
    by (simp add: cdd_info_def level_of_def bindM_def get_node_def someM_def ret_def levelinfo_at_def shape_ok_def)
  have mask: "cdd_mask p = 0" using assms(2) by (simp add: regular_iff)
  show ?thesis
  proof (cases b)
    case (Bdd lo hi)
    with kb have "li_type (cdd_levelinfo s ! k) = TYPE_BDD" by (simp add: shape_ok_def)
    with Bdd n kb(1) assms(2) show ?thesis
      by (simp add: pushed_children_def bindM_def info bdd_node_def get_node_def someM_def ret_def kids_of_def)
  next
    case (Cdd es)
    with kb have ty: "li_type (cdd_levelinfo s ! k) = TYPE_CDD" and "sorted_wrt (<) (map e_bnd es)"
      "es \<noteq> []" "e_bnd (last es) = bnd_INF" by (auto simp: shape_ok_def)
    then have "it_run es (- bnd_INF) = Some es"
      by (intro it_run_full) (simp_all add: bnd_INF_def)
    with Cdd ty n kb(1) assms(2) mask show ?thesis
      by (simp add: pushed_children_def bindM_def info cdd_it_children_def cdd_elems_def get_node_def
          someM_def ret_def kids_of_def)
  qed (use kb in \<open>simp_all add: shape_ok_def\<close>)
qed

section \<open>Recursive dereferencing\<close>

lemma wp_rec_deref_loop:
  "wp (rec_deref_loop (p # stk)) Q s =
     wp (rec_deref_step (cdd_rglr p)) (\<lambda>r t. case r of
        None \<Rightarrow> Q () t | Some cs \<Rightarrow> wp (rec_deref_loop (rev cs @ stk)) Q t) s"
  by (auto simp: wp_def ret_def split: sum.splits option.splits prod.splits)

lemma wp_get_node: "nodes s (cdd_rglr p) = Some n \<Longrightarrow> wp (get_node p) Q s = Q n s"
  by (simp add: wp_def get_node_def someM_def)

lemma wp_eq: "m s = Inr (x, t) \<Longrightarrow> wp m Q s = Q x t"
  by (simp add: wp_def)

text \<open>The last reference goes: the node stops being an owner and its children's references
  move to the work list.\<close>

lemma bury_core:
  assumes c: "core s (with_toks X (p # stk)) {} {} B" and q: "cdd_rglr p = p"
    and one: "rf s p = 1" and k: "cont s p = Some (k, b)" and pt: "p \<in> tabled s"
    and i: "tbl s i k = Some t" "p \<in> chained t" and m: "man_of s i = Some m" "table_of m k = Some t"
    and n: "nodes s p = Some n"
  defines "s' \<equiv> put_man i (count_dead 1 k m t) (set_node p (n\<lparr>n_ref := 0\<rparr>) s)"
  shows "core s' (with_toks X (rev (kids_of (cont s) p) @ stk)) {} {} B" and "sim s s'"
proof -
  let ?u = "set_node p (n\<lparr>n_ref := 0\<rparr>) s"
  have n': "nodes s (cdd_rglr p) = Some n" using n q by simp
  note U = sim_set_ref [OF n', of 0]
  have mu: "man_of ?u i = Some m" using m(1) U(3) by simp
  show S: "sim s s'"
    unfolding s'_def by (rule sim_trans [OF U(1) sim_count_dead [OF mu m(2)]])
  have rf': "rf s' = (rf s)(p := 0)" unfolding s'_def using U(2) q by simp
  have T: "tabled s' = tabled s" using sim_tabled [OF S] .
  have C: "cont s' = cont s" using sim_fields(1) [OF S] .
  have pF: "p \<noteq> cddfalse" using term_not_tabled [OF c] pt by auto
  let ?O = "own (tabled s) (rf s) {} {}"
  have po: "p \<in> ?O" using one pt by (simp add: own_def)
  have own: "own (tabled s) (rf s') {} W = own (tabled s) (rf s) {} W - {p}" for W
    by (auto simp: own_def rf')
  have refs: "rf s r \<le> MAXREF" "rf s r \<noteq> MAXREF \<Longrightarrow> with_toks X (p # stk) r + indeg (cont s) ?O r \<le> rf s r"
    if "r \<in> tabled s" for r using c that by (simp_all add: core_def refs_ok_def)
  have kid: "sound (cont s) (tabled s) (cdd_levelinfo s) B c" if "c \<in> set (kids_of (cont s) p)" for c
    using c po that sound_kid [OF _ that core_term(1) [OF c]] unfolding core_def owners_sound_def by blast
  have dead: "tbl s' j l = (if j = i \<and> l = k then Some (t\<lparr>t_deadcnt := t_deadcnt t + 1\<rparr>) else tbl s j l)" for j l
    unfolding s'_def tbl_count_dead [OF mu m(2)] by (simp add: sim_tbl_same [OF U(3)])
  show "core s' (with_toks X (rev (kids_of (cont s) p) @ stk)) {} {} B"
  proof (rule sim_core [OF S c])
    show "rf s' cddfalse = MAXREF" using core_term(2) [OF c] pF by (simp add: rf')
    show "m_deadcnt m' = table_deads m'" if "man_of s' j = Some m'" for j m'
    proof (cases "j = i")
      case True
      with that mu have "m' = count_dead 1 k m t" by (simp add: s'_def)
      then show ?thesis using count_dead_deads [OF m(2)] core_mans [OF c m(1)] by simp
    next
      case False
      with that mu U(3) show ?thesis using core_mans [OF c] by (simp add: s'_def)
    qed
    show "refs_ok s' (with_toks X (rev (kids_of (cont s) p) @ stk)) {} {}"
      unfolding refs_ok_def T C own with_toks_rev
    proof (intro conjI ballI allI impI)
      fix r assume r: "r \<in> tabled s"
      show "rf s' r \<le> MAXREF" using refs(1) [OF r] by (simp add: rf')
      assume nr: "rf s' r \<noteq> MAXREF"
      have "rf s r \<noteq> MAXREF" using nr one by (cases "r = p") (auto simp: rf' MAXREF_def)
      from refs(2) [OF r this] indeg_remove [OF po, of "cont s" r] one q
      show "with_toks X (kids_of (cont s) p @ stk) r + indeg (cont s) (?O - {p}) r \<le> rf s' r"
        by (auto simp: with_toks_app with_toks_Cons rf' split: if_splits)
    next
      fix r assume "0 < with_toks X (kids_of (cont s) p @ stk) r"
      then consider "0 < with_toks X (p # stk) r" | "r \<in> set (map cdd_rglr (kids_of (cont s) p))"
        by (auto simp: with_toks_app with_toks_Cons) (metis count_notin image_eqI less_numeral_extra(3) list.set_map)
      then show "r \<in> tabled s \<or> r = cddfalse"
      proof cases
        case 1
        then show ?thesis using c unfolding core_def refs_ok_def by blast
      next
        case 2
        then show ?thesis using kid sound_place by fastforce
      qed
    qed
    show "owners_sound s' {} {} B"
      using c sim_fields(2) [OF S, THEN blank_fields(10)]
      unfolding owners_sound_def T C own core_def by simp
    show "dead_ok s' {} {}"
      unfolding dead_ok_def
    proof (intro allI impI)
      fix j l t'
      assume t': "tbl s' j l = Some t'"
      have old: "t_deadcnt t0 \<le> int (card {r \<in> chained t0. rf s r = 0})" if "tbl s j l = Some t0" for t0
        using c that by (simp add: core_def dead_ok_def)
      show "t_deadcnt t' \<le> int (card {r \<in> chained t'. rf s' r = 0 \<and> r \<notin> {} \<or> r \<in> {}})"
      proof (cases "j = i \<and> l = k")
        case True
        then have t't: "t' = t\<lparr>t_deadcnt := t_deadcnt t + 1\<rparr>" using t' dead by simp
        have "{r \<in> chained t. rf s' r = 0} = insert p {r \<in> chained t. rf s r = 0}"
          using i(2) by (auto simp: rf')
        then have "card {r \<in> chained t. rf s' r = 0} = Suc (card {r \<in> chained t. rf s r = 0})"
          using one by simp
        then show ?thesis using old [of t] i(1) True by (simp add: t't chained_def)
      next
        case False
        then have t: "tbl s j l = Some t'" using t' dead by auto
        have "p \<notin> chained t'"
          using False place_unique [OF _ i t] c unfolding core_def by blast
        then have "{r \<in> chained t'. rf s' r = 0} = {r \<in> chained t'. rf s r = 0}"
          by (auto simp: rf')
        then show ?thesis using old [OF t] by simp
      qed
    qed
  qed
qed

lemma with_toks_rglr [simp]: "with_toks X (cdd_rglr p # ps) = with_toks X (p # ps)"
  by (simp add: fun_eq_iff with_toks_Cons)

lemma rec_deref_step_spec:
  assumes c: "core s (with_toks X (p # stk)) {} {} B" and q: "cdd_rglr p = p"
  obtains cs t where "rec_deref_step p s = Inr (Some cs, t)" "sim s t"
    "core t (with_toks X (rev cs @ stk)) {} {} B"
proof -
  have pt: "p \<in> tabled s \<or> p = cddfalse"
    using c q by (simp add: core_def refs_ok_def with_toks_Cons)
  from core_node [OF c pt] obtain n where n: "nodes s p = Some n" "n_ref n = rf s p" .
  have n': "nodes s (cdd_rglr p) = Some n" using n q by simp
  have old: "rf s p \<noteq> MAXREF \<Longrightarrow> p \<in> tabled s \<and> 0 < rf s p"
    using c pt q core_term(2) [OF c] unfolding core_def refs_ok_def by (fastforce simp: with_toks_Cons)
  define u where "u = set_node p (n\<lparr>n_ref := cdd_satdec (n_ref n)\<rparr>) s"
  have u: "cdd_deref p s = Inr ((), u)"
    using n' by (auto simp: cdd_deref_def upd_node_Inr u_def)
  have gu: "get_node p u = Inr (n\<lparr>n_ref := cdd_satdec (n_ref n)\<rparr>, u)"
    by (simp add: get_node_def u_def someM_def)
  have gs: "get_node p s = Inr (n, s)" using n' by simp
  have pos: "n_ref n \<noteq> 0" using old n(2) by (cases "rf s p = MAXREF") (auto simp: MAXREF_def)
  note U = sim_set_ref [OF n', of "cdd_satdec (n_ref n)", folded u_def]
  show ?thesis
  proof (cases "cdd_satdec (n_ref n) = 0")
    case False
    have "rec_deref_step p s = Inr (Some [], u)"
      using pos False by (simp add: rec_deref_step_def bindM_def thenM_def gs u gu ret_def)
    moreover have "core u (with_toks X stk) {} {} B"
    proof -
      have "wp (cdd_deref p) (\<lambda>_ s'. core s' (with_toks X stk) (insert (cdd_rglr p) {}) {} B \<and> sim s s') s"
        by (rule cdd_deref_spec [OF c])
      then have "core u (with_toks X stk) {cdd_rglr p} {} B" using u by (simp add: wp_def)
      then show ?thesis by (rule core_antitone) simp_all
    qed
    ultimately show ?thesis using that [of "[]" u] U(1) by simp
  next
    case True
    then have one: "rf s p = 1" using n(2) pos by (auto simp: cdd_satdec_def MAXREF_def split: if_splits)
    then have pt': "p \<in> tabled s" using old by (simp add: MAXREF_def)
    have "tables_ok s" using c by (simp add: core_def)
    from tabled_home [OF this pt'] obtain i k t m b where
      h: "tbl s i k = Some t" "p \<in> chained t" "man_of s i = Some m" "table_of m k = Some t"
      "chunk_man s (cdd_node2chunk p) = Some i" "cont s p = Some (k, b)" "fits i b" .
    have nk: "n_level n = k" using h(6) n(1) by (simp add: cont_def)
    have u0: "u = set_node p (n\<lparr>n_ref := 0\<rparr>) s" by (simp add: u_def True)
    define t' where "t' = put_man i (count_dead 1 k m t) u"
    note B = bury_core [OF c q one h(6) pt' h(1,2) h(3,4) n(1), folded u0, folded t'_def]
    have bury: "bury p k u = Inr ((), t')"
      unfolding t'_def
    proof (rule bury_eq)
      show "man_of u i = Some m" using h(3) U(3) by simp
      show "table_of m k = Some t" by fact
      show "chunk_man u (cdd_node2chunk p) = Some i" using h(5) by (simp add: u_def set_node_def)
    qed
    have po: "p \<in> own (tabled s) (rf s) {} {}" using one pt' by (simp add: own_def)
    have pc: "pushed_children p t' = Inr (kids_of (cont s) p, t')"
    proof -
      have "sound (cont s) (tabled s) (cdd_levelinfo s) B p"
        using c po unfolding core_def owners_sound_def by simp
      then have "sound (cont t') (tabled s) (cdd_levelinfo t') B p"
        using sim_fields [OF B(2)] blank_fields(10) [OF sim_fields(2) [OF B(2)]] by simp
      then have "pushed_children p t' = Inr (kids_of (cont t') p, t')"
        using pushed_children_eq [of t' _ B p] q term_not_tabled [OF c] pt' by blast
      then show ?thesis by (simp add: sim_fields(1) [OF B(2)])
    qed
    have "rec_deref_step p s = Inr (Some (kids_of (cont s) p), t')"
      using pos True by (simp add: rec_deref_step_def bindM_def thenM_def gs u gu bury pc ret_def nk)
    then show ?thesis using that B by blast
  qed
qed

lemma rec_deref_loop_spec:
  "core s (with_toks X stk) {} {} B \<Longrightarrow>
     wp (rec_deref_loop stk) (\<lambda>_ s'. core s' X {} {} B \<and> sim s s') s"
proof (induction stk s rule: rec_deref_loop.induct)
  case (1 s)
  then show ?case by (simp add: wp_ret)
next
  case (2 p stk s)
  have "core s (with_toks X (cdd_rglr p # stk)) {} {} B" using 2(2) by simp
  from rec_deref_step_spec [OF this] obtain cs t where t: "rec_deref_step (cdd_rglr p) s = Inr (Some cs, t)"
    "sim s t" "core t (with_toks X (rev cs @ stk)) {} {} B" by auto
  have "wp (rec_deref_loop (rev cs @ stk)) (\<lambda>_ s'. core s' X {} {} B \<and> sim t s') t"
    using 2(1) [of "(Some cs, t)" "Some cs" t cs] t by simp
  then show ?case
    unfolding wp_rec_deref_loop wp_eq [where m = "rec_deref_step (cdd_rglr p)", OF t(1)] option.case
    by (rule wp_mono) (use t(2) sim_trans in blast)
qed

lemma cdd_rec_deref_spec:
  assumes "core s (with_toks X (p # ps)) F {} B"
  shows "wp (cdd_rec_deref p) (\<lambda>_ s'. core s' (with_toks X ps) {} {} B \<and> sim s s') s"
proof -
  have e: "with_toks (with_toks X ps) [p] = with_toks X (p # ps)"
    by (simp add: fun_eq_iff with_toks_def)
  have "core s (with_toks X (p # ps)) {} {} B"
    using assms by (rule core_antitone) simp_all
  then have "core s (with_toks (with_toks X ps) [cdd_rglr p]) {} {} B"
    by (simp add: e)
  then show ?thesis unfolding cdd_rec_deref_def by (rule rec_deref_loop_spec)
qed

end
