(* ===== verification/Reclaim.thy ===== *)
theory Reclaim
  imports Ref_Counting
begin

text \<open>
  Reviving dead nodes: \<^verbatim>\<open>cdd_reclaim\<close> makes a node and those of its descendants that were
  dead owners again.  Nodes on the work list (\<open>W\<close> of the invariant) have references but do
  not count as owners until their children are referenced.
\<close>

section \<open>Referencing a list of children\<close>

definition bumped :: "ptr list \<Rightarrow> kstate \<Rightarrow> kstate \<Rightarrow> bool" where
  "bumped cs s s' \<longleftrightarrow> sim s s' \<and> (\<forall>i. man_of s' i = man_of s i) \<and>
     (\<forall>q. rf s' q = (if count_list (map cdd_rglr cs) q = 0 then rf s q
                     else min MAXREF (rf s q + count_list (map cdd_rglr cs) q)))"

definition refs_in :: "ptr list \<Rightarrow> kstate \<Rightarrow> bool" where
  "refs_in cs s \<longleftrightarrow> (\<forall>c \<in> set cs. nodes s (cdd_rglr c) \<noteq> None \<and> rf s (cdd_rglr c) \<le> MAXREF)"

lemma bumped_Nil [simp]: "bumped [] s s"
  by (simp add: bumped_def)

lemma bumped_ref:
  assumes "nodes s (cdd_rglr c) \<noteq> None" "rf s (cdd_rglr c) \<le> MAXREF"
  obtains u where "cdd_ref c s = Inr ((), u)" "bumped [c] s u"
proof -
  from assms(1) obtain n where n: "nodes s (cdd_rglr c) = Some n" by auto
  define u where "u = set_node c (n\<lparr>n_ref := cdd_satinc (n_ref n)\<rparr>) s"
  have "cdd_ref c s = Inr ((), u)" using n by (auto simp: cdd_ref_def upd_node_Inr u_def)
  moreover have "bumped [c] s u"
    using sim_set_ref [OF n, of "cdd_satinc (n_ref n)", folded u_def] assms(2) n
    by (auto simp: bumped_def rf_def cdd_satinc_def)
  ultimately show ?thesis using that by blast
qed

lemma bumped_trans:
  assumes "bumped cs s t" "bumped ds t u"
  shows "bumped (cs @ ds) s u"
proof -
  have "rf u q = (if count_list (map cdd_rglr (cs @ ds)) q = 0 then rf s q
      else min MAXREF (rf s q + count_list (map cdd_rglr (cs @ ds)) q))" for q
    using assms unfolding bumped_def by (auto simp: min_def)
  then show ?thesis
    using assms sim_trans unfolding bumped_def by auto
qed

lemma bumped_refs_in: "bumped cs s t \<Longrightarrow> refs_in ds s \<Longrightarrow> refs_in ds t"
  unfolding refs_in_def bumped_def by (auto simp: nodes_None_cont sim_fields(1))

lemma bumped_rf_0: "bumped cs s t \<Longrightarrow> rf t q = 0 \<longleftrightarrow> rf s q = 0 \<and> q \<notin> set (map cdd_rglr cs)"
  unfolding bumped_def by (auto simp: MAXREF_def count_list_0_iff)

lemma is_dead_eq: "nodes s (cdd_rglr c) \<noteq> None \<Longrightarrow> is_dead c s = Inr (rf s (cdd_rglr c) = 0, s)"
  by (auto simp: is_dead_def bindM_def get_node_def someM_def ret_def rf_def)

lemma reclaim_elems_spec:
  "refs_in cs s \<Longrightarrow> \<exists>ps s'. reclaim_elems cs s = Inr (ps, s') \<and> bumped cs s s' \<and> set ps \<subseteq> set cs \<and>
     (\<forall>c \<in> set ps. rf s (cdd_rglr c) = 0) \<and>
     (\<forall>c \<in> set cs. rf s (cdd_rglr c) = 0 \<longrightarrow> cdd_rglr c \<in> cdd_rglr ` set ps)"
proof (induction cs arbitrary: s)
  case Nil
  then show ?case by simp
next
  case (Cons c cs)
  from Cons.prems have c: "nodes s (cdd_rglr c) \<noteq> None" "rf s (cdd_rglr c) \<le> MAXREF" and cs: "refs_in cs s"
    by (simp_all add: refs_in_def)
  from bumped_ref [OF c] obtain u where u: "cdd_ref c s = Inr ((), u)" "bumped [c] s u" .
  from Cons.IH [OF bumped_refs_in [OF u(2) cs]] obtain ps t where
    t: "reclaim_elems cs u = Inr (ps, t)" "bumped cs u t" "set ps \<subseteq> set cs" "\<forall>d \<in> set ps. rf u (cdd_rglr d) = 0"
      "\<forall>d \<in> set cs. rf u (cdd_rglr d) = 0 \<longrightarrow> cdd_rglr d \<in> cdd_rglr ` set ps" by blast
  let ?ps = "if rf s (cdd_rglr c) = 0 then c # ps else ps"
  have "reclaim_elems (c # cs) s = Inr (?ps, t)"
    using t(1) u(1) by (simp add: bindM_def thenM_def is_dead_eq [OF c(1)] ret_def)
  moreover have "bumped (c # cs) s t" using bumped_trans [OF u(2) t(2)] by simp
  moreover have "\<forall>d \<in> set (c # cs). rf s (cdd_rglr d) = 0 \<longrightarrow> cdd_rglr d \<in> cdd_rglr ` set ?ps"
    using t(5) bumped_rf_0 [OF u(2)] by auto
  moreover have "\<forall>d \<in> set ?ps. rf s (cdd_rglr d) = 0"
    using t(4) bumped_rf_0 [OF u(2)] by auto
  moreover have "set ?ps \<subseteq> set (c # cs)" using t(3) by auto
  ultimately show ?case by blast
qed

lemma reclaim_pair_spec:
  assumes "refs_in [lo, hi] s"
  shows "\<exists>ps s'. reclaim_pair lo hi s = Inr (ps, s') \<and> bumped [lo, hi] s s' \<and> set ps \<subseteq> {lo, hi} \<and>
     (\<forall>c \<in> set ps. rf s (cdd_rglr c) = 0) \<and>
     (\<forall>c \<in> {lo, hi}. rf s (cdd_rglr c) = 0 \<longrightarrow> cdd_rglr c \<in> cdd_rglr ` set ps)"
proof -
  from assms have l: "nodes s (cdd_rglr lo) \<noteq> None" "rf s (cdd_rglr lo) \<le> MAXREF"
    and h: "nodes s (cdd_rglr hi) \<noteq> None" by (simp_all add: refs_in_def)
  from bumped_ref [OF l] obtain u where u: "cdd_ref lo s = Inr ((), u)" "bumped [lo] s u" .
  have "refs_in [hi] s" using assms by (simp add: refs_in_def)
  then have "refs_in [hi] u" by (rule bumped_refs_in [OF u(2)])
  then obtain t where t: "cdd_ref hi u = Inr ((), t)" "bumped [hi] u t"
    using bumped_ref [of u hi] by (auto simp: refs_in_def)
  have "reclaim_pair lo hi s = Inr ((if rf s (cdd_rglr lo) = 0 then [lo] else []) @
      (if rf s (cdd_rglr hi) = 0 then [hi] else []), t)"
    by (simp add: reclaim_pair_def bindM_def thenM_def is_dead_eq [OF l(1)] is_dead_eq [OF h] u(1) t(1) ret_def)
  moreover have "bumped [lo, hi] s t" using bumped_trans [OF u(2) t(2)] by simp
  ultimately show ?thesis by (auto split: if_splits)
qed

lemma sound_refs_in:
  assumes "core s X F W B" "\<And>c. c \<in> set cs \<Longrightarrow> sound (cont s) (tabled s) (cdd_levelinfo s) B c"
  shows "refs_in cs s"
  unfolding refs_in_def
proof
  fix c assume "c \<in> set cs"
  then have c: "cdd_rglr c \<in> tabled s \<or> cdd_rglr c = cddfalse" using sound_place assms(2) by blast
  then obtain n where "nodes s (cdd_rglr c) = Some n" using core_node [OF assms(1)] by blast
  moreover have "rf s (cdd_rglr c) \<le> MAXREF"
    using c core_term(2) [OF assms(1)] assms(1) by (auto simp: core_def refs_ok_def)
  ultimately show "nodes s (cdd_rglr c) \<noteq> None \<and> rf s (cdd_rglr c) \<le> MAXREF" by simp
qed

section \<open>One round\<close>

lemma reclaim_step_eq:
  assumes c: "core s X F W B" and so: "sound (cont s) (tabled s) (cdd_levelinfo s) B p"
    and q: "cdd_rglr p = p" "p \<in> tabled s"
    and h: "man_of s i = Some m" "table_of m k = Some t" "chunk_man s (cdd_node2chunk p) = Some i"
      "cont s p = Some (k, b)"
  obtains ps u where "reclaim_step p s = Inr (ps, u)" "bumped (kids_of (cont s) p) (put_man i (count_dead (- 1) k m t) s) u"
    "set ps \<subseteq> set (kids_of (cont s) p)" "\<And>c. c \<in> set ps \<Longrightarrow> rf s (cdd_rglr c) = 0"
    "\<And>c. c \<in> set (kids_of (cont s) p) \<Longrightarrow> rf s (cdd_rglr c) = 0 \<Longrightarrow> cdd_rglr c \<in> cdd_rglr ` set ps"
proof -
  let ?v = "put_man i (count_dead (- 1) k m t) s"
  have pF: "p \<noteq> cddfalse" using q term_not_tabled [OF c] by auto
  from h(4) obtain n where n: "nodes s p = Some n" "n_level n = k" "n_body n = b"
    by (auto simp: cont_def)
  have shape: "shape_ok (cdd_levelinfo s) B k b" using so pF q h(4) by (auto elim!: soundE)
  have info: "cdd_info p ?v = Inr (cdd_levelinfo s ! k, ?v)"
    using shape n q by (simp add: cdd_info_def level_of_def bindM_def get_node_def someM_def ret_def
        levelinfo_at_def shape_ok_def)
  have kid: "sound (cont s) (tabled s) (cdd_levelinfo s) B c" if "c \<in> set (kids_of (cont s) p)" for c
    using sound_kid [OF so that core_term(1) [OF c]] by blast
  have ri: "refs_in (kids_of (cont s) p) ?v"
    using sound_refs_in [OF c kid] by (simp add: refs_in_def)
  have step: "reclaim_step p s = (case li_type (cdd_levelinfo s ! k) of
       TYPE_CDD \<Rightarrow> bindM (cdd_it_children p) reclaim_elems
     | TYPE_BDD \<Rightarrow> bindM (bdd_node p) (\<lambda>(lo, hi). reclaim_pair lo hi)) ?v"
    using n q unbury_eq [OF h(1-3)]
    by (simp add: reclaim_step_def bindM_def thenM_def get_node_def someM_def info)
  show ?thesis
  proof (cases b)
    case (Bdd lo hi)
    with shape have "li_type (cdd_levelinfo s ! k) = TYPE_BDD" by (simp add: shape_ok_def)
    moreover have "kids_of (cont s) p = [lo, hi]" using h(4) q Bdd by (simp add: kids_of_def)
    moreover have "bdd_node p ?v = Inr ((lo, hi), ?v)"
      using n q Bdd by (simp add: bdd_node_def bindM_def get_node_def someM_def ret_def)
    ultimately show ?thesis
      using that reclaim_pair_spec [of lo hi ?v] ri step by (fastforce simp: bindM_def)
  next
    case (Cdd es)
    with shape have ty: "li_type (cdd_levelinfo s ! k) = TYPE_CDD" and "sorted_wrt (<) (map e_bnd es)"
      "es \<noteq> []" "e_bnd (last es) = bnd_INF" by (auto simp: shape_ok_def)
    then have "it_run es (- bnd_INF) = Some es" by (intro it_run_full) (simp_all add: bnd_INF_def)
    moreover have "cdd_mask p = 0" using q by (simp add: regular_iff)
    moreover have "kids_of (cont s) p = map e_child es" using h(4) q Cdd by (simp add: kids_of_def)
    ultimately have "cdd_it_children p ?v = Inr (kids_of (cont s) p, ?v)"
      using n q Cdd by (simp add: cdd_it_children_def cdd_elems_def bindM_def get_node_def someM_def ret_def)
    then show ?thesis
      using that reclaim_elems_spec [OF ri] step ty by (fastforce simp: bindM_def)
  qed (use shape in \<open>simp_all add: shape_ok_def\<close>)
qed

lemma card_le_Suc_minus: "card (A :: ptr set) \<le> Suc (card (A - {p}))"
proof -
  have "card A \<le> card (insert p (A - {p}))" by (rule card_mono) auto
  also have "\<dots> = Suc (card (A - {p}))" by (rule card_insert_disjoint) auto
  finally show ?thesis .
qed

lemma reclaim_step_spec:
  assumes c: "core s X F (insert p W) B" and q: "cdd_rglr p = p" "p \<in> tabled s"
  obtains ps u where "reclaim_step p s = Inr (ps, u)" "sim s u" "core u X F (cdd_rglr ` set ps \<union> W) B"
    "cdd_rglr ` set ps \<subseteq> tabled s"
proof -
  let ?K = "kids_of (cont s) p"
  have so: "sound (cont s) (tabled s) (cdd_levelinfo s) B p"
    using c by (simp add: core_def owners_sound_def)
  have kid: "sound (cont s) (tabled s) (cdd_levelinfo s) B c" if "c \<in> set ?K" for c
    using sound_kid [OF so that core_term(1) [OF c]] by blast
  have "tables_ok s" using c by (simp add: core_def)
  from tabled_home [OF this q(2)] obtain i k t m b where
    h: "tbl s i k = Some t" "p \<in> chained t" "man_of s i = Some m" "table_of m k = Some t"
    "chunk_man s (cdd_node2chunk p) = Some i" "cont s p = Some (k, b)" "fits i b" .
  let ?v = "put_man i (count_dead (- 1) k m t) s"
  from reclaim_step_eq [OF c so q h(3,4,5,6)] obtain ps u where
    st: "reclaim_step p s = Inr (ps, u)" and bu: "bumped ?K ?v u" and ps: "set ps \<subseteq> set ?K"
    and ps0: "\<And>c. c \<in> set ps \<Longrightarrow> rf s (cdd_rglr c) = 0"
    and psd: "\<And>c. c \<in> set ?K \<Longrightarrow> rf s (cdd_rglr c) = 0 \<Longrightarrow> cdd_rglr c \<in> cdd_rglr ` set ps" by blast
  have S: "sim s u"
    using sim_trans [OF sim_count_dead [OF h(3,4)]] bu unfolding bumped_def by blast
  let ?n = "count_list (map cdd_rglr ?K)"
  let ?W = "cdd_rglr ` set ps \<union> W"
  have rfu: "rf u r = (if ?n r = 0 then rf s r else min MAXREF (rf s r + ?n r))" for r
    using bu unfolding bumped_def by simp
  have T: "tabled u = tabled s" using sim_tabled [OF S] .
  have C: "cont u = cont s" using sim_fields(1) [OF S] .
  have pt: "cdd_rglr ` set ps \<subseteq> tabled s"
    using ps ps0 sound_place [OF kid] core_term(2) [OF c] by (fastforce simp: MAXREF_def)
  have dead: "tbl u j l = (if j = i \<and> l = k then Some (t\<lparr>t_deadcnt := t_deadcnt t - 1\<rparr>) else tbl s j l)" for j l
  proof -
    have "tbl u j l = tbl ?v j l" using bu unfolding bumped_def by (intro sim_tbl_same) simp
    then show ?thesis using tbl_count_dead [OF h(3,4), of "- 1" j l] by simp
  qed
  have zero: "r \<in> cdd_rglr ` set ps" if "rf s r = 0" "rf u r \<noteq> 0" for r
  proof -
    have "r \<in> set (map cdd_rglr ?K)" using that by (auto simp: rfu count_list_0_iff split: if_splits)
    then show ?thesis using psd that by auto
  qed
  have own: "own (tabled s) (rf u) F ?W \<subseteq> insert p (own (tabled s) (rf s) F (insert p W))"
  proof
    fix r assume "r \<in> own (tabled s) (rf u) F ?W"
    then have r: "r \<in> tabled s" "0 < rf u r \<or> r \<in> F" "r \<notin> W" "r \<notin> cdd_rglr ` set ps" by (auto simp: own_def)
    then have "0 < rf s r \<or> r \<in> F" using zero [of r] by auto
    with r show "r \<in> insert p (own (tabled s) (rf s) F (insert p W))" by (auto simp: own_def)
  qed
  have "core u X F ?W B"
  proof (rule sim_core [OF S c])
    show "rf u cddfalse = MAXREF" using core_term(2) [OF c] by (simp add: rfu)
    show "m_deadcnt m' = table_deads m'" if "man_of u j = Some m'" for j m'
    proof -
      have "man_of ?v j = Some m'" using bu that unfolding bumped_def by simp
      then show ?thesis
        using h(3) count_dead_deads [OF h(4)] core_mans [OF c] by (cases "j = i") auto
    qed
    show "refs_ok u X F ?W"
      unfolding refs_ok_def T C
    proof (intro conjI ballI allI impI)
      fix r assume r: "r \<in> tabled s"
      have old: "rf s r \<le> MAXREF" "rf s r \<noteq> MAXREF \<Longrightarrow>
          X r + indeg (cont s) (own (tabled s) (rf s) F (insert p W)) r \<le> rf s r"
        using c r by (simp_all add: core_def refs_ok_def)
      show "rf u r \<le> MAXREF" using old(1) by (simp add: rfu)
      assume nr: "rf u r \<noteq> MAXREF"
      have "indeg (cont s) (own (tabled s) (rf u) F ?W) r
          \<le> ?n r + indeg (cont s) (own (tabled s) (rf s) F (insert p W)) r"
        using indeg_mono [OF own, of "cont s" r] indeg_insert_le [of "cont s" p _ r] le_trans by blast
      moreover have "rf s r \<noteq> MAXREF \<and> rf u r = rf s r + ?n r"
        using nr old(1) by (auto simp: rfu min_def split: if_splits)
      ultimately show "X r + indeg (cont s) (own (tabled s) (rf u) F ?W) r \<le> rf u r"
        using old(2) by linarith
    next
      fix r assume "0 < X r"
      then show "r \<in> tabled s \<or> r = cddfalse" using c unfolding core_def refs_ok_def by blast
    qed
    show "owners_sound u F ?W B"
      unfolding owners_sound_def T C sim_fields(2) [OF S, THEN blank_fields(10)]
    proof
      fix r assume r: "r \<in> own (tabled s) (rf u) F {} \<union> ?W"
      have "r \<in> own (tabled s) (rf s) F {} \<or> r \<in> W \<or> r \<in> cdd_rglr ` set ps"
        using r zero [of r] by (auto simp: own_def)
      then show "sound (cont s) (tabled s) (cdd_levelinfo s) B r"
        using c kid ps unfolding core_def owners_sound_def by (auto simp: sound_rglr_iff)
    qed
    show "dead_ok u F ?W"
      unfolding dead_ok_def
    proof (intro allI impI)
      fix j l t'
      assume t': "tbl u j l = Some t'"
      let ?S = "\<lambda>t0. {r \<in> chained t0. rf s r = 0 \<and> r \<notin> F \<or> r \<in> insert p W}"
      let ?S' = "\<lambda>t0. {r \<in> chained t0. rf u r = 0 \<and> r \<notin> F \<or> r \<in> ?W}"
      have old: "t_deadcnt t0 \<le> int (card (?S t0))" if "tbl s j l = Some t0" for t0
        using c that by (simp add: core_def dead_ok_def)
      have sub: "?S t0 - {p} \<subseteq> ?S' t0" for t0 using zero by auto
      show "t_deadcnt t' \<le> int (card (?S' t'))"
      proof (cases "j = i \<and> l = k")
        case True
        then have t't: "t' = t\<lparr>t_deadcnt := t_deadcnt t - 1\<rparr>" using t' dead by simp
        have "card (?S t - {p}) \<le> card (?S' t)" using sub by (rule card_mono [rotated]) simp
        moreover have "card (?S t) \<le> Suc (card (?S t - {p}))"
          by (rule card_le_Suc_minus)
        ultimately show ?thesis using old [of t] h(1) True by (simp add: t't chained_def)
      next
        case False
        then have t: "tbl s j l = Some t'" using t' dead by auto
        have "p \<notin> chained t'"
          using False place_unique [OF _ h(1,2) t] c unfolding core_def by blast
        then have "?S t' - {p} = ?S t'" by auto
        then have "card (?S t') \<le> card (?S' t')" using sub [of t'] by (intro card_mono) simp_all
        then show ?thesis using old [OF t] by linarith
      qed
    qed
  qed
  then show ?thesis using that st S pt by blast
qed

section \<open>The loop\<close>

lemma reclaim_loop_spec:
  "core s X F (cdd_rglr ` set stk) B \<Longrightarrow> cdd_rglr ` set stk \<subseteq> tabled s \<Longrightarrow>
     wp (reclaim_loop stk) (\<lambda>_ s'. core s' X F {} B \<and> sim s s') s"
proof (induction stk s rule: reclaim_loop.induct)
  case (1 s)
  then show ?case by (simp add: wp_ret)
next
  case (2 p stk s)
  have c: "core s X F (insert (cdd_rglr p) (cdd_rglr ` set stk)) B" using 2(2) by simp
  have p: "cdd_rglr (cdd_rglr p) = cdd_rglr p" "cdd_rglr p \<in> tabled s" using 2(3) by simp_all
  from reclaim_step_spec [OF c p] obtain ps u where
    u: "reclaim_step (cdd_rglr p) s = Inr (ps, u)" "sim s u"
      "core u X F (cdd_rglr ` set ps \<union> cdd_rglr ` set stk) B" "cdd_rglr ` set ps \<subseteq> tabled s" by blast
  have "wp (reclaim_loop (rev ps @ stk)) (\<lambda>_ s'. core s' X F {} B \<and> sim u s') u"
    using 2(1) [of "(ps, u)" ps u] u 2(3) sim_tabled [OF u(2)] by (simp add: image_Un)
  then have "wp (reclaim_loop (rev ps @ stk)) (\<lambda>_ s'. core s' X F {} B \<and> sim s s') u"
    by (rule wp_mono) (use u(2) sim_trans in blast)
  then show ?case using u(1) by (simp add: wp_def)
qed

lemma cdd_reclaim_spec:
  assumes c: "core s X F {} B" and so: "sound (cont s) (tabled s) (cdd_levelinfo s) B p"
    and p: "cdd_rglr p \<in> tabled s" and dead: "rf s (cdd_rglr p) = 0"
  shows "wp (cdd_reclaim p) (\<lambda>_ s'. core s' X {cdd_rglr p} {} B \<and> sim s s') s"
proof -
  let ?q = "cdd_rglr p"
  have "core s X (insert ?q F) {?q} B"
  proof -
    have own: "own (tabled s) (rf s) (insert ?q F) {?q} \<subseteq> own (tabled s) (rf s) F {}"
      by (auto simp: own_def)
    have refs: "refs_ok s X (insert ?q F) {?q}"
      unfolding refs_ok_def
    proof (intro conjI ballI allI impI)
      fix r assume r: "r \<in> tabled s"
      then show "rf s r \<le> MAXREF" using c by (simp add: core_def refs_ok_def)
      assume "rf s r \<noteq> MAXREF"
      then have "X r + indeg (cont s) (own (tabled s) (rf s) F {}) r \<le> rf s r"
        using c r by (simp add: core_def refs_ok_def)
      then show "X r + indeg (cont s) (own (tabled s) (rf s) (insert ?q F) {?q}) r \<le> rf s r"
        using indeg_mono [OF own, of "cont s" r] by linarith
    next
      fix r assume "0 < X r"
      then show "r \<in> tabled s \<or> r = cddfalse" using c unfolding core_def refs_ok_def by blast
    qed
    have "owners_sound s (insert ?q F) {?q} B"
      using c so unfolding core_def owners_sound_def own_def by (auto simp: sound_rglr_iff)
    moreover have "dead_ok s (insert ?q F) {?q}"
      unfolding dead_ok_def
    proof (intro allI impI)
      fix i k t assume "tbl s i k = Some t"
      then have "t_deadcnt t \<le> int (card {r \<in> chained t. rf s r = 0 \<and> r \<notin> F \<or> r \<in> {}})"
        using c unfolding core_def dead_ok_def by blast
      also have "\<dots> \<le> int (card {r \<in> chained t. rf s r = 0 \<and> r \<notin> insert ?q F \<or> r \<in> {?q}})"
        by (rule of_nat_mono, rule card_mono) auto
      finally show "t_deadcnt t \<le> \<dots>" .
    qed
    ultimately show ?thesis using c refs by (simp add: core_def)
  qed
  then have "wp (reclaim_loop [?q]) (\<lambda>_ s'. core s' X (insert ?q F) {} B \<and> sim s s') s"
    by (intro reclaim_loop_spec) (simp_all add: p)
  then show ?thesis
    unfolding cdd_reclaim_def by (rule wp_mono) (auto elim!: core_antitone)
qed

end
