(* ===== verification/Gc.thy ===== *)
theory Gc
  imports Reclaim
begin

text \<open>
  Garbage collection of a node manager: the nodes freed are exactly the nodes without
  references in the tables that count dead nodes; nothing that a node with references can
  reach is freed, and the caches keep no pointer to a freed node.
\<close>

section \<open>Frames\<close>

text \<open>The global variables that allocation leaves alone, and what it keeps of the store.\<close>

definition same_env :: "kstate \<Rightarrow> kstate \<Rightarrow> bool" where
  "same_env s s' \<longleftrightarrow> env s' = env s \<and> cdd_levelcnt s' = cdd_levelcnt s \<and> cdd_levelinfo s' = cdd_levelinfo s \<and>
     cdd_diff2level s' = cdd_diff2level s \<and> cdd_clocknum s' = cdd_clocknum s \<and>
     cdd_maxcddsize s' = cdd_maxcddsize s \<and> cdd_errorcond s' = cdd_errorcond s \<and>
     cdd_refstack s' = cdd_refstack s \<and> extra_terminals s' = extra_terminals s \<and>
     applyop s' = applyop s \<and> opid s' = opid s \<and>
     cache_tablesize (applycache s') = cache_tablesize (applycache s) \<and> cdd_running s' = cdd_running s"

definition live :: "kstate \<Rightarrow> ptr set" where
  "live s = own (tabled s) (rf s) {} {}"

definition keeps :: "kstate \<Rightarrow> kstate \<Rightarrow> bool" where
  "keeps s s' \<longleftrightarrow> same_env s s' \<and> cont s' cddfalse = cont s cddfalse \<and>
     (\<forall>q \<in> live s. q \<in> tabled s' \<and> cont s' q = cont s q \<and> rf s' q = rf s q)"

lemma live_iff: "q \<in> live s \<longleftrightarrow> q \<in> tabled s \<and> 0 < rf s q"
  by (auto simp: live_def own_def)

lemma same_env_refl [simp]: "same_env s s"
  by (simp add: same_env_def)

lemma same_env_trans: "same_env s t \<Longrightarrow> same_env t u \<Longrightarrow> same_env s u"
  by (simp add: same_env_def)

lemma sim_same_env: "sim s s' \<Longrightarrow> same_env s s'"
  using blank_fields [OF sim_fields(2)] by (simp add: same_env_def)

lemma keeps_refl [simp]: "keeps s s"
  by (simp add: keeps_def live_iff)

lemma keeps_trans:
  assumes "keeps s t" "keeps t u"
  shows "keeps s u"
proof -
  have "q \<in> live t" if "q \<in> live s" for q
    using assms(1) that by (auto simp: keeps_def live_iff)
  then show ?thesis
    using assms same_env_trans unfolding keeps_def by (metis (no_types, lifting))
qed

lemma live_closed:
  assumes c: "core s X F {} B"
  shows "closed_set (cont s) (insert cddfalse (live s))"
  unfolding closed_set_def
proof (intro ballI)
  fix p c assume p: "p \<in> insert cddfalse (live s)" and k: "c \<in> set (kids_of (cont s) p)"
  then have "p \<noteq> cddfalse" using core_term(1) [OF c] by (auto simp: kids_of_def)
  with p have p: "p \<in> own (tabled s) (rf s) F {}" by (auto simp: live_def own_def)
  then have "sound (cont s) (tabled s) (cdd_levelinfo s) B p"
    using c by (simp add: core_def owners_sound_def)
  from sound_kid [OF this k core_term(1) [OF c]] sound_place
  have pl: "cdd_rglr c \<in> tabled s \<or> cdd_rglr c = cddfalse" by blast
  have "0 < indeg (cont s) (own (tabled s) (rf s) F {}) (cdd_rglr c)"
    by (rule indeg_kid [OF p k])
  then have "cdd_rglr c \<in> tabled s \<Longrightarrow> 0 < rf s (cdd_rglr c)"
    using c unfolding core_def refs_ok_def MAXREF_def by fastforce
  with pl show "cdd_rglr c \<in> insert cddfalse (live s)" by (auto simp: live_iff)
qed

text \<open>Diagrams that are live keep their meaning.\<close>

lemma keeps_sound:
  assumes c: "core s X F {} B" and k: "keeps s s'"
    and p: "sound (cont s) (tabled s) (cdd_levelinfo s) B p" "cdd_rglr p \<in> insert cddfalse (live s)"
  shows "sound (cont s') (tabled s') (cdd_levelinfo s') B p"
proof -
  have "sound (cont s') (tabled s') (cdd_levelinfo s) B p"
  proof (rule sound_keep [OF p(1) live_closed [OF c] _ _ p(2)])
    show "q \<in> insert cddfalse (live s) \<Longrightarrow> cont s' q = cont s q" for q
      using k by (auto simp: keeps_def)
    show "insert cddfalse (live s) \<inter> tabled s \<subseteq> tabled s'"
      using k term_not_tabled [OF c] by (auto simp: keeps_def)
  qed
  then show ?thesis using k by (simp add: keeps_def same_env_def)
qed

lemma keeps_eval:
  assumes c: "core s X F {} B" and k: "keeps s s'" and p: "cdd_rglr p \<in> insert cddfalse (live s)"
  shows "eval (cont s') a p = eval (cont s) a p"
proof (rule eval_keep [OF live_closed [OF c] _ p])
  show "q \<in> insert cddfalse (live s) \<Longrightarrow> cont s' q = cont s q" for q
    using k by (auto simp: keeps_def)
qed

lemma keeps_lv:
  assumes "keeps s s'" "cdd_rglr p \<in> insert cddfalse (live s)"
  shows "lv (cont s') p = lv (cont s) p"
  by (rule lv_keep) (use assms in \<open>auto simp: keeps_def\<close>)

lemma indeg_cong: "(\<And>p. p \<in> O' \<Longrightarrow> kids_of C p = kids_of C' p) \<Longrightarrow> indeg C O' q = indeg C' O' q"
  unfolding indeg_def by (rule sum.cong) simp_all

section \<open>Freeing cells\<close>

definition blank_mem :: "kstate \<Rightarrow> kstate" where
  "blank_mem s = (blank s)\<lparr>cell_flag := (\<lambda>_. 0)\<rparr>"

text \<open>\<open>freed\<close>: the cells \<open>ps\<close> went, in this order, to the free list of manager \<open>i\<close>.\<close>

definition freed :: "mid \<Rightarrow> ptr list \<Rightarrow> kstate \<Rightarrow> kstate \<Rightarrow> bool" where
  "freed i ps s s' \<longleftrightarrow> blank_mem s' = blank_mem s \<and> length (cddmanager s') = length (cddmanager s) \<and>
     nodes s' = (\<lambda>q. if q \<in> set ps then None else nodes s q) \<and>
     (\<exists>m. man_of s i = Some m \<and>
       (\<forall>j. man_of s' j = (if j = i then Some (m\<lparr>m_free := rev ps @ m_free m\<rparr>) else man_of s j)))"

lemma freed_Nil: "man_of s i = Some m \<Longrightarrow> freed i [] s s"
  by (simp add: freed_def)

lemma freed_app:
  assumes "freed i ps s t" "freed i qs t u"
  shows "freed i (ps @ qs) s u"
  using assms unfolding freed_def by (auto simp: fun_eq_iff)

lemma freed_one:
  assumes "nodes s p = Some n" "cdd_rglr p = p" "man_of s i = Some m"
  shows "\<exists>t. free_cell i p s = Inr ((), t) \<and> freed i [p] s t"
proof -
  let ?u = "s\<lparr>nodes := (nodes s)(p := None), cell_flag := (cell_flag s)(p := n_flag n)\<rparr>"
  have mo: "man_of ?u j = man_of s j" for j by (cases j) simp_all
  have "free_cell i p s = Inr ((), put_man i (m\<lparr>m_free := p # m_free m\<rparr>) ?u)"
    using assms mo by (simp add: free_cell_def bindM_def thenM_def get_node_def someM_def modifyM_def upd_man_eq)
  moreover have "freed i [p] s (put_man i (m\<lparr>m_free := p # m_free m\<rparr>) ?u)"
    using assms mo by (auto simp: freed_def blank_mem_def fun_eq_iff) (simp add: blank_def)
  ultimately show ?thesis by blast
qed

lemma gbc_chain_spec:
  "man_of s i = Some m \<Longrightarrow> distinct ch \<Longrightarrow> (\<And>p. p \<in> set ch \<Longrightarrow> nodes s p \<noteq> None \<and> cdd_rglr p = p) \<Longrightarrow>
     \<exists>t. gbc_chain i ch s = Inr (filter (\<lambda>p. rf s p \<noteq> 0) ch, t) \<and> freed i (filter (\<lambda>p. rf s p = 0) ch) s t"
proof (induction ch arbitrary: s m)
  case Nil
  then show ?case by (simp add: freed_Nil)
next
  case (Cons p ch)
  then obtain n where n: "nodes s p = Some n" "cdd_rglr p = p" by fastforce
  have rn: "rf s p = n_ref n" using n by (simp add: rf_def)
  show ?case
  proof (cases "n_ref n = 0")
    case True
    from freed_one [OF n Cons.prems(1)] obtain u where u: "free_cell i p s = Inr ((), u)" "freed i [p] s u" by blast
    have nu: "nodes u q = nodes s q" if "q \<in> set ch" for q
      using u(2) that Cons.prems(2) by (auto simp: freed_def)
    then have fl: "filter (\<lambda>p. rf u p \<noteq> 0) ch = filter (\<lambda>p. rf s p \<noteq> 0) ch"
      "filter (\<lambda>p. rf u p = 0) ch = filter (\<lambda>p. rf s p = 0) ch"
      by (auto intro!: filter_cong simp: rf_def)
    obtain m' where m': "man_of u i = Some m'" using u(2) by (auto simp: freed_def)
    have "\<exists>t. gbc_chain i ch u = Inr (filter (\<lambda>p. rf u p \<noteq> 0) ch, t) \<and> freed i (filter (\<lambda>p. rf u p = 0) ch) u t"
      using Cons.IH [OF m'] Cons.prems(2,3) nu by simp
    then obtain t where t: "gbc_chain i ch u = Inr (filter (\<lambda>p. rf s p \<noteq> 0) ch, t)"
      "freed i (filter (\<lambda>p. rf s p = 0) ch) u t" unfolding fl by blast
    have "gbc_chain i (p # ch) s = Inr (filter (\<lambda>p. rf s p \<noteq> 0) (p # ch), t)"
      using n True u(1) t(1) rn by (simp add: bindM_def thenM_def get_node_def someM_def)
    moreover have "freed i (filter (\<lambda>p. rf s p = 0) (p # ch)) s t"
      using freed_app [OF u(2) t(2)] True rn by simp
    ultimately show ?thesis by blast
  next
    case False
    have "\<exists>t. gbc_chain i ch s = Inr (filter (\<lambda>p. rf s p \<noteq> 0) ch, t) \<and> freed i (filter (\<lambda>p. rf s p = 0) ch) s t"
      using Cons.IH [OF Cons.prems(1)] Cons.prems(2,3) by simp
    then show ?thesis
      using n False rn by (auto simp: bindM_def get_node_def someM_def ret_def)
  qed
qed

lemma gbc_buckets_spec:
  "man_of s i = Some m \<Longrightarrow> distinct (concat cs) \<Longrightarrow>
     (\<And>p. p \<in> set (concat cs) \<Longrightarrow> nodes s p \<noteq> None \<and> cdd_rglr p = p) \<Longrightarrow>
     \<exists>t. gbc_buckets i cs s = Inr (map (filter (\<lambda>p. rf s p \<noteq> 0)) cs, t) \<and>
         freed i (filter (\<lambda>p. rf s p = 0) (concat cs)) s t"
proof (induction cs arbitrary: s m)
  case Nil
  then show ?case by (simp add: freed_Nil)
next
  case (Cons c cs)
  have "distinct c" using Cons.prems(2) by simp
  with gbc_chain_spec [OF Cons.prems(1), of c] Cons.prems(3) obtain u where
    u: "gbc_chain i c s = Inr (filter (\<lambda>p. rf s p \<noteq> 0) c, u)" "freed i (filter (\<lambda>p. rf s p = 0) c) s u" by auto
  have nu: "nodes u q = nodes s q" if "q \<in> set (concat cs)" for q
    using u(2) that Cons.prems(2) by (auto simp: freed_def)
  then have ru: "rf u q = rf s q" if "q \<in> set (concat cs)" for q
    using that by (simp only: rf_def)
  have fl: "map (filter (\<lambda>p. rf u p \<noteq> 0)) cs = map (filter (\<lambda>p. rf s p \<noteq> 0)) cs"
    "filter (\<lambda>p. rf u p = 0) (concat cs) = filter (\<lambda>p. rf s p = 0) (concat cs)"
    by (intro map_cong refl filter_cong; use ru in force)+
  obtain m' where m': "man_of u i = Some m'" using u(2) by (auto simp: freed_def)
  have "\<exists>t. gbc_buckets i cs u = Inr (map (filter (\<lambda>p. rf u p \<noteq> 0)) cs, t) \<and>
      freed i (filter (\<lambda>p. rf u p = 0) (concat cs)) u t"
    using Cons.IH [OF m'] Cons.prems(2,3) nu by simp
  then obtain t where t: "gbc_buckets i cs u = Inr (map (filter (\<lambda>p. rf s p \<noteq> 0)) cs, t)"
    "freed i (filter (\<lambda>p. rf s p = 0) (concat cs)) u t" unfolding fl by blast
  have "gbc_buckets i (c # cs) s = Inr (map (filter (\<lambda>p. rf s p \<noteq> 0)) (c # cs), t)"
    using u(1) t(1) by (simp add: bindM_def ret_def)
  moreover have "freed i (filter (\<lambda>p. rf s p = 0) (concat (c # cs))) s t"
    using freed_app [OF u(2) t(2)] by simp
  ultimately show ?case by blast
qed

section \<open>Collecting the tables of a manager\<close>

definition collect :: "(ptr \<Rightarrow> nat) \<Rightarrow> subtable \<Rightarrow> subtable" where
  "collect R t = (if t_deadcnt t = 0 then t
     else t\<lparr>t_hash := map (filter (\<lambda>p. R p \<noteq> 0)) (t_hash t), t_keys := t_keys t - t_deadcnt t, t_deadcnt := 0\<rparr>)"

definition garbage :: "kstate \<Rightarrow> nodemanager \<Rightarrow> nat set \<Rightarrow> ptr set" where
  "garbage s m K = {p. \<exists>k \<in> K. \<exists>t. table_of m k = Some t \<and> t_deadcnt t \<noteq> 0 \<and> p \<in> chained t \<and> rf s p = 0}"

definition collect_tables :: "(ptr \<Rightarrow> nat) \<Rightarrow> nat set \<Rightarrow> nodemanager \<Rightarrow> subtable option list" where
  "collect_tables R K m = map (\<lambda>k. if k \<in> K then map_option (collect R) (m_subtables m ! k)
     else m_subtables m ! k) [0..<length (m_subtables m)]"

definition collected :: "mid \<Rightarrow> nodemanager \<Rightarrow> nat set \<Rightarrow> ptr list \<Rightarrow> kstate \<Rightarrow> kstate \<Rightarrow> bool" where
  "collected i m K ps s s' \<longleftrightarrow> man_of s i = Some m \<and> distinct ps \<and> set ps = garbage s m K \<and>
     blank_mem s' = blank_mem s \<and> length (cddmanager s') = length (cddmanager s) \<and>
     nodes s' = (\<lambda>q. if q \<in> set ps then None else nodes s q) \<and>
     (\<forall>j. man_of s' j = (if j = i then
        Some (m\<lparr>m_free := rev ps @ m_free m, m_subtables := collect_tables (rf s) K m\<rparr>) else man_of s j))"

lemma collect_tables_empty: "collect_tables R {} m = m_subtables m"
  by (simp add: collect_tables_def map_nth)

lemma collected_start: "man_of s i = Some m \<Longrightarrow> collected i m {} [] s s"
  by (simp add: collected_def garbage_def collect_tables_empty)

lemma collect_tables_nth:
  "k < length (m_subtables m) \<Longrightarrow> collect_tables R K m ! k =
     (if k \<in> K then map_option (collect R) (m_subtables m ! k) else m_subtables m ! k)"
  by (simp add: collect_tables_def)

lemma collect_tables_insert:
  assumes "k < length (m_subtables m)" "k \<notin> K"
  shows "collect_tables R (insert k K) m = (collect_tables R K m)[k := map_option (collect R) (m_subtables m ! k)]"
  by (rule nth_equalityI) (use assms in \<open>auto simp: collect_tables_def nth_list_update\<close>)

lemma length_collect_tables [simp]: "length (collect_tables R K m) = length (m_subtables m)"
  by (simp add: collect_tables_def)

lemma memcmp_refl [simp]: "memcmp x x = 0"
  by (induction x) simp_all

lemma descending_distinct: "descending C ch \<Longrightarrow> distinct ch"
  unfolding descending_def by (induction ch) auto

lemma distinct_concatI:
  assumes "\<And>ch. ch \<in> set xs \<Longrightarrow> distinct ch"
    and "\<And>a b. a < length xs \<Longrightarrow> b < length xs \<Longrightarrow> a \<noteq> b \<Longrightarrow> set (xs ! a) \<inter> set (xs ! b) = {}"
  shows "distinct (concat xs)"
  using assms
proof (induction xs)
  case Nil
  then show ?case by simp
next
  case (Cons x xs)
  have "distinct (concat xs)"
  proof (rule Cons.IH)
    show "ch \<in> set xs \<Longrightarrow> distinct ch" for ch using Cons.prems(1) by simp
    show "set (xs ! a) \<inter> set (xs ! b) = {}" if "a < length xs" "b < length xs" "a \<noteq> b" for a b
      using Cons.prems(2) [of "Suc a" "Suc b"] that by simp
  qed
  moreover have "set x \<inter> set ys = {}" if "ys \<in> set xs" for ys
  proof -
    from that obtain b where "b < length xs" "xs ! b = ys" by (auto simp: in_set_conv_nth)
    then show ?thesis using Cons.prems(2) [of 0 "Suc b"] by simp
  qed
  ultimately show ?case using Cons.prems(1) by auto
qed

lemma distinct_chained:
  assumes "tables_ok s" "tbl s i k = Some t"
  shows "distinct (concat (t_hash t))"
proof -
  have ok: "table_ok (env s) (cont s) (chunk_man s) i k t"
    using assms by (simp add: tables_ok_def)
  show ?thesis
  proof (rule distinct_concatI)
    show "distinct ch" if "ch \<in> set (t_hash t)" for ch
      using ok that descending_distinct unfolding table_ok_def by (metis in_set_conv_nth)
    show "set (t_hash t ! a) \<inter> set (t_hash t ! b) = {}"
      if "a < length (t_hash t)" "b < length (t_hash t)" "a \<noteq> b" for a b
    proof (rule ccontr)
      assume "set (t_hash t ! a) \<inter> set (t_hash t ! b) \<noteq> {}"
      then obtain p where "p \<in> set (t_hash t ! a)" "p \<in> set (t_hash t ! b)" by blast
      then have "in_place (env s) (cont s) (chunk_man s) i k (t_shift t) a p"
        "in_place (env s) (cont s) (chunk_man s) i k (t_shift t) b p"
        using ok that(1,2) unfolding table_ok_def by blast+
      then show False using that(3) by (auto simp: in_place_def)
    qed
  qed
qed

lemma gbc_subtable_spec:
  assumes ok: "tables_ok s" and c: "collected i m K ps s t" and k: "k \<notin> K" "k < length (m_subtables m)"
  shows "\<exists>qs u. gbc_subtable i k t = Inr ((), u) \<and> collected i m (insert k K) (ps @ qs) s u"
proof -
  let ?m = "m\<lparr>m_free := rev ps @ m_free m, m_subtables := collect_tables (rf s) K m\<rparr>"
  have mt: "man_of t i = Some ?m" and ms: "man_of s i = Some m" using c by (simp_all add: collected_def)
  have gs: "get_subtable i k t = Inr (m_subtables m ! k, t)"
    using mt k by (simp add: get_subtable_def bindM_def get_man_def someM_def ret_def collect_tables_nth)
  show ?thesis
  proof (cases "m_subtables m ! k")
    case None
    then have "gbc_subtable i k t = Inr ((), t)"
      by (simp add: gbc_subtable_def bindM_def gs ret_def)
    moreover have "garbage s m (insert k K) = garbage s m K"
      using None by (auto simp: garbage_def table_of_def)
    moreover have "collect_tables (rf s) (insert k K) m = collect_tables (rf s) K m"
      using None k by (simp add: collect_tables_insert) (metis collect_tables_nth list_update_id)
    ultimately show ?thesis using c unfolding collected_def by (intro exI [of _ "[]"] exI [of _ t]) simp
  next
    case (Some tb)
    then have tb: "table_of m k = Some tb" using k by (simp add: table_of_def)
    then have ts: "tbl s i k = Some tb" using ms by (auto simp: tbl_iff)
    show ?thesis
    proof (cases "t_deadcnt tb = 0")
      case True
      then have "gbc_subtable i k t = Inr ((), t)"
        using Some by (simp add: gbc_subtable_def bindM_def gs ret_def)
      moreover have "garbage s m (insert k K) = garbage s m K"
        using tb True by (auto simp: garbage_def)
      moreover have "collect_tables (rf s) (insert k K) m = collect_tables (rf s) K m"
        using Some True k by (simp add: collect_tables_insert collect_def) (metis collect_tables_nth list_update_id)
      ultimately show ?thesis using c unfolding collected_def by (intro exI [of _ "[]"] exI [of _ t]) simp
    next
      case False
      let ?qs = "filter (\<lambda>p. rf s p = 0) (concat (t_hash tb))"
      have apart: "q \<notin> set ps" if "q \<in> chained tb" for q
      proof
        assume "q \<in> set ps"
        then obtain k' t' where "k' \<in> K" "table_of m k' = Some t'" "q \<in> chained t'"
          using c by (auto simp: collected_def garbage_def)
        moreover have "tbl s i k' = Some t'" using calculation ms by (auto simp: tbl_iff)
        ultimately show False using place_unique [OF ok ts that] k(1) by blast
      qed
      have nt: "nodes t q = nodes s q" if "q \<in> chained tb" for q
        using apart [OF that] c by (simp add: collected_def)
      have rt: "rf t q = rf s q" if "q \<in> set (concat (t_hash tb))" for q
        using nt that by (simp add: rf_def chained_def)
      have ex: "nodes t q \<noteq> None \<and> cdd_rglr q = q" if "q \<in> set (concat (t_hash tb))" for q
      proof -
        have q: "q \<in> chained tb" using that by (simp add: chained_def)
        from chained_place [OF ok ts q] obtain b where "cont s q = Some (k, b)" "cdd_rglr q = q" .
        then have "cont s q \<noteq> None" "cdd_rglr q = q" by simp_all
        with nt [OF q] show ?thesis by (simp add: nodes_None_cont [symmetric])
      qed
      have fl: "map (filter (\<lambda>p. rf t p \<noteq> 0)) (t_hash tb) = map (filter (\<lambda>p. rf s p \<noteq> 0)) (t_hash tb)"
        "filter (\<lambda>p. rf t p = 0) (concat (t_hash tb)) = ?qs"
        by (intro map_cong refl filter_cong; use rt in force)+
      from gbc_buckets_spec [OF mt distinct_chained [OF ok ts] ex] obtain v where
        v: "gbc_buckets i (t_hash tb) t = Inr (map (filter (\<lambda>p. rf s p \<noteq> 0)) (t_hash tb), v)"
          "freed i ?qs t v" unfolding fl by blast
      let ?mv = "?m\<lparr>m_free := rev ?qs @ m_free ?m\<rparr>"
      have mv: "man_of v j = (if j = i then Some ?mv else man_of t j)" for j
        using v(2) mt by (simp add: freed_def)
      have tv: "table_of ?mv k = Some tb" using Some k by (simp add: table_of_def collect_tables_nth)
      let ?m2 = "put_subtable k (Some (collect (rf s) tb)) ?mv"
      have up: "upd_subtable i k (\<lambda>t. t\<lparr>t_hash := map (filter (\<lambda>p. rf s p \<noteq> 0)) (t_hash tb),
          t_keys := t_keys t - t_deadcnt t, t_deadcnt := 0\<rparr>) v = Inr ((), put_man i ?m2 v)"
        using upd_subtable_eq [of v i ?mv k tb] mv tv False by (simp add: collect_def)
      have run: "gbc_subtable i k t = Inr ((), put_man i ?m2 v)"
        using Some False v(1) up by (simp add: gbc_subtable_def bindM_def gs)
      have "collected i m (insert k K) (ps @ ?qs) s (put_man i ?m2 v)"
        unfolding collected_def
      proof (intro conjI allI)
        show "man_of s i = Some m" by fact
        show "distinct (ps @ ?qs)"
          using c apart distinct_chained [OF ok ts] by (auto simp: collected_def chained_def)
        show "set (ps @ ?qs) = garbage s m (insert k K)"
          using c tb False by (auto simp: collected_def garbage_def chained_def)
        show "blank_mem (put_man i ?m2 v) = blank_mem s"
          using v(2) c by (simp add: freed_def collected_def blank_mem_def)
        show "length (cddmanager (put_man i ?m2 v)) = length (cddmanager s)"
          using v(2) c by (simp add: freed_def collected_def)
        show "nodes (put_man i ?m2 v) = (\<lambda>q. if q \<in> set (ps @ ?qs) then None else nodes s q)"
          using v(2) c by (auto simp: freed_def collected_def fun_eq_iff)
        show "man_of (put_man i ?m2 v) j = (if j = i then Some (m\<lparr>m_free := rev (ps @ ?qs) @ m_free m,
             m_subtables := collect_tables (rf s) (insert k K) m\<rparr>) else man_of s j)" for j
          using mv c k Some by (simp add: put_subtable_def collect_tables_insert collected_def)
      qed
      with run show ?thesis by blast
    qed
  qed
qed

section \<open>The invariant after a collection\<close>

lemma blank_mem_fields:
  assumes "blank_mem s' = blank_mem s"
  shows "env s' = env s" "chunk_man s' = chunk_man s" "os_chunks s' = os_chunks s"
    "cdd_levelcnt s' = cdd_levelcnt s" "cdd_gbccnt s' = cdd_gbccnt s"
    "cdd_maxcddsize s' = cdd_maxcddsize s" "cdd_maxcddused s' = cdd_maxcddused s"
    "cdd_clocknum s' = cdd_clocknum s" "cdd_levelinfo s' = cdd_levelinfo s" "cdd_diff2level s' = cdd_diff2level s"
    "cdd_errorcond s' = cdd_errorcond s" "cdd_refstack s' = cdd_refstack s"
    "postgbc_handler s' = postgbc_handler s" "postrehash_handler s' = postrehash_handler s"
    "extra_terminals s' = extra_terminals s"
    "applycache s' = applycache s" "quantcache s' = quantcache s" "replacecache s' = replacecache s"
    "relaxcache s' = relaxcache s" "applyop s' = applyop s" "opid s' = opid s" "cdd_running s' = cdd_running s"
  using arg_cong [OF assms, of env] arg_cong [OF assms, of chunk_man] arg_cong [OF assms, of os_chunks]
    arg_cong [OF assms, of cdd_levelcnt] arg_cong [OF assms, of cdd_gbccnt]
    arg_cong [OF assms, of cdd_maxcddsize] arg_cong [OF assms, of cdd_maxcddused]
    arg_cong [OF assms, of cdd_clocknum] arg_cong [OF assms, of cdd_levelinfo] arg_cong [OF assms, of cdd_diff2level]
    arg_cong [OF assms, of cdd_errorcond] arg_cong [OF assms, of cdd_refstack]
    arg_cong [OF assms, of postgbc_handler] arg_cong [OF assms, of postrehash_handler]
    arg_cong [OF assms, of extra_terminals]
    arg_cong [OF assms, of applycache] arg_cong [OF assms, of quantcache] arg_cong [OF assms, of replacecache]
    arg_cong [OF assms, of relaxcache] arg_cong [OF assms, of applyop] arg_cong [OF assms, of opid]
    arg_cong [OF assms, of cdd_running]
  by (simp_all add: blank_mem_def blank_def)

lemma chained_collect:
  "chained (collect R t) = chained t - (if t_deadcnt t = 0 then {} else {p. R p = 0})"
  by (auto simp: collect_def chained_def)

definition gbc_man :: "nodemanager \<Rightarrow> ptr list \<Rightarrow> subtable option list \<Rightarrow> nodemanager" where
  "gbc_man m ps ts = m\<lparr>m_free := rev ps @ m_free m, m_subtables := ts,
     m_freecnt := m_freecnt m + m_deadcnt m, m_deadcnt := 0, m_gbccnt := m_gbccnt m + 1\<rparr>"

lemma table_ok_collect:
  assumes "table_ok v C M i k t" "\<And>p. p \<in> chained (collect R t) \<Longrightarrow> C' p = C p"
  shows "table_ok v C' M i k (collect R t)"
proof -
  let ?u = "collect R t"
  have len: "length (t_hash ?u) = length (t_hash t)" "t_shift ?u = t_shift t"
    by (simp_all add: collect_def)
  have b: "descending C' (t_hash ?u ! b) \<and> (\<forall>p \<in> set (t_hash ?u ! b). in_place v C' M i k (t_shift t) b p)"
    if b: "b < length (t_hash t)" for b
  proof -
    have f: "\<exists>P. t_hash ?u ! b = filter P (t_hash t ! b)"
    proof (cases "t_deadcnt t = 0")
      case True
      then show ?thesis by (intro exI [of _ "\<lambda>_. True"]) (simp add: collect_def)
    next
      case False
      with b show ?thesis by (intro exI [of _ "\<lambda>p. R p \<noteq> 0"]) (simp add: collect_def)
    qed
    have same: "C' p = C p" if "p \<in> set (t_hash ?u ! b)" for p
      using assms(2) [of p] that b len(1) chained_iff by metis
    have "descending C (t_hash t ! b)" "\<forall>p \<in> set (t_hash t ! b). in_place v C M i k (t_shift t) b p"
      using assms(1) b by (simp_all add: table_ok_def)
    then have "descending C (t_hash ?u ! b)" "\<forall>p \<in> set (t_hash ?u ! b). in_place v C M i k (t_shift t) b p"
      using f by (auto simp: descending_def intro: sorted_wrt_filter)
    then show ?thesis
      using same unfolding descending_def in_place_def
      by (auto simp: key_at_def elim!: sorted_wrt_mono_rel [rotated])
  qed
  then show ?thesis using assms(1) len by (simp add: table_ok_def)
qed

lemma gbc_core:
  assumes c: "core s X {} {} B" and g: "collected i m {..<length (m_subtables m)} ps s s1"
  defines "s2 \<equiv> (put_man i (gbc_man m ps (collect_tables (rf s) {..<length (m_subtables m)} m)) s1)
             \<lparr>cdd_gbccnt := cdd_gbccnt s1 + 1\<rparr>"
  shows "core s2 X {} {} B" and "keeps s s2" and "man_of s2 i = Some (gbc_man m ps (collect_tables (rf s) {..<length (m_subtables m)} m))"
    and "tbl s2 j k = (if j = i then map_option (collect (rf s)) (tbl s j k) else tbl s j k)"
proof -
  let ?K = "{..<length (m_subtables m)}"
  let ?m = "gbc_man m ps (collect_tables (rf s) ?K m)"
  have m: "man_of s i = Some m" using g by (simp add: collected_def)
  have ok: "tables_ok s" and st: "static_ok s B" and mo: "mans_ok s" using c by (simp_all add: core_def)
  have f: "man_of s2 j = (if j = i then Some ?m else man_of s j)" for j
  proof -
    have "man_of s2 j = man_of (put_man i ?m s1) j" by (cases j) (simp_all add: s2_def)
    then show ?thesis using g by (simp add: collected_def)
  qed
  then show "man_of s2 i = Some ?m" by simp
  have ns: "nodes s2 = (\<lambda>q. if q \<in> set ps then None else nodes s q)"
    using g by (simp add: s2_def collected_def)
  have "blank_mem s1 = blank_mem s" using g by (simp add: collected_def)
  note bf = blank_mem_fields [OF this]
  have fs: "env s2 = env s" "chunk_man s2 = chunk_man s" "os_chunks s2 = os_chunks s"
    "cdd_levelcnt s2 = cdd_levelcnt s" "cdd_maxcddsize s2 = cdd_maxcddsize s"
    "cdd_clocknum s2 = cdd_clocknum s" "cdd_levelinfo s2 = cdd_levelinfo s" "cdd_diff2level s2 = cdd_diff2level s"
    "cdd_errorcond s2 = cdd_errorcond s" "cdd_refstack s2 = cdd_refstack s"
    "postgbc_handler s2 = postgbc_handler s" "postrehash_handler s2 = postrehash_handler s"
    "extra_terminals s2 = extra_terminals s" "applyop s2 = applyop s" "opid s2 = opid s" "applycache s2 = applycache s"
    "cdd_running s2 = cdd_running s"
    by (cases i; simp add: s2_def bf)+
  have lc: "length (cddmanager s2) = length (cddmanager s)"
    using g by (simp add: s2_def collected_def)
  have tb: "tbl s2 j k = (if j = i then map_option (collect (rf s)) (tbl s j k) else tbl s j k)" for j k
    using m by (auto simp: tbl_def f gbc_man_def table_of_def collect_tables_nth split: option.splits)
  then show "tbl s2 j k = (if j = i then map_option (collect (rf s)) (tbl s j k) else tbl s j k)" .
  have ps: "set ps = {p. \<exists>k t. tbl s i k = Some t \<and> t_deadcnt t \<noteq> 0 \<and> p \<in> chained t \<and> rf s p = 0}"
    using g m unfolding collected_def garbage_def tbl_def by (auto simp: table_of_def split: if_splits)
  have psT: "set ps \<subseteq> tabled s" "\<And>p. p \<in> set ps \<Longrightarrow> rf s p = 0"
    using ps tabledI by blast+
  have rf: "rf s2 = rf s"
    using psT(2) by (fastforce simp: fun_eq_iff rf_def ns split: option.splits)
  have ct: "cont s2 q = (if q \<in> set ps then None else cont s q)" for q
    by (simp add: cont_def ns)
  have T: "tabled s2 = tabled s - set ps"
  proof (rule set_eqI)
    fix p
    have "p \<in> tabled s2 \<longleftrightarrow> (\<exists>j k t. tbl s j k = Some t \<and>
        (if j = i then p \<in> chained (collect (rf s) t) else p \<in> chained t))"
      unfolding tabled_iff tb by (fastforce split: if_splits)
    also have "\<dots> \<longleftrightarrow> (\<exists>j k t. tbl s j k = Some t \<and> p \<in> chained t \<and> \<not> (j = i \<and> t_deadcnt t \<noteq> 0 \<and> rf s p = 0))"
      by ((rule iff_exI)+) (auto simp: chained_collect)
    also have "\<dots> \<longleftrightarrow> p \<in> tabled s - set ps"
    proof
      assume "\<exists>j k t. tbl s j k = Some t \<and> p \<in> chained t \<and> \<not> (j = i \<and> t_deadcnt t \<noteq> 0 \<and> rf s p = 0)"
      then obtain j k t where h: "tbl s j k = Some t" "p \<in> chained t" "\<not> (j = i \<and> t_deadcnt t \<noteq> 0 \<and> rf s p = 0)" by blast
      then have "p \<notin> set ps" unfolding ps using place_unique [OF ok h(1,2)] by blast
      then show "p \<in> tabled s - set ps" using tabledI [OF h(1,2)] by simp
    next
      assume p: "p \<in> tabled s - set ps"
      then obtain j k t where h: "tbl s j k = Some t" "p \<in> chained t" by (auto simp: tabled_iff)
      then have "\<not> (j = i \<and> t_deadcnt t \<noteq> 0 \<and> rf s p = 0)" using p ps by blast
      with h show "\<exists>j k t. tbl s j k = Some t \<and> p \<in> chained t \<and> \<not> (j = i \<and> t_deadcnt t \<noteq> 0 \<and> rf s p = 0)"
        by blast
    qed
    finally show "p \<in> tabled s2 \<longleftrightarrow> p \<in> tabled s - set ps" .
  qed
  have own: "own (tabled s2) (rf s2) {} {} = own (tabled s) (rf s) {} {}"
    using psT(2) by (auto simp: own_def T rf)
  have cf: "cddfalse \<notin> set ps" using psT(1) term_not_tabled [OF c] by blast
  show kp: "keeps s s2"
    unfolding keeps_def
  proof (intro conjI ballI)
    show "same_env s s2" by (simp add: same_env_def fs)
    show "cont s2 cddfalse = cont s cddfalse" using cf by (simp add: ct)
    fix q assume "q \<in> live s"
    then have q: "q \<in> tabled s" "0 < rf s q" by (simp_all add: live_iff)
    then have "q \<notin> set ps" using psT(2) by force
    with q show "q \<in> tabled s2" "cont s2 q = cont s q" "rf s2 q = rf s q" by (simp_all add: T ct rf)
  qed
  show "core s2 X {} {} B"
    unfolding core_def
  proof (intro conjI)
    show "static_ok s2 B"
    proof -
      have "bddmanager s2 \<noteq> None" using st f [of BddMan] by (auto simp: static_ok_def split: if_splits)
      then show ?thesis using st cf lc unfolding static_ok_def by (simp add: fs ns del: not_None_eq)
    qed
    show "tables_ok s2"
      unfolding tables_ok_def
    proof (intro allI impI)
      fix j k t assume t: "tbl s2 j k = Some t"
      have same: "cont s2 p = cont s p" if "p \<in> chained t" for p
        using tabledI [OF t that] by (simp add: ct T)
      show "table_ok (env s2) (cont s2) (chunk_man s2) j k t"
      proof (cases "j = i")
        case True
        then obtain t0 where t0: "tbl s j k = Some t0" "t = collect (rf s) t0" using t tb by auto
        have "table_ok (env s) (cont s) (chunk_man s) j k t0" using ok t0(1) by (simp add: tables_ok_def)
        then show ?thesis unfolding fs t0(2) by (rule table_ok_collect) (use same t0(2) in simp)
      next
        case False
        then have t0: "tbl s j k = Some t" using t tb by simp
        have ok': "table_ok (env s) (cont s) (chunk_man s) j k t" using ok t0 by (simp add: tables_ok_def)
        have "table_ok (env s) (cont s2) (chunk_man s) j k (collect (rf s) (t\<lparr>t_deadcnt := 0\<rparr>))"
        proof (rule table_ok_collect)
          show "table_ok (env s) (cont s) (chunk_man s) j k (t\<lparr>t_deadcnt := 0\<rparr>)" using ok' by (simp add: table_ok_def)
          show "cont s2 p = cont s p" if "p \<in> chained (collect (rf s) (t\<lparr>t_deadcnt := 0\<rparr>))" for p
            using same that by (simp add: collect_def chained_def)
        qed
        then show ?thesis by (simp add: collect_def table_ok_def fs)
      qed
    qed
    show "mans_ok s2"
      unfolding mans_ok_def
    proof (intro allI impI)
      fix j mj assume mj: "man_of s2 j = Some mj"
      have sent: "cont s2 q = cont s q \<and> q \<notin> tabled s2" if "q \<notin> tabled s" for q
        using that psT(1) by (auto simp: ct T)
      show "man_ok s2 j mj"
      proof (cases "j = i")
        case True
        then have mj': "mj = ?m" using mj f by simp
        have mi: "man_ok s i m" using mo m by (simp add: mans_ok_def)
        have pc: "cell_ok s i p \<and> nodes s p \<noteq> None" if p: "p \<in> set ps" for p
        proof -
          from p ps obtain k t where "tbl s i k = Some t" "p \<in> chained t" by auto
          from chained_place [OF ok this] obtain b where "cdd_rglr p = p" "chunk_man s (cdd_node2chunk p) = Some i"
            "cont s p = Some (k, b)" .
          then show ?thesis by (auto simp: cell_ok_def cont_def)
        qed
        have dead0: "table_deads ?m = 0"
        proof -
          have "map (\<lambda>t. case t of None \<Rightarrow> 0 | Some t \<Rightarrow> t_deadcnt t) (m_subtables ?m) = replicate (length (m_subtables m)) 0"
            by (rule nth_equalityI) (auto simp: gbc_man_def collect_tables_nth collect_def split: option.splits)
          then show ?thesis by (simp add: table_deads_def sum_list_replicate)
        qed
        have "set ps \<inter> set (m_free m) = {}" using mi pc unfolding man_ok_def by fastforce
        then show ?thesis
          using mi pc sent [of "m_sentinel m"] g dead0 True unfolding mj' man_ok_def
          by (auto simp: gbc_man_def ns fs cell_ok_def collected_def)
      next
        case False
        then have ms: "man_of s j = Some mj" using mj f by simp
        then have "man_ok s j mj" using mo by (simp add: mans_ok_def)
        then show ?thesis using sent [of "m_sentinel mj"] unfolding man_ok_def by (auto simp: ns fs cell_ok_def)
      qed
    qed
    have kids: "kids_of (cont s2) p = kids_of (cont s) p" if "p \<in> own (tabled s) (rf s) {} {}" for p
    proof -
      have "cdd_rglr p = p" using that ok tabled_node [of s p] by (auto simp: own_def)
      moreover have "p \<notin> set ps" using that psT(2) by (force simp: own_def)
      ultimately show ?thesis by (simp add: kids_of_def ct)
    qed
    show "refs_ok s2 X {} {}"
    proof -
      have ind: "indeg (cont s2) (own (tabled s) (rf s) {} {}) q = indeg (cont s) (own (tabled s) (rf s) {} {}) q" for q
        by (rule indeg_cong) (rule kids)
      have old: "\<forall>q \<in> tabled s. rf s q \<le> MAXREF \<and>
          (rf s q \<noteq> MAXREF \<longrightarrow> X q + indeg (cont s) (own (tabled s) (rf s) {} {}) q \<le> rf s q)"
        "\<forall>q. 0 < X q \<longrightarrow> q \<in> tabled s \<or> q = cddfalse"
        using c unfolding core_def refs_ok_def by blast+
      have "q \<notin> set ps" if "0 < X q" "q \<in> tabled s" for q
      proof
        assume "q \<in> set ps"
        then have "rf s q = 0" by (rule psT(2))
        with old(1) that show False by (fastforce simp: MAXREF_def)
      qed
      with old show ?thesis
        unfolding refs_ok_def unfolding own unfolding ind unfolding T rf by blast
    qed
    show "owners_sound s2 {} {} B"
    proof -
      have "sound (cont s2) (tabled s2) (cdd_levelinfo s2) B p" if p: "p \<in> own (tabled s) (rf s) {} {}" for p
      proof (rule keeps_sound [OF c kp])
        show "sound (cont s) (tabled s) (cdd_levelinfo s) B p" using c p unfolding core_def owners_sound_def by blast
        have "cdd_rglr p = p" using p ok tabled_node [of s p] by (auto simp: own_def)
        then show "cdd_rglr p \<in> insert cddfalse (live s)" using p by (simp add: live_def)
      qed
      then show ?thesis unfolding owners_sound_def own by blast
    qed
    show "dead_ok s2 {} {}"
      unfolding dead_ok_def
    proof (intro allI impI)
      fix j k t assume t: "tbl s2 j k = Some t"
      show "t_deadcnt t \<le> int (card {p \<in> chained t. rf s2 p = 0 \<and> p \<notin> {} \<or> p \<in> {}})"
      proof (cases "j = i")
        case True
        then have "t_deadcnt t = 0" using t tb by (auto simp: collect_def)
        then show ?thesis by simp
      next
        case False
        then have "tbl s j k = Some t" using t tb by simp
        then show ?thesis using c unfolding core_def dead_ok_def rf by blast
      qed
    qed
  qed
qed

end
