(* ===== verification/Alloc.thy ===== *)
theory Alloc
  imports Gc
begin

text \<open>
  Allocation of a node: flushing the caches, collecting the manager or asking the operating
  system for a chunk, and taking a cell from the free list.  A collection that
  \<^verbatim>\<open>cdd_alloc_node\<close> starts frees at least one cell, so the free list it takes from is not empty.
\<close>

section \<open>Flushing the caches\<close>

definition with_caches :: "cddcache \<Rightarrow> cddcache \<Rightarrow> cddcache \<Rightarrow> relaxcache \<Rightarrow> kstate \<Rightarrow> kstate" where
  "with_caches a b c d s = s\<lparr>applycache := a, quantcache := b, replacecache := c, relaxcache := d\<rparr>"

lemma with_caches_views [simp]:
  "man_of (with_caches a b c d s) i = man_of s i" "cont (with_caches a b c d s) = cont s"
  "rf (with_caches a b c d s) = rf s" "tbl (with_caches a b c d s) i k = tbl s i k"
  "tabled (with_caches a b c d s) = tabled s" "nodes (with_caches a b c d s) = nodes s"
  "cdd_levelinfo (with_caches a b c d s) = cdd_levelinfo s" "cdd_levelcnt (with_caches a b c d s) = cdd_levelcnt s"
  "cdd_gbccnt (with_caches a b c d s) = cdd_gbccnt s" "live (with_caches a b c d s) = live s"
  "same_env s (with_caches a b c d s) \<longleftrightarrow> cache_tablesize a = cache_tablesize (applycache s)"
proof -
  show 1: "man_of (with_caches a b c d s) i = man_of s i" for i
    by (cases i) (simp_all add: with_caches_def)
  show 2: "tbl (with_caches a b c d s) i k = tbl s i k" for i k by (simp add: tbl_def 1)
  show 3: "tabled (with_caches a b c d s) = tabled s" by (simp add: tabled_def 2)
  show 4: "rf (with_caches a b c d s) = rf s" by (simp add: fun_eq_iff rf_def with_caches_def)
  show "live (with_caches a b c d s) = live s" by (simp add: live_def 3 4)
qed (simp_all add: with_caches_def fun_eq_iff cont_def same_env_def)

lemma with_caches_caches [simp]:
  "applycache (with_caches a b c d s) = a" "quantcache (with_caches a b c d s) = b"
  "replacecache (with_caches a b c d s) = c" "relaxcache (with_caches a b c d s) = d"
  by (simp_all add: with_caches_def)

lemma core_with_caches: "core (with_caches a b c d s) X F W B \<longleftrightarrow> core s X F W B"
proof -
  let ?s = "with_caches a b c d s"
  have f: "env ?s = env s" "chunk_man ?s = chunk_man s" "os_chunks ?s = os_chunks s"
    "cdd_maxcddsize ?s = cdd_maxcddsize s" "cddmanager ?s = cddmanager s" "bddmanager ?s = bddmanager s"
    "postgbc_handler ?s = postgbc_handler s" "postrehash_handler ?s = postrehash_handler s"
    "cdd_errorcond ?s = cdd_errorcond s"
    by (simp_all add: with_caches_def)
  have "static_ok ?s B \<longleftrightarrow> static_ok s B" by (simp add: static_ok_def f)
  moreover have "tables_ok ?s \<longleftrightarrow> tables_ok s" by (simp add: tables_ok_def f)
  moreover have "mans_ok ?s \<longleftrightarrow> mans_ok s" by (simp add: mans_ok_def man_ok_def cell_ok_def f)
  ultimately show ?thesis by (simp add: core_def refs_ok_def owners_sound_def dead_ok_def)
qed

definition entry_live :: "kstate \<Rightarrow> cache_data \<Rightarrow> bool" where
  "entry_live s e \<longleftrightarrow> (\<forall>p \<in> set (cache_ptrs e). cdd_rglr p \<in> insert cddfalse (live s))"

definition caches_live :: "kstate \<Rightarrow> bool" where
  "caches_live s \<longleftrightarrow> opcache.all_live (entry_live s) (applycache s) \<and>
     opcache.all_live (entry_live s) (quantcache s) \<and> opcache.all_live (entry_live s) (replacecache s)"

lemma flush_one:
  assumes c: "core s X F {} B" and P: "opcache.all_live P c0" "\<And>e. P e \<Longrightarrow> entry_sound s B e"
  obtains d where "CddCache_flush (ref_of s) c0 = Some d"
    "opcache.all_live (\<lambda>e. P e \<and> entry_live s e) d"
proof -
  have ref: "ref_of s (cdd_rglr p) = Some (rf s (cdd_rglr p))" if "P e" "p \<in> set (cache_ptrs e)" for e p
  proof -
    have "sound (cont s) (tabled s) (cdd_levelinfo s) B p" using P(2) that by (simp add: entry_sound_def)
    then have "cdd_rglr p \<in> tabled s \<or> cdd_rglr p = cddfalse" by (rule sound_place)
    from core_node [OF c this] show ?thesis by (auto simp: ref_of_def)
  qed
  have "opcache.all_live (\<lambda>e. \<forall>p \<in> set (cache_ptrs e). ref_of s (cdd_rglr p) \<noteq> None) c0"
    using P(1) ref unfolding opcache.all_live_def by fastforce
  from opcache.purge_returns [OF this] obtain d where d: "CddCache_flush (ref_of s) c0 = Some d" .
  have "opcache.all_live (\<lambda>e. P e \<and> entry_live s e) d"
    unfolding opcache.all_live_def
  proof (intro ballI impI)
    fix e assume e: "e \<in> set (cache_table d)" "cache_live e"
    then have pe: "P e" "\<forall>p \<in> set (cache_ptrs e). \<exists>n. ref_of s (cdd_rglr p) = Some n \<and> n \<noteq> 0"
      using opcache.all_live_purge [OF P(1) d] unfolding opcache.all_live_def by blast+
    have "entry_live s e"
      unfolding entry_live_def
    proof
      fix p assume p: "p \<in> set (cache_ptrs e)"
      have "sound (cont s) (tabled s) (cdd_levelinfo s) B p" using P(2) [OF pe(1)] p by (simp add: entry_sound_def)
      then have "cdd_rglr p \<in> tabled s \<or> cdd_rglr p = cddfalse" by (rule sound_place)
      moreover have "0 < rf s (cdd_rglr p)" using pe(2) p ref [OF pe(1) p] by auto
      ultimately show "cdd_rglr p \<in> insert cddfalse (live s)" by (auto simp: live_iff)
    qed
    with pe(1) show "P e \<and> entry_live s e" ..
  qed
  with d that show ?thesis by blast
qed

lemma entry_sound_cong [simp]: "entry_sound (with_caches a b c d s) B = entry_sound s B"
  by (simp add: fun_eq_iff entry_sound_def)

lemma entry_means_cong [simp]: "entry_means T (with_caches a b c d s) B = entry_means T s B"
  by (simp add: fun_eq_iff entry_means_def)

lemma apply_entry_cong [simp]: "apply_entry_ok (with_caches a b c d s) B = apply_entry_ok s B"
  by (simp add: fun_eq_iff apply_entry_ok_def)

lemma entry_live_cong [simp]: "entry_live (with_caches a b c d s) = entry_live s"
  by (simp add: fun_eq_iff entry_live_def)

lemma all_live_conj:
  "opcache.all_live (\<lambda>e. P e \<and> Q e) c \<longleftrightarrow> opcache.all_live P c \<and> opcache.all_live Q c"
  unfolding opcache.all_live_def by blast

lemma ref_of_caches [simp]:
  "ref_of (s\<lparr>applycache := a\<rparr>) = ref_of s" "ref_of (s\<lparr>quantcache := a\<rparr>) = ref_of s"
  by (simp_all add: fun_eq_iff ref_of_def)

lemma unary_flush:
  assumes "CddCache_flush r c = Some d" "unary_cache c"
  shows "unary_cache d"
proof -
  from assms(1) obtain t where t: "those (map (flush_entry r) (cache_table c)) = Some t" "d = c\<lparr>cache_table := t\<rparr>"
    by (auto simp: CddCache_flush_def)
  from t(1) have m: "map (flush_entry r) (cache_table c) = map Some t" by (rule those_SomeD)
  have "c_b e = 0" if "e \<in> set t" for e
  proof -
    have "Some e \<in> set (map Some t)" using that by simp
    then obtain n where "n \<in> set (cache_table c)" "flush_entry r n = Some e" unfolding m [symmetric] by auto
    then show ?thesis using assms(2) by (auto simp: unary_cache_def flush_entry_def split: if_splits option.splits)
  qed
  moreover have "length t = length (cache_table c)" using arg_cong [OF m, of length] by simp
  ultimately show ?thesis using assms(2) t(2) by (simp add: unary_cache_def cache_shape_def)
qed

lemma cdd_operator_flush_spec:
  assumes c: "core s X F {} B" and k: "caches_mean T s B"
  obtains a b d r where "cdd_operator_flush s = Inr ((), with_caches a b d r s)"
    "caches_mean T (with_caches a b d r s) B" "caches_live (with_caches a b d r s)"
    "cache_tablesize a = cache_tablesize (applycache s)"
proof -
  note k = k [unfolded caches_mean_def]
  have es: "apply_entry_ok s B e \<Longrightarrow> entry_sound s B e" "entry_means T s B e \<Longrightarrow> entry_sound s B e" for e
    by (simp_all add: apply_entry_ok_def entry_sound_def entry_means_def)
  from flush_one [OF c, of "apply_entry_ok s B" "applycache s"] k es(1) obtain a where
    a: "CddCache_flush (ref_of s) (applycache s) = Some a" "opcache.all_live (\<lambda>e. apply_entry_ok s B e \<and> entry_live s e) a"
    by blast
  from flush_one [OF c, of "entry_means T s B" "quantcache s"] k es(2) obtain b where
    b: "CddCache_flush (ref_of s) (quantcache s) = Some b" "opcache.all_live (\<lambda>e. entry_means T s B e \<and> entry_live s e) b"
    by blast
  from flush_one [OF c, of "entry_means T s B" "replacecache s"] k es(2) obtain d where
    d: "CddCache_flush (ref_of s) (replacecache s) = Some d" "opcache.all_live (\<lambda>e. entry_means T s B e \<and> entry_live s e) d"
    by blast
  let ?r = "CddRelaxCache_reset (relaxcache s)"
  have "cdd_operator_flush s = Inr ((), with_caches a b d ?r s)"
    by (simp add: cdd_operator_flush_def bindM_def thenM_def gets_def someM_def modifyM_def a(1) b(1) d(1)
        with_caches_def)
  moreover have "cache_shape a" using k length_flush [OF a(1)] tablesize_flush [OF a(1)] by (simp add: cache_shape_def)
  then have "caches_mean T (with_caches a b d ?r s) B"
    unfolding caches_mean_def with_caches_caches apply_entry_cong entry_means_cong
    using all_live_conj [THEN iffD1, OF a(2)] all_live_conj [THEN iffD1, OF b(2)] all_live_conj [THEN iffD1, OF d(2)]
      unary_flush [OF b(1)] unary_flush [OF d(1)] k by blast
  moreover have "caches_live (with_caches a b d ?r s)"
    unfolding caches_live_def with_caches_caches entry_live_cong
    using all_live_conj [THEN iffD1, OF a(2)] all_live_conj [THEN iffD1, OF b(2)] all_live_conj [THEN iffD1, OF d(2)]
    by blast
  ultimately show ?thesis using that tablesize_flush [OF a(1)] by blast
qed

lemma keeps_caches:
  assumes c: "core s X F {} B" and k: "caches_mean T s B" "caches_live s" "keeps s s'"
    and same: "applycache s' = applycache s" "quantcache s' = quantcache s" "replacecache s' = replacecache s"
  shows "caches_mean T s' B"
proof -
  have es: "entry_sound s' B e" if "entry_sound s B e" "entry_live s e" for e
    using that keeps_sound [OF c k(3)] unfolding entry_sound_def entry_live_def by blast
  have em: "entry_means T s' B e" if e: "entry_means T s B e" "entry_live s e" for e
  proof -
    have "cdd_rglr (c_a e) \<in> insert cddfalse (live s)" "cdd_rglr (c_res e) \<in> insert cddfalse (live s)"
      using e(2) by (simp_all add: entry_live_def cache_ptrs_def)
    then show ?thesis
      using e es [of e] unfolding entry_means_def by (simp add: keeps_eval [OF c k(3)])
  qed
  have ae: "apply_entry_ok s' B e" if e: "apply_entry_ok s B e" "entry_live s e" for e
  proof -
    have "cdd_rglr (c_a e) \<in> insert cddfalse (live s)" "cdd_rglr (c_res e) \<in> insert cddfalse (live s)"
      "c_b e \<noteq> 0 \<Longrightarrow> cdd_rglr (c_b e) \<in> insert cddfalse (live s)"
      using e(2) by (simp_all add: entry_live_def cache_ptrs_def)
    then show ?thesis
      using e es [of e] unfolding apply_entry_ok_def entry_sound_def
      by (simp add: keeps_eval [OF c k(3)] keeps_lv [OF k(3)])
  qed
  show ?thesis
    using k(1,2) em ae unfolding caches_mean_def caches_live_def opcache.all_live_def same by blast
qed

section \<open>A collection\<close>

lemma forM_snoc: "forM (xs @ [x]) f s = thenM (forM xs f) (f x) s"
  by (induction xs arbitrary: s) (auto simp: thenM_def bindM_def ret_def split: sum.splits)

lemma gbc_tables:
  assumes "tables_ok s" "man_of s i = Some m"
  shows "n \<le> length (m_subtables m) \<Longrightarrow>
     \<exists>ps t. forM [0..<n] (gbc_subtable i) s = Inr ((), t) \<and> collected i m {..<n} ps s t"
proof (induction n)
  case 0
  show ?case using collected_start [OF assms(2)] by (auto simp: ret_def)
next
  case (Suc n)
  then obtain ps t where t: "forM [0..<n] (gbc_subtable i) s = Inr ((), t)" "collected i m {..<n} ps s t" by auto
  from gbc_subtable_spec [OF assms(1) t(2), of n] Suc.prems obtain qs u where
    u: "gbc_subtable i n t = Inr ((), u)" "collected i m (insert n {..<n}) (ps @ qs) s u" by auto
  have "forM [0..<Suc n] (gbc_subtable i) s = Inr ((), u)"
    by (simp add: forM_snoc thenM_def bindM_def t(1) u(1))
  moreover have "{..<Suc n} = insert n {..<n}" by auto
  ultimately show ?case using u(2) by auto
qed

lemma sum_list_pos: "0 < (\<Sum>x\<leftarrow>xs. f x :: int) \<Longrightarrow> \<exists>x \<in> set xs. 0 < f x"
  by (induction xs) force+

lemma cdd_gbc_nodemanager_spec:
  assumes c: "core s X {} {} B" and k: "caches_mean T s B" "caches_live s" and m: "man_of s i = Some m"
  obtains s' m' where "cdd_gbc_nodemanager i s = Inr ((), s')" "core s' X {} {} B" "caches_mean T s' B" "keeps s s'"
    "cdd_gbccnt s' = cdd_gbccnt s + 1" "man_of s' i = Some m'" "0 < m_deadcnt m \<Longrightarrow> m_free m' \<noteq> []"
    "\<And>j k. tbl s' j k = (if j = i then map_option (collect (rf s)) (tbl s j k) else tbl s j k)"
    "\<And>q. nodes s' q = None \<or> nodes s' q = nodes s q"
proof -
  let ?n = "length (m_subtables m)"
  have mi: "man_ok s i m" using c m by (simp add: core_def mans_ok_def)
  then have n: "cdd_levelcnt s = ?n" by (simp add: man_ok_def)
  have ok: "tables_ok s" using c by (simp add: core_def)
  from gbc_tables [OF ok m order_refl] obtain ps s1 where
    s1: "forM [0..<?n] (gbc_subtable i) s = Inr ((), s1)" "collected i m {..<?n} ps s s1" by blast
  define m' where "m' = gbc_man m ps (collect_tables (rf s) {..<?n} m)"
  define s' where "s' = (put_man i m' s1)\<lparr>cdd_gbccnt := cdd_gbccnt s1 + 1\<rparr>"
  note g = gbc_core [OF c s1(2), folded m'_def, folded s'_def]
  have bm: "blank_mem s1 = blank_mem s" using s1(2) by (simp add: collected_def)
  note bf = blank_mem_fields [OF bm]
  have m1: "man_of s1 i = Some (m\<lparr>m_free := rev ps @ m_free m, m_subtables := collect_tables (rf s) {..<?n} m\<rparr>)"
    using s1(2) by (simp add: collected_def)
  have cnt: "cdd_gbccnt (put_man i m' s1) = cdd_gbccnt s1" by (cases i) simp_all
  have run: "cdd_gbc_nodemanager i s = Inr ((), s')"
    using s1(1) upd_man_eq [OF m1] cnt
    by (simp add: cdd_gbc_nodemanager_def bindM_def thenM_def gets_def modifyM_def n s'_def m'_def gbc_man_def)
  have "caches_mean T s' B"
    by (rule keeps_caches [OF c k g(2)]) (cases i; simp add: s'_def bf)+
  moreover have "m_free m' \<noteq> []" if d: "0 < m_deadcnt m"
  proof -
    have "0 < table_deads m" using d mi by (simp add: man_ok_def)
    then obtain x where x: "x \<in> set (m_subtables m)" "0 < (case x of None \<Rightarrow> 0 | Some t \<Rightarrow> t_deadcnt t)"
      unfolding table_deads_def using sum_list_pos by blast
    then obtain t where t: "x = Some t" "0 < t_deadcnt t"
      by (auto split: option.splits)
    from x(1) t(1) obtain l where l: "l < ?n" "m_subtables m ! l = Some t" by (auto simp: in_set_conv_nth)
    then have tm: "table_of m l = Some t" by (simp add: table_of_def)
    then have "tbl s i l = Some t" using m by (auto simp: tbl_iff)
    then have "t_deadcnt t \<le> int (card {p \<in> chained t. rf s p = 0})"
      using c by (simp add: core_def dead_ok_def)
    then have "{p \<in> chained t. rf s p = 0} \<noteq> {}" using t(2) by (intro notI) simp
    then obtain p where "p \<in> garbage s m {..<?n}"
      using l(1) tm t(2) unfolding garbage_def by force
    then have "ps \<noteq> []" using s1(2) by (auto simp: collected_def)
    then show ?thesis by (simp add: m'_def gbc_man_def)
  qed
  moreover have "cdd_gbccnt s' = cdd_gbccnt s + 1" using cnt by (simp add: s'_def bf)
  moreover have "nodes s' q = None \<or> nodes s' q = nodes s q" for q
    using s1(2) by (simp add: s'_def collected_def)
  ultimately show ?thesis using that run g by blast
qed

section \<open>A new chunk\<close>

lemma word_split:
  assumes "(b :: ptr) AND 0xFFFF = 0" "k < 2 ^ 16"
  shows "(b + of_nat k) AND NOT 0xFFFF = b" and "even k \<Longrightarrow> cdd_rglr (b + of_nat k) = b + of_nat k"
proof -
  have m: "(0xFFFF :: ptr) = mask 16" by (simp add: mask_eq_decr_exp)
  have hi: "bit b n \<Longrightarrow> 16 \<le> n" for n
  proof (rule ccontr)
    assume "bit b n" "\<not> 16 \<le> n"
    then have "bit (b AND 0xFFFF) n" unfolding m by (simp add: bit_and_iff bit_mask_iff)
    then show False using assms(1) by simp
  qed
  have lo: "bit (of_nat k :: ptr) n \<Longrightarrow> n < 16" for n
  proof -
    assume "bit (of_nat k :: ptr) n"
    then have "bit k n" by (simp add: bit_of_nat_iff)
    moreover have "k = take_bit 16 k" using assms(2) by (simp add: take_bit_nat_eq_self)
    ultimately have "bit (take_bit 16 k) n" by simp
    then show "n < 16" by (simp add: bit_take_bit_iff)
  qed
  have "b AND of_nat k = 0"
    by (rule bit_word_eqI) (use hi lo in \<open>force simp: bit_and_iff\<close>)
  then have sum: "b + of_nat k = b OR of_nat k" by (simp add: disjunctive_add_eq_or)
  show "(b + of_nat k) AND NOT 0xFFFF = b"
    unfolding sum m by (rule bit_word_eqI) (use hi lo in \<open>auto simp: bit_and_iff bit_or_iff bit_not_iff bit_mask_iff dest: hi lo; fastforce\<close>)
  assume "even k"
  have "\<not> bit (b OR of_nat k) 0"
  proof -
    have "\<not> bit b 0" using hi [of 0] by linarith
    moreover have "\<not> bit (of_nat k :: ptr) 0"
      unfolding bit_of_nat_iff using \<open>even k\<close> by (simp add: bit_0)
    ultimately show ?thesis unfolding bit_or_iff by blast
  qed
  then show "cdd_rglr (b + of_nat k) = b + of_nat k"
    unfolding sum by (intro bit_word_eqI) (metis bit_rglr)
qed

lemma chunk_cells_spec:
  assumes b: "(chunk :: ptr) AND 0xFFFF = 0" and sz: "even sz" "0 < sz"
  shows "distinct (chunk_cells chunk sz)"
    and "p \<in> set (chunk_cells chunk sz) \<Longrightarrow> cdd_rglr p = p \<and> cdd_node2chunk p = chunk"
    and "length (chunk_cells chunk sz) = chunk_nodes sz"
proof -
  have lt: "8 + k * sz < 2 ^ 16" if k: "k < chunk_nodes sz" for k
  proof -
    have "k + 1 \<le> (65536 - 8) div sz" using k by (simp add: chunk_nodes_def CHUNKSIZE_def)
    then have "(k + 1) * sz \<le> (65536 - 8) div sz * sz" by (rule mult_le_mono1)
    also have "\<dots> \<le> 65536 - 8" by simp
    finally have "k * sz + sz \<le> 65528" by simp
    then show ?thesis using sz(2) by simp
  qed
  have cell: "chunk + 8 + of_nat (k * sz) = chunk + of_nat (8 + k * sz)" for k
    by (simp only: of_nat_add of_nat_numeral add.assoc)
  show "distinct (chunk_cells chunk sz)"
    unfolding chunk_cells_def distinct_map
  proof (intro conjI inj_onI)
    fix k l assume kl: "k \<in> set [0..<chunk_nodes sz]" "l \<in> set [0..<chunk_nodes sz]"
      "chunk + 8 + of_nat (k * sz) = chunk + 8 + of_nat (l * sz)"
    then have "(of_nat (k * sz) :: ptr) = of_nat (l * sz)" by (simp del: of_nat_mult)
    moreover have "k * sz < 2 ^ 32" "l * sz < 2 ^ 32" using lt [of k] lt [of l] kl(1,2) by simp_all
    ultimately have "k * sz = l * sz"
      by (simp add: word_of_nat_eq_iff take_bit_nat_eq_self del: of_nat_mult)
    then show "k = l" using sz by simp
  qed simp
  show "cdd_rglr p = p \<and> cdd_node2chunk p = chunk" if "p \<in> set (chunk_cells chunk sz)"
  proof -
    from that obtain k where k: "k < chunk_nodes sz" "p = chunk + of_nat (8 + k * sz)"
      by (auto simp: chunk_cells_def cell simp del: of_nat_add of_nat_mult)
    show ?thesis
      using word_split [OF b lt [OF k(1)]] sz by (simp add: k(2) cdd_node2chunk_def)
  qed
  show "length (chunk_cells chunk sz) = chunk_nodes sz" by (simp add: chunk_cells_def)
qed

definition blank_os :: "kstate \<Rightarrow> kstate" where
  "blank_os s = (blank_mem s)\<lparr>os_chunks := 0, chunk_man := (\<lambda>_. None), cdd_chunkcnt := 0, cdd_maxcddused := 0\<rparr>"

lemma blank_os_fields:
  assumes "blank_os s' = blank_os s"
  shows "env s' = env s" "cdd_levelcnt s' = cdd_levelcnt s" "cdd_gbccnt s' = cdd_gbccnt s"
    "cdd_maxcddsize s' = cdd_maxcddsize s"
    "cdd_clocknum s' = cdd_clocknum s" "cdd_levelinfo s' = cdd_levelinfo s" "cdd_diff2level s' = cdd_diff2level s"
    "cdd_errorcond s' = cdd_errorcond s" "cdd_refstack s' = cdd_refstack s"
    "postgbc_handler s' = postgbc_handler s" "postrehash_handler s' = postrehash_handler s"
    "extra_terminals s' = extra_terminals s"
    "applycache s' = applycache s" "quantcache s' = quantcache s" "replacecache s' = replacecache s"
    "relaxcache s' = relaxcache s" "applyop s' = applyop s" "opid s' = opid s" "cdd_running s' = cdd_running s"
  using arg_cong [OF assms, of env] arg_cong [OF assms, of cdd_levelcnt] arg_cong [OF assms, of cdd_gbccnt]
    arg_cong [OF assms, of cdd_maxcddsize]
    arg_cong [OF assms, of cdd_clocknum] arg_cong [OF assms, of cdd_levelinfo] arg_cong [OF assms, of cdd_diff2level]
    arg_cong [OF assms, of cdd_errorcond] arg_cong [OF assms, of cdd_refstack]
    arg_cong [OF assms, of postgbc_handler] arg_cong [OF assms, of postrehash_handler]
    arg_cong [OF assms, of extra_terminals]
    arg_cong [OF assms, of applycache] arg_cong [OF assms, of quantcache] arg_cong [OF assms, of replacecache]
    arg_cong [OF assms, of relaxcache] arg_cong [OF assms, of applyop] arg_cong [OF assms, of opid]
    arg_cong [OF assms, of cdd_running]
  by (simp_all add: blank_os_def blank_mem_def blank_def)

lemma node2chunk_cddfalse [simp]: "cdd_node2chunk cddfalse = 0"
  by (simp add: cdd_node2chunk_def cddfalse_def)

section \<open>Stores that only grow\<close>

text \<open>Every well-formed diagram, dead or alive, survives when no node is lost or changed.\<close>

definition grows :: "kstate \<Rightarrow> kstate \<Rightarrow> bool" where
  "grows s s' \<longleftrightarrow> tabled s \<subseteq> tabled s' \<and> cdd_levelinfo s' = cdd_levelinfo s \<and>
     (\<forall>q. q \<in> tabled s \<or> q = cddfalse \<longrightarrow> cont s' q = cont s q)"

definition sounds :: "kstate \<Rightarrow> (nat \<Rightarrow> raw_t set) \<Rightarrow> ptr set" where
  "sounds s B = {q. sound (cont s) (tabled s) (cdd_levelinfo s) B q \<and> cdd_rglr q = q}"

lemma closed_sounds:
  assumes c: "core s X F W B"
  shows "closed_set (cont s) (sounds s B)"
  unfolding closed_set_def
proof (intro ballI)
  fix p c' assume "p \<in> sounds s B" "c' \<in> set (kids_of (cont s) p)"
  then have "sound (cont s) (tabled s) (cdd_levelinfo s) B c'"
    using sound_kid [of "cont s" "tabled s" "cdd_levelinfo s" B p c'] core_term(1) [OF c] by (simp add: sounds_def)
  then show "cdd_rglr c' \<in> sounds s B" by (simp add: sounds_def sound_rglr_iff)
qed

lemma grows_cont: "grows s s' \<Longrightarrow> q \<in> sounds s B \<Longrightarrow> cont s' q = cont s q"
  using sound_place [of "cont s" "tabled s" "cdd_levelinfo s" B q] by (auto simp: grows_def sounds_def)

lemma grows_sound:
  assumes "core s X F W B" "grows s s'" "sound (cont s) (tabled s) (cdd_levelinfo s) B p"
  shows "sound (cont s') (tabled s') (cdd_levelinfo s') B p"
proof -
  have "sound (cont s') (tabled s') (cdd_levelinfo s) B p"
  proof (rule sound_keep [OF assms(3) closed_sounds [OF assms(1)]])
    show "q \<in> sounds s B \<Longrightarrow> cont s' q = cont s q" for q using grows_cont [OF assms(2)] .
    show "sounds s B \<inter> tabled s \<subseteq> tabled s'" using assms(2) by (auto simp: grows_def)
    show "cdd_rglr p \<in> sounds s B" using assms(3) by (simp add: sounds_def sound_rglr_iff)
  qed
  then show ?thesis using assms(2) by (simp add: grows_def)
qed

lemma grows_eval:
  assumes "core s X F W B" "grows s s'" "sound (cont s) (tabled s) (cdd_levelinfo s) B p"
  shows "eval (cont s') a p = eval (cont s) a p"
proof (rule eval_keep [OF closed_sounds [OF assms(1)]])
  show "q \<in> sounds s B \<Longrightarrow> cont s' q = cont s q" for q using grows_cont [OF assms(2)] .
  show "cdd_rglr p \<in> sounds s B" using assms(3) by (simp add: sounds_def sound_rglr_iff)
qed

lemma grows_lv:
  assumes "grows s s'" "sound (cont s) (tabled s) (cdd_levelinfo s) B p"
  shows "lv (cont s') p = lv (cont s) p"
proof (rule lv_keep, rule grows_cont [OF assms(1)])
  show "cdd_rglr p \<in> sounds s B" using assms(2) by (simp add: sounds_def sound_rglr_iff)
qed

lemma grows_caches:
  assumes c: "core s X F W B" and g: "grows s s'" and k: "caches_mean T s B"
    and same: "applycache s' = applycache s" "quantcache s' = quantcache s" "replacecache s' = replacecache s"
  shows "caches_mean T s' B"
proof -
  have es: "entry_sound s B e \<Longrightarrow> entry_sound s' B e" for e
    using grows_sound [OF c g] by (simp add: entry_sound_def)
  have em: "entry_means T s' B e" if e: "entry_means T s B e" for e
  proof -
    have "sound (cont s) (tabled s) (cdd_levelinfo s) B (c_a e)" "sound (cont s) (tabled s) (cdd_levelinfo s) B (c_res e)"
      using e by (simp_all add: entry_means_def entry_sound_def cache_ptrs_def)
    then show ?thesis
      using e es [of e] unfolding entry_means_def by (simp add: grows_eval [OF c g])
  qed
  have "apply_entry_ok s' B e" if e: "apply_entry_ok s B e" for e
  proof -
    have "sound (cont s) (tabled s) (cdd_levelinfo s) B (c_a e)" "sound (cont s) (tabled s) (cdd_levelinfo s) B (c_res e)"
      "c_b e \<noteq> 0 \<Longrightarrow> sound (cont s) (tabled s) (cdd_levelinfo s) B (c_b e)"
      using e by (simp_all add: apply_entry_ok_def cache_ptrs_def)
    then show ?thesis
      using e grows_sound [OF c g] grows_eval [OF c g] grows_lv [OF g, where B = B] unfolding apply_entry_ok_def by simp
  qed
  then show ?thesis using k em unfolding caches_mean_def opcache.all_live_def same by blast
qed

text \<open>A state that differs in one new chunk and the manager that owns it.\<close>

lemma core_new_chunk:
  assumes c: "core s X F {} B" and ch: "chunk = env_chunk (env s) (os_chunks s)" "chunk \<noteq> 0"
    and bl: "blank_os s' = blank_os s" "length (cddmanager s') = length (cddmanager s)"
    and os: "os_chunks s' = os_chunks s + 1" and cm: "chunk_man s' = (chunk_man s)(chunk \<mapsto> i)"
    and ns: "\<And>q. cdd_node2chunk q \<noteq> chunk \<Longrightarrow> nodes s' q = nodes s q"
    and mo: "\<And>j. man_of s' j = (if j = i then Some m' else man_of s j)"
    and tb: "\<And>j k. tbl s' j k = tbl s j k" and mi: "man_ok s' i m'"
  shows "core s' X F {} B" "keeps s s'" "caches_mean T s B \<Longrightarrow> caches_mean T s' B" "tabled s' = tabled s"
proof -
  note f = blank_os_fields [OF bl(1)]
  have st: "static_ok s B" and ok: "tables_ok s" and mn: "mans_ok s" using c by (simp_all add: core_def)
  have fresh: "chunk_man s chunk = None"
    and empty: "\<And>q. cdd_node2chunk q = chunk \<Longrightarrow> nodes s q = None"
    using st ch by (auto simp: static_ok_def)
  have T: "tabled s' = tabled s" by (simp add: tabled_def tb)
  then show "tabled s' = tabled s" .
  have pl: "nodes s' q = nodes s q" if "q \<in> tabled s" for q
  proof -
    from that obtain j k t where "tbl s j k = Some t" "q \<in> chained t" by (auto simp: tabled_iff)
    from chained_place [OF ok this] have "chunk_man s (cdd_node2chunk q) = Some j" by blast
    then show ?thesis using fresh ns by (cases "cdd_node2chunk q = chunk") auto
  qed
  have tm: "nodes s' cddfalse = nodes s cddfalse" using ns [of cddfalse] ch(2) by simp
  have sub: "nodes s q \<noteq> None \<Longrightarrow> nodes s' q = nodes s q" for q using empty ns by metis
  have ct: "cont s' q = cont s q" "rf s' q = rf s q" if "q \<in> tabled s \<or> q = cddfalse" for q
    using that pl tm by (auto simp: cont_def rf_def)
  have own: "own (tabled s) (rf s') F V = own (tabled s) (rf s) F V" for V
    using ct(2) by (auto simp: own_def)
  have kp: "keeps s s'"
    unfolding keeps_def using ct by (auto simp: T live_iff same_env_def f)
  then show "keeps s s'" .
  have g: "grows s s'" using ct(1) by (simp add: grows_def T f)
  note so = grows_sound [OF c g]
  show "core s' X F {} B"
    unfolding core_def
  proof (intro conjI)
    show "static_ok s' B"
    proof -
      have bm: "bddmanager s' \<noteq> None" using st mo [of BddMan] by (auto simp: static_ok_def split: if_splits)
      have ne: "env_chunk (env s) n \<noteq> chunk" if "n \<ge> os_chunks s + 1" for n
        using st that ch unfolding static_ok_def by (metis Suc_eq_plus1 Suc_le_lessD nat_le_linear nat_less_le)
      have "nodes s' p = None" if "n \<ge> os_chunks s + 1" "cdd_node2chunk p = env_chunk (env s) n" "env_chunk (env s) n \<noteq> 0" for n p
      proof -
        have "n \<ge> os_chunks s" using that(1) by simp
        then have "nodes s p = None" using st that(2,3) unfolding static_ok_def by blast
        then show ?thesis using ns [of p] ne [OF that(1)] that(2) by simp
      qed
      moreover have "\<forall>n \<ge> Suc (os_chunks s). \<forall>m \<ge> Suc (os_chunks s). m \<noteq> n \<longrightarrow>
          env_chunk (env s) m = env_chunk (env s) n \<longrightarrow> env_chunk (env s) n = 0"
        using st unfolding static_ok_def by (meson Suc_leD)
      ultimately show ?thesis
        using st bm ne ch(2) bl(2) tm unfolding static_ok_def by (simp add: f os cm del: not_None_eq)
    qed
    show "tables_ok s'"
      unfolding tables_ok_def tb
    proof (intro allI impI)
      fix j k t assume t: "tbl s j k = Some t"
      have same: "cont s' p = cont s p \<and> chunk_man s' (cdd_node2chunk p) = chunk_man s (cdd_node2chunk p)"
        if p: "p \<in> chained t" for p
      proof -
        from chained_place [OF ok t p] have "chunk_man s (cdd_node2chunk p) = Some j" by blast
        then show ?thesis using fresh ct(1) tabledI [OF t p] by (auto simp: cm)
      qed
      have o: "table_ok (env s) (cont s) (chunk_man s) j k t" using ok t by (simp add: tables_ok_def)
      have same': "b < length (t_hash t) \<Longrightarrow> p \<in> set (t_hash t ! b) \<Longrightarrow> cont s' p = cont s p \<and>
          chunk_man s' (cdd_node2chunk p) = chunk_man s (cdd_node2chunk p)" for p b
        using same chained_iff by blast
      show "table_ok (env s') (cont s') (chunk_man s') j k t"
        using o same' unfolding table_ok_def descending_def in_place_def key_at_def f
        by (auto elim!: sorted_wrt_mono_rel [rotated])
    qed
    show "mans_ok s'"
      unfolding mans_ok_def
    proof (intro allI impI)
      fix j mj assume mj: "man_of s' j = Some mj"
      show "man_ok s' j mj"
      proof (cases "j = i")
        case True
        then show ?thesis using mi mj mo by simp
      next
        case False
        then have old: "man_ok s j mj" using mj mo mn by (simp add: mans_ok_def)
        have cell: "cell_ok s' j q \<and> nodes s' q = nodes s q" if "cell_ok s j q" for q
          using that fresh ns [of q] by (auto simp: cell_ok_def cm)
        then show ?thesis using old unfolding man_ok_def T f by (auto simp: cont_def)
      qed
    qed
    have kids: "kids_of (cont s') p = kids_of (cont s) p" if "p \<in> own (tabled s) (rf s) F {}" for p
    proof -
      have p: "p \<in> tabled s" using that by (simp add: own_def)
      from tabled_node [OF ok p] have r: "cdd_rglr p = p" by blast
      have "cont s' p = cont s p" using ct(1) p by blast
      then show ?thesis unfolding kids_of_def r by (rule arg_cong)
    qed
    have ind: "indeg (cont s') (own (tabled s) (rf s) F {}) q = indeg (cont s) (own (tabled s) (rf s) F {}) q" for q
      by (rule indeg_cong) (rule kids)
    show "refs_ok s' X F {}"
      using c ct(2) unfolding core_def refs_ok_def T own ind by simp
    show "owners_sound s' F {} B"
      using c so unfolding core_def owners_sound_def T own by simp
    show "dead_ok s' F {}"
      unfolding dead_ok_def tb
    proof (intro allI impI)
      fix j k t assume t: "tbl s j k = Some t"
      have "{p \<in> chained t. rf s' p = 0 \<and> p \<notin> F \<or> p \<in> {}} = {p \<in> chained t. rf s p = 0 \<and> p \<notin> F \<or> p \<in> {}}"
        using ct(2) tabledI [OF t] by auto
      then show "t_deadcnt t \<le> int (card {p \<in> chained t. rf s' p = 0 \<and> p \<notin> F \<or> p \<in> {}})"
        using c t unfolding core_def dead_ok_def by simp
    qed
  qed
  assume k: "caches_mean T s B"
  show "caches_mean T s' B" by (rule grows_caches [OF c g k]) (simp_all add: f)
qed

definition chunk_man_upd :: "nodemanager \<Rightarrow> ptr \<Rightarrow> nodemanager" where
  "chunk_man_upd m chunk = m\<lparr>m_nodes := chunk # m_nodes m,
     m_free := chunk_cells chunk (m_nodesize m) @ m_free m,
     m_freecnt := m_freecnt m + int (chunk_nodes (m_nodesize m)), m_chunkcnt := m_chunkcnt m + 1,
     m_alloccnt := m_alloccnt m + int (chunk_nodes (m_nodesize m))\<rparr>"

definition chunk_state :: "mid \<Rightarrow> nodemanager \<Rightarrow> kstate \<Rightarrow> kstate" where
  "chunk_state i m s =
     (let chunk = env_chunk (env s) (os_chunks s);
          u = put_man i (chunk_man_upd m chunk)
                (s\<lparr>os_chunks := os_chunks s + 1, chunk_man := (chunk_man s)(chunk \<mapsto> i)\<rparr>)
      in u\<lparr>cdd_chunkcnt := cdd_chunkcnt u + 1\<rparr>)"

lemma man_of_os [simp]:
  "man_of (s\<lparr>os_chunks := n\<rparr>) i = man_of s i" "man_of (s\<lparr>chunk_man := c\<rparr>) i = man_of s i"
  "man_of (s\<lparr>cdd_chunkcnt := k\<rparr>) i = man_of s i" "man_of (s\<lparr>nodes := f\<rparr>) i = man_of s i"
  "man_of (s\<lparr>cdd_maxcddused := u\<rparr>) i = man_of s i"
  by (cases i; simp)+

lemma cdd_alloc_chunk_eq:
  assumes "man_of s i = Some m" "0 < chunk_nodes (m_nodesize m)"
  shows "cdd_alloc_chunk i s =
     (if env_chunk (env s) (os_chunks s) = 0 then Inl NoMem else Inr ((), chunk_state i m s))"
proof -
  let ?c = "env_chunk (env s) (os_chunks s)"
  let ?u = "s\<lparr>os_chunks := os_chunks s + 1, chunk_man := (chunk_man s)(?c \<mapsto> i)\<rparr>"
  have m: "man_of ?u i = Some m" using assms(1) by simp
  show ?thesis
    using assms(2) upd_man_eq [OF m]
    by (simp add: cdd_alloc_chunk_def bindM_def thenM_def get_man_def someM_def gets_def modifyM_def
        guardM_def assms(1) chunk_state_def chunk_man_upd_def Let_def)
qed

lemma nodesize_even [simp]: "even (nodesize_of i)" "0 < nodesize_of i"
  by (cases i; simp)+

lemma nodesize_fits:
  assumes "static_ok s B" "i = BddMan \<or> (\<exists>n \<le> cdd_maxcddsize s. i = CddMan n)"
  shows "0 < chunk_nodes (nodesize_of i)"
proof -
  have "nodesize_of i \<le> 65528" using assms by (auto simp: static_ok_def)
  then show ?thesis by (simp add: chunk_nodes_def CHUNKSIZE_def div_greater_zero_iff)
qed

lemma man_of_bound: "static_ok s B \<Longrightarrow> man_of s i = Some m \<Longrightarrow> i = BddMan \<or> (\<exists>n \<le> cdd_maxcddsize s. i = CddMan n)"
  by (cases i) (auto simp: static_ok_def split: if_splits)

lemma chunk_state_views:
  assumes "man_of s i = Some m"
  shows "nodes (chunk_state i m s) = nodes s"
    and "chunk_man (chunk_state i m s) = (chunk_man s)(env_chunk (env s) (os_chunks s) \<mapsto> i)"
    and "os_chunks (chunk_state i m s) = os_chunks s + 1"
    and "blank_os (chunk_state i m s) = blank_os s"
    and "length (cddmanager (chunk_state i m s)) = length (cddmanager s)"
    and "man_of (chunk_state i m s) j =
           (if j = i then Some (chunk_man_upd m (env_chunk (env s) (os_chunks s))) else man_of s j)"
    and "tbl (chunk_state i m s) j k = tbl s j k"
proof -
  let ?m = "chunk_man_upd m (env_chunk (env s) (os_chunks s))"
  show mo: "man_of (chunk_state i m s) j = (if j = i then Some ?m else man_of s j)" for j
    using assms by (simp add: chunk_state_def Let_def)
  show "tbl (chunk_state i m s) j k = tbl s j k"
    using assms by (simp add: tbl_def mo table_of_def chunk_man_upd_def)
qed (cases i; simp add: chunk_state_def Let_def blank_os_def blank_mem_def blank_def)+

lemma cdd_alloc_chunk_spec:
  assumes c: "core s X {} {} B" and k: "caches_mean T s B" and m: "man_of s i = Some m"
  shows "wp (cdd_alloc_chunk i) (\<lambda>_ s'. core s' X {} {} B \<and> caches_mean T s' B \<and> keeps s s' \<and>
     cdd_gbccnt s' = cdd_gbccnt s \<and> (\<forall>j l. tbl s' j l = tbl s j l) \<and> nodes s' = nodes s \<and>
     (\<exists>m'. man_of s' i = Some m' \<and> m_free m' \<noteq> [])) s"
proof -
  let ?c = "env_chunk (env s) (os_chunks s)" and ?t = "chunk_state i m s"
  have st: "static_ok s B" and mi: "man_ok s i m" using c m by (simp_all add: core_def mans_ok_def)
  have sz: "m_nodesize m = nodesize_of i" using mi by (simp add: man_ok_def)
  have pos: "0 < chunk_nodes (m_nodesize m)"
    using nodesize_fits [OF st man_of_bound [OF st m]] sz by simp
  show ?thesis
  proof (cases "?c = 0")
    case True
    then show ?thesis by (simp add: wp_def cdd_alloc_chunk_eq [OF m pos])
  next
    case False
    note V = chunk_state_views [OF m]
    have al: "?c AND 0xFFFF = 0" and fr: "chunk_man s ?c = None"
      and em: "\<And>p. cdd_node2chunk p = ?c \<Longrightarrow> nodes s p = None"
      using st False by (auto simp: static_ok_def)
    note cells = chunk_cells_spec [OF al nodesize_even(1) [of i] nodesize_even(2) [of i], folded sz]
    have T: "tabled ?t = tabled s" by (simp add: tabled_def V)
    have lc: "cdd_levelcnt ?t = cdd_levelcnt s" using blank_os_fields [OF V(4)] by simp
    have "set (chunk_cells ?c (m_nodesize m)) \<inter> set (m_free m) = {}"
      using mi cells(2) fr by (fastforce simp: man_ok_def cell_ok_def)
    then have mi': "man_ok ?t i (chunk_man_upd m ?c)"
      using mi cells em unfolding man_ok_def T
      by (auto simp: chunk_man_upd_def V cell_ok_def lc cont_def table_deads_def)
    note N = core_new_chunk [OF c refl False V(4,5,3,2) _ V(6,7) mi']
    have "core ?t X {} {} B" "keeps s ?t" "caches_mean T ?t B" using N k V(1) by simp_all
    moreover have "m_free (chunk_man_upd m ?c) \<noteq> []"
      using cells(3) pos by (auto simp: chunk_man_upd_def)
    moreover have "cdd_gbccnt ?t = cdd_gbccnt s" using blank_os_fields [OF V(4)] by simp
    ultimately show ?thesis
      using False V by (simp add: wp_def cdd_alloc_chunk_eq [OF m pos])
  qed
qed

section \<open>Taking a cell\<close>

text \<open>A change to one manager that leaves its tables alone.\<close>

lemma core_put_man:
  assumes c: "core s X F W B" and m: "man_of s i = Some m" and ts: "m_subtables m' = m_subtables m"
    and mi: "man_ok (put_man i m' s) i m'"
  shows "core (put_man i m' s) X F W B" "keeps s (put_man i m' s)" "tabled (put_man i m' s) = tabled s"
    "tbl (put_man i m' s) j k = tbl s j k" "caches_mean T s B \<Longrightarrow> caches_mean T (put_man i m' s) B"
proof -
  let ?s = "put_man i m' s"
  have mo: "man_of ?s j = (if j = i then Some m' else man_of s j)" for j using m by simp
  have tb: "tbl ?s j k = tbl s j k" for j k
    using m ts by (simp add: tbl_def mo table_of_def)
  then show "tbl ?s j k = tbl s j k" .
  show T: "tabled ?s = tabled s" by (simp add: tabled_def tb)
  have f: "os_chunks ?s = os_chunks s" "cdd_maxcddsize ?s = cdd_maxcddsize s" "cdd_errorcond ?s = cdd_errorcond s"
    "postgbc_handler ?s = postgbc_handler s" "postrehash_handler ?s = postrehash_handler s"
    "applycache ?s = applycache s" "quantcache ?s = quantcache s" "replacecache ?s = replacecache s"
    "cdd_diff2level ?s = cdd_diff2level s" "cdd_clocknum ?s = cdd_clocknum s" "cdd_refstack ?s = cdd_refstack s"
    "extra_terminals ?s = extra_terminals s" "applyop ?s = applyop s" "opid ?s = opid s" "cdd_running ?s = cdd_running s"
    by (cases i; simp)+
  show "keeps s ?s" by (simp add: keeps_def same_env_def f T live_iff)
  show "core ?s X F W B"
    unfolding core_def
  proof (intro conjI)
    have "bddmanager ?s \<noteq> None" using c by (cases i) (simp_all add: core_def static_ok_def)
    then show "static_ok ?s B" using c unfolding core_def static_ok_def by (simp add: f del: not_None_eq)
    show "tables_ok ?s" using c by (simp add: core_def tables_ok_def tb)
    show "mans_ok ?s"
      unfolding mans_ok_def
    proof (intro allI impI)
      fix j mj assume "man_of ?s j = Some mj"
      then show "man_ok ?s j mj"
        using mi c mo unfolding core_def mans_ok_def
        by (cases "j = i") (auto simp: man_ok_def T cell_ok_def)
    qed
    show "refs_ok ?s X F W" using c by (simp add: core_def refs_ok_def T)
    show "owners_sound ?s F W B" using c by (simp add: core_def owners_sound_def T)
    show "dead_ok ?s F W" using c by (simp add: core_def dead_ok_def tb)
  qed
  show "caches_mean T s B \<Longrightarrow> caches_mean T ?s B"
    by (rule grows_caches [OF c]) (simp_all add: grows_def T f)
qed

text \<open>A cell that is neither a node nor on a free list.\<close>

definition fresh_cell :: "kstate \<Rightarrow> mid \<Rightarrow> ptr \<Rightarrow> bool" where
  "fresh_cell s i p \<longleftrightarrow> nodes s p = None \<and> cell_ok s i p \<and> (\<forall>j m. man_of s j = Some m \<longrightarrow> p \<notin> set (m_free m))"

lemma take_free_spec:
  assumes c: "core s X F W B" and k: "caches_mean T s B" and m: "man_of s i = Some m" "m_free m \<noteq> []"
  shows "wp (take_free i) (\<lambda>p s'. core s' X F W B \<and> caches_mean T s' B \<and> keeps s s' \<and> fresh_cell s' i p \<and>
     cdd_gbccnt s' = cdd_gbccnt s \<and> (\<forall>j l. tbl s' j l = tbl s j l) \<and> nodes s' = nodes s) s"
proof -
  from m(2) obtain p ps where pp: "m_free m = p # ps" by (cases "m_free m") auto
  let ?m = "m\<lparr>m_free := ps, m_usedcnt := m_usedcnt m + 1, m_freecnt := m_freecnt m - 1\<rparr>"
  let ?s = "put_man i ?m s"
  have run: "take_free i s = Inr (p, ?s)"
    using m(1) pp by (simp add: take_free_def bindM_def thenM_def get_man_def someM_def upd_man_eq ret_def)
  have mi: "man_ok s i m" and mn: "mans_ok s" using c m by (simp_all add: core_def mans_ok_def)
  have tb: "tbl ?s j l = tbl s j l" for j l using m(1) by (simp add: tbl_def table_of_def)
  have T: "tabled ?s = tabled s" by (simp add: tabled_def tb)
  have "man_ok ?s i ?m"
    using mi pp unfolding man_ok_def T by (auto simp: cell_ok_def table_deads_def)
  note P = core_put_man [OF c m(1) _ this]
  have "p \<notin> set (m_free mj)" if "man_of ?s j = Some mj" for j mj
  proof (cases "j = i")
    case True
    then show ?thesis using that m(1) mi pp by (auto simp: man_ok_def)
  next
    case False
    then have "man_ok s j mj" using that m(1) mn by (simp add: mans_ok_def)
    then show ?thesis using mi pp False by (auto simp: man_ok_def cell_ok_def)
  qed
  then have "fresh_cell ?s i p"
    using mi pp unfolding fresh_cell_def man_ok_def by (simp add: cell_ok_def)
  moreover have "cdd_gbccnt ?s = cdd_gbccnt s" by (cases i) simp_all
  ultimately show ?thesis using P k by (simp add: wp_def run)
qed

text \<open>What an allocation may do to the tables: nothing, or a collection of the manager.\<close>

definition maybe_collected :: "mid \<Rightarrow> kstate \<Rightarrow> kstate \<Rightarrow> bool" where
  "maybe_collected i s s' \<longleftrightarrow> (\<forall>q. nodes s' q = None \<or> nodes s' q = nodes s q) \<and>
     (if cdd_gbccnt s' = cdd_gbccnt s then \<forall>j k. tbl s' j k = tbl s j k
      else \<forall>j k. tbl s' j k = (if j = i then map_option (collect (rf s)) (tbl s j k) else tbl s j k))"

lemma ensure_free_spec:
  assumes c: "core s X {} {} B" and k: "caches_mean T s B" and m: "man_of s i = Some m"
  shows "wp (ensure_free i) (\<lambda>_ s'. core s' X {} {} B \<and> caches_mean T s' B \<and> keeps s s' \<and>
     maybe_collected i s s' \<and> (\<exists>m'. man_of s' i = Some m' \<and> m_free m' \<noteq> [])) s"
proof -
  have get: "wp (get_man i) Q s = Q m s" for Q by (simp add: wp_def get_man_def someM_def m)
  show ?thesis
  proof (cases "m_free m = []")
    case False
    then show ?thesis
      using c k m by (simp add: ensure_free_def wp_bind get wp_when maybe_collected_def)
  next
    case True
    show ?thesis
    proof (cases "MINFREE * m_alloccnt m < 100 * m_deadcnt m")
      case due: True
      have "0 \<le> m_alloccnt m" using c m by (simp add: core_def mans_ok_def man_ok_def)
      then have d: "0 < m_deadcnt m" using due by (simp add: MINFREE_def)
      from cdd_operator_flush_spec [OF c k] obtain a b d' r where
        fl: "cdd_operator_flush s = Inr ((), with_caches a b d' r s)" "caches_mean T (with_caches a b d' r s) B"
          "caches_live (with_caches a b d' r s)" "cache_tablesize a = cache_tablesize (applycache s)" .
      let ?u = "with_caches a b d' r s"
      have cu: "core ?u X {} {} B" using c by (simp add: core_with_caches)
      from cdd_gbc_nodemanager_spec [OF cu fl(2,3), of i m, unfolded with_caches_views] m obtain s' m' where
        g: "cdd_gbc_nodemanager i ?u = Inr ((), s')" "core s' X {} {} B" "caches_mean T s' B" "keeps ?u s'"
          "cdd_gbccnt s' = cdd_gbccnt s + 1" "man_of s' i = Some m'" "0 < m_deadcnt m \<Longrightarrow> m_free m' \<noteq> []"
          "\<And>j k. tbl s' j k = (if j = i then map_option (collect (rf s)) (tbl s j k) else tbl s j k)"
          "\<And>q. nodes s' q = None \<or> nodes s' q = nodes s q"
        by blast
      have "keeps s ?u" using fl(4) by (simp add: keeps_def live_iff)
      then have kp: "keeps s s'" using g(4) by (rule keeps_trans)
      show ?thesis
        using True due fl(1) g d kp
        by (simp add: ensure_free_def wp_bind get wp_when wp_then wp_eq [where m = cdd_operator_flush, OF fl(1)]
              wp_eq [where m = "cdd_gbc_nodemanager i", OF g(1)] maybe_collected_def)
    next
      case False
      show ?thesis
        using True False
        by (simp add: ensure_free_def wp_bind get wp_when)
          (rule wp_mono [OF cdd_alloc_chunk_spec [OF c k m]], auto simp: maybe_collected_def)
    qed
  qed
qed

lemma cdd_alloc_node_spec:
  assumes c: "core s X {} {} B" and k: "caches_mean T s B" and m: "man_of s i = Some m"
  shows "wp (cdd_alloc_node i) (\<lambda>p s'. core s' X {} {} B \<and> caches_mean T s' B \<and> keeps s s' \<and>
     fresh_cell s' i p \<and> maybe_collected i s s') s"
  unfolding cdd_alloc_node_def wp_then
proof (rule wp_mono [OF ensure_free_spec [OF c k m]])
  fix x t
  assume t: "core t X {} {} B \<and> caches_mean T t B \<and> keeps s t \<and> maybe_collected i s t \<and>
     (\<exists>m'. man_of t i = Some m' \<and> m_free m' \<noteq> [])"
  then obtain m' where "man_of t i = Some m'" "m_free m' \<noteq> []" by blast
  with t show "wp (take_free i) (\<lambda>p s'. core s' X {} {} B \<and> caches_mean T s' B \<and> keeps s s' \<and>
     fresh_cell s' i p \<and> maybe_collected i s s') t"
    by (intro wp_mono [OF take_free_spec]) (auto simp: maybe_collected_def elim: keeps_trans)
qed

section \<open>A new node manager\<close>

lemma man_of_put_new:
  assumes "n < length (cddmanager s)"
  shows "man_of (put_man (CddMan n) m s) j = (if j = CddMan n then Some m else man_of s j)"
  using assms by (cases j) auto

text \<open>The state after \<^verbatim>\<open>cdd_alloc_nodemanager\<close>: one more chunk, one cell of it the sentinel.\<close>

definition sentinel_node :: "mid \<Rightarrow> ddnode" where
  "sentinel_node i = \<lparr>n_level = 0, n_ref = 0, n_flag = 0, n_body = zero_body i\<rparr>"

definition first_man :: "mid \<Rightarrow> nat \<Rightarrow> ptr \<Rightarrow> ptr \<Rightarrow> ptr list \<Rightarrow> nodemanager" where
  "first_man i levels chunk p ps =
     (let m = chunk_man_upd (new_nodemanager (nodesize_of i) levels) chunk
      in m\<lparr>m_free := ps, m_usedcnt := m_usedcnt m + 1, m_freecnt := m_freecnt m - 1, m_sentinel := p\<rparr>)"

definition managed :: "mid \<Rightarrow> kstate \<Rightarrow> ptr \<Rightarrow> ptr list \<Rightarrow> kstate \<Rightarrow> bool" where
  "managed i s p ps s' \<longleftrightarrow> (let chunk = env_chunk (env s) (os_chunks s) in
     chunk \<noteq> 0 \<and> chunk_cells chunk (nodesize_of i) = p # ps \<and>
     blank_os s' = blank_os s \<and> length (cddmanager s') = length (cddmanager s) \<and>
     os_chunks s' = os_chunks s + 1 \<and> chunk_man s' = (chunk_man s)(chunk \<mapsto> i) \<and>
     nodes s' = (nodes s)(cdd_rglr p \<mapsto> sentinel_node i) \<and>
     (\<forall>j. man_of s' j = (if j = i then Some (first_man i (cdd_levelcnt s) chunk p ps) else man_of s j)))"

lemma alloc_nodemanager_run:
  assumes new: "\<forall>m j. man_of (put_man i m s) j = (if j = i then Some m else man_of s j)"
    and pos: "0 < chunk_nodes (nodesize_of i)"
  shows "wp (cdd_alloc_nodemanager i (nodesize_of i)) (\<lambda>_ s'. \<exists>p ps. managed i s p ps s') s"
proof -
  let ?c = "env_chunk (env s) (os_chunks s)"
  define m0 where "m0 = new_nodemanager (nodesize_of i) (cdd_levelcnt s)"
  define u0 where "u0 = put_man i m0 s"
  have e0: "env u0 = env s" "os_chunks u0 = os_chunks s" "chunk_man u0 = chunk_man s" "nodes u0 = nodes s"
    by (cases i; simp add: u0_def)+
  have m0: "man_of u0 i = Some m0" unfolding u0_def using new by simp
  have sz: "m_nodesize m0 = nodesize_of i" by (simp add: m0_def new_nodemanager_def)
  note pos = pos [folded sz]
  have e: "ensure_free i u0 = cdd_alloc_chunk i u0"
    using m0 by (simp add: ensure_free_def bindM_def get_man_def someM_def whenM_def m0_def new_nodemanager_def)
  show ?thesis
  proof (cases "?c = 0")
    case True
    have "cdd_alloc_nodemanager i (nodesize_of i) s = Inl NoMem"
      using True e cdd_alloc_chunk_eq [OF m0 pos]
      by (simp add: cdd_alloc_nodemanager_def bindM_def thenM_def gets_def modifyM_def cdd_alloc_node_def
          m0_def [symmetric] u0_def [symmetric] e0 del: put_man.simps zero_body.simps)
    then show ?thesis by (simp add: wp_def)
  next
    case False
    have "chunk_cells ?c (m_nodesize m0) \<noteq> []" using pos by (simp add: chunk_cells_def)
    then obtain p ps where pp: "chunk_cells ?c (m_nodesize m0) = p # ps" by (auto simp: neq_Nil_conv)
    define u1 where "u1 = chunk_state i m0 u0"
    define m1 where "m1 = chunk_man_upd m0 ?c"
    define m2 where "m2 = m1\<lparr>m_free := ps, m_usedcnt := m_usedcnt m1 + 1, m_freecnt := m_freecnt m1 - 1\<rparr>"
    define u2 where "u2 = put_man i m2 u1"
    define u3 where "u3 = set_node p (sentinel_node i) u2"
    define u4 where "u4 = put_man i (m2\<lparr>m_sentinel := p\<rparr>) u3"
    note V = chunk_state_views [OF m0, folded u1_def, unfolded e0, folded m1_def]
    have mu1: "man_of u1 i = Some m1" using V(6) [of i] by simp
    have mu2: "man_of u2 j = (if j = i then Some m2 else man_of u1 j)" for j
      unfolding u2_def by (rule man_of_put_man) (simp add: mu1 del: man_of.simps)
    have mu3: "man_of u3 j = man_of u2 j" for j by (simp add: u3_def set_node_def del: man_of.simps)
    have f1: "m_free m1 = p # ps" using pp by (simp add: m1_def chunk_man_upd_def m0_def new_nodemanager_def)
    have run: "cdd_alloc_nodemanager i (nodesize_of i) s = Inr ((), u4)"
      using False e cdd_alloc_chunk_eq [OF m0 pos] mu1 f1 upd_man_eq [OF mu1] upd_man_eq [of u3 i m2] mu2 [of i] mu3 [of i]
      by (simp add: cdd_alloc_nodemanager_def bindM_def thenM_def gets_def modifyM_def cdd_alloc_node_def
          take_free_def get_man_def someM_def ret_def m0_def [symmetric] u0_def [symmetric] e0 u1_def [symmetric]
          m2_def [symmetric] u2_def [symmetric] sentinel_node_def [symmetric] u3_def [symmetric] u4_def [symmetric]
          del: put_man.simps zero_body.simps man_of.simps)
    have "man_of u4 j = (if j = i then Some (m2\<lparr>m_sentinel := p\<rparr>) else man_of u3 j)" for j
      unfolding u4_def by (rule man_of_put_man) (simp add: mu3 mu2 del: man_of.simps)
    moreover have "man_of u0 j = (if j = i then Some m0 else man_of s j)" for j
      unfolding u0_def using new by simp
    moreover have "m2\<lparr>m_sentinel := p\<rparr> = first_man i (cdd_levelcnt s) ?c p ps"
      by (simp add: first_man_def m2_def m1_def m0_def Let_def)
    ultimately have mo: "man_of u4 j = (if j = i then Some (first_man i (cdd_levelcnt s) ?c p ps) else man_of s j)" for j
      using V(6) [of j] by (cases "j = i") (simp_all add: mu3 mu2 del: man_of.simps)
    have f: "nodes u4 = (nodes s)(cdd_rglr p \<mapsto> sentinel_node i)" "chunk_man u4 = (chunk_man s)(?c \<mapsto> i)"
      "os_chunks u4 = os_chunks s + 1" "length (cddmanager u4) = length (cddmanager s)" "blank_os u4 = blank_os s"
      using V(1-5) by (cases i; simp add: u4_def u3_def u2_def u0_def e0 set_node_def blank_os_def blank_mem_def blank_def)+
    show ?thesis
      unfolding run wp_def sum.case prod.case managed_def Let_def
      by (intro exI [of _ p] exI [of _ ps] conjI) (use False pp sz mo f in \<open>simp_all del: man_of.simps\<close>)
  qed
qed

text \<open>The new manager is as a manager should be, if its chunk was not in use.\<close>

lemma managed_spec:
  assumes g: "managed i s p ps s'" and chunk: "c = env_chunk (env s) (os_chunks s)" "c AND 0xFFFF = 0"
    and em: "\<And>q. cdd_node2chunk q = c \<Longrightarrow> nodes s q = None" and none: "man_of s i = None" and ok: "tables_ok s"
  shows "man_ok s' i (first_man i (cdd_levelcnt s) c p ps)" "tbl s' j k = tbl s j k" "tabled s' = tabled s"
    "cdd_rglr p = p" "cdd_node2chunk p = c" "p \<notin> tabled s"
proof -
  let ?m = "first_man i (cdd_levelcnt s) c p ps"
  note g = g [unfolded managed_def Let_def, folded chunk(1)]
  note cells = chunk_cells_spec [OF chunk(2) nodesize_even(1) [of i] nodesize_even(2) [of i]]
  show p: "cdd_rglr p = p" "cdd_node2chunk p = c" using cells(2) [of p] g by simp_all
  have tb: "tbl s' j l = tbl s j l" for j l
    using g none by (auto simp: tbl_def table_of_def first_man_def chunk_man_upd_def new_nodemanager_def Let_def)
  then show "tbl s' j k = tbl s j k" .
  show T: "tabled s' = tabled s" by (simp add: tabled_def tb)
  have lc: "cdd_levelcnt s' = cdd_levelcnt s" using blank_os_fields(2) [of s' s] g by simp
  show pT: "p \<notin> tabled s"
  proof
    assume "p \<in> tabled s"
    from tabled_node [OF ok this] obtain nd where "nodes s p = Some nd" .
    then show False using em [OF p(2)] by simp
  qed
  have q: "q \<noteq> p \<and> cdd_rglr q = q \<and> cdd_node2chunk q = c" if "q \<in> set ps" for q
    using that cells(1) cells(2) [of q] g by auto
  show "man_ok s' i ?m"
    unfolding man_ok_def T
  proof (intro conjI)
    show "m_nodesize ?m = nodesize_of i" "length (m_subtables ?m) = cdd_levelcnt s'" "0 \<le> m_alloccnt ?m"
      "m_deadcnt ?m = table_deads ?m"
      by (simp_all add: lc first_man_def chunk_man_upd_def new_nodemanager_def table_deads_def sum_list_replicate Let_def)
    show "distinct (m_free ?m)" using cells(1) g by (simp add: first_man_def Let_def)
    show "\<forall>q \<in> set (m_free ?m). nodes s' q = None \<and> cell_ok s' i q"
      using q em g p by (simp add: first_man_def Let_def cell_ok_def)
    show "cell_ok s' i (m_sentinel ?m)" using p g by (simp add: first_man_def Let_def cell_ok_def)
    show "m_sentinel ?m \<notin> tabled s" using pT by (simp add: first_man_def Let_def)
    show "\<exists>k. cont s' (m_sentinel ?m) = Some (k, zero_body i)"
      using p g by (simp add: first_man_def Let_def cont_def sentinel_node_def)
  qed
qed

lemma cdd_alloc_nodemanager_spec:
  assumes c: "core s X F {} B" and k: "caches_mean T s B" and n: "n \<le> cdd_maxcddsize s"
    and none: "man_of s (CddMan n) = None"
  shows "wp (cdd_alloc_nodemanager (CddMan n) (8 + 8 * n)) (\<lambda>_ s'. core s' X F {} B \<and> caches_mean T s' B \<and>
     keeps s s' \<and> grows s s' \<and> tabled s' = tabled s \<and> (\<forall>q \<in> tabled s. rf s' q = rf s q) \<and>
     (\<exists>m'. man_of s' (CddMan n) = Some m')) s"
proof -
  let ?i = "CddMan n" and ?c = "env_chunk (env s) (os_chunks s)"
  have st: "static_ok s B" and ok: "tables_ok s" using c by (simp_all add: core_def)
  then have nl: "n < length (cddmanager s)" using n by (simp add: static_ok_def)
  have pos: "0 < chunk_nodes (nodesize_of ?i)" using nodesize_fits [OF st, of ?i] n by simp
  have "wp (cdd_alloc_nodemanager ?i (nodesize_of ?i)) (\<lambda>_ s'. \<exists>p ps. managed ?i s p ps s') s"
    by (rule alloc_nodemanager_run [OF _ pos]) (use man_of_put_new [OF nl] in blast)
  then have "wp (cdd_alloc_nodemanager ?i (8 + 8 * n)) (\<lambda>_ s'. \<exists>p ps. managed ?i s p ps s') s" by simp
  then show ?thesis
  proof (rule wp_mono, elim exE)
    fix x s' p ps assume g: "managed ?i s p ps s'"
    note f = g [unfolded managed_def Let_def]
    have al: "?c AND 0xFFFF = 0" and fr: "chunk_man s ?c = None"
      and em: "\<And>q. cdd_node2chunk q = ?c \<Longrightarrow> nodes s q = None"
      using st f by (auto simp: static_ok_def)
    note S = managed_spec [OF g refl al em none ok]
    have ns: "cdd_node2chunk q \<noteq> ?c \<Longrightarrow> nodes s' q = nodes s q" for q using f S(4,5) by auto
    have "?c \<noteq> 0" "blank_os s' = blank_os s" "length (cddmanager s') = length (cddmanager s)"
      "os_chunks s' = os_chunks s + 1" "chunk_man s' = (chunk_man s)(?c \<mapsto> ?i)"
      "\<And>j. man_of s' j = (if j = ?i then Some (first_man ?i (cdd_levelcnt s) ?c p ps) else man_of s j)"
      using f by simp_all
    note N = core_new_chunk [OF c refl this(1-5) ns this(6) S(2) S(1)]
    have "grows s s'"
      using S f blank_os_fields [of s' s] by (auto simp: grows_def cont_def)
    moreover have "\<forall>q \<in> tabled s. rf s' q = rf s q" using S f by (auto simp: rf_def)
    ultimately show "core s' X F {} B \<and> caches_mean T s' B \<and> keeps s s' \<and> grows s s' \<and> tabled s' = tabled s \<and>
        (\<forall>q \<in> tabled s. rf s' q = rf s q) \<and> (\<exists>m'. man_of s' (CddMan n) = Some m')"
      using N k f by (simp del: man_of.simps)
  qed
qed

end
