(* ===== verification/Hash_Chain.thy ===== *)
theory Hash_Chain
  imports Alloc
begin

text \<open>
  Hash chains: the order the chains are kept in, the search that both node constructors
  share, and rehashing.  The interface \<open>key_order\<close> is what the search needs of a comparison
  function; \<^verbatim>\<open>memcmp\<close> provides it on arrays of one length.
\<close>

section \<open>Sorted chains\<close>

locale key_order =
  fixes cmp :: "'k \<Rightarrow> 'k \<Rightarrow> int"
    and valid :: "'k \<Rightarrow> bool"
  assumes cmp_eq: "valid a \<Longrightarrow> valid b \<Longrightarrow> cmp a b = 0 \<longleftrightarrow> a = b"
    and cmp_flip: "valid a \<Longrightarrow> valid b \<Longrightarrow> cmp a b < 0 \<longleftrightarrow> 0 < cmp b a"
    and cmp_trans: "valid a \<Longrightarrow> valid b \<Longrightarrow> valid c \<Longrightarrow> cmp a b < 0 \<Longrightarrow> cmp b c < 0 \<Longrightarrow> cmp a c < 0"
begin

definition desc :: "('n \<Rightarrow> 'k) \<Rightarrow> 'n list \<Rightarrow> bool" where
  "desc key ch \<longleftrightarrow> sorted_wrt (\<lambda>p q. cmp (key q) (key p) < 0) ch"

definition slot :: "('n \<Rightarrow> 'k) \<Rightarrow> 'k \<Rightarrow> 'n list \<Rightarrow> nat" where
  "slot key k ch = length (takeWhile (\<lambda>p. cmp k (key p) < 0) ch)"

text \<open>A key that is in the chain is found at its slot.\<close>

lemma slot_found:
  assumes "desc key ch" "\<And>p. p \<in> set ch \<Longrightarrow> valid (key p)" "p \<in> set ch" "key p = k"
  shows "slot key k ch < length ch \<and> ch ! slot key k ch = p"
  using assms
proof (induction ch)
  case Nil
  then show ?case by simp
next
  case (Cons q ch)
  show ?case
  proof (cases "q = p")
    case True
    then show ?thesis using Cons.prems cmp_eq [of k k] by (auto simp: slot_def)
  next
    case False
    then have p: "p \<in> set ch" using Cons.prems by simp
    then have "cmp k (key q) < 0" using Cons.prems by (auto simp: desc_def)
    then show ?thesis using Cons p by (auto simp: slot_def desc_def)
  qed
qed

text \<open>A key that is not in the chain goes into its slot.\<close>

lemma slot_insert:
  assumes "desc key ch" "\<And>p. p \<in> set ch \<Longrightarrow> valid (key p)" "valid (key n)" "\<And>p. p \<in> set ch \<Longrightarrow> key p \<noteq> key n"
  shows "desc key (take (slot key (key n) ch) ch @ n # drop (slot key (key n) ch) ch)"
  using assms
proof (induction ch)
  case Nil
  then show ?case by (simp add: desc_def)
next
  case (Cons q ch)
  show ?case
  proof (cases "cmp (key n) (key q) < 0")
    case True
    have "desc key (take (slot key (key n) ch) ch @ n # drop (slot key (key n) ch) ch)"
      using Cons by (simp add: desc_def)
    moreover have "set (take j ch @ n # drop j ch) = insert n (set ch)" for j
      by (metis Un_insert_right append_take_drop_id list.simps(15) set_append)
    ultimately show ?thesis
      using True Cons.prems(1) by (simp add: slot_def desc_def)
  next
    case False
    then have pos: "cmp (key q) (key n) < 0"
      using Cons.prems(2) [of q] Cons.prems(3) Cons.prems(4) [of q] cmp_eq [of "key n" "key q"]
        cmp_flip [of "key q" "key n"] by force
    have "cmp (key p) (key n) < 0" if "p \<in> set ch" for p
      using Cons.prems that pos cmp_trans [of "key p" "key q" "key n"] by (auto simp: desc_def)
    then show ?thesis using False pos Cons.prems(1) by (auto simp: slot_def desc_def)
  qed
qed

end

lemma memcmp_props:
  "length a = length b \<Longrightarrow> memcmp a b = 0 \<longleftrightarrow> a = b"
  "length a = length b \<Longrightarrow> memcmp a b < 0 \<longleftrightarrow> 0 < memcmp b a"
  by (induction a b rule: memcmp.induct) auto

lemma memcmp_less_Cons:
  "memcmp (x # a) (y # b) < 0 \<longleftrightarrow> x < y \<or> x = y \<and> memcmp a b < 0"
  by auto

lemma memcmp_trans:
  "length a = length b \<Longrightarrow> length b = length c \<Longrightarrow> memcmp a b < 0 \<Longrightarrow> memcmp b c < 0 \<Longrightarrow> memcmp a c < 0"
proof (induction a arbitrary: b c)
  case Nil
  then show ?case by simp
next
  case (Cons x a)
  from Cons.prems(1,2) obtain y b' z c' where e: "b = y # b'" "c = z # c'" by (metis length_Suc_conv)
  have "x < y \<or> x = y \<and> memcmp a b' < 0" "y < z \<or> y = z \<and> memcmp b' c' < 0"
    using Cons.prems(3,4) unfolding e memcmp_less_Cons by blast+
  then consider "x < z" | "x = z" "memcmp a b' < 0" "memcmp b' c' < 0" by fastforce
  then show ?case
  proof cases
    case 1
    then show ?thesis unfolding e memcmp_less_Cons by simp
  next
    case 2
    then have "memcmp a c' < 0" using Cons.IH [of b' c'] Cons.prems(1,2) e by simp
    then show ?thesis unfolding e memcmp_less_Cons using 2(1) by simp
  qed
qed

interpretation bytes: key_order memcmp "\<lambda>k. length k = n" for n
proof (unfold_locales, goal_cases)
  case (1 a b)
  then show ?case by (simp add: memcmp_props)
next
  case (2 a b)
  then show ?case by (simp add: memcmp_props(2))
next
  case (3 a b c)
  then show ?case using memcmp_trans [of a b c] by simp
qed

lemma memcmp_zeros: "\<not> memcmp k (replicate n 0) < 0"
proof (induction k arbitrary: n)
  case Nil
  then show ?case by simp
next
  case (Cons x k)
  then show ?case by (cases n) auto
qed

section \<open>Keys of nodes\<close>

fun key_length :: "mid \<Rightarrow> nat" where
  "key_length BddMan = 2"
| "key_length (CddMan n) = 8 * n"

lemma length_elem_bytes [simp]: "length (elem_bytes es) = 8 * length es"
  by (induction es) (simp_all add: elem_bytes_def elem_words_def word_bytes_def)

lemma length_body_key: "fits i b \<Longrightarrow> length (body_key b) = key_length i"
  by (cases i) auto

lemma word_bytes_inj: "word_bytes v = word_bytes w \<Longrightarrow> v = w"
proof -
  assume "word_bytes v = word_bytes w"
  then have b: "drop_bit (8 * i) v AND 0xFF = drop_bit (8 * i) w AND 0xFF" if "i < 4" for i
    using that by (auto simp: word_bytes_def less_Suc_eq numeral_eq_Suc)
  have m: "(0xFF :: 32 word) = mask 8" by (simp add: mask_eq_decr_exp)
  show "v = w"
  proof (rule bit_word_eqI)
    fix n assume "n < LENGTH(32)"
    then have n: "n div 8 < 4" by simp
    have "bit (drop_bit (8 * (n div 8)) x AND mask 8) (n mod 8) = bit x n" for x :: "32 word"
      using mod_less_divisor [of 8 n]
      by (auto simp: bit_and_iff bit_drop_bit_eq bit_mask_iff intro: less_trans)
    then show "bit v n = bit w n" using b [OF n] m by metis
  qed
qed

lemma word_of_int_bound_inj:
  assumes "\<bar>a\<bar> \<le> bnd_INF" "\<bar>b\<bar> \<le> bnd_INF" "(word_of_int a :: 32 word) = word_of_int b"
  shows "a = b"
proof -
  have "take_bit 32 a = take_bit 32 b" using assms(3) by (simp add: word_of_int_eq_iff)
  then have "a mod 2 ^ 32 = b mod 2 ^ 32" by (simp add: take_bit_eq_mod)
  then have "(2 ^ 32 :: int) dvd a - b" by (simp only: mod_eq_dvd_iff)
  then obtain k where k: "a - b = 2 ^ 32 * k" by (auto simp: dvd_def)
  then have "k = 0" using assms(1,2) by (simp add: bnd_INF_def)
  with k show ?thesis by simp
qed

lemma elem_bytes_inj:
  "elem_bytes es = elem_bytes fs \<Longrightarrow> length es = length fs \<Longrightarrow>
     (\<forall>e \<in> set es \<union> set fs. \<bar>e_bnd e\<bar> \<le> bnd_INF) \<Longrightarrow> es = fs"
proof (induction es fs rule: list_induct2')
  case (4 e es f fs)
  have len: "length (word_bytes w) = 4" for w by (simp add: word_bytes_def)
  have "elem_bytes (x # xs) = word_bytes (e_child x) @ word_bytes (word_of_int (e_bnd x)) @ elem_bytes xs" for x xs
    by (simp add: elem_bytes_def elem_words_def)
  with 4(2) len have "word_bytes (e_child e) = word_bytes (e_child f)"
    "word_bytes (word_of_int (e_bnd e)) = word_bytes (word_of_int (e_bnd f))" "elem_bytes es = elem_bytes fs"
    by simp_all
  then have "e_child e = e_child f" "e_bnd e = e_bnd f" "es = fs"
    using word_bytes_inj word_of_int_bound_inj [of "e_bnd e" "e_bnd f"] 4 by auto
  then show ?case by simp
qed auto

lemma body_key_inj: "fits i b \<Longrightarrow> fits i c \<Longrightarrow> body_key b = body_key c \<longleftrightarrow> b = c"
  by (cases i) (auto intro!: elem_bytes_inj)

lemma zero_key: "body_key (zero_body i) = replicate (key_length i) 0"
proof (cases i)
  case BddMan
  then show ?thesis by (simp add: numeral_2_eq_2)
next
  case (CddMan n)
  have "elem_bytes (replicate n \<lparr>e_child = 0, e_bnd = 0\<rparr>) = replicate (8 * n) 0"
    by (induction n) (simp_all add: elem_bytes_def elem_words_def word_bytes_def numeral_eq_Suc)
  with CddMan show ?thesis by simp
qed

end
