(* ===== verification/Table_Ops.thy ===== *)
theory Table_Ops
  imports Hash_Chain
begin

text \<open>
  Subtables: creating one, rehashing one (which keeps its nodes and their order), and the
  search of a chain by either constructor, which finds the slot of the key.
\<close>

section \<open>Replacing a subtable\<close>

definition same_hash_set :: "subtable option \<Rightarrow> subtable \<Rightarrow> bool" where
  "same_hash_set old t = (case old of
     None \<Rightarrow> chained t = {} \<and> t_deadcnt t = 0
   | Some t0 \<Rightarrow> chained t = chained t0 \<and> t_deadcnt t = t_deadcnt t0)"

definition old_deads :: "subtable option \<Rightarrow> int" where
  "old_deads old = (case old of None \<Rightarrow> 0 | Some t0 \<Rightarrow> t_deadcnt t0)"

lemma tbl_put_subtable:
  assumes "man_of s i = Some m" "k < length (m_subtables m)"
  shows "tbl (put_man i (put_subtable k (Some t) m) s) j l = (if j = i \<and> l = k then Some t else tbl s j l)"
  using assms by (auto simp: tbl_def put_subtable_def table_of_def nth_list_update)

lemma core_put_subtable:
  assumes c: "core s X F W B" and m: "man_of s i = Some m" and k: "k < length (m_subtables m)"
    and ok: "table_ok (env s) (cont s) (chunk_man s) i k t"
    and old: "same_hash_set (m_subtables m ! k) t"
  defines "s' \<equiv> put_man i (put_subtable k (Some t) m) s"
  shows "core s' X F W B" "keeps s s'" "grows s s'" "tabled s' = tabled s" "rf s' = rf s" "cont s' = cont s"
    "tbl s' j l = (if j = i \<and> l = k then Some t else tbl s j l)"
    "caches_mean T s B \<Longrightarrow> caches_mean T s' B"
proof -
  let ?m = "put_subtable k (Some t) m"
  have mo: "man_of s' j = (if j = i then Some ?m else man_of s j)" for j using m by (simp add: s'_def)
  have tb: "tbl s' j l = (if j = i \<and> l = k then Some t else tbl s j l)" for j l
    unfolding s'_def by (rule tbl_put_subtable [OF m k])
  then show "tbl s' j l = (if j = i \<and> l = k then Some t else tbl s j l)" .
  have to: "tbl s i k = m_subtables m ! k" using m k by (simp add: tbl_def table_of_def)
  show T: "tabled s' = tabled s"
  proof (rule set_eqI)
    fix p
    have "(\<exists>t'. tbl s' j l = Some t' \<and> p \<in> chained t') \<longleftrightarrow> (\<exists>t'. tbl s j l = Some t' \<and> p \<in> chained t')" for j l
      using old to by (auto simp: tb same_hash_set_def split: option.splits)
    then show "p \<in> tabled s' \<longleftrightarrow> p \<in> tabled s" unfolding tabled_iff by blast
  qed
  have f: "os_chunks s' = os_chunks s" "cdd_maxcddsize s' = cdd_maxcddsize s" "cdd_errorcond s' = cdd_errorcond s"
    "postgbc_handler s' = postgbc_handler s" "postrehash_handler s' = postrehash_handler s"
    "applycache s' = applycache s" "quantcache s' = quantcache s" "replacecache s' = replacecache s"
    "cdd_diff2level s' = cdd_diff2level s" "cdd_clocknum s' = cdd_clocknum s" "cdd_refstack s' = cdd_refstack s"
    "extra_terminals s' = extra_terminals s" "applyop s' = applyop s" "opid s' = opid s" "cdd_running s' = cdd_running s"
    "env s' = env s" "chunk_man s' = chunk_man s" "nodes s' = nodes s"
    "cdd_levelinfo s' = cdd_levelinfo s" "cdd_levelcnt s' = cdd_levelcnt s" "length (cddmanager s') = length (cddmanager s)"
    by (cases i; simp add: s'_def)+
  show R: "rf s' = rf s" and C: "cont s' = cont s" by (simp_all add: s'_def)
  show "keeps s s'" by (simp add: keeps_def same_env_def f T live_iff R C)
  show g: "grows s s'" by (simp add: grows_def T f C)
  show "core s' X F W B"
    unfolding core_def
  proof (intro conjI)
    have "bddmanager s' \<noteq> None" using c mo [of BddMan] by (auto simp: core_def static_ok_def split: if_splits)
    then show "static_ok s' B" using c unfolding core_def static_ok_def by (simp add: f del: not_None_eq)
    show "tables_ok s'"
      using c ok unfolding core_def tables_ok_def tb by (simp add: f C)
    show "mans_ok s'"
      unfolding mans_ok_def
    proof (intro allI impI)
      fix j mj assume mj: "man_of s' j = Some mj"
      show "man_ok s' j mj"
      proof (cases "j = i")
        case True
        have mi: "man_ok s i m" using c m by (simp add: core_def mans_ok_def)
        have "t_deadcnt t = (case m_subtables m ! k of None \<Rightarrow> 0 | Some t0 \<Rightarrow> t_deadcnt t0)"
          using old by (auto simp: same_hash_set_def split: option.splits)
        then have "table_deads ?m = table_deads m"
          using k by (simp add: table_deads_def put_subtable_def sum_list_map_update)
        then show ?thesis
          using mi mj mo True unfolding man_ok_def T C cell_ok_def f by (auto simp: put_subtable_def)
      next
        case False
        then have "man_ok s j mj" using mj mo c by (simp add: core_def mans_ok_def)
        then show ?thesis unfolding man_ok_def T C cell_ok_def f .
      qed
    qed
    show "refs_ok s' X F W" using c unfolding core_def refs_ok_def T R C by blast
    show "owners_sound s' F W B" using c unfolding core_def owners_sound_def T R C f by blast
    show "dead_ok s' F W"
      unfolding dead_ok_def R
    proof (intro allI impI)
      fix j l t' assume t': "tbl s' j l = Some t'"
      have d: "t_deadcnt t0 \<le> int (card {p \<in> chained t0. rf s p = 0 \<and> p \<notin> F \<or> p \<in> W})" if "tbl s j l = Some t0" for t0
        using c that by (simp add: core_def dead_ok_def)
      show "t_deadcnt t' \<le> int (card {p \<in> chained t'. rf s p = 0 \<and> p \<notin> F \<or> p \<in> W})"
        using t' d to old by (auto simp: tb same_hash_set_def split: if_splits option.splits)
    qed
  qed
  show "caches_mean T s B \<Longrightarrow> caches_mean T s' B"
    by (rule grows_caches [OF c g]) (simp_all add: f)
qed

section \<open>Finding or creating a subtable\<close>

lemma new_subtable_ok: "table_ok v C M i k (new_subtable k)"
  by (simp add: table_ok_def new_subtable_def descending_def)

text \<open>What the steps before the allocation keep.\<close>

definition steady :: "kstate \<Rightarrow> kstate \<Rightarrow> bool" where
  "steady s s' \<longleftrightarrow> keeps s s' \<and> grows s s' \<and> tabled s' = tabled s \<and> (\<forall>q \<in> tabled s. rf s' q = rf s q)"

lemma steady_refl [simp]: "steady s s"
  by (simp add: steady_def grows_def)

lemma steady_trans: "steady s t \<Longrightarrow> steady t u \<Longrightarrow> steady s u"
  using keeps_trans [of s t u] by (auto simp: steady_def grows_def)

lemma find_subtable_spec:
  assumes c: "core s X F {} B" and k: "caches_mean T s B" and m: "man_of s i = Some m" and l: "level < cdd_levelcnt s"
  shows "wp (find_subtable i level) (\<lambda>t s'. core s' X F {} B \<and> caches_mean T s' B \<and> steady s s' \<and>
     tbl s' i level = Some t) s"
proof -
  have len: "level < length (m_subtables m)"
    using c m l by (simp add: core_def mans_ok_def man_ok_def)
  have gs: "get_subtable i level s = Inr (m_subtables m ! level, s)"
    using m len by (simp add: get_subtable_def bindM_def get_man_def someM_def ret_def)
  show ?thesis
  proof (cases "m_subtables m ! level")
    case (Some t)
    then have "find_subtable i level s = Inr (t, s)"
      by (simp add: find_subtable_def bindM_def gs ret_def)
    moreover have "tbl s i level = Some t" using m len Some by (simp add: tbl_def table_of_def)
    ultimately show ?thesis using c k by (simp add: wp_def)
  next
    case None
    let ?s = "put_man i (put_subtable level (Some (new_subtable level)) m) s"
    have "find_subtable i level s = Inr (new_subtable level, ?s)"
      using None m len
      by (simp add: find_subtable_def bindM_def gs cdd_alloc_subtable_def thenM_def get_man_def someM_def
          guardM_def upd_man_eq [OF m] ret_def)
    moreover have "same_hash_set (m_subtables m ! level) (new_subtable level)"
      by (simp add: None same_hash_set_def new_subtable_def chained_def)
    note P = core_put_subtable [OF c m len new_subtable_ok this]
    ultimately show ?thesis
      using P k by (simp add: wp_def steady_def)
  qed
qed

section \<open>Searching a chain\<close>

text \<open>The nodes of a chain, as the searches read them.\<close>

definition readable :: "contents \<Rightarrow> mid \<Rightarrow> ptr list \<Rightarrow> bool" where
  "readable C i ch \<longleftrightarrow> (\<forall>p \<in> set ch. cdd_rglr p = p \<and> (\<exists>k b. C p = Some (k, b) \<and> fits i b))"

definition sentinel_at :: "contents \<Rightarrow> mid \<Rightarrow> ptr \<Rightarrow> bool" where
  "sentinel_at C i p \<longleftrightarrow> cdd_rglr p = p \<and> (\<exists>k. C p = Some (k, zero_body i))"

lemma seek_eq:
  assumes "\<And>p. p \<in> set ch \<Longrightarrow> t p s = Inr (P p, s)" "t sent s = Inr (False, s)"
  shows "seek t sent ch s = Inr (length (takeWhile P ch), s)"
  using assms by (induction ch) (simp_all add: bindM_def ret_def)

lemma bdd_node_eq: "cont s p = Some (k, Bdd lo hi) \<Longrightarrow> cdd_rglr p = p \<Longrightarrow> bdd_node p s = Inr ((lo, hi), s)"
  by (auto simp: cont_def bdd_node_def bindM_def get_node_def someM_def ret_def)

lemma cdd_elems_eq: "cont s p = Some (k, Cdd es) \<Longrightarrow> cdd_rglr p = p \<Longrightarrow> cdd_elems p s = Inr (es, s)"
  by (auto simp: cont_def cdd_elems_def bindM_def get_node_def someM_def ret_def)

lemma takeWhile_two:
  assumes "sorted_wrt R ch" "\<And>p q. R p q \<Longrightarrow> P q \<Longrightarrow> P p"
  shows "length (takeWhile P ch) + length (takeWhile Q (drop (length (takeWhile P ch)) ch))
       = length (takeWhile (\<lambda>p. P p \<or> Q p) ch)"
proof -
  have "takeWhile (\<lambda>p. P p \<or> Q p) ch = takeWhile P ch @ takeWhile Q (dropWhile P ch)"
    if "sorted_wrt R ch" for ch
    using that
  proof (induction ch)
    case Nil
    then show ?case by simp
  next
    case (Cons p ch)
    show ?case
    proof (cases "P p")
      case True
      then show ?thesis using Cons by simp
    next
      case False
      then have "\<forall>q \<in> set ch. \<not> P q" using Cons.prems assms(2) by auto
      then have "takeWhile (\<lambda>p. P p \<or> Q p) ch = takeWhile Q ch"
        by (intro takeWhile_cong) auto
      then show ?thesis using False by simp
    qed
  qed
  then show ?thesis using assms(1) by (simp add: dropWhile_eq_drop)
qed

lemma bdd_seek_eq:
  assumes r: "readable (cont s) BddMan ch" and z: "sentinel_at (cont s) BddMan sent"
    and d: "descending (cont s) ch"
  shows "bdd_seek lo hi sent ch s = Inr (bytes.slot (key_at (cont s)) [lo, hi] ch, s)"
proof -
  define key where "key = key_at (cont s)"
  have n: "bdd_node p s = Inr ((key p ! 0, key p ! 1), s) \<and> length (key p) = 2" if "p \<in> set ch" for p
    using r that bdd_node_eq [of s p] by (fastforce simp: readable_def key_def key_at_def)
  obtain k where zs: "cont s sent = Some (k, Bdd 0 0)" "cdd_rglr sent = sent"
    using z by (auto simp: sentinel_at_def)
  have zn: "bdd_node sent s = Inr ((0, 0), s)" using bdd_node_eq zs by blast
  let ?P = "\<lambda>p. lo < key p ! 0" and ?Q = "\<lambda>p. lo = key p ! 0 \<and> hi < key p ! 1"
  have 1: "seek (\<lambda>p. bindM (bdd_node p) (\<lambda>(l, h). ret (lo < l))) sent ch s = Inr (length (takeWhile ?P ch), s)"
    by (rule seek_eq) (use n zn in \<open>simp_all add: bindM_def ret_def\<close>)
  have 2: "seek (\<lambda>p. bindM (bdd_node p) (\<lambda>(l, h). ret (lo = l \<and> hi < h))) sent (drop j ch) s
      = Inr (length (takeWhile ?Q (drop j ch)), s)" for j
    by (rule seek_eq) (use n zn in \<open>auto simp: bindM_def ret_def dest!: in_set_dropD\<close>)
  have two: "\<exists>a b. key p = [a, b]" if "p \<in> set ch" for p
    using n [OF that] by (metis (no_types) One_nat_def Suc_length_conv length_0_conv numeral_2_eq_2)
  have "sorted_wrt (\<lambda>p q. key q ! 0 \<le> key p ! 0) ch"
  proof (rule sorted_wrt_mono_rel)
    show "sorted_wrt (\<lambda>p q. memcmp (key q) (key p) < 0) ch" using d by (simp add: descending_def key_def)
    show "key q ! 0 \<le> key p ! 0" if "p \<in> set ch" "q \<in> set ch" "memcmp (key q) (key p) < 0" for p q
      using two [OF that(1)] two [OF that(2)] that(3) by (auto split: if_splits)
  qed
  then have "length (takeWhile ?P ch) + length (takeWhile ?Q (drop (length (takeWhile ?P ch)) ch))
      = length (takeWhile (\<lambda>p. ?P p \<or> ?Q p) ch)"
    by (rule takeWhile_two) auto
  also have "takeWhile (\<lambda>p. ?P p \<or> ?Q p) ch = takeWhile (\<lambda>p. memcmp [lo, hi] (key p) < 0) ch"
  proof (rule takeWhile_cong [OF refl])
    fix p assume "p \<in> set ch"
    then obtain a b where "key p = [a, b]" using two by blast
    then show "(?P p \<or> ?Q p) = (memcmp [lo, hi] (key p) < 0)" by auto
  qed
  finally show ?thesis
    by (simp add: bdd_seek_def bindM_def 1 2 ret_def bytes.slot_def key_def)
qed

lemma elem_cmp_eq:
  assumes "cont s p = Some (k, Cdd fs)" "cdd_rglr p = p" "length fs = length es"
  shows "elem_cmp es p s = Inr (memcmp (elem_bytes es) (elem_bytes fs), s)"
  by (simp add: elem_cmp_def bindM_def thenM_def cdd_elems_eq [OF assms(1,2)] guardM_def assms(3) ret_def)

lemma cdd_seek_eq:
  assumes r: "readable (cont s) (CddMan (length es)) ch" and z: "sentinel_at (cont s) (CddMan (length es)) sent"
  shows "cdd_seek es sent ch s = Inr (bytes.slot (key_at (cont s)) (elem_bytes es) ch, s)"
  unfolding cdd_seek_def bytes.slot_def
proof (rule seek_eq)
  fix p assume p: "p \<in> set ch"
  then obtain k fs where "cont s p = Some (k, Cdd fs)" "length fs = length es" "cdd_rglr p = p"
    using r by (auto simp: readable_def)
  then show "bindM (elem_cmp es p) (\<lambda>c. ret (c < 0)) s =
      Inr (memcmp (elem_bytes es) (key_at (cont s) p) < 0, s)"
    by (simp add: bindM_def elem_cmp_eq ret_def key_at_def)
next
  obtain k where "cont s sent = Some (k, zero_body (CddMan (length es)))" "cdd_rglr sent = sent"
    using z by (auto simp: sentinel_at_def)
  moreover have "\<not> memcmp (elem_bytes es) (body_key (zero_body (CddMan (length es)))) < 0"
    unfolding zero_key by (rule memcmp_zeros)
  ultimately show "bindM (elem_cmp es sent) (\<lambda>c. ret (c < 0)) s = Inr (False, s)"
    by (simp add: bindM_def elem_cmp_eq ret_def)
qed

section \<open>Rehashing\<close>

lemma bucket_index_half: "0 < sh \<Longrightarrow> bucket_index sh h = bucket_index (sh - 1) h div 2"
proof -
  assume "0 < sh"
  then obtain n where n: "sh = Suc n" by (cases sh) auto
  have "bucket_index m h = unat h div 2 ^ m" for m
    unfolding bucket_index_def unat_drop_bit_eq by (simp add: drop_bit_eq_div)
  then show ?thesis by (simp add: n div_mult2_eq [symmetric] mult.commute)
qed

lemma man_hash_eq:
  assumes "cont s p = Some (k, b)" "fits i b" "cdd_rglr p = p" "man_of s i = Some m" "m_nodesize m = nodesize_of i"
  shows "man_hash i p s = Inr (body_hash (env s) b, s)"
proof (cases i)
  case BddMan
  with assms obtain lo hi where b: "b = Bdd lo hi" by auto
  with assms have "bdd_node p s = Inr ((lo, hi), s)" using bdd_node_eq by blast
  with BddMan b show ?thesis by (simp add: bdd_hash_func_def bindM_def ret_def)
next
  case (CddMan n)
  with assms obtain es where b: "b = Cdd es" "length es = n" by auto
  with assms have "cdd_elems p s = Inr (es, s)" using cdd_elems_eq by blast
  with CddMan b assms(4,5) show ?thesis
    by (simp add: cdd_hash_func_def bindM_def thenM_def get_man_def someM_def guardM_def Let_def cddHash_def gets_def
        del: man_of.simps)
qed

definition hash_bit :: "kstate \<Rightarrow> nat \<Rightarrow> ptr \<Rightarrow> bool" where
  "hash_bit s sh p = (case cont s p of None \<Rightarrow> False | Some (k, b) \<Rightarrow> odd (bucket_index sh (body_hash (env s) b)))"

lemma split_bucket_eq:
  assumes "readable (cont s) i ch" "man_of s i = Some m" "m_nodesize m = nodesize_of i"
  shows "split_bucket i sh ch s = Inr ((filter (\<lambda>p. \<not> hash_bit s sh p) ch, filter (hash_bit s sh) ch), s)"
  using assms(1)
proof (induction ch)
  case Nil
  then show ?case by (simp add: ret_def)
next
  case (Cons p ch)
  then obtain k b where p: "cont s p = Some (k, b)" "fits i b" "cdd_rglr p = p" by (auto simp: readable_def)
  have "man_hash i p s = Inr (body_hash (env s) b, s)" by (rule man_hash_eq [OF p assms(2,3)])
  moreover have "hash_bit s sh p = odd (bucket_index sh (body_hash (env s) b))" by (simp add: hash_bit_def p(1))
  ultimately show ?case using Cons by (simp add: bindM_def readable_def ret_def)
qed

definition split_all :: "kstate \<Rightarrow> nat \<Rightarrow> ptr list list \<Rightarrow> ptr list list" where
  "split_all s sh hs = concat (map (\<lambda>c. [filter (\<lambda>p. \<not> hash_bit s sh p) c, filter (hash_bit s sh) c]) hs)"

lemma rehash_buckets_eq:
  assumes "\<And>c. c \<in> set hs \<Longrightarrow> readable (cont s) i c" "man_of s i = Some m" "m_nodesize m = nodesize_of i"
  shows "rehash_buckets i sh hs s = Inr (split_all s sh hs, s)"
  using assms(1)
  by (induction hs) (simp_all add: split_all_def ret_def bindM_def split_bucket_eq [OF _ assms(2,3)])

lemma split_all_length [simp]: "length (split_all s sh hs) = 2 * length hs"
  by (induction hs) (simp_all add: split_all_def)

lemma split_all_nth:
  "b < 2 * length hs \<Longrightarrow> split_all s sh hs ! b = filter (\<lambda>p. hash_bit s sh p = odd b) (hs ! (b div 2))"
proof (induction hs arbitrary: b)
  case Nil
  then show ?case by simp
next
  case (Cons c hs)
  consider "b = 0" | "b = 1" | b' where "b = Suc (Suc b')" by (metis One_nat_def not0_implies_Suc)
  then show ?case
  proof cases
    case 3
    then show ?thesis using Cons by (simp add: split_all_def)
  qed (simp_all add: split_all_def)
qed

lemma split_all_set: "set (concat (split_all s sh hs)) = set (concat hs)"
  by (induction hs) (auto simp: split_all_def)

lemma split_table_ok:
  assumes ok: "table_ok (env s) (cont s) (chunk_man s) i k t" and sh: "0 < t_shift t"
  shows "table_ok (env s) (cont s) (chunk_man s) i k
           (t\<lparr>t_maxkeys := x, t_shift := t_shift t - 1, t_hash := split_all s (t_shift t - 1) (t_hash t)\<rparr>)"
proof -
  let ?h = "t_hash t" and ?n = "t_shift t - 1"
  have len: "length ?h = 2 ^ (32 - t_shift t)" "t_shift t \<le> 32" using ok by (simp_all add: table_ok_def)
  have pow: "2 * length ?h = 2 ^ (32 - ?n)"
  proof -
    have "32 - ?n = Suc (32 - t_shift t)" using len(2) sh by simp
    then show ?thesis using len(1) by simp
  qed
  have b: "descending (cont s) (split_all s ?n ?h ! b) \<and>
      (\<forall>p \<in> set (split_all s ?n ?h ! b). in_place (env s) (cont s) (chunk_man s) i k ?n b p)"
    if b: "b < 2 * length ?h" for b
  proof -
    have "b div 2 < length ?h" using b by simp
    then have o: "descending (cont s) (?h ! (b div 2))"
      "\<forall>p \<in> set (?h ! (b div 2)). in_place (env s) (cont s) (chunk_man s) i k (t_shift t) (b div 2) p"
      using ok by (simp_all add: table_ok_def)
    have "in_place (env s) (cont s) (chunk_man s) i k ?n b p"
      if p: "p \<in> set (?h ! (b div 2))" "hash_bit s ?n p = odd b" for p
    proof -
      from o(2) p(1) obtain body where bd: "cont s p = Some (k, body)" "fits i body" "cdd_rglr p = p"
        "chunk_man s (cdd_node2chunk p) = Some i" "bucket_index (t_shift t) (body_hash (env s) body) = b div 2"
        by (auto simp: in_place_def)
      let ?x = "bucket_index ?n (body_hash (env s) body)"
      have "?x div 2 = b div 2" using bd(5) bucket_index_half [OF sh] by simp
      moreover have "odd ?x = odd b" using p(2) bd(1) by (simp add: hash_bit_def)
      ultimately have "?x = b" by (metis (full_types) even_two_times_div_two odd_two_times_div_two_succ)
      then show ?thesis using bd by (auto simp: in_place_def)
    qed
    then show ?thesis
      unfolding split_all_nth [OF b] using o(1) by (auto simp: descending_def intro: sorted_wrt_filter)
  qed
  show ?thesis using b pow len by (simp add: table_ok_def)
qed

lemma sim_rehashcnt: "sim s (s\<lparr>cdd_rehashcnt := n\<rparr>)"
proof -
  have "man_of (s\<lparr>cdd_rehashcnt := n\<rparr>) i = man_of s i" for i by (cases i) simp_all
  then show ?thesis by (simp add: sim_def blank_def cont_def fun_eq_iff)
qed

lemma core_rehashcnt:
  assumes c: "core s X F W B"
  shows "core (s\<lparr>cdd_rehashcnt := n\<rparr>) X F W B" "rf (s\<lparr>cdd_rehashcnt := n\<rparr>) = rf s"
proof -
  let ?s = "s\<lparr>cdd_rehashcnt := n\<rparr>"
  have m: "man_of ?s i = man_of s i" for i by (cases i) simp_all
  show r: "rf ?s = rf s" by (simp add: fun_eq_iff rf_def)
  have tb: "tbl ?s i k = tbl s i k" for i k by (rule sim_tbl_same) (rule m)
  note S = sim_fields [OF sim_rehashcnt [of s n]] blank_fields [OF sim_fields(2) [OF sim_rehashcnt [of s n]]]
  show "core ?s X F W B"
  proof (rule sim_core [OF sim_rehashcnt c])
    show "rf ?s cddfalse = MAXREF" using core_term(2) [OF c] r by simp
    show "man_of ?s i = Some m' \<Longrightarrow> m_deadcnt m' = table_deads m'" for i m' using core_mans [OF c] m by simp
    show "refs_ok ?s X F W" using c unfolding core_def refs_ok_def r S by simp
    show "owners_sound ?s F W B" using c unfolding core_def owners_sound_def r S by simp
    show "dead_ok ?s F W" using c unfolding core_def dead_ok_def r tb by simp
  qed
qed

lemma chain_readable:
  assumes "table_ok v C M i k t" "b < length (t_hash t)"
  shows "readable C i (t_hash t ! b)"
proof -
  have "\<forall>p \<in> set (t_hash t ! b). in_place v C M i k (t_shift t) b p"
    using assms by (simp add: table_ok_def)
  then show ?thesis unfolding in_place_def readable_def by blast
qed

lemma cdd_rehash_spec:
  assumes c: "core s X F {} B" and k: "caches_mean T s B" and t: "tbl s i l = Some t"
  shows "wp (cdd_rehash i l) (\<lambda>_ s'. core s' X F {} B \<and> caches_mean T s' B \<and> steady s s' \<and> cont s' = cont s) s"
proof -
  from t obtain m where m: "man_of s i = Some m" "table_of m l = Some t" by (auto simp: tbl_iff)
  note lt = table_of_lt [OF m(2)]
  have gs: "get_subtable i l s = Inr (Some t, s)"
    using m(1) lt by (simp add: get_subtable_def bindM_def get_man_def someM_def ret_def)
  have ok: "table_ok (env s) (cont s) (chunk_man s) i l t"
    using c t by (simp add: core_def tables_ok_def)
  have sz: "m_nodesize m = nodesize_of i" using c m by (simp add: core_def mans_ok_def man_ok_def)
  have hooks: "postgbc_handler s \<longrightarrow> postrehash_handler s" using c by (simp add: core_def static_ok_def)
  show ?thesis
  proof (cases "malloc_ok (2 * t_buckets t * 4)")
    case False
    have "cdd_rehash i l s = Inl NoMem"
      using False by (simp add: cdd_rehash_def bindM_def thenM_def gs someM_def guardM_def)
    then show ?thesis by (simp add: wp_def)
  next
    case True
    have sh: "0 < t_shift t"
    proof (rule ccontr)
      assume "\<not> 0 < t_shift t"
      then have "t_buckets t = 2 ^ 32" using ok by (simp add: t_buckets_def table_ok_def)
      then show False using True by (simp add: malloc_ok_def)
    qed
    let ?h = "split_all s (t_shift t - 1) (t_hash t)"
    let ?t = "t\<lparr>t_maxkeys := 2 * t_maxkeys t, t_shift := t_shift t - 1, t_hash := ?h\<rparr>"
    let ?u = "put_man i (put_subtable l (Some ?t) m) s"
    have rb: "rehash_buckets i (t_shift t - 1) (t_hash t) s = Inr (?h, s)"
      by (rule rehash_buckets_eq [OF _ m(1) sz]) (metis chain_readable [OF ok] in_set_conv_nth)
    have up: "upd_subtable i l (\<lambda>t. t\<lparr>t_maxkeys := 2 * t_maxkeys t, t_shift := t_shift t - 1, t_hash := ?h\<rparr>) s
        = Inr ((), ?u)"
      by (simp add: upd_subtable_eq [OF m])
    let ?v = "?u\<lparr>cdd_rehashcnt := cdd_rehashcnt ?u + 1\<rparr>"
    have hk: "postgbc_handler ?v = postgbc_handler s" "postrehash_handler ?v = postrehash_handler s"
      by (cases i; simp)+
    have run: "cdd_rehash i l s = Inr ((), ?v)"
      using True sh hooks hk
      by (simp add: cdd_rehash_def bindM_def thenM_def gs someM_def guardM_def rb up modifyM_def gets_def whenM_def ret_def
          del: One_nat_def)
    have "same_hash_set (m_subtables m ! l) ?t"
      using lt by (simp add: same_hash_set_def chained_def split_all_set del: set_concat)
    note P = core_put_subtable [OF c m(1) _ split_table_ok [OF ok sh] this]
    have "core ?v X F {} B" "rf ?v = rf ?u" using core_rehashcnt [of ?u X F "{}" B] P(1) lt by blast+
    moreover have "caches_mean T ?v B" using sim_caches [OF sim_rehashcnt] P(8) k lt by blast
    moreover have "cont ?v = cont s" "tabled ?v = tabled s"
      using sim_fields [OF sim_rehashcnt [of ?u]] P(4,6) lt by simp_all
    moreover have "same_env s ?v"
      using P(2) lt sim_same_env [OF sim_rehashcnt [of ?u]] same_env_trans unfolding keeps_def by blast
    ultimately have "core ?v X F {} B" "caches_mean T ?v B" "steady s ?v" "cont ?v = cont s"
      using P(5) lt by (simp_all add: steady_def keeps_def grows_def same_env_def live_iff)
    then show ?thesis by (simp add: wp_def run)
  qed
qed

end
