(* ===== verification/Make_Spec.thy ===== *)
theory Make_Spec
  imports Table_Ops
begin

text \<open>
  What the node constructors promise: the node they return is well formed and means what its
  children say, equal nodes are shared, and the store's invariant and the diagrams the client
  holds are kept, across garbage collections and rehashing.
\<close>

section \<open>Linking a new node\<close>

text \<open>The state after a node has been written into a fresh cell and linked into its chain.\<close>

definition linked :: "mid \<Rightarrow> nat \<Rightarrow> nat \<Rightarrow> ptr \<Rightarrow> ddnode \<Rightarrow> subtable \<Rightarrow> nodemanager \<Rightarrow> kstate \<Rightarrow> kstate" where
  "linked i level bucket p nd t m s =
     put_man i (put_subtable level (Some (t\<lparr>t_hash := (t_hash t)[bucket := insert_at
       (bytes.slot (key_at (cont s)) (body_key (n_body nd)) (t_hash t ! bucket)) p (t_hash t ! bucket)],
       t_keys := t_keys t + 1\<rparr>)) m) (set_node p nd s)"

lemma set_insert_at [simp]: "set (insert_at n x xs) = insert x (set xs)"
  by (metis Un_insert_right append_take_drop_id insert_at_def list.simps(15) set_append)

lemma table_link:
  assumes ok: "table_ok v C M i k t" and b: "b < length (t_hash t)"
    and C': "\<And>q. q \<in> chained t \<Longrightarrow> C' q = C q" and p: "p \<notin> chained t"
    and pl: "in_place v C' M i k (t_shift t) b p" "C' p = Some (k, body)"
    and new: "\<And>q. q \<in> set (t_hash t ! b) \<Longrightarrow> key_at C q \<noteq> body_key body"
  shows "table_ok v C' M i k (t\<lparr>t_hash := (t_hash t)[b := insert_at
           (bytes.slot (key_at C) (body_key body) (t_hash t ! b)) p (t_hash t ! b)], t_keys := n\<rparr>)"
proof -
  let ?ch = "t_hash t ! b" and ?j = "bytes.slot (key_at C) (body_key body) (t_hash t ! b)"
  have inC: "q \<in> chained t" if "c < length (t_hash t)" "q \<in> set (t_hash t ! c)" for c q
    using that by (auto simp: chained_iff)
  have key: "key_at C' q = key_at C q" if "q \<in> set ?ch" for q
    using C' inC b that by (simp add: key_at_def)
  have fit: "fits i body" using pl by (auto simp: in_place_def)
  have len: "length (key_at C' q) = key_length i" if "q \<in> set (insert_at ?j p ?ch)" for q
  proof -
    have "in_place v C' M i k (t_shift t) b q"
    proof (cases "q = p")
      case True
      then show ?thesis using pl by simp
    next
      case False
      then have "q \<in> set ?ch" using that by simp
      then have "in_place v C M i k (t_shift t) b q" using ok b by (simp add: table_ok_def)
      then show ?thesis using C' inC b \<open>q \<in> set ?ch\<close> by (simp add: in_place_def)
    qed
    then show ?thesis by (auto simp: in_place_def key_at_def length_body_key)
  qed
  have slot: "bytes.slot (key_at C') (key_at C' p) ?ch = ?j"
    unfolding bytes.slot_def
    by (rule arg_cong [where f = length], rule takeWhile_cong) (auto simp: key key_at_def [of C' p] pl(2))
  have "descending C ?ch" using ok b by (simp add: table_ok_def)
  then have "bytes.desc (key_at C') ?ch"
    unfolding descending_def bytes.desc_def by (rule sorted_wrt_mono_rel [rotated]) (simp add: key)
  then have "bytes.desc (key_at C') (take ?j ?ch @ p # drop ?j ?ch)"
    unfolding slot [symmetric]
  proof (rule bytes.slot_insert [where na = "key_length i"])
    show "length (key_at C' q) = key_length i" if "q \<in> set ?ch" for q using len that by simp
    show "length (key_at C' p) = key_length i" using len by simp
    show "key_at C' q \<noteq> key_at C' p" if "q \<in> set ?ch" for q
      using new [OF that] key [OF that] by (simp add: key_at_def [of C' p] pl(2))
  qed
  then have d: "descending C' (insert_at ?j p ?ch)"
    by (simp add: bytes.desc_def descending_def insert_at_def)
  have "descending C' (t_hash t ! c) \<and> (\<forall>q \<in> set (t_hash t ! c). in_place v C' M i k (t_shift t) c q)"
    if c: "c < length (t_hash t)" for c
  proof -
    have e: "C' q = C q" if "q \<in> set (t_hash t ! c)" for q using C' inC c that by blast
    have "descending C (t_hash t ! c)" using ok c by (simp add: table_ok_def)
    then have "descending C' (t_hash t ! c)"
      unfolding descending_def by (rule sorted_wrt_mono_rel [rotated]) (simp add: e key_at_def)
    moreover have "\<forall>q \<in> set (t_hash t ! c). in_place v C M i k (t_shift t) c q"
      using ok c by (simp add: table_ok_def)
    ultimately show ?thesis using e by (simp add: in_place_def)
  qed
  then show ?thesis
    using ok d pl(1) b by (auto simp: table_ok_def nth_list_update)
qed

lemma chained_link:
  assumes "b < length (t_hash t)"
  shows "chained (t\<lparr>t_hash := (t_hash t)[b := insert_at j p (t_hash t ! b)], t_keys := n\<rparr>) = insert p (chained t)"
proof (rule set_eqI)
  fix x
  let ?h = "\<lambda>c. if b = c then insert_at j p (t_hash t ! b) else t_hash t ! c"
  have "(\<exists>c < length (t_hash t). x \<in> set (?h c)) \<longleftrightarrow> x = p \<or> (\<exists>c < length (t_hash t). x \<in> set (t_hash t ! c))"
  proof
    assume "\<exists>c < length (t_hash t). x \<in> set (?h c)"
    then show "x = p \<or> (\<exists>c < length (t_hash t). x \<in> set (t_hash t ! c))"
      by (force split: if_splits)
  next
    assume "x = p \<or> (\<exists>c < length (t_hash t). x \<in> set (t_hash t ! c))"
    then show "\<exists>c < length (t_hash t). x \<in> set (?h c)"
    proof
      assume "x = p"
      then show ?thesis using assms by (intro exI [of _ b]) simp
    next
      assume "\<exists>c < length (t_hash t). x \<in> set (t_hash t ! c)"
      then obtain c where "c < length (t_hash t)" "x \<in> set (t_hash t ! c)" by blast
      then show ?thesis by (intro exI [of _ c]) simp
    qed
  qed
  then show "x \<in> chained (t\<lparr>t_hash := (t_hash t)[b := insert_at j p (t_hash t ! b)], t_keys := n\<rparr>)
      \<longleftrightarrow> x \<in> insert p (chained t)"
    using assms by (simp add: chained_iff nth_list_update)
qed

lemma bucket_lt: "sh \<le> 32 \<Longrightarrow> bucket_index sh h < 2 ^ (32 - sh)"
proof -
  assume sh: "sh \<le> 32"
  have "unat h < 2 ^ (32 - sh) * 2 ^ sh"
    using unsigned_less [of h, where ?'a = nat] sh by (simp flip: power_add)
  then show ?thesis
    unfolding bucket_index_def unat_drop_bit_eq by (simp add: drop_bit_eq_div less_mult_imp_div_less)
qed

lemma table_bucket:
  "table_ok v C M i k t \<Longrightarrow> bucket_index (t_shift t) h < length (t_hash t)"
  using bucket_lt [of "t_shift t" h] by (simp add: table_ok_def)

lemma fresh_cell_facts:
  assumes c: "core s X F W B" and f: "fresh_cell s i p"
  shows "p \<notin> tabled s" "p \<noteq> cddfalse" "cont s p = None" "cdd_rglr p = p" "chunk_man s (cdd_node2chunk p) = Some i"
    "\<And>j m. man_of s j = Some m \<Longrightarrow> p \<noteq> m_sentinel m"
proof -
  have n: "nodes s p = None" using f by (simp add: fresh_cell_def)
  then show C: "cont s p = None" by (simp add: cont_def)
  have "tables_ok s" using c by (simp add: core_def)
  then show "p \<notin> tabled s" using n by (auto elim: tabled_node)
  show "p \<noteq> cddfalse" using core_term(1) [OF c] C by auto
  show "cdd_rglr p = p" "chunk_man s (cdd_node2chunk p) = Some i" using f by (simp_all add: fresh_cell_def cell_ok_def)
  show "man_of s j = Some m \<Longrightarrow> p \<noteq> m_sentinel m" for j m
  proof -
    assume "man_of s j = Some m"
    then have "man_ok s j m" using c by (simp add: core_def mans_ok_def)
    then show "p \<noteq> m_sentinel m" using C by (auto simp: man_ok_def)
  qed
qed

lemma linked_core:
  assumes c: "core s (with_toks X (kids b)) {} {} B" and f: "fresh_cell s i p"
    and m: "man_of s i = Some m" "table_of m k = Some t"
    and nd: "n_level nd = k" "n_ref nd = 0" "n_body nd = b"
    and shape: "shape_ok (cdd_levelinfo s) B k b" "fits i b"
    and kids: "\<forall>c \<in> set (kids b). sound (cont s) (tabled s) (cdd_levelinfo s) B c \<and> k < lv (cont s) c"
    and bk: "bucket_index (t_shift t) (body_hash (env s) b) = bk"
    and new: "\<forall>q \<in> set (t_hash t ! bk). key_at (cont s) q \<noteq> body_key b"
  defines "s' \<equiv> linked i k bk p nd t m s"
  shows "core s' X {p} {} B" "keeps s s'" "grows s s'" "cont s' p = Some (k, b)" "p \<in> tabled s'"
    "sound (cont s') (tabled s') (cdd_levelinfo s') B p" "caches_mean T s B \<Longrightarrow> caches_mean T s' B"
    "\<exists>t'. tbl s' i k = Some t'"
proof -
  note P = fresh_cell_facts [OF c f]
  have ok: "tables_ok s" and st: "static_ok s B" and mo: "mans_ok s" using c by (simp_all add: core_def)
  note lt = table_of_lt [OF m(2)]
  have t: "tbl s i k = Some t" using m by (auto simp: tbl_iff)
  have tok: "table_ok (env s) (cont s) (chunk_man s) i k t" using ok t by (simp add: tables_ok_def)
  have bl: "bk < length (t_hash t)" using table_bucket [OF tok] bk by blast
  define t' where "t' = t\<lparr>t_hash := (t_hash t)[bk := insert_at
       (bytes.slot (key_at (cont s)) (body_key b) (t_hash t ! bk)) p (t_hash t ! bk)], t_keys := t_keys t + 1\<rparr>"
  define m' where "m' = put_subtable k (Some t') m"
  define u where "u = set_node p nd s"
  have s': "s' = put_man i m' u" by (simp add: s'_def linked_def m'_def t'_def u_def nd(3))
  have mu: "man_of u j = man_of s j" for j by (cases j) (simp_all add: u_def set_node_def)
  have man: "man_of s' j = (if j = i then Some m' else man_of s j)" for j
    using m(1) mu [of i] mu [of j] by (simp add: s')
  have nodes': "nodes s' = (nodes s)(p \<mapsto> nd)" by (simp add: s' u_def P(4))
  have C: "cont s' = (cont s)(p \<mapsto> (k, b))" by (simp add: fun_eq_iff cont_def nodes' nd)
  have R: "rf s' = (rf s)(p := 0)" by (simp add: fun_eq_iff rf_def nodes' nd)
  have f': "os_chunks s' = os_chunks s" "cdd_maxcddsize s' = cdd_maxcddsize s" "cdd_errorcond s' = cdd_errorcond s"
    "postgbc_handler s' = postgbc_handler s" "postrehash_handler s' = postrehash_handler s"
    "applycache s' = applycache s" "quantcache s' = quantcache s" "replacecache s' = replacecache s"
    "cdd_diff2level s' = cdd_diff2level s" "cdd_clocknum s' = cdd_clocknum s" "cdd_refstack s' = cdd_refstack s"
    "extra_terminals s' = extra_terminals s" "applyop s' = applyop s" "opid s' = opid s" "cdd_running s' = cdd_running s"
    "env s' = env s" "chunk_man s' = chunk_man s"
    "cdd_levelinfo s' = cdd_levelinfo s" "cdd_levelcnt s' = cdd_levelcnt s" "length (cddmanager s') = length (cddmanager s)"
    by (cases i; simp add: s' u_def set_node_def)+
  have kl: "k < length (m_subtables m)" using lt by simp
  have tb: "tbl s' j l = (if j = i \<and> l = k then Some t' else tbl s j l)" for j l
    using m(1) kl by (auto simp: tbl_def man m'_def put_subtable_def table_of_def nth_list_update)
  then show "\<exists>t'. tbl s' i k = Some t'" by simp
  have ch': "chained t' = insert p (chained t)" unfolding t'_def by (rule chained_link [OF bl])
  have T: "tabled s' = insert p (tabled s)"
  proof (rule set_eqI)
    fix q
    show "q \<in> tabled s' \<longleftrightarrow> q \<in> insert p (tabled s)"
    proof
      assume "q \<in> tabled s'"
      then show "q \<in> insert p (tabled s)"
        unfolding tabled_iff using ch' t by (auto simp: tb tabled_iff split: if_splits)
    next
      assume q: "q \<in> insert p (tabled s)"
      show "q \<in> tabled s'"
      proof (cases "q = p \<or> q \<in> chained t")
        case True
        then show ?thesis using tabledI [of s' i k t' q] ch' by (auto simp: tb)
      next
        case False
        then have "q \<in> tabled s" using q by simp
        then obtain j l t0 where 0: "tbl s j l = Some t0" "q \<in> chained t0" unfolding tabled_iff by blast
        then have "\<not> (j = i \<and> l = k)" using t False by auto
        then show ?thesis using 0 by (intro tabledI [of s' j l t0 q]) (auto simp: tb)
      qed
    qed
  qed
  then show "p \<in> tabled s'" by simp
  show "cont s' p = Some (k, b)" by (simp add: C)
  have Cq: "q \<noteq> p \<Longrightarrow> cont s' q = cont s q" for q by (simp add: C)
  show g: "grows s s'" unfolding grows_def T f' using P(1,2) by (auto simp: C)
  have senv: "same_env s s'" by (simp add: same_env_def f')
  show "keeps s s'"
    unfolding keeps_def using senv P(1,2) by (auto simp: live_iff T C R)
  have ks: "sound (cont s') (tabled s') (cdd_levelinfo s') B q" "k < lv (cont s') q" if "q \<in> set (kids b)" for q
    using kids [rule_format, OF that] grows_sound [OF c g] grows_lv [OF g, where B = B] by auto
  show so: "sound (cont s') (tabled s') (cdd_levelinfo s') B p"
    by (rule sound_node [of _ _ k b]) (use P(4) shape(1) ks in \<open>simp_all add: C T f'\<close>)
  show "caches_mean T s B \<Longrightarrow> caches_mean T s' B"
    by (rule grows_caches [OF c g]) (simp_all add: f')
  have own': "own (tabled s') (rf s') {p} {} = insert p (own (tabled s) (rf s) {} {})"
    using P(1) by (auto simp: own_def T R)
  have indeg': "indeg (cont s') (own (tabled s') (rf s') {p} {}) q
      = count_list (map cdd_rglr (kids b)) q + indeg (cont s) (own (tabled s) (rf s) {} {}) q" for q
  proof -
    have pn: "p \<notin> own (tabled s) (rf s) {} {}" using P(1) by (simp add: own_def)
    have "indeg (cont s') (own (tabled s) (rf s) {} {}) q = indeg (cont s) (own (tabled s) (rf s) {} {}) q"
    proof (rule indeg_cong)
      fix o' assume o': "o' \<in> own (tabled s) (rf s) {} {}"
      then obtain n where "cdd_rglr o' = o'" using tabled_node [OF ok, of o'] by (auto simp: own_def)
      then show "kids_of (cont s') o' = kids_of (cont s) o'" using o' pn by (auto simp: kids_of_def C)
    qed
    moreover have "kids_of (cont s') p = kids b" using P(4) by (simp add: kids_of_def C)
    ultimately show ?thesis by (simp add: own' indeg_insert [OF pn])
  qed
  show "core s' X {p} {} B"
    unfolding core_def
  proof (intro conjI)
    have "bddmanager s' \<noteq> None" using st man [of BddMan] by (auto simp: static_ok_def split: if_splits)
    moreover have "(\<exists>fl. nodes s' cddfalse = Some \<lparr>n_level = MAXLEVEL, n_ref = MAXREF, n_flag = fl, n_body = Term\<rparr>)"
      using st P(2) by (simp add: static_ok_def nodes')
    moreover have "\<forall>q. cdd_node2chunk q = env_chunk (env s) n \<longrightarrow> env_chunk (env s) n \<noteq> 0 \<longrightarrow> nodes s' q = None"
      if "os_chunks s \<le> n" for n
    proof (intro allI impI)
      fix q assume q: "cdd_node2chunk q = env_chunk (env s) n" "env_chunk (env s) n \<noteq> 0"
      have "chunk_man s (env_chunk (env s) n) = None" "nodes s q = None"
        using st that q by (simp_all add: static_ok_def)
      then show "nodes s' q = None" using P(5) q(1) by (auto simp: nodes')
    qed
    ultimately show "static_ok s' B"
      using st unfolding static_ok_def f' by blast
    show "tables_ok s'"
      unfolding tables_ok_def f'
    proof (intro allI impI)
      fix j l t0 assume t0: "tbl s' j l = Some t0"
      show "table_ok (env s) (cont s') (chunk_man s) j l t0"
      proof (cases "j = i \<and> l = k")
        case True
        have "table_ok (env s) (cont s') (chunk_man s) i k t'"
          unfolding t'_def
        proof (rule table_link [OF tok bl])
          show "q \<in> chained t \<Longrightarrow> cont s' q = cont s q" for q using P(1) tabledI [OF t] by (metis Cq)
          show "p \<notin> chained t" using P(1) tabledI [OF t] by blast
          show "in_place (env s) (cont s') (chunk_man s) i k (t_shift t) bk p"
            using P(4,5) shape(2) bk by (simp add: in_place_def C)
          show "cont s' p = Some (k, b)" by (simp add: C)
        qed (rule new [rule_format])
        then show ?thesis using True t0 by (simp add: tb)
      next
        case False
        then have o: "tbl s j l = Some t0" using t0 by (simp add: tb split: if_splits)
        then have "table_ok (env s) (cont s) (chunk_man s) j l t0" using ok by (simp add: tables_ok_def)
        moreover have "cont s' q = cont s q" if "b < length (t_hash t0)" "q \<in> set (t_hash t0 ! b)" for b q
          using that P(1) tabledI [OF o] Cq by (metis chained_iff)
        ultimately show ?thesis
          unfolding table_ok_def descending_def in_place_def
          by (auto simp: key_at_def elim!: sorted_wrt_mono_rel [rotated])
      qed
    qed
    show "mans_ok s'"
      unfolding mans_ok_def
    proof (intro allI impI)
      fix j mj assume mj: "man_of s' j = Some mj"
      obtain m0 where m0: "man_of s j = Some m0" "man_ok s j m0" "m_sentinel mj = m_sentinel m0" "m_free mj = m_free m0"
        "m_nodesize mj = m_nodesize m0" "length (m_subtables mj) = length (m_subtables m0)" "m_alloccnt mj = m_alloccnt m0"
        "m_deadcnt mj = m_deadcnt m0" "table_deads mj = table_deads m0"
      proof (cases "j = i")
        case True
        have "t_deadcnt t' = t_deadcnt t" by (simp add: t'_def)
        then have "table_deads m' = table_deads m"
          using lt by (simp add: table_deads_def m'_def put_subtable_def sum_list_map_update)
        then show thesis
          using that [of m] True mj m(1) mo man by (auto simp: mans_ok_def m'_def put_subtable_def)
      next
        case False
        then show thesis using that [of mj] mj mo man by (simp add: mans_ok_def)
      qed
      have "p \<notin> set (m_free m0)" using f m0(1) by (simp add: fresh_cell_def)
      moreover have "m_sentinel m0 \<noteq> p" using P(6) [OF m0(1)] by simp
      ultimately show "man_ok s' j mj"
        using m0(2) unfolding man_ok_def T cell_ok_def f' m0(3-9) nodes' by (auto simp: C)
    qed
    show "refs_ok s' X {p} {}"
      unfolding refs_ok_def indeg'
    proof (intro conjI ballI allI impI)
      fix q assume q: "q \<in> tabled s'"
      have old: "rf s q \<le> MAXREF" "rf s q \<noteq> MAXREF \<longrightarrow>
          with_toks X (kids b) q + indeg (cont s) (own (tabled s) (rf s) {} {}) q \<le> rf s q" if "q \<noteq> p"
        using c q that by (simp_all add: core_def refs_ok_def T)
      show "rf s' q \<le> MAXREF" using old by (auto simp: R)
      assume nm: "rf s' q \<noteq> MAXREF"
      show "X q + (count_list (map cdd_rglr (kids b)) q + indeg (cont s) (own (tabled s) (rf s) {} {}) q) \<le> rf s' q"
      proof (cases "q = p")
        case False
        then show ?thesis using old nm by (simp add: R with_toks_def)
      next
        case True
        have "with_toks X (kids b) p = 0"
          using c P(1,2) unfolding core_def refs_ok_def by blast
        moreover have "indeg (cont s) (own (tabled s) (rf s) {} {}) p = 0"
          unfolding indeg_def
        proof (rule sum.neutral, rule ballI)
          fix o' assume o': "o' \<in> own (tabled s) (rf s) {} {}"
          then have os: "sound (cont s) (tabled s) (cdd_levelinfo s) B o'"
            using c by (simp add: core_def owners_sound_def)
          have "cdd_rglr c' \<noteq> p" if "c' \<in> set (kids_of (cont s) o')" for c'
            using sound_kid [OF os that core_term(1) [OF c]] sound_place P(1,2) by blast
          then show "count_list (map cdd_rglr (kids_of (cont s) o')) p = 0"
            by (auto simp: count_list_0_iff)
        qed
        ultimately show ?thesis using True by (simp add: with_toks_def)
      qed
    next
      fix q assume "0 < X q"
      then have "0 < with_toks X (kids b) q" using with_toks_le [of X q "kids b"] by simp
      then show "q \<in> tabled s' \<or> q = cddfalse"
        using c unfolding core_def refs_ok_def T by blast
    qed
    show "owners_sound s' {p} {} B"
      unfolding owners_sound_def own' Un_empty_right
    proof
      fix q assume "q \<in> insert p (own (tabled s) (rf s) {} {})"
      then show "sound (cont s') (tabled s') (cdd_levelinfo s') B q"
        using so grows_sound [OF c g] c unfolding core_def owners_sound_def by auto
    qed
    show "dead_ok s' {p} {}"
      unfolding dead_ok_def
    proof (intro allI impI)
      fix j l t0 assume t0: "tbl s' j l = Some t0"
      obtain t1 where t1: "tbl s j l = Some t1" "t_deadcnt t0 = t_deadcnt t1" "chained t0 - {p} = chained t1"
      proof (cases "j = i \<and> l = k")
        case True
        have "p \<notin> chained t" using P(1) tabledI [OF t] by blast
        moreover have "t_deadcnt t' = t_deadcnt t" by (simp add: t'_def)
        moreover have "t0 = t'" using True t0 by (simp add: tb)
        ultimately show thesis using that [of t] True t ch' by simp
      next
        case False
        then have "tbl s j l = Some t0" using t0 by (simp add: tb split: if_splits)
        moreover from this have "p \<notin> chained t0" using P(1) tabledI by blast
        ultimately show thesis using that [of t0] by simp
      qed
      have "t_deadcnt t1 \<le> int (card {q \<in> chained t1. rf s q = 0 \<and> q \<notin> {} \<or> q \<in> {}})"
        using c t1(1) unfolding core_def dead_ok_def by blast
      moreover have "{q \<in> chained t0. rf s' q = 0 \<and> q \<notin> {p} \<or> q \<in> {}} = {q \<in> chained t1. rf s q = 0 \<and> q \<notin> {} \<or> q \<in> {}}"
        unfolding t1(3) [symmetric] by (auto simp: R)
      ultimately show "t_deadcnt t0 \<le> int (card {q \<in> chained t0. rf s' q = 0 \<and> q \<notin> {p} \<or> q \<in> {}})"
        using t1(2) by simp
    qed
  qed
qed

section \<open>From the allocation to the end\<close>

lemma token_live:
  assumes "core s (with_toks X ps) F {} B" "q \<in> set ps"
  shows "cdd_rglr q \<in> insert cddfalse (live s)"
proof -
  have "0 < with_toks X ps (cdd_rglr q)"
    using assms(2) by (simp add: with_toks_def count_list_map_remove)
  then have "cdd_rglr q \<in> held (cont s) (with_toks X ps)" by (rule held_token)
  then show ?thesis using held_live [OF assms(1)] by (auto simp: live_iff)
qed

lemma get_subtable_tbl:
  assumes "tbl s i k = Some t"
  shows "get_subtable i k s = Inr (Some t, s)"
proof -
  from assms obtain m where m: "man_of s i = Some m" "table_of m k = Some t" by (auto simp: tbl_iff)
  note lt = table_of_lt [OF m(2)]
  then show ?thesis using m(1) by (simp add: get_subtable_def bindM_def get_man_def someM_def ret_def)
qed

lemma rehash_if_full_spec:
  assumes c: "core s X F {} B" and k: "caches_mean T s B" and t: "tbl s i l = Some t"
  shows "wp (rehash_if_full i l) (\<lambda>_ s'. core s' X F {} B \<and> caches_mean T s' B \<and> steady s s' \<and> cont s' = cont s) s"
  using c k cdd_rehash_spec [OF c k t]
  by (simp add: rehash_if_full_def wp_simps wp_eq [where m = "get_subtable i l", OF get_subtable_tbl [OF t]])

text \<open>The search that a constructor runs, as the insertion needs it.\<close>

definition finds_slot :: "mid \<Rightarrow> body \<Rightarrow> (ptr \<Rightarrow> ptr list \<Rightarrow> nat K) \<Rightarrow> bool" where
  "finds_slot i b search \<longleftrightarrow> (\<forall>s ch sent. readable (cont s) i ch \<longrightarrow> sentinel_at (cont s) i sent \<longrightarrow>
     descending (cont s) ch \<longrightarrow> search sent ch s = Inr (bytes.slot (key_at (cont s)) (body_key b) ch, s))"

lemma finds_bdd: "finds_slot BddMan (Bdd lo hi) (bdd_seek lo hi)"
  using bdd_seek_eq by (simp add: finds_slot_def)

lemma finds_cdd: "finds_slot (CddMan (length es)) (Cdd es) (cdd_seek es)"
  using cdd_seek_eq by (simp add: finds_slot_def)

text \<open>After the allocation the table has the same shape, and its chain lost dead nodes at most.\<close>

lemma collected_table:
  assumes mc: "maybe_collected i s s'" and t: "tbl s i k = Some t" and b: "b < length (t_hash t)"
  obtains t' where "tbl s' i k = Some t'" "t_shift t' = t_shift t" "length (t_hash t') = length (t_hash t)"
    "set (t_hash t' ! b) \<subseteq> set (t_hash t ! b)" "cdd_gbccnt s' = cdd_gbccnt s \<Longrightarrow> t' = t"
proof (cases "cdd_gbccnt s' = cdd_gbccnt s")
  case True
  then show ?thesis using that [of t] mc t by (simp add: maybe_collected_def)
next
  case False
  then have "tbl s' i k = Some (collect (rf s) t)" using mc t by (simp add: maybe_collected_def)
  then show ?thesis using that [of "collect (rf s) t"] False b by (auto simp: collect_def)
qed

lemma man_sentinel:
  assumes "core s X F W B" "man_of s i = Some m"
  shows "sentinel_at (cont s) i (m_sentinel m)"
proof -
  have "man_ok s i m" using assms by (simp add: core_def mans_ok_def)
  then show ?thesis by (auto simp: man_ok_def sentinel_at_def cell_ok_def)
qed

lemma insert_node_spec:
  assumes c: "core s (with_toks X (kids b)) {} {} B" and k: "caches_mean T s B"
    and t: "tbl s i level = Some t" and fs: "finds_slot i b search"
    and shape: "shape_ok (cdd_levelinfo s) B level b" "fits i b"
    and kids: "\<And>c. c \<in> set (kids b) \<Longrightarrow> sound (cont s) (tabled s) (cdd_levelinfo s) B c \<and> level < lv (cont s) c"
    and bk: "bucket_index (t_shift t) (body_hash (env s) b) = bk"
    and new: "\<And>q. q \<in> set (t_hash t ! bk) \<Longrightarrow> key_at (cont s) q \<noteq> body_key b"
    and pos: "pos = bytes.slot (key_at (cont s)) (body_key b) (t_hash t ! bk)"
  shows "wp (insert_node i level bk search pos b) (\<lambda>p s'. core s' X {p} {} B \<and> caches_mean T s' B \<and> keeps s s' \<and>
     cont s' p = Some (level, b) \<and> p \<in> tabled s' \<and> cdd_rglr p = p \<and>
     sound (cont s') (tabled s') (cdd_levelinfo s') B p) s"
proof -
  from t obtain m where m: "man_of s i = Some m" by (auto simp: tbl_iff)
  have tok: "table_ok (env s) (cont s) (chunk_man s) i level t" using c t by (simp add: core_def tables_ok_def)
  have bl: "bk < length (t_hash t)" using table_bucket [OF tok] bk by blast
  show ?thesis
  proof (unfold insert_node_def, subst wp_bind, subst wp_gets, subst wp_bind,
      rule wp_mono [OF cdd_alloc_node_spec [OF c k m]], elim conjE)
    fix p u
    assume cu: "core u (with_toks X (kids b)) {} {} B" and ku: "caches_mean T u B" and kp: "keeps s u"
      and fr: "fresh_cell u i p" and mc: "maybe_collected i s u"
    from collected_table [OF mc t bl] obtain t' where t': "tbl u i level = Some t'" "t_shift t' = t_shift t"
      "length (t_hash t') = length (t_hash t)" "set (t_hash t' ! bk) \<subseteq> set (t_hash t ! bk)"
      "cdd_gbccnt u = cdd_gbccnt s \<Longrightarrow> t' = t" by blast
    from t'(1) obtain m' where m': "man_of u i = Some m'" "table_of m' level = Some t'" by (auto simp: tbl_iff)
    have tok': "table_ok (env u) (cont u) (chunk_man u) i level t'" using cu t'(1) by (simp add: core_def tables_ok_def)
    have se: "same_env s u" using kp by (simp add: keeps_def)
    have bl': "bk < length (t_hash t')" using bl t'(3) by simp
    have same: "cont u q = cont s q" if "q \<in> set (t_hash t' ! bk)" for q
    proof -
      have "in_place (env u) (cont u) (chunk_man u) i level (t_shift t') bk q"
        using tok' bl' that by (simp add: table_ok_def)
      then have "nodes u q \<noteq> None" by (auto simp: in_place_def cont_def)
      moreover have "nodes u q = None \<or> nodes u q = nodes s q" using mc unfolding maybe_collected_def by (elim conjE allE)
      ultimately have "nodes u q = nodes s q" by (cases "nodes u q") simp_all
      then show ?thesis by (simp add: cont_def)
    qed
    have desc: "descending (cont u) (t_hash t' ! bk)" using tok' bl' by (simp add: table_ok_def)
    have run: "search (m_sentinel m') (t_hash t' ! bk) u
        = Inr (bytes.slot (key_at (cont u)) (body_key b) (t_hash t' ! bk), u)"
      using fs chain_readable [OF tok' bl'] man_sentinel [OF cu m'(1)] desc unfolding finds_slot_def by blast
    have posu: "pos = bytes.slot (key_at (cont u)) (body_key b) (t_hash t' ! bk)" if "cdd_gbccnt s = cdd_gbccnt u"
      unfolding pos bytes.slot_def using that t'(5) same
      by (intro arg_cong [where f = length] takeWhile_cong) (simp_all add: key_at_def)
    define j where "j = bytes.slot (key_at (cont u)) (body_key b) (t_hash t' ! bk)"
    let ?nd = "\<lparr>n_level = level mod 2 ^ 20, n_ref = 0, n_flag = cell_flag u p mod 4, n_body = b\<rparr>"
    have ll: "level < cdd_levelcnt s" "cdd_levelcnt s \<le> MAXLEVEL"
      using shape(1) c by (auto simp: shape_ok_def core_def static_ok_def)
    then have lvl: "n_level ?nd = level" by (simp add: MAXLEVEL_def)
    have live: "q \<in> set (kids b) \<Longrightarrow> cdd_rglr q \<in> insert cddfalse (live s)" for q by (rule token_live [OF c])
    let ?v = "linked i level bk p ?nd t' m' u"
    have sh': "shape_ok (cdd_levelinfo u) B level b" using shape(1) se by (simp add: same_env_def)
    have kids': "\<forall>c \<in> set (kids b). sound (cont u) (tabled u) (cdd_levelinfo u) B c \<and> level < lv (cont u) c"
      using kids live keeps_sound [OF c kp] keeps_lv [OF kp] by simp
    have bk': "bucket_index (t_shift t') (body_hash (env u) b) = bk"
      using bk t'(2) se by (simp add: same_env_def)
    have new': "\<forall>q \<in> set (t_hash t' ! bk). key_at (cont u) q \<noteq> body_key b"
      using new t'(4) same by (auto simp: key_at_def)
    have nd: "n_ref ?nd = 0" "n_body ?nd = b" by simp_all
    note L = linked_core [where nd = ?nd, OF cu fr m' lvl nd sh' shape(2) kids' bk' new']
    have up: "upd_subtable i level (\<lambda>t. t\<lparr>t_hash := (t_hash t)[bk := insert_at j p (t_hash t' ! bk)], t_keys := t_keys t + 1\<rparr>)
        (set_node p ?nd u) = Inr ((), ?v)"
    proof -
      have "man_of (set_node p ?nd u) i = Some m'" using m'(1) by (cases i) (auto simp: set_node_def split: if_splits)
      from upd_subtable_eq [OF this m'(2)] show ?thesis by (simp add: linked_def j_def)
    qed
    obtain t2 where t2: "tbl ?v i level = Some t2" using L(8) by blast
    have rest: "wp (thenM (init_node p level b) (
        thenM (upd_subtable i level (\<lambda>t. t\<lparr>t_hash := (t_hash t)[bk := insert_at j p (t_hash t' ! bk)], t_keys := t_keys t + 1\<rparr>)) (
        thenM (rehash_if_full i level) (ret p)))) (\<lambda>p s'. core s' X {p} {} B \<and> caches_mean T s' B \<and> keeps s s' \<and>
          cont s' p = Some (level, b) \<and> p \<in> tabled s' \<and> cdd_rglr p = p \<and>
          sound (cont s') (tabled s') (cdd_levelinfo s') B p) u"
      unfolding wp_then wp_ret init_node_def wp_modify wp_eq [where m = "upd_subtable i level _", OF up]
    proof (rule wp_mono [OF rehash_if_full_spec [OF L(1) L(7) [OF ku] t2]], elim conjE)
      fix z s'
      assume c': "core s' X {p} {} B" and k': "caches_mean T s' B" and sd: "steady ?v s'" and ce: "cont s' = cont ?v"
      have "keeps s s'" using kp L(2) sd keeps_trans unfolding steady_def by blast
      moreover have "tabled s' = tabled ?v" "cdd_levelinfo s' = cdd_levelinfo ?v"
        using sd by (simp_all add: steady_def grows_def)
      ultimately show "core s' X {p} {} B \<and> caches_mean T s' B \<and> keeps s s' \<and> cont s' p = Some (level, b) \<and> p \<in> tabled s' \<and>
          cdd_rglr p = p \<and> sound (cont s') (tabled s') (cdd_levelinfo s') B p"
        using c' k' ce L(4-6) fresh_cell_facts(4) [OF cu fr] by simp
    qed
    have ba: "bucket_at t' bk u = Inr (t_hash t' ! bk, u)" using bl' by (simp add: bucket_at_def ret_def)
    have gm: "get_man i u = Inr (m', u)" using m'(1) by (simp add: get_man_def someM_def)
    have idx: "(if cdd_gbccnt s \<noteq> cdd_gbccnt u then search (m_sentinel m') (t_hash t' ! bk) else ret pos) u = Inr (j, u)"
      using run posu by (simp add: j_def ret_def)
    show "wp (bindM (gets cdd_gbccnt) (\<lambda>cnt'. bindM (get_man i) (\<lambda>m. bindM (get_subtable i level) (\<lambda>t.
        bindM (someM Segv t) (\<lambda>tbl. bindM (bucket_at tbl bk) (\<lambda>ch.
        bindM (if cdd_gbccnt s \<noteq> cnt' then search (m_sentinel m) ch else ret pos) (\<lambda>i'.
        thenM (init_node p level b) (
        thenM (upd_subtable i level (\<lambda>t. t\<lparr>t_hash := (t_hash t)[bk := insert_at i' p ch], t_keys := t_keys t + 1\<rparr>)) (
        thenM (rehash_if_full i level) (ret p))))))))))
       (\<lambda>p s'. core s' X {p} {} B \<and> caches_mean T s' B \<and> keeps s s' \<and> cont s' p = Some (level, b) \<and> p \<in> tabled s' \<and>
          cdd_rglr p = p \<and> sound (cont s') (tabled s') (cdd_levelinfo s') B p) u"
      unfolding wp_bind wp_gets wp_eq [where m = "get_man i", OF gm] wp_some
        wp_eq [where m = "get_subtable i level", OF get_subtable_tbl [OF t'(1)]] option.case
        wp_eq [where m = "bucket_at t' bk", OF ba] wp_eq [where m = "(if _ then _ else _)", OF idx]
      by (rule rest)
  qed
qed

end
