(* ===== verification/Node_Spec.thy ===== *)
theory Node_Spec
  imports Make_Spec
begin

text \<open>
  The contracts of \<^verbatim>\<open>cdd_make_bdd_node\<close> and \<^verbatim>\<open>cdd_make_cdd_node\<close>, in the terms a client sees:
  the references it holds, and the diagrams it can reach from them.
\<close>

section \<open>What a client keeps\<close>

definition frames :: "(ptr \<Rightarrow> nat) \<Rightarrow> kstate \<Rightarrow> kstate \<Rightarrow> bool" where
  "frames X s s' \<longleftrightarrow> same_env s s' \<and> (\<forall>q \<in> held (cont s) X. cont s' q = cont s q)"

lemma held_regular:
  assumes "q \<in> held C X" "\<And>q. 0 < X q \<Longrightarrow> cdd_rglr q = q"
  shows "cdd_rglr q = q"
  using assms by (induction rule: held.induct) auto

lemma held_subset:
  assumes "\<And>q. q \<in> held C X \<Longrightarrow> C' q = C q" "\<And>q. 0 < X q \<Longrightarrow> cdd_rglr q = q"
  shows "held C X \<subseteq> held C' X"
proof
  fix q assume "q \<in> held C X"
  then show "q \<in> held C' X"
  proof (induction rule: held.induct)
    case (held_kid p c)
    have "cdd_rglr p = p" by (rule held_regular [OF held_kid.hyps(1) assms(2)])
    then have "kids_of C' p = kids_of C p" using assms(1) [OF held_kid.hyps(1)] by (simp add: kids_of_def)
    then show ?case using held_kid held.held_kid by metis
  qed (auto intro: held.intros)
qed

lemma held_cong:
  assumes "\<And>q. q \<in> held C X \<Longrightarrow> C' q = C q" "\<And>q. 0 < X q \<Longrightarrow> cdd_rglr q = q"
  shows "held C' X = held C X"
proof
  show "held C X \<subseteq> held C' X" using assms by (rule held_subset)
  show "held C' X \<subseteq> held C X"
  proof
    fix q assume "q \<in> held C' X"
    then show "q \<in> held C X"
    proof (induction rule: held.induct)
      case (held_kid p c)
      have "cdd_rglr p = p" by (rule held_regular [OF held_kid.hyps(1) assms(2)])
      then have "kids_of C' p = kids_of C p" using assms(1) [OF held_kid.IH] by (simp add: kids_of_def)
      then show ?case using held_kid held.held_kid by metis
    qed (auto intro: held.intros)
  qed
qed

lemma core_regular:
  assumes "core s X F W B" "0 < X q"
  shows "cdd_rglr q = q"
proof -
  have "tables_ok s" "q \<in> tabled s \<or> q = cddfalse" using assms unfolding core_def refs_ok_def by blast+
  then show ?thesis by (auto elim: tabled_node)
qed

lemma frames_refl [simp]: "frames X s s"
  by (simp add: frames_def)

lemma frames_trans:
  assumes c: "core s Y F W B" and Y: "\<And>q. 0 < X q \<Longrightarrow> 0 < Y q" and f: "frames X s t" "frames X t u"
  shows "frames X s u"
proof -
  have "held (cont t) X = held (cont s) X"
    using f(1) core_regular [OF c Y] unfolding frames_def by (intro held_cong) simp_all
  then show ?thesis using f same_env_trans [of s t u] by (simp add: frames_def)
qed

lemma frames_mono:
  assumes "frames Y s t" "\<And>q. 0 < X q \<Longrightarrow> 0 < Y q"
  shows "frames X s t"
  using assms(1) held_mono [of X Y "cont s", OF assms(2)] unfolding frames_def by blast

lemma sim_frames: "sim s s' \<Longrightarrow> frames X s s'"
  using sim_same_env [of s s'] by (simp add: frames_def sim_def)

lemma keeps_frames:
  assumes "core s Y F {} B" "keeps s s'" "\<And>q. 0 < X q \<Longrightarrow> 0 < Y q"
  shows "frames X s s'"
proof -
  have "cont s' q = cont s q" if "q \<in> held (cont s) X" for q
  proof -
    have "q \<in> held (cont s) Y" using that held_mono [of X Y, OF assms(3)] by blast
    from held_live [OF assms(1) this] show ?thesis using assms(2) by (auto simp: keeps_def live_iff)
  qed
  then show ?thesis using assms(2) by (simp add: frames_def keeps_def)
qed

lemma steady_frames:
  assumes "core s Y F {} B" "steady s s'" "\<And>q. 0 < X q \<Longrightarrow> 0 < Y q"
  shows "frames X s s'"
  using keeps_frames [of s Y F B s' X] assms by (simp add: steady_def)

text \<open>Diagrams reachable from the client's references keep their meaning.\<close>

definition reach :: "(ptr \<Rightarrow> nat) \<Rightarrow> kstate \<Rightarrow> ptr \<Rightarrow> bool" where
  "reach X s p \<longleftrightarrow> cdd_rglr p \<in> held (cont s) X"

lemma frames_reach:
  assumes "core s Y F W B" "\<And>q. 0 < X q \<Longrightarrow> 0 < Y q" "frames X s t"
  shows "reach X t p \<longleftrightarrow> reach X s p"
proof -
  have "held (cont t) X = held (cont s) X"
    using assms(3) core_regular [OF assms(1,2)] unfolding frames_def by (intro held_cong) simp_all
  then show ?thesis by (simp add: reach_def)
qed

lemma frames_cont: "frames X s t \<Longrightarrow> reach X s p \<Longrightarrow> cont t (cdd_rglr p) = cont s (cdd_rglr p)"
  by (simp add: frames_def reach_def)

lemma frames_eval:
  assumes "frames X s t" "reach X s p"
  shows "eval (cont t) a p = eval (cont s) a p"
  by (rule eval_keep [OF closed_held]) (use assms in \<open>auto simp: frames_def reach_def\<close>)

lemma frames_lv: "frames X s t \<Longrightarrow> reach X s p \<Longrightarrow> lv (cont t) p = lv (cont s) p"
  by (rule lv_keep) (rule frames_cont)

lemma frames_env: "frames X s t \<Longrightarrow> same_env s t"
  by (simp add: frames_def)

lemma reach_mono: "(\<And>q. 0 < X q \<Longrightarrow> 0 < Y q) \<Longrightarrow> reach X s p \<Longrightarrow> reach Y s p"
  using held_mono [of X Y "cont s"] by (auto simp: reach_def)

lemma reach_sound: "core s X F {} B \<Longrightarrow> reach X s p \<Longrightarrow> sound (cont s) (tabled s) (cdd_levelinfo s) B p"
  unfolding reach_def by (rule held_sound)

lemma reach_neg [simp]: "reach X s (cdd_neg p) = reach X s p"
  by (simp add: reach_def)

lemma reach_neg_mask [simp]: "reach X s (cdd_neg_cond p (cdd_mask q)) = reach X s p"
  by (simp add: reach_def)

lemma reach_rglr [simp]: "reach X s (cdd_rglr p) = reach X s p"
  by (simp add: reach_def)

lemma reach_term: "cdd_rglr p = cddfalse \<Longrightarrow> reach X s p"
  by (simp add: reach_def held_term)

lemma reach_tok: "p \<in> set ps \<Longrightarrow> reach (with_toks X ps) s p"
  unfolding reach_def by (rule held_token) (simp add: with_toks_def count_list_map_remove)

lemma reach_kid: "reach X s p \<Longrightarrow> c \<in> set (kids_of (cont s) p) \<Longrightarrow> reach X s c"
  unfolding reach_def using held_kid [of "cdd_rglr p" "cont s" X c] by simp

section \<open>Diagrams an operation may use\<close>

text \<open>
  \<open>usable s F p\<close>: \<open>p\<close> is well formed, and its references are accounted for: it is referenced,
  or it has just been returned.
\<close>

definition usable :: "kstate \<Rightarrow> (nat \<Rightarrow> raw_t set) \<Rightarrow> ptr set \<Rightarrow> ptr \<Rightarrow> bool" where
  "usable s B F p \<longleftrightarrow> sound (cont s) (tabled s) (cdd_levelinfo s) B p \<and>
     (cdd_rglr p = cddfalse \<or> 0 < rf s (cdd_rglr p) \<or> cdd_rglr p \<in> F)"

lemma usable_sound: "usable s B F p \<Longrightarrow> sound (cont s) (tabled s) (cdd_levelinfo s) B p"
  by (simp add: usable_def)

lemma usable_neg [simp]: "usable s B F (cdd_neg p) = usable s B F p"
  by (simp add: usable_def)

lemma usable_neg_mask [simp]: "usable s B F (cdd_neg_cond p (cdd_mask q)) = usable s B F p"
  by (simp add: usable_def)

lemma reach_usable:
  assumes "core s X F {} B" "reach X s p"
  shows "usable s B G p"
  using held_live [OF assms(1)] reach_sound [OF assms] assms(2) by (auto simp: usable_def reach_def)

lemma core_single:
  assumes c: "core s X F {} B" and u: "usable s B F p"
  shows "core s X {cdd_rglr p} {} B"
proof (cases "cdd_rglr p \<in> F")
  case True
  then show ?thesis using core_antitone [OF c, of "{cdd_rglr p}" X] by simp
next
  case False
  have "core s X {} {} B" using core_antitone [OF c, of "{}" X] by simp
  then show ?thesis
    by (rule core_insert_live) (use u False term_not_tabled [OF c] in \<open>auto simp: usable_def\<close>)
qed

lemma sound_nonzero:
  assumes c: "core s X F W B" and p: "sound (cont s) (tabled s) (cdd_levelinfo s) B p"
  shows "cdd_rglr p \<noteq> 0"
proof
  assume z: "cdd_rglr p = 0"
  have "cddfalse \<noteq> 0" by (simp add: cddfalse_def)
  with sound_place [OF p] z have "0 \<in> tabled s" by auto
  then obtain i k t where t: "tbl s i k = Some t" "0 \<in> chained t" by (auto simp: tabled_iff)
  have "tables_ok s" "chunk_man s 0 = None" using c by (simp_all add: core_def static_ok_def)
  from chained_place [OF this(1) t] this(2) show False by (auto simp: cdd_node2chunk_def)
qed

section \<open>The node found in a chain\<close>

lemma chain_result:
  assumes c: "core s X F W B" and t: "tbl s i level = Some t" and m: "man_of s i = Some m"
    and fit: "fits i b" and nz: "b \<noteq> zero_body i"
    and bk: "bucket_index (t_shift t) (body_hash (env s) b) = bk"
  defines "ch \<equiv> t_hash t ! bk"
  defines "q \<equiv> chain_at ch (m_sentinel m) (bytes.slot (key_at (cont s)) (body_key b) ch)"
  obtains k' b' where "cont s q = Some (k', b')" "fits i b'" "cdd_rglr q = q"
    "b' = b \<Longrightarrow> q \<in> tabled s \<and> k' = level"
    "b' \<noteq> b \<Longrightarrow> (\<forall>p \<in> set ch. key_at (cont s) p \<noteq> body_key b)"
proof -
  let ?j = "bytes.slot (key_at (cont s)) (body_key b) ch"
  have tok: "table_ok (env s) (cont s) (chunk_man s) i level t" using c t by (simp add: core_def tables_ok_def)
  have bl: "bk < length (t_hash t)" using table_bucket [OF tok] bk by blast
  have ip: "in_place (env s) (cont s) (chunk_man s) i level (t_shift t) bk p" if "p \<in> set ch" for p
    using tok bl that by (simp add: table_ok_def ch_def)
  have desc: "bytes.desc (key_at (cont s)) ch"
    using tok bl by (simp add: table_ok_def descending_def bytes.desc_def ch_def)
  have len: "length (key_at (cont s) p) = key_length i" if "p \<in> set ch" for p
    using ip [OF that] by (auto simp: in_place_def key_at_def length_body_key)
  have miss: "\<forall>p \<in> set ch. key_at (cont s) p \<noteq> body_key b"
    if "\<not> (?j < length ch \<and> key_at (cont s) (ch ! ?j) = body_key b)"
    using that bytes.slot_found [OF desc len] by metis
  show thesis
  proof (cases "?j < length ch")
    case True
    then have q: "q = ch ! ?j" "q \<in> set ch" by (simp_all add: q_def chain_at_def)
    from ip [OF q(2)] obtain b' where b': "cont s q = Some (level, b')" "fits i b'" "cdd_rglr q = q"
      by (auto simp: in_place_def)
    have "q \<in> chained t" using q(2) bl by (auto simp: chained_iff ch_def)
    then have "q \<in> tabled s" using tabledI [OF t] by blast
    moreover have "\<forall>p \<in> set ch. key_at (cont s) p \<noteq> body_key b" if "b' \<noteq> b"
      using miss q(1) b'(1,2) body_key_inj [OF _ fit, of b'] that by (auto simp: key_at_def)
    ultimately show thesis using that b' by blast
  next
    case False
    then have q: "q = m_sentinel m" by (simp add: q_def chain_at_def)
    have "sentinel_at (cont s) i q" unfolding q by (rule man_sentinel [OF c m])
    then obtain k' where k': "cdd_rglr q = q" "cont s q = Some (k', zero_body i)" by (auto simp: sentinel_at_def)
    have "fits i (zero_body i)" by (cases i) (simp_all add: bnd_INF_def)
    then show thesis using that [OF k'(2) _ k'(1)] nz miss False by auto
  qed
qed

lemma revive_spec:
  assumes c: "core s X F {} B" and so: "sound (cont s) (tabled s) (cdd_levelinfo s) B q" and q: "cdd_rglr q \<in> tabled s \<or> cdd_rglr q = cddfalse"
  shows "wp (revive q) (\<lambda>_ s'. core s' X {cdd_rglr q} {} B \<and> sim s s') s"
proof -
  obtain n where n: "nodes s (cdd_rglr q) = Some n" "n_ref n = rf s (cdd_rglr q)"
    using core_node [OF c] q by blast
  have d: "is_dead q s = Inr (rf s (cdd_rglr q) = 0, s)"
    using n by (simp add: is_dead_def bindM_def get_node_def someM_def ret_def)
  show ?thesis
  proof (cases "rf s (cdd_rglr q) = 0")
    case True
    have "cdd_rglr q \<noteq> cddfalse" using True core_term(2) [OF c] by (auto simp: MAXREF_def)
    with q have "cdd_rglr q \<in> tabled s" by simp
    then show ?thesis
      using cdd_reclaim_spec [OF c so _ True] True
      by (simp add: revive_def wp_simps wp_eq [where m = "is_dead q", OF d])
  next
    case False
    then have "core s X {cdd_rglr q} {} B" using core_single [OF c, of q] so by (simp add: usable_def)
    then show ?thesis using False by (simp add: revive_def wp_simps wp_eq [where m = "is_dead q", OF d])
  qed
qed

end
