(* ===== verification/Make_Nodes.thy ===== *)
theory Make_Nodes
  imports Node_Spec
begin

text \<open>
  The contracts of \<^verbatim>\<open>cdd_make_bdd_node\<close> and \<^verbatim>\<open>cdd_make_cdd_node\<close>: the diagram returned has the
  meaning that the children give it at its level, it is well formed, and the client's
  diagrams are kept.
\<close>

declare split_paired_All [simp del]

section \<open>The case of a new node\<close>

lemma refs_spec:
  assumes "core s (with_toks X ps) F {} B" "\<And>c. c \<in> set cs \<Longrightarrow> usable s B F c"
  shows "wp (forM cs cdd_ref) (\<lambda>_ s'. core s' (with_toks X (rev cs @ ps)) F {} B \<and> sim s s') s"
  using assms
proof (induction cs arbitrary: s ps)
  case Nil
  then show ?case by (simp add: wp_simps)
next
  case (Cons c cs)
  have u: "usable s B F c" using Cons.prems(2) by simp
  then have pl: "cdd_rglr c = cddfalse \<or> cdd_rglr c \<in> tabled s \<and> (0 < rf s (cdd_rglr c) \<or> cdd_rglr c \<in> F)"
    using sound_place [OF usable_sound [OF u]] by (auto simp: usable_def)
  show ?case
    unfolding forM.simps wp_then
  proof (rule wp_mono [OF cdd_ref_spec [OF Cons.prems(1) pl]], elim conjE)
    fix x t
    assume t: "core t (with_toks X (c # ps)) F {} B" "sim s t"
      and r: "rf t = (rf s)(cdd_rglr c := cdd_satinc (rf s (cdd_rglr c)))"
    note f = sim_fields [OF t(2)] blank_fields [OF sim_fields(2) [OF t(2)]]
    have "usable t B F d" if "d \<in> set cs" for d
      using Cons.prems(2) [of d] that by (auto simp: usable_def f r cdd_satinc_def)
    from Cons.IH [OF t(1) this] t(2) sim_trans
    show "wp (forM cs cdd_ref) (\<lambda>_ s'. core s' (with_toks X (rev (c # cs) @ ps)) F {} B \<and> sim s s') t"
      by (auto elim!: wp_mono)
  qed
qed

lemma with_toks_rev' [simp]: "with_toks X (rev cs) = with_toks X cs"
  using with_toks_rev [of X cs "[]"] by simp

lemma make_miss:
  assumes c: "core s X F {} B" and k: "caches_mean T s B"
    and t: "tbl s i level = Some t" and fs: "finds_slot i b search"
    and shape: "shape_ok (cdd_levelinfo s) B level b" "fits i b"
    and us: "\<And>c. c \<in> set (kids b) \<Longrightarrow> usable s B F c \<and> level < lv (cont s) c"
    and bk: "bucket_index (t_shift t) (body_hash (env s) b) = bk"
    and new: "\<And>q. q \<in> set (t_hash t ! bk) \<Longrightarrow> key_at (cont s) q \<noteq> body_key b"
    and pos: "pos = bytes.slot (key_at (cont s)) (body_key b) (t_hash t ! bk)"
  shows "wp (thenM (forM (kids b) cdd_ref) (insert_node i level bk search pos b)) (\<lambda>p s'.
     core s' X {p} {} B \<and> caches_mean T s' B \<and> frames X s s' \<and> cont s' p = Some (level, b) \<and> p \<in> tabled s' \<and>
     cdd_rglr p = p \<and> sound (cont s') (tabled s') (cdd_levelinfo s') B p \<and>
     (\<forall>c \<in> set (kids b). lv (cont s') c = lv (cont s) c \<and> (\<forall>a. eval (cont s') a c = eval (cont s) a c))) s"
proof -
  have R: "wp (forM (kids b) cdd_ref) (\<lambda>_ s'. core s' (with_toks X (kids b)) F {} B \<and> sim s s') s"
    using refs_spec [of s X "[]" F B "kids b"] c us by simp
  show ?thesis
  proof (unfold wp_then, rule wp_mono, rule R, elim conjE)
    fix x u
    assume u: "core u (with_toks X (kids b)) F {} B" "sim s u"
    note f = sim_fields [OF u(2)] blank_fields [OF sim_fields(2) [OF u(2)]]
    have c2: "core u (with_toks X (kids b)) {} {} B" by (rule core_antitone [OF u(1)]) simp_all
    from sim_tbl [OF u(2) t] obtain t' where t': "tbl u i level = Some t'" "t_hash t' = t_hash t" "t_shift t' = t_shift t" by blast
    have ks: "sound (cont u) (tabled u) (cdd_levelinfo u) B c \<and> level < lv (cont u) c" if "c \<in> set (kids b)" for c
      using us [OF that] by (auto simp: f dest: usable_sound)
    note I = insert_node_spec [OF c2 sim_caches [OF u(2) k] t'(1) fs _ shape(2) ks]
    show "wp (insert_node i level bk search pos b) (\<lambda>p s'.
       core s' X {p} {} B \<and> caches_mean T s' B \<and> frames X s s' \<and> cont s' p = Some (level, b) \<and> p \<in> tabled s' \<and>
       cdd_rglr p = p \<and> sound (cont s') (tabled s') (cdd_levelinfo s') B p \<and>
       (\<forall>c \<in> set (kids b). lv (cont s') c = lv (cont s) c \<and> (\<forall>a. eval (cont s') a c = eval (cont s) a c))) u"
    proof (rule wp_mono [OF I], goal_cases)
      case (6 p s')
      then have kp: "keeps u s'" by blast
      have le: "0 < X q \<Longrightarrow> 0 < with_toks X (kids b) q" for q using with_toks_le [of X q "kids b"] by simp
      have "frames X u s'" by (rule keeps_frames [OF c2 kp le])
      then have "frames X s s'" using frames_trans [OF c _ sim_frames [OF u(2)]] by blast
      moreover have "lv (cont s') c = lv (cont s) c \<and> (\<forall>a. eval (cont s') a c = eval (cont s) a c)"
        if "c \<in> set (kids b)" for c
        using keeps_lv [OF kp token_live [OF c2 that]] keeps_eval [OF c2 kp token_live [OF c2 that]] by (simp add: f)
      ultimately show ?case using 6 by blast
    qed (use shape bk new pos in \<open>simp_all add: f t'\<close>)
  qed
qed

section \<open>\<^verbatim>\<open>cdd_make_bdd_node\<close>\<close>

lemma core_levels:
  assumes "core s X F W B"
  shows "length (cdd_levelinfo s) = cdd_levelcnt s" "cdd_levelcnt s \<le> MAXLEVEL" "cdd_errorcond s = 0"
    "\<exists>m. bddmanager s = Some m" "cdd_maxcddsize s \<le> 8190" "length (cddmanager s) = cdd_maxcddsize s + 1"
    "2 \<le> cdd_maxcddsize s"
    "finite (B k)" "bnd_INF \<in> B k" "b \<in> B k \<Longrightarrow> \<bar>b\<bar> \<le> bnd_INF" "card (B k) \<le> cdd_maxcddsize s"
  using assms by (auto simp: core_def static_ok_def)

lemma eval_bdd:
  assumes "cont s p = Some (k, Bdd lo hi)" "cdd_rglr p = p" "k < lv (cont s) lo" "k < lv (cont s) hi" "k < MAXLEVEL"
  shows "eval (cont s) a p = (if snd a k then eval (cont s) a hi else eval (cont s) a lo)"
proof -
  have "cdd_mask p = 0" using assms(2) by (simp add: regular_iff)
  with eval_Some [of "cont s" p k "Bdd lo hi" a] assms show ?thesis by (simp add: next_child_def)
qed

definition made_bdd_with :: "meaning \<Rightarrow> (ptr \<Rightarrow> nat) \<Rightarrow> (nat \<Rightarrow> raw_t set) \<Rightarrow> kstate \<Rightarrow> nat \<Rightarrow> ptr \<Rightarrow> ptr \<Rightarrow> ptr \<Rightarrow> kstate \<Rightarrow> bool" where
  "made_bdd_with T X B s level low high r s' \<longleftrightarrow> core s' X {cdd_rglr r} {} B \<and> caches_mean T s' B \<and> frames X s s' \<and>
     sound (cont s') (tabled s') (cdd_levelinfo s') B r \<and> level \<le> lv (cont s') r \<and>
     (\<forall>a. eval (cont s') a r = (if snd a level then eval (cont s) a high else eval (cont s) a low))"

abbreviation made_bdd :: "(ptr \<Rightarrow> nat) \<Rightarrow> (nat \<Rightarrow> raw_t set) \<Rightarrow> kstate \<Rightarrow> nat \<Rightarrow> ptr \<Rightarrow> ptr \<Rightarrow> ptr \<Rightarrow> kstate \<Rightarrow> bool" where
  "made_bdd \<equiv> made_bdd_with any_meaning"

lemmas made_bdd_def = made_bdd_with_def [where T = any_meaning]

lemma get_man_eq: "man_of s i = Some m \<Longrightarrow> get_man i s = Inr (m, s)"
  by (simp add: get_man_def someM_def)

lemma bucket_at_eq: "b < length (t_hash t) \<Longrightarrow> bucket_at t b s = Inr (t_hash t ! b, s)"
  by (simp add: bucket_at_def ret_def)

text \<open>A diagram found in its chain is returned alive.\<close>

lemma steady_usable:
  assumes c: "core s X F {} B" and sd: "steady s t" and u: "usable s B F p"
  shows "usable t B F p" "lv (cont t) p = lv (cont s) p" "eval (cont t) a p = eval (cont s) a p"
proof -
  have g: "grows s t" "tabled t = tabled s" "\<forall>q \<in> tabled s. rf t q = rf s q" using sd by (simp_all add: steady_def)
  note so = usable_sound [OF u]
  show "lv (cont t) p = lv (cont s) p" "eval (cont t) a p = eval (cont s) a p"
    using grows_lv [OF g(1) so] grows_eval [OF c g(1) so] by simp_all
  show "usable t B F p"
    using grows_sound [OF c g(1) so] g(3) u sound_place [OF so] by (auto simp: usable_def)
qed

lemma man_table_ok:
  assumes "core s X F W B" "tbl s i level = Some t"
  shows "table_ok (env s) (cont s) (chunk_man s) i level t"
  using assms by (simp add: core_def tables_ok_def)

lemma cdd_make_bdd_node_spec:
  assumes c: "core s X F {} B" and k: "caches_mean T s B"
    and l: "level < cdd_levelcnt s" "li_type (cdd_levelinfo s ! level) = TYPE_BDD"
    and us: "usable s B F low" "usable s B F high"
    and lt: "level < lv (cont s) low" "level < lv (cont s) high"
  shows "wp (cdd_make_bdd_node level low high) (made_bdd_with T X B s level low high) s"
proof (cases "low = high")
  case True
  then show ?thesis
    using core_single [OF c us(1)] k us lt
    by (simp add: cdd_make_bdd_node_def wp_ret made_bdd_with_def usable_sound)
next
  case False
  define mask lo hi where d: "mask = cdd_mask low" "lo = cdd_rglr low" "hi = cdd_neg_cond high mask"
  obtain m where m: "man_of s BddMan = Some m" using core_levels(4) [OF c] by auto
  have mk: "k < MAXLEVEL" if "k < cdd_levelcnt s" for k using core_levels(2) [OF c] that by simp
  show ?thesis
    unfolding cdd_make_bdd_node_def if_not_P [OF False] Let_def d [symmetric]
    unfolding wp_bind
  proof (rule wp_mono [OF find_subtable_spec [OF c k m l(1)]], elim conjE)
    fix t u
    assume cu: "core u X F {} B" and ku: "caches_mean T u B" and sd: "steady s u" and t: "tbl u BddMan level = Some t"
    let ?b = "Bdd lo hi"
    have se: "same_env s u" using sd by (simp add: steady_def keeps_def)
    note ul = steady_usable [OF c sd us(1)] and uh = steady_usable [OF c sd us(2)]
    have kid: "usable u B F lo \<and> level < lv (cont u) lo" "usable u B F hi \<and> level < lv (cont u) hi"
      using ul uh lt by (simp_all add: d) (metis usable_def rglr_rglr sound_rglr_iff)
    have ev: "eval (cont u) a lo = (eval (cont s) a low \<noteq> (mask \<noteq> 0))"
      "eval (cont u) a hi = (eval (cont s) a high \<noteq> (mask \<noteq> 0))" for a
      using eval_split [of "cont u" a low] ul(3) [of a] uh(3) [of a] by (auto simp: d eval_neg_cond)
    obtain m' where m': "man_of u BddMan = Some m'" using t by (auto simp: tbl_iff)
    note tok = man_table_ok [OF cu t]
    define bk where "bk = bucket_index (t_shift t) (bddHash lo hi)"
    have bkb: "bucket_index (t_shift t) (body_hash (env u) ?b) = bk" by (simp add: bk_def)
    have bl: "bk < length (t_hash t)" using table_bucket [OF tok] bkb by blast
    define i where "i = bytes.slot (key_at (cont u)) [lo, hi] (t_hash t ! bk)"
    have "readable (cont u) BddMan (t_hash t ! bk)" by (rule chain_readable [OF tok bl])
    moreover have "sentinel_at (cont u) BddMan (m_sentinel m')" by (rule man_sentinel [OF cu m'])
    moreover have "descending (cont u) (t_hash t ! bk)" using tok bl by (simp add: table_ok_def)
    ultimately have seek: "bdd_seek lo hi (m_sentinel m') (t_hash t ! bk) u = Inr (i, u)"
      unfolding i_def by (rule bdd_seek_eq)
    have nz: "?b \<noteq> zero_body BddMan" using sound_nonzero [OF c usable_sound [OF us(1)]] by (simp add: d)
    define q where "q = chain_at (t_hash t ! bk) (m_sentinel m') i"
    have fit: "fits BddMan ?b" by simp
    obtain k' b' where q: "cont u q = Some (k', b')" "fits BddMan b'" "cdd_rglr q = q"
      "b' = ?b \<Longrightarrow> q \<in> tabled u \<and> k' = level"
      "b' \<noteq> ?b \<Longrightarrow> (\<forall>p \<in> set (t_hash t ! bk). key_at (cont u) p \<noteq> body_key ?b)"
      using chain_result [OF cu t m' fit nz bkb] unfolding q_def i_def body_key.simps by metis
    then obtain l' h' where b': "b' = Bdd l' h'" by auto
    have shape: "shape_ok (cdd_levelinfo u) B level ?b"
      using l core_levels(1) [OF c] False se
      by (simp add: shape_ok_def same_env_def d) (metis neg_cond_mask_self neg_cond_twice)
    have fr: "frames X s u" by (rule steady_frames [OF c sd]) simp
    have lvl: "level < MAXLEVEL" using mk l(1) .
    have fin: "made_bdd_with T X B s level low high (cdd_neg_cond p mask) s'"
      if "core s' X {cdd_rglr p} {} B" "caches_mean T s' B" "frames X s s'" "cont s' p = Some (level, ?b)" "cdd_rglr p = p"
        "sound (cont s') (tabled s') (cdd_levelinfo s') B p"
        "lv (cont s') lo = lv (cont u) lo" "lv (cont s') hi = lv (cont u) hi"
        "\<And>a. eval (cont s') a lo = eval (cont u) a lo" "\<And>a. eval (cont s') a hi = eval (cont u) a hi" for p s'
    proof -
      have e: "(eval (cont s') a p = (if snd a level then eval (cont s) a high else eval (cont s) a low)) = (mask = 0)" for a
        using eval_bdd [OF that(4,5), of a] kid that(7-10) lvl ev [of a] by auto
      have "eval (cont s') a (cdd_neg_cond p mask) = (if snd a level then eval (cont s) a high else eval (cont s) a low)" for a
        using e [of a] eval_neg_cond [of "cont s'" a p low, folded d(1)] by (cases "mask = 0") simp_all
      moreover have "lv (cont s') p = level" using that(4,5) by (simp add: lv_def)
      ultimately show ?thesis using that by (simp add: made_bdd_with_def d(1))
    qed
    show "wp (get_man BddMan) (\<lambda>x. wp (bucket_at t (bucket_index (t_shift t) (bddHash lo hi)))
        (\<lambda>ch. wp (bdd_seek lo hi (m_sentinel x) ch) (\<lambda>i. wp (bdd_node (chain_at ch (m_sentinel x) i)) (\<lambda>y.
          wp (case y of (l, h) \<Rightarrow>
            if lo = l \<and> hi = h then thenM (revive (chain_at ch (m_sentinel x) i)) (ret (cdd_neg_cond (chain_at ch (m_sentinel x) i) mask))
            else thenM (cdd_ref lo) (thenM (cdd_ref hi) (bindM
              (insert_node BddMan level (bucket_index (t_shift t) (bddHash lo hi)) (bdd_seek lo hi) i (Bdd lo hi))
              (\<lambda>node. ret (cdd_neg_cond node mask))))) (made_bdd_with T X B s level low high))))) u"
      unfolding wp_eq [where m = "get_man BddMan", OF get_man_eq [OF m']] bk_def [symmetric] wp_eq [where m = "bucket_at t bk", OF bucket_at_eq [OF bl]]
        wp_eq [where m = "bdd_seek lo hi _ _", OF seek] q_def [symmetric] wp_eq [where m = "bdd_node q", OF bdd_node_eq [OF q(1) [unfolded b'] q(3)]] prod.case
    proof (cases "lo = l' \<and> hi = h'")
      case True
      with b' have b: "b' = ?b" by simp
      with q have q': "cont u q = Some (level, ?b)" "q \<in> tabled u" by simp_all
      have so: "sound (cont u) (tabled u) (cdd_levelinfo u) B q"
        by (rule sound_node [of _ _ level ?b]) (use q q' shape kid in \<open>auto simp: usable_sound\<close>)
      have qt: "cdd_rglr q \<in> tabled u \<or> cdd_rglr q = cddfalse" using q(3) q'(2) by simp
      have "wp (thenM (revive q) (ret (cdd_neg_cond q mask))) (made_bdd_with T X B s level low high) u"
        unfolding wp_then wp_ret
      proof (rule wp_mono [OF revive_spec [OF cu so qt]], elim conjE)
        fix x v assume v: "core v X {cdd_rglr q} {} B" "sim u v"
        note f = sim_fields [OF v(2)] blank_fields [OF sim_fields(2) [OF v(2)]]
        have "frames X s v" using frames_trans [OF c _ fr sim_frames [OF v(2)]] by simp
        then show "made_bdd_with T X B s level low high (cdd_neg_cond q mask) v"
          using fin [of v q] v q q' so sim_caches [OF v(2) ku] by (simp add: f)
      qed
      then show "wp (if lo = l' \<and> hi = h' then thenM (revive q) (ret (cdd_neg_cond q mask))
            else thenM (cdd_ref lo) (thenM (cdd_ref hi) (bindM
              (insert_node BddMan level bk (bdd_seek lo hi) i (Bdd lo hi))
              (\<lambda>node. ret (cdd_neg_cond node mask))))) (made_bdd_with T X B s level low high) u" using True by simp
    next
      case neq: False
      then have "b' \<noteq> ?b" unfolding b' by auto
      note new = q(5) [OF this]
      have us': "usable u B F c \<and> level < lv (cont u) c" if "c \<in> set (kids ?b)" for c using that kid by auto
      note M = make_miss [OF cu ku t finds_bdd shape fit us' bkb, of i]
      have "wp (thenM (forM (kids ?b) cdd_ref) (insert_node BddMan level bk (bdd_seek lo hi) i ?b))
          (\<lambda>p. made_bdd_with T X B s level low high (cdd_neg_cond p mask)) u"
      proof (rule wp_mono [OF M], goal_cases)
        case (4 p v)
        then show ?case
          using fin [of v p] frames_trans [OF c _ fr, of v] by simp
      qed (use new i_def in auto)
      then have "wp (thenM (cdd_ref lo) (thenM (cdd_ref hi) (bindM (insert_node BddMan level bk (bdd_seek lo hi) i ?b)
              (\<lambda>node. ret (cdd_neg_cond node mask))))) (made_bdd_with T X B s level low high) u"
        unfolding kids.simps forM.simps wp_bind wp_then wp_ret .
      then show "wp (if lo = l' \<and> hi = h' then thenM (revive q) (ret (cdd_neg_cond q mask))
            else thenM (cdd_ref lo) (thenM (cdd_ref hi) (bindM
              (insert_node BddMan level bk (bdd_seek lo hi) i (Bdd lo hi))
              (\<lambda>node. ret (cdd_neg_cond node mask))))) (made_bdd_with T X B s level low high) u"
        unfolding if_not_P [OF neq] .
    qed
  qed
qed

section \<open>Fields the invariant does not read\<close>

definition view :: "kstate \<Rightarrow> kstate" where
  "view s = s\<lparr>cdd_maxcddused := 0, cdd_varnum := 0, bdd_start_level := 0, cdd_refstack := [],
     applyop := 0, opid := 0, applycache := applycache (undefined :: kstate)\<rparr>"

lemma view_fields:
  assumes "view s' = view s"
  shows "env s' = env s" "nodes s' = nodes s" "chunk_man s' = chunk_man s" "os_chunks s' = os_chunks s"
    "bddmanager s' = bddmanager s" "cddmanager s' = cddmanager s" "cdd_levelcnt s' = cdd_levelcnt s"
    "cdd_levelinfo s' = cdd_levelinfo s" "cdd_maxcddsize s' = cdd_maxcddsize s" "cdd_errorcond s' = cdd_errorcond s"
    "postgbc_handler s' = postgbc_handler s" "postrehash_handler s' = postrehash_handler s"
    "quantcache s' = quantcache s" "replacecache s' = replacecache s" "cdd_diff2level s' = cdd_diff2level s"
    "cdd_clocknum s' = cdd_clocknum s" "extra_terminals s' = extra_terminals s" "relaxcache s' = relaxcache s" "cdd_running s' = cdd_running s"
  using arg_cong [OF assms, of env] arg_cong [OF assms, of nodes] arg_cong [OF assms, of chunk_man]
    arg_cong [OF assms, of os_chunks] arg_cong [OF assms, of bddmanager] arg_cong [OF assms, of cddmanager]
    arg_cong [OF assms, of cdd_levelcnt] arg_cong [OF assms, of cdd_levelinfo] arg_cong [OF assms, of cdd_maxcddsize]
    arg_cong [OF assms, of cdd_errorcond] arg_cong [OF assms, of postgbc_handler]
    arg_cong [OF assms, of postrehash_handler] arg_cong [OF assms, of quantcache] arg_cong [OF assms, of replacecache]
    arg_cong [OF assms, of cdd_diff2level] arg_cong [OF assms, of cdd_clocknum]
    arg_cong [OF assms, of extra_terminals] arg_cong [OF assms, of relaxcache]
    arg_cong [OF assms, of cdd_running]
  by (simp_all add: view_def)

lemma view_views:
  assumes "view s' = view s"
  shows "cont s' = cont s" "rf s' = rf s" "man_of s' i = man_of s i" "tbl s' i k = tbl s i k" "tabled s' = tabled s"
    "live s' = live s"
proof -
  note f = view_fields [OF assms]
  show 1: "cont s' = cont s" "rf s' = rf s" by (simp_all add: fun_eq_iff cont_def rf_def f)
  show 2: "man_of s' i = man_of s i" for i by (cases i) (simp_all add: f)
  show 3: "tbl s' i k = tbl s i k" for i k by (simp add: tbl_def 2)
  show 4: "tabled s' = tabled s" by (simp add: tabled_def 3)
  show "live s' = live s" by (simp add: live_def 1 4)
qed

lemma view_core:
  assumes "view s' = view s"
  shows "core s' X F W B = core s X F W B"
proof -
  note f = view_fields [OF assms] view_views [OF assms]
  have "static_ok s' B \<longleftrightarrow> static_ok s B" by (simp add: static_ok_def f)
  moreover have "tables_ok s' \<longleftrightarrow> tables_ok s" by (simp add: tables_ok_def f)
  moreover have "mans_ok s' \<longleftrightarrow> mans_ok s" by (simp add: mans_ok_def man_ok_def cell_ok_def f)
  ultimately show ?thesis by (simp add: core_def refs_ok_def owners_sound_def dead_ok_def f)
qed

lemma view_caches:
  assumes "view s' = view s" "applycache s' = applycache s"
  shows "caches_mean T s' B = caches_mean T s B"
proof -
  note f = view_fields [OF assms(1)] view_views [OF assms(1)]
  have "apply_entry_ok s' B = apply_entry_ok s B" "entry_means T s' B = entry_means T s B"
    by (simp_all add: fun_eq_iff apply_entry_ok_def entry_means_def entry_sound_def f)
  then show ?thesis by (simp add: caches_mean_def f assms(2))
qed

lemma view_usable:
  assumes "view s' = view s"
  shows "usable s' B F p = usable s B F p"
  unfolding usable_def view_fields [OF assms] view_views [OF assms] ..

lemma view_upd [simp]:
  "view (s\<lparr>cdd_maxcddused := n\<rparr>) = view s" "view (s\<lparr>cdd_refstack := r\<rparr>) = view s"
  "view (s\<lparr>applyop := op\<rparr>) = view s" "view (s\<lparr>applycache := a\<rparr>) = view s" "view (s\<lparr>opid := i\<rparr>) = view s"
  "view (s\<lparr>cdd_varnum := v\<rparr>) = view s" "view (s\<lparr>bdd_start_level := l\<rparr>) = view s"
  by (simp_all add: view_def)

section \<open>\<^verbatim>\<open>cdd_make_cdd_node\<close>\<close>

definition pick :: "real \<Rightarrow> elem list \<Rightarrow> ptr" where
  "pick x es = (case select x es of None \<Rightarrow> cddfalse | Some e \<Rightarrow> e_child e)"

lemma pick_Cons [simp]: "pick x (e # es) = (if bnd_sat x (e_bnd e) then e_child e else pick x es)"
  by (simp add: pick_def select_def)

lemma pick_append: "pick x (es @ fs) = (if \<exists>e \<in> set es. bnd_sat x (e_bnd e) then pick x es else pick x fs)"
  by (induction es) auto

lemma pick_in: "es \<noteq> [] \<Longrightarrow> e_bnd (last es) = bnd_INF \<Longrightarrow> pick x es \<in> e_child ` set es"
  by (induction es) (auto split: if_splits)

lemma select_last: "es \<noteq> [] \<Longrightarrow> e_bnd (last es) = bnd_INF \<Longrightarrow> select x es = Some e \<longleftrightarrow> (\<exists>e'. select x es = Some e' \<and> e' = e)"
  by simp

lemma select_some:
  assumes "es \<noteq> []" "e_bnd (last es) = bnd_INF"
  obtains e where "select x es = Some e" "e \<in> set es" "pick x es = e_child e"
proof -
  have "\<exists>e \<in> set es. bnd_sat x (e_bnd e)" using assms by (intro bexI [of _ "last es"]) simp_all
  then obtain e where "select x es = Some e" "e \<in> set es"
    unfolding select_def by (metis (mono_tags, lifting) find_None_iff find_Some_iff not_Some_eq nth_mem)
  then show ?thesis using that by (simp add: pick_def)
qed

lemma eval_cdd:
  assumes "cont s p = Some (k, Cdd es)" "cdd_rglr p = p" "\<And>e. e \<in> set es \<Longrightarrow> k < lv (cont s) (e_child e)" "k < MAXLEVEL"
    and "es \<noteq> []" "e_bnd (last es) = bnd_INF"
  shows "eval (cont s) a p = eval (cont s) a (pick (fst a k) es)"
proof -
  obtain e where e: "select (fst a k) es = Some e" "e \<in> set es" "pick (fst a k) es = e_child e"
    using select_some [OF assms(5,6)] by blast
  have "cdd_mask p = 0" using assms(2) by (simp add: regular_iff)
  with eval_Some [of "cont s" p k "Cdd es" a] assms(1-4) e show ?thesis by (simp add: next_child_def)
qed

definition made_cdd_with :: "meaning \<Rightarrow> (ptr \<Rightarrow> nat) \<Rightarrow> (nat \<Rightarrow> raw_t set) \<Rightarrow> kstate \<Rightarrow> nat \<Rightarrow> elem list \<Rightarrow> ptr \<Rightarrow> kstate \<Rightarrow> bool" where
  "made_cdd_with T X B s level es r s' \<longleftrightarrow> core s' X {cdd_rglr r} {} B \<and> caches_mean T s' B \<and> frames X s s' \<and>
     sound (cont s') (tabled s') (cdd_levelinfo s') B r \<and> level \<le> lv (cont s') r \<and>
     (\<forall>a. eval (cont s') a r = eval (cont s) a (pick (fst a level) es))"

abbreviation made_cdd :: "(ptr \<Rightarrow> nat) \<Rightarrow> (nat \<Rightarrow> raw_t set) \<Rightarrow> kstate \<Rightarrow> nat \<Rightarrow> elem list \<Rightarrow> ptr \<Rightarrow> kstate \<Rightarrow> bool" where
  "made_cdd \<equiv> made_cdd_with any_meaning"

lemmas made_cdd_def = made_cdd_with_def [where T = any_meaning]

lemma find_cddmanager_spec:
  assumes c: "core s X F {} B" and k: "caches_mean T s B" and n: "n \<le> cdd_maxcddsize s"
  shows "wp (find_cddmanager n) (\<lambda>_ s'. core s' X F {} B \<and> caches_mean T s' B \<and> steady s s' \<and>
     (\<exists>m. man_of s' (CddMan n) = Some m)) s"
proof -
  have len: "n < length (cddmanager s)" using n core_levels(6) [OF c] by simp
  show ?thesis
  proof (cases "cddmanager s ! n")
    case (Some m)
    then show ?thesis using c k len by (simp add: find_cddmanager_def wp_simps)
  next
    case None
    have A: "wp (cdd_alloc_nodemanager (CddMan n) (8 + 8 * n)) (\<lambda>_ s'. core s' X F {} B \<and> caches_mean T s' B \<and>
        keeps s s' \<and> grows s s' \<and> tabled s' = tabled s \<and> (\<forall>q \<in> tabled s. rf s' q = rf s q) \<and>
        (\<exists>m'. man_of s' (CddMan n) = Some m')) s"
      using cdd_alloc_nodemanager_spec [OF c k n] None by simp
    have R: "wp (find_cddmanager n) Q s = wp (cdd_alloc_nodemanager (CddMan n) (8 + 8 * n))
        (\<lambda>_ s. Q () (if cdd_maxcddused s < n then s\<lparr>cdd_maxcddused := n\<rparr> else s)) s" for Q
      using None len unfolding find_cddmanager_def wp_bind wp_gets wp_then wp_guard wp_when wp_modify by simp
    show ?thesis
    proof (subst R, rule wp_mono [OF A], elim conjE, goal_cases)
      case (1 x t)
      let ?t = "if cdd_maxcddused t < n then t\<lparr>cdd_maxcddused := n\<rparr> else t"
      have v: "view ?t = view t" "applycache ?t = applycache t" "cdd_refstack ?t = cdd_refstack t"
        "applyop ?t = applyop t" "opid ?t = opid t" by simp_all
      note f = view_fields [OF v(1)] view_views [OF v(1)] v(2-5)
      have "steady s ?t"
        using 1 by (simp add: steady_def keeps_def grows_def same_env_def f)
      then show ?case using 1 by (simp only: view_core [OF v(1)] view_caches [OF v(1,2)] f simp_thms)
    qed
  qed
qed

lemma sorted_bounds_card:
  assumes "sorted_wrt (<) (map e_bnd es)" "e_bnd ` set es \<subseteq> S" "finite S"
  shows "length es \<le> card S"
proof -
  have "distinct (map e_bnd es)" using assms(1) strict_sorted_iff by blast
  then have "card (set (map e_bnd es)) = length es" by (metis distinct_card length_map)
  then show ?thesis using card_mono [OF assms(3), of "e_bnd ` set es"] assms(2) by simp
qed

lemma cdd_make_cdd_node_spec:
  assumes c: "core s X F {} B" and k: "caches_mean T s B"
    and l: "level < cdd_levelcnt s" "li_type (cdd_levelinfo s ! level) = TYPE_CDD"
    and es: "es \<noteq> []" "sorted_wrt (<) (map e_bnd es)" "e_bnd (last es) = bnd_INF" "e_bnd ` set es \<subseteq> B level"
      "cdd_mask (e_child (hd es)) = 0" "distinct_adj (map e_child es)"
    and us: "\<And>e. e \<in> set es \<Longrightarrow> usable s B F (e_child e) \<and> level < lv (cont s) (e_child e)"
  shows "wp (cdd_make_cdd_node level es) (made_cdd_with T X B s level es) s"
proof -
  let ?n = "length es" and ?b = "Cdd es"
  note cl = core_levels [OF c]
  have n: "?n \<le> cdd_maxcddsize s"
    using sorted_bounds_card [OF es(2,4) cl(8)] cl(11) [of level] by (rule order_trans)
  show ?thesis
  proof (cases "?n = 1")
    case True
    then obtain e where e: "es = [e]" by (auto simp: length_Suc_conv)
    have "made_cdd_with T X B s level es (e_child e) s"
      using core_single [OF c, of "e_child e"] k us [of e] es(3) by (auto simp: made_cdd_with_def e dest: usable_sound)
    then show ?thesis
      unfolding cdd_make_cdd_node_def wp_bind wp_gets Let_def using n True by (simp add: wp_ret e)
  next
    case False
    have two: "2 \<le> ?n" using False es(1) by (cases ?n rule: nat.exhaust) (auto simp: Suc_le_eq)
    have lvl: "level < MAXLEVEL" using l(1) cl(2) by simp
    have "wp (thenM (find_cddmanager ?n) (
       bindM (find_subtable (CddMan ?n) level) (\<lambda>tbl.
       bindM (get_man (CddMan ?n)) (\<lambda>m.
       bindM (cddHash es) (\<lambda>h.
       bindM (bucket_at tbl (bucket_index (t_shift tbl) h)) (\<lambda>ch.
       bindM (cdd_seek es (m_sentinel m) ch) (\<lambda>i.
       bindM (elem_cmp es (chain_at ch (m_sentinel m) i)) (\<lambda>c.
       if c = 0 then thenM (revive (chain_at ch (m_sentinel m) i)) (ret (chain_at ch (m_sentinel m) i))
       else
         thenM (forM es (\<lambda>e. cdd_ref (e_child e)))
         (insert_node (CddMan ?n) level (bucket_index (t_shift tbl) h) (cdd_seek es) i (Cdd es))))))))))
       (made_cdd_with T X B s level es) s"
      unfolding wp_then [where m = "find_cddmanager _"] wp_bind
    proof (rule wp_mono [OF find_cddmanager_spec [OF c k n]], elim conjE exE, goal_cases)
      case (1 x t m)
      have l': "level < cdd_levelcnt t" using l(1) 1(3) by (simp add: steady_def keeps_def same_env_def)
      show ?case
      proof (rule wp_mono [OF find_subtable_spec [OF 1(1,2,4) l']], elim conjE)
        fix t' u
        assume cu: "core u X F {} B" and ku: "caches_mean T u B" and sd': "steady t u" and t: "tbl u (CddMan ?n) level = Some t'"
        have sd: "steady s u" using 1(3) sd' by (rule steady_trans)
        have se: "same_env s u" using sd by (simp add: steady_def keeps_def)
        have us': "usable u B F (e_child e)" "level < lv (cont u) (e_child e)"
          "\<And>a. eval (cont u) a (e_child e) = eval (cont s) a (e_child e)" if "e \<in> set es" for e
          using steady_usable [OF c sd] us [OF that] by simp_all
        obtain m' where m': "man_of u (CddMan ?n) = Some m'" using t by (auto simp: tbl_iff)
        note tok = man_table_ok [OF cu t]
        define bk where "bk = bucket_index (t_shift t') (env_hash (env u) (elem_words es) (of_nat ?n))"
        have bkb: "bucket_index (t_shift t') (body_hash (env u) ?b) = bk" by (simp add: bk_def)
        have bl: "bk < length (t_hash t')" using table_bucket [OF tok] bkb by blast
        define i where "i = bytes.slot (key_at (cont u)) (elem_bytes es) (t_hash t' ! bk)"
        have seek: "cdd_seek es (m_sentinel m') (t_hash t' ! bk) u = Inr (i, u)"
          unfolding i_def by (rule cdd_seek_eq [OF chain_readable [OF tok bl] man_sentinel [OF cu m']])
        have fit: "fits (CddMan ?n) ?b"
          using es(4) cl(10) by auto
        have shape: "shape_ok (cdd_levelinfo u) B level ?b"
          using l cl(1) es two se by (simp add: shape_ok_def same_env_def)
        have nz: "?b \<noteq> zero_body (CddMan ?n)"
        proof
          assume "?b = zero_body (CddMan ?n)"
          then have "es = replicate ?n \<lparr>e_child = 0, e_bnd = 0\<rparr>" by simp
          then have "e_bnd (last es) = 0" using es(1) by (metis elem.select_convs(2) last_in_set in_set_replicate)
          then show False using es(3) by (simp add: bnd_INF_def)
        qed
        define q where "q = chain_at (t_hash t' ! bk) (m_sentinel m') i"
        obtain k' b' where q: "cont u q = Some (k', b')" "fits (CddMan ?n) b'" "cdd_rglr q = q"
          "b' = ?b \<Longrightarrow> q \<in> tabled u \<and> k' = level"
          "b' \<noteq> ?b \<Longrightarrow> (\<forall>p \<in> set (t_hash t' ! bk). key_at (cont u) p \<noteq> body_key ?b)"
          using chain_result [OF cu t m' fit nz bkb] unfolding q_def i_def body_key.simps by metis
        then obtain fs where b': "b' = Cdd fs" "length fs = ?n" by auto
        have cmp: "elem_cmp es q u = Inr (memcmp (elem_bytes es) (elem_bytes fs), u)"
          using elem_cmp_eq [OF q(1) [unfolded b'(1)] q(3) b'(2)] .
        have zero: "memcmp (elem_bytes es) (elem_bytes fs) = 0 \<longleftrightarrow> b' = ?b"
          using memcmp_props(1) [of "elem_bytes es" "elem_bytes fs"] body_key_inj [OF q(2) fit] b' by auto
        have fr: "frames X s u" by (rule steady_frames [OF c sd]) simp
        have fin: "made_cdd_with T X B s level es p s'"
          if "core s' X {cdd_rglr p} {} B" "caches_mean T s' B" "frames X s s'" "cont s' p = Some (level, ?b)" "cdd_rglr p = p"
            "sound (cont s') (tabled s') (cdd_levelinfo s') B p"
            and kid: "\<forall>c \<in> set (kids ?b). lv (cont s') c = lv (cont u) c \<and> (\<forall>a. eval (cont s') a c = eval (cont u) a c)" for p s'
        proof -
          have "level < lv (cont s') (e_child e)" if "e \<in> set es" for e using kid us'(2) [OF that] that by auto
          note E = eval_cdd [OF that(4,5) this lvl es(1,3)]
          have "eval (cont s') a (pick x es) = eval (cont s) a (pick x es)" for a x
            using pick_in [OF es(1,3), of x] kid us'(3) by auto
          then have "eval (cont s') a p = eval (cont s) a (pick (fst a level) es)" for a using E [of a] by simp
          moreover have "lv (cont s') p = level" using that(4,5) by (simp add: lv_def)
          ultimately show ?thesis using that by (simp add: made_cdd_with_def)
        qed
        have "wp (if memcmp (elem_bytes es) (elem_bytes fs) = 0 then thenM (revive q) (ret q)
            else thenM (forM es (\<lambda>e. cdd_ref (e_child e))) (insert_node (CddMan ?n) level bk (cdd_seek es) i ?b))
            (made_cdd_with T X B s level es) u"
        proof (cases "b' = ?b")
          case True
          with q have q': "cont u q = Some (level, ?b)" "q \<in> tabled u" by simp_all
          have so: "sound (cont u) (tabled u) (cdd_levelinfo u) B q"
            by (rule sound_node [of _ _ level ?b]) (use q q' shape us' in \<open>auto dest: usable_sound\<close>)
          have qt: "cdd_rglr q \<in> tabled u \<or> cdd_rglr q = cddfalse" using q(3) q'(2) by simp
          have "wp (thenM (revive q) (ret q)) (made_cdd_with T X B s level es) u"
            unfolding wp_then wp_ret
          proof (rule wp_mono [OF revive_spec [OF cu so qt]], elim conjE)
            fix x v assume v: "core v X {cdd_rglr q} {} B" "sim u v"
            note f = sim_fields [OF v(2)] blank_fields [OF sim_fields(2) [OF v(2)]]
            have "frames X s v" using frames_trans [OF c _ fr sim_frames [OF v(2)]] by simp
            then show "made_cdd_with T X B s level es q v"
              using fin [of v q] v q q' so sim_caches [OF v(2) ku] by (simp add: f)
          qed
          then show ?thesis using True zero by simp
        next
          case neq: False
          note new = q(5) [OF this]
          have us2: "usable u B F c \<and> level < lv (cont u) c" if "c \<in> set (kids ?b)" for c using that us' by auto
          have "forM xs (\<lambda>e. cdd_ref (e_child e)) = forM (map e_child xs) cdd_ref" for xs
            by (induction xs) simp_all
          then have fm: "forM es (\<lambda>e. cdd_ref (e_child e)) = forM (kids ?b) cdd_ref" by simp
          note M = make_miss [OF cu ku t finds_cdd shape fit us2 bkb, of i]
          have "wp (thenM (forM (kids ?b) cdd_ref) (insert_node (CddMan ?n) level bk (cdd_seek es) i ?b))
              (made_cdd_with T X B s level es) u"
          proof (rule wp_mono [OF M], goal_cases)
            case (4 p v)
            then show ?case using fin [of v p] frames_trans [OF c _ fr, of v] by simp
          qed (use new i_def in auto)
          then show ?thesis unfolding fm using neq zero by simp
        qed
        then show "wp (get_man (CddMan ?n)) (\<lambda>m. wp (cddHash es) (\<lambda>h.
            wp (bucket_at t' (bucket_index (t_shift t') h)) (\<lambda>ch. wp (cdd_seek es (m_sentinel m) ch) (\<lambda>i.
            wp (elem_cmp es (chain_at ch (m_sentinel m) i)) (\<lambda>c.
            wp (if c = 0 then thenM (revive (chain_at ch (m_sentinel m) i)) (ret (chain_at ch (m_sentinel m) i))
              else thenM (forM es (\<lambda>e. cdd_ref (e_child e)))
               (insert_node (CddMan ?n) level (bucket_index (t_shift t') h) (cdd_seek es) i (Cdd es)))
             (made_cdd_with T X B s level es)))))) u"
          unfolding wp_eq [where m = "get_man _", OF get_man_eq [OF m']] cddHash_def wp_gets bk_def [symmetric]
            wp_eq [where m = "bucket_at t' bk", OF bucket_at_eq [OF bl]] wp_eq [where m = "cdd_seek es _ _", OF seek]
            q_def [symmetric] wp_eq [where m = "elem_cmp es q", OF cmp] .
      qed
    qed
    then show ?thesis
      unfolding cdd_make_cdd_node_def wp_bind [where m = "gets _"] wp_gets Let_def using n False by simp
  qed
qed

end
