(* ===== verification/Canonical.thy ===== *)
theory Canonical
  imports Make_Nodes
begin

text \<open>
  Canonicity: the store holds at most one node for each level and body, and two well-formed
  diagrams with the same meaning are the same pointer, so that the equality tests of the
  operators decide equivalence over all values of the differences.
\<close>

declare split_paired_All [simp del]

section \<open>One node for each body\<close>

lemma fits_unique: "fits i b \<Longrightarrow> fits j b \<Longrightarrow> i = j"
  by (cases i; cases j) auto

lemma descending_inj:
  assumes "descending C ch" "p \<in> set ch" "q \<in> set ch" "key_at C p = key_at C q"
  shows "p = q"
  using assms by (induction ch) (auto simp: descending_def)

lemma unique_node:
  assumes c: "core s X F W B" and p: "p \<in> tabled s" "q \<in> tabled s" and e: "cont s p = cont s q"
  shows "p = q"
proof -
  have ok: "tables_ok s" using c by (simp add: core_def)
  from p obtain i k t j l u where t: "tbl s i k = Some t" "p \<in> chained t" and u: "tbl s j l = Some u" "q \<in> chained u"
    by (auto simp: tabled_iff)
  from chained_place [OF ok t] obtain b body where b: "b < length (t_hash t)" "p \<in> set (t_hash t ! b)"
    "cont s p = Some (k, body)" "fits i body" "bucket_index (t_shift t) (body_hash (env s) body) = b" by blast
  from chained_place [OF ok u] obtain b' body' where b': "b' < length (t_hash u)" "q \<in> set (t_hash u ! b')"
    "cont s q = Some (l, body')" "fits j body'" "bucket_index (t_shift u) (body_hash (env s) body') = b'" by blast
  have "l = k" "body' = body" using b b' e by simp_all
  moreover have "j = i" using fits_unique [OF b'(4)] b(4) calculation by simp
  ultimately have "u = t" "b' = b" using t(1) u(1) b(5) b'(5) by simp_all
  moreover have "descending (cont s) (t_hash t ! b)"
    using man_table_ok [OF c t(1)] b(1) by (simp add: table_ok_def)
  moreover have "key_at (cont s) p = key_at (cont s) q" using e by (simp add: key_at_def)
  ultimately show ?thesis using descending_inj [of "cont s" "t_hash t ! b" p q] b(2) b'(2) by simp
qed

section \<open>A diagram depends on its levels only\<close>

lemma eval_levels:
  assumes "\<And>j. lv C p \<le> j \<Longrightarrow> fst a j = fst b j \<and> snd a j = snd b j"
  shows "eval C a p = eval C b p"
  using assms
proof (induction "MAXLEVEL - lv C p" arbitrary: p rule: less_induct)
  case less
  show ?case
  proof (cases "C (cdd_rglr p)")
    case None
    then show ?thesis by (simp add: eval_None)
  next
    case (Some kb)
    then obtain k body where kb: "C (cdd_rglr p) = Some (k, body)" by (cases kb) auto
    then have k: "lv C p = k" by (simp add: lv_def)
    have same: "next_child a k body = next_child b k body"
      using less.prems [of k] k by (auto simp: next_child_def split: body.splits)
    have "eval C a c = eval C b c" if "k < lv C c" "k < MAXLEVEL" for c
      by (rule less.hyps) (use that k less.prems in auto)
    then show ?thesis
      by (auto simp: eval_Some [of C p k body, OF kb] same split: option.splits)
  qed
qed

definition set_diff :: "nat \<Rightarrow> real \<Rightarrow> asg \<Rightarrow> asg" where
  "set_diff k x a = ((fst a)(k := x), snd a)"

definition set_var :: "nat \<Rightarrow> bool \<Rightarrow> asg \<Rightarrow> asg" where
  "set_var k x a = (fst a, (snd a)(k := x))"

lemma eval_set [simp]:
  "k < lv C p \<Longrightarrow> eval C (set_diff k x a) p = eval C a p" "k < lv C p \<Longrightarrow> eval C (set_var k y a) p = eval C a p"
  by (rule eval_levels; simp add: set_diff_def set_var_def)+

section \<open>Bounds separate\<close>

lemma bnd_sep:
  assumes "- bnd_INF \<le> a" "a < b" "b \<le> bnd_INF"
  shows "\<exists>x. bnd_sat x b \<and> \<not> bnd_sat x a"
proof -
  consider "b = bnd_INF" | "b < bnd_INF" "a div 2 = b div 2" | "b < bnd_INF" "a div 2 < b div 2"
    using assms by (metis nless_le zdiv_mono1 zero_less_numeral)
  then show ?thesis
  proof cases
    case 1
    then have "\<not> bnd_sat (of_int (a div 2) + 1) a" using assms by (simp add: bnd_sat_def)
    then show ?thesis using 1 by auto
  next
    case 2
    then have "b mod 2 = 1" "a mod 2 \<noteq> 1" using assms(2) by presburger+
    then have "bnd_sat (of_int (b div 2)) b \<and> \<not> bnd_sat (of_int (b div 2)) a"
      using 2 assms by (simp add: bnd_sat_def)
    then show ?thesis by blast
  next
    case 3
    then have "real_of_int (a div 2) \<le> of_int (b div 2) - 1" by linarith
    then have "bnd_sat (of_int (b div 2) - 1 / 2) b \<and> \<not> bnd_sat (of_int (b div 2) - 1 / 2) a"
      using 3(1) assms by (auto simp: bnd_sat_def)
    then show ?thesis by blast
  qed
qed

definition proper :: "raw_t \<Rightarrow> elem list \<Rightarrow> bool" where
  "proper lo es \<longleftrightarrow> es \<noteq> [] \<and> sorted_wrt (<) (lo # map e_bnd es) \<and> e_bnd (last es) = bnd_INF \<and> distinct_adj (map e_child es)"

lemma proper_ConsD:
  assumes "proper lo (e # es)"
  shows "lo < e_bnd e" "e_bnd e \<le> bnd_INF" "es = [] \<longleftrightarrow> e_bnd e = bnd_INF"
    "es \<noteq> [] \<Longrightarrow> proper (e_bnd e) es \<and> e_child (hd es) \<noteq> e_child e"
proof -
  have "e_bnd e < bnd_INF" if "es \<noteq> []"
  proof -
    have "e_bnd (last es) = bnd_INF" using assms that by (simp add: proper_def)
    moreover have "\<forall>x \<in> set es. e_bnd e < e_bnd x" using assms by (simp add: proper_def)
    ultimately show ?thesis using last_in_set [OF that] by auto
  qed
  moreover have "e_bnd e = bnd_INF" if "es = []" using assms that by (simp add: proper_def)
  ultimately show "e_bnd e \<le> bnd_INF" "es = [] \<longleftrightarrow> e_bnd e = bnd_INF" by fastforce+
  show "lo < e_bnd e" using assms by (simp add: proper_def)
  show "es \<noteq> [] \<Longrightarrow> proper (e_bnd e) es \<and> e_child (hd es) \<noteq> e_child e"
    using assms by (cases es) (auto simp: proper_def)
qed

text \<open>A value just above the lower bound selects the first child.\<close>

lemma pick_hd:
  assumes "proper lo es" "bnd_sat x (e_bnd (hd es))"
  shows "pick x es = e_child (hd es)"
  using assms by (cases es) (auto simp: proper_def)

lemma pick_tl:
  assumes "\<not> bnd_sat x (e_bnd e)"
  shows "pick x (e # es) = pick x es"
  using assms by simp

lemma pick_differs:
  assumes lo: "- bnd_INF \<le> lo" and e: "proper lo (e # es)" and b: "e_bnd e < b" "b \<le> bnd_INF"
  shows "\<exists>x. bnd_sat x b \<and> \<not> bnd_sat x lo \<and> pick x (e # es) \<noteq> e_child e"
proof -
  note d = proper_ConsD [OF e]
  have ne: "es \<noteq> []" using b d(3) by auto
  have t: "proper (e_bnd e) es" "e_child (hd es) \<noteq> e_child e" "lo < e_bnd e"
    using d(1) d(4) [OF ne] by simp_all
  obtain f es' where es: "es = f # es'" using ne by (cases es) auto
  let ?b = "min b (e_bnd (hd es))"
  have "e_bnd e < ?b" "?b \<le> bnd_INF" using proper_ConsD(1) [OF t(1) [unfolded es]] b by (simp_all add: es)
  then obtain x where x: "bnd_sat x ?b" "\<not> bnd_sat x (e_bnd e)"
    using bnd_sep [of "e_bnd e" ?b] lo t(3) by auto
  have "bnd_sat x b" "bnd_sat x (e_bnd (hd es))" using bnd_sat_mono [OF _ x(1)] by simp_all
  moreover have "\<not> bnd_sat x lo" using x(2) bnd_sat_mono [of lo "e_bnd e" x] t(3) by auto
  ultimately show ?thesis using x(2) pick_hd [OF t(1)] t(2) by (intro exI [of _ x]) simp
qed

lemma pick_inj:
  assumes "- bnd_INF \<le> lo" "proper lo es" "proper lo fs" "\<And>x. \<not> bnd_sat x lo \<Longrightarrow> pick x es = pick x fs"
  shows "es = fs"
  using assms
proof (induction es arbitrary: lo fs)
  case Nil
  then show ?case by (simp add: proper_def)
next
  case (Cons e es)
  obtain f fs' where fs: "fs = f # fs'" using Cons.prems(3) by (cases fs) (auto simp: proper_def)
  note pf = proper_ConsD [OF Cons.prems(3) [unfolded fs]] and pe = proper_ConsD [OF Cons.prems(2)]
  have f: "fs = f # fs'" "lo < e_bnd f" "e_bnd f \<le> bnd_INF" "fs' = [] \<longleftrightarrow> e_bnd f = bnd_INF"
    "fs' \<noteq> [] \<longrightarrow> proper (e_bnd f) fs'" using fs pf by simp_all
  have e: "lo < e_bnd e" "e_bnd e \<le> bnd_INF" "es = [] \<longleftrightarrow> e_bnd e = bnd_INF"
    "es \<noteq> [] \<longrightarrow> proper (e_bnd e) es" using pe by simp_all
  let ?b = "min (e_bnd e) (e_bnd f)"
  have "lo < ?b" "?b \<le> bnd_INF" using e(1,2) f(2,3) by simp_all
  from bnd_sep [OF Cons.prems(1) this] obtain x where x: "bnd_sat x ?b" "\<not> bnd_sat x lo" by blast
  have "bnd_sat x (e_bnd e)" "bnd_sat x (e_bnd f)" using bnd_sat_mono [OF _ x(1)] by simp_all
  then have child: "e_child e = e_child f" using Cons.prems(4) [OF x(2)] by (simp add: f(1))
  have bnd: "e_bnd e = e_bnd f"
  proof (rule ccontr)
    assume "e_bnd e \<noteq> e_bnd f"
    then consider "e_bnd e < e_bnd f" | "e_bnd f < e_bnd e" by linarith
    then show False
    proof cases
      case 1
      then obtain x where "bnd_sat x (e_bnd f)" "\<not> bnd_sat x lo" "pick x (e # es) \<noteq> e_child e"
        using pick_differs [OF Cons.prems(1,2)] f(3) by blast
      then show False using Cons.prems(4) [of x] child by (simp add: f(1))
    next
      case 2
      then obtain x where "bnd_sat x (e_bnd e)" "\<not> bnd_sat x lo" "pick x (f # fs') \<noteq> e_child f"
        using pick_differs [OF Cons.prems(1) Cons.prems(3) [unfolded f(1)]] e(2) by blast
      then show False using Cons.prems(4) [of x] child by (simp add: f(1))
    qed
  qed
  have "es = fs'"
  proof (cases "es = []")
    case True
    then show ?thesis using e(3) f(4) bnd by simp
  next
    case False
    have "pick x es = pick x fs'" if "\<not> bnd_sat x (e_bnd e)" for x
      using Cons.prems(4) [of x] that bnd bnd_sat_mono [of lo "e_bnd e" x] e(1) by (auto simp: f(1))
    then show ?thesis
      using Cons.IH [of "e_bnd e" fs'] Cons.prems(1) e f(4,5) bnd False by auto
  qed
  moreover have "e = f" using child bnd by (simp add: elem.equality)
  ultimately show ?case by (simp add: f(1))
qed

lemma pick_not_const:
  assumes "- bnd_INF \<le> lo" "proper lo es" "2 \<le> length es"
  shows "\<exists>x y. pick x es \<noteq> pick y es"
proof -
  obtain e es' where es: "es = e # es'" using assms(3) by (cases es) auto
  note e = es proper_ConsD [OF assms(2) [unfolded es]]
  then have "e_bnd e < bnd_INF" using assms(3) by (cases es') auto
  then obtain x where "pick x es \<noteq> e_child e"
    using pick_differs [OF assms(1) assms(2) [unfolded e(1)], of bnd_INF] by (auto simp: e(1))
  moreover obtain y where "bnd_sat y (e_bnd e)" using bnd_sep [OF assms(1) e(2,3)] by blast
  ultimately show ?thesis using e(1) by (metis pick_Cons)
qed

section \<open>The leftmost path\<close>

text \<open>A value that satisfies every bound of a level selects the first child everywhere.\<close>

definition leftmost :: "(nat \<Rightarrow> raw_t set) \<Rightarrow> asg" where
  "leftmost B = ((\<lambda>k. of_int (Min (B k) div 2) - 1), (\<lambda>_. False))"

definition finite_bounds :: "(nat \<Rightarrow> raw_t set) \<Rightarrow> bool" where
  "finite_bounds B \<longleftrightarrow> (\<forall>k. - bnd_INF \<notin> B k)"

lemma leftmost_sat:
  assumes c: "core s X F W B" and n: "finite_bounds B" and b: "b \<in> B k"
  shows "bnd_sat (fst (leftmost B) k) b"
proof (rule bnd_sat_mono)
  note fin = core_levels(8) [OF c, of k]
  show "Min (B k) \<le> b" using fin b by simp
  have "Min (B k) \<in> B k" using fin b by (intro Min_in) auto
  then have "- bnd_INF < Min (B k)"
    using core_levels(10) [OF c, of "Min (B k)" k] n by (auto simp: finite_bounds_def abs_le_iff order_less_le)
  then show "bnd_sat (fst (leftmost B) k) (Min (B k))"
    by (auto simp: bnd_sat_def leftmost_def)
qed

lemma eval_leftmost:
  assumes c: "core s X F W B" and n: "finite_bounds B" and p: "sound (cont s) (tabled s) (cdd_levelinfo s) B p"
  shows "eval (cont s) (leftmost B) p = (cdd_mask p \<noteq> 0)"
  using p
proof (induction rule: sound.induct)
  case (sound_term p)
  then show ?case using eval_term [of "cont s" MAXLEVEL] core_term(1) [OF c] by simp
next
  case (sound_node p k b)
  note e = eval_Some [of "cont s" p k b "leftmost B", OF sound_node.hyps(1)]
  show ?case
  proof (cases b)
    case (Bdd lo hi)
    then have "cdd_mask lo = 0" using sound_node.hyps(3) by (simp add: shape_ok_def)
    then show ?thesis using e sound_node.IH [of lo] Bdd by (simp add: next_child_def leftmost_def)
  next
    case (Cdd es)
    then have es: "es \<noteq> []" "e_bnd ` set es \<subseteq> B k" "cdd_mask (e_child (hd es)) = 0"
      using sound_node.hyps(3) by (auto simp: shape_ok_def)
    then obtain f es' where f: "es = f # es'" by (cases es) auto
    have "bnd_sat (fst (leftmost B) k) (e_bnd f)" using leftmost_sat [OF c n] es(2) f by simp
    then have "next_child (leftmost B) k b = Some (e_child f)" by (simp add: next_child_def select_def Cdd f)
    then show ?thesis using e sound_node.IH [of "e_child f"] es(3) f Cdd by simp
  qed (use sound_node.hyps(3) in \<open>simp_all add: shape_ok_def\<close>)
qed

section \<open>Canonicity\<close>

definition same_meaning :: "contents \<Rightarrow> ptr \<Rightarrow> ptr \<Rightarrow> bool" where
  "same_meaning C p q \<longleftrightarrow> (\<forall>a. eval C a p = eval C a q)"

lemma same_meaning_sym: "same_meaning C p q \<Longrightarrow> same_meaning C q p"
  by (simp add: same_meaning_def)

text \<open>The parts of a well-formed node, with the meaning of its children.\<close>

lemma node_parts:
  assumes c: "core s X F W B" and n: "finite_bounds B" and p: "sound (cont s) (tabled s) (cdd_levelinfo s) B p" "cdd_rglr p = p" "p \<noteq> cddfalse"
  obtains (bdd) lo hi where "cont s p = Some (lv (cont s) p, Bdd lo hi)" "li_type (cdd_levelinfo s ! lv (cont s) p) = TYPE_BDD" "lo \<noteq> hi"
      "\<And>c. c \<in> {lo, hi} \<Longrightarrow> sound (cont s) (tabled s) (cdd_levelinfo s) B c \<and> lv (cont s) p < lv (cont s) c"
      "\<And>a. eval (cont s) (set_var (lv (cont s) p) False a) p = eval (cont s) a lo"
      "\<And>a. eval (cont s) (set_var (lv (cont s) p) True a) p = eval (cont s) a hi"
    | (cdd) es where "cont s p = Some (lv (cont s) p, Cdd es)" "li_type (cdd_levelinfo s ! lv (cont s) p) = TYPE_CDD"
      "proper (- bnd_INF) es" "2 \<le> length es"
      "\<And>c. c \<in> e_child ` set es \<Longrightarrow> sound (cont s) (tabled s) (cdd_levelinfo s) B c \<and> lv (cont s) p < lv (cont s) c"
      "\<And>a x. eval (cont s) (set_diff (lv (cont s) p) x a) p = eval (cont s) a (pick x es)"
proof -
  from p obtain k b where b: "cont s p = Some (k, b)" "shape_ok (cdd_levelinfo s) B k b"
    "\<And>c. c \<in> set (kids b) \<Longrightarrow> sound (cont s) (tabled s) (cdd_levelinfo s) B c \<and> k < lv (cont s) c"
    by (auto elim: soundE)
  have k: "lv (cont s) p = k" using b(1) p(2) by (simp add: lv_def)
  have "k < MAXLEVEL" using b(2) core_levels(1,2) [OF c] by (simp add: shape_ok_def)
  show ?thesis
  proof (cases b)
    case (Bdd lo hi)
    have l: "k < lv (cont s) lo" "k < lv (cont s) hi" using b(3) Bdd by simp_all
    have e: "eval (cont s) a p = (if snd a k then eval (cont s) a hi else eval (cont s) a lo)" for a
      by (rule eval_bdd) (use b p Bdd l \<open>k < MAXLEVEL\<close> in auto)
    show ?thesis
    proof (rule bdd [of lo hi], unfold k)
      show "eval (cont s) (set_var k False a) p = eval (cont s) a lo" for a
        unfolding e using l by (simp add: set_var_def [of k False]) (simp flip: set_var_def [of k False])
      show "eval (cont s) (set_var k True a) p = eval (cont s) a hi" for a
        unfolding e using l by (simp add: set_var_def [of k True]) (simp flip: set_var_def [of k True])
    qed (use b Bdd in \<open>auto simp: shape_ok_def\<close>)
  next
    case (Cdd es)
    have es: "2 \<le> length es" "sorted_wrt (<) (map e_bnd es)" "e_bnd (last es) = bnd_INF" "e_bnd ` set es \<subseteq> B k"
      "distinct_adj (map e_child es)" using b(2) Cdd by (simp_all add: shape_ok_def)
    then have ne: "es \<noteq> []" by auto
    have l: "k < lv (cont s) (e_child e)" if "e \<in> set es" for e using b(3) Cdd that by simp
    have e: "eval (cont s) a p = eval (cont s) a (pick (fst a k) es)" for a
      by (rule eval_cdd) (use b p Cdd l \<open>k < MAXLEVEL\<close> ne es in auto)
    have "k < lv (cont s) (pick x es)" for x using pick_in [OF ne es(3), of x] l by auto
    then have ev: "eval (cont s) (set_diff k x a) p = eval (cont s) a (pick x es)" for a x
      unfolding e by (simp add: set_diff_def [of k x]) (simp flip: set_diff_def [of k x])
    have "- bnd_INF < e_bnd x" if "x \<in> set es" for x
      using core_levels(10) [OF c, of "e_bnd x" k] es(4) n that
      by (fastforce simp: finite_bounds_def abs_le_iff order_less_le)
    then have "proper (- bnd_INF) es" using es ne by (simp add: proper_def)
    then show ?thesis
      by (intro cdd [of es], unfold k) (use b Cdd ev es in \<open>auto simp: shape_ok_def\<close>)
  qed (use b(2) in \<open>simp_all add: shape_ok_def\<close>)
qed

text \<open>A node whose meaning does not depend on its own level contradicts the shape of nodes.\<close>

lemma depends_on_level:
  assumes c: "core s X F W B" and n: "finite_bounds B" and p: "sound (cont s) (tabled s) (cdd_levelinfo s) B p" "cdd_rglr p = p" "p \<noteq> cddfalse"
    and q: "sound (cont s) (tabled s) (cdd_levelinfo s) B q" "lv (cont s) p < lv (cont s) q"
    and eq: "same_meaning (cont s) p q"
    and IH: "\<And>c. sound (cont s) (tabled s) (cdd_levelinfo s) B c \<Longrightarrow> lv (cont s) p < lv (cont s) c \<Longrightarrow> same_meaning (cont s) c q \<Longrightarrow> c = q"
  shows False
proof (cases rule: node_parts [OF c n p])
  case (1 lo hi)
  have "same_meaning (cont s) lo q" "same_meaning (cont s) hi q"
    using 1(5,6) eq q(2) unfolding same_meaning_def by (metis eval_set(2))+
  then have "lo = q" "hi = q" using IH 1(4) by blast+
  then show False using 1(3) by simp
next
  case (2 es)
  have ne: "es \<noteq> []" "e_bnd (last es) = bnd_INF" using 2(3) by (simp_all add: proper_def)
  have "pick x es = q" for x
  proof (rule IH)
    show "sound (cont s) (tabled s) (cdd_levelinfo s) B (pick x es)" "lv (cont s) p < lv (cont s) (pick x es)"
      using 2(5) pick_in [OF ne] by blast+
    show "same_meaning (cont s) (pick x es) q"
      using 2(6) eq q(2) unfolding same_meaning_def by (metis eval_set(1))
  qed
  then show False using pick_not_const [OF order_refl 2(3,4)] by metis
qed

lemma canonical_regular:
  assumes c: "core s X F W B" and n: "finite_bounds B"
    and p: "sound (cont s) (tabled s) (cdd_levelinfo s) B p" "cdd_rglr p = p" "p \<noteq> cddfalse"
    and q: "sound (cont s) (tabled s) (cdd_levelinfo s) B q" "cdd_rglr q = q" "lv (cont s) q = lv (cont s) p"
    and eq: "same_meaning (cont s) p q"
    and IH: "\<And>c d. sound (cont s) (tabled s) (cdd_levelinfo s) B c \<Longrightarrow> sound (cont s) (tabled s) (cdd_levelinfo s) B d \<Longrightarrow>
      lv (cont s) p < lv (cont s) c \<Longrightarrow> lv (cont s) p < lv (cont s) d \<Longrightarrow> same_meaning (cont s) c d \<Longrightarrow> c = d"
  shows "p = q"
proof -
  have qn: "q \<noteq> cddfalse"
  proof
    assume "q = cddfalse"
    then have "lv (cont s) p = MAXLEVEL" using q(3) lv_def [of "cont s" q] core_term(1) [OF c] by simp
    then show False using sound_level [OF p(1)] p(2,3) core_levels(1,2) [OF c] by simp
  qed
  have tab: "p \<in> tabled s" "q \<in> tabled s" using sound_place [OF p(1)] sound_place [OF q(1)] p q(2) qn by auto
  have "cont s p = cont s q"
  proof (cases rule: node_parts [OF c n p])
    case (1 lo hi)
    show ?thesis
    proof (cases rule: node_parts [OF c n q(1,2) qn])
      case bdd: (1 lo' hi')
      have "same_meaning (cont s) lo lo'" "same_meaning (cont s) hi hi'"
        using 1(5,6) bdd(5,6) eq unfolding same_meaning_def q(3) by metis+
      then have "lo = lo'" "hi = hi'" using IH 1(4) bdd(4) unfolding q(3) by blast+
      then show ?thesis using 1(1) bdd(1) q(3) by simp
    qed (use 1(2) q(3) in simp)
  next
    case (2 es)
    show ?thesis
    proof (cases rule: node_parts [OF c n q(1,2) qn])
      case cdd: (2 fs)
      have ne: "es \<noteq> []" "e_bnd (last es) = bnd_INF" "fs \<noteq> []" "e_bnd (last fs) = bnd_INF"
        using 2(3) cdd(3) by (simp_all add: proper_def)
      have "pick x es = pick x fs" for x
      proof (rule IH)
        show "sound (cont s) (tabled s) (cdd_levelinfo s) B (pick x es)" "lv (cont s) p < lv (cont s) (pick x es)"
          using 2(5) pick_in [OF ne(1,2)] by blast+
        show "sound (cont s) (tabled s) (cdd_levelinfo s) B (pick x fs)" "lv (cont s) p < lv (cont s) (pick x fs)"
          using cdd(5) pick_in [OF ne(3,4)] unfolding q(3) by blast+
        show "same_meaning (cont s) (pick x es) (pick x fs)"
          using 2(6) cdd(6) eq unfolding same_meaning_def q(3) by metis
      qed
      then have "es = fs" by (intro pick_inj [OF order_refl 2(3) cdd(3)])
      then show ?thesis using 2(1) cdd(1) q(3) by simp
    qed (use 2(2) q(3) in simp)
  qed
  then show ?thesis by (rule unique_node [OF c tab])
qed

lemma canonical:
  assumes c: "core s X F W B" and n: "finite_bounds B"
  shows "sound (cont s) (tabled s) (cdd_levelinfo s) B p \<Longrightarrow> sound (cont s) (tabled s) (cdd_levelinfo s) B q \<Longrightarrow>
    same_meaning (cont s) p q \<Longrightarrow> p = q"
proof (induction "MAXLEVEL - min (lv (cont s) p) (lv (cont s) q)" arbitrary: p q rule: less_induct)
  case less
  have "(cdd_mask p \<noteq> 0) = (cdd_mask q \<noteq> 0)"
    using less.prems(3) eval_leftmost [OF c n less.prems(1)] eval_leftmost [OF c n less.prems(2)]
    by (simp add: same_meaning_def)
  then have mk: "cdd_mask p = cdd_mask q" using mask_cases [of p] mask_cases [of q] by auto
  let ?p = "cdd_rglr p" and ?q = "cdd_rglr q"
  have so: "sound (cont s) (tabled s) (cdd_levelinfo s) B ?p" "sound (cont s) (tabled s) (cdd_levelinfo s) B ?q"
    using less.prems(1,2) by (simp_all add: sound_rglr_iff)
  have eq: "same_meaning (cont s) ?p ?q"
    unfolding same_meaning_def
  proof
    fix a
    show "eval (cont s) a ?p = eval (cont s) a ?q"
      using less.prems(3) eval_split [of "cont s" a p] eval_split [of "cont s" a q] mk
      by (cases "cdd_mask q = 0") (simp_all add: same_meaning_def)
  qed
  have top: "lv (cont s) r \<le> MAXLEVEL" "lv (cont s) r = MAXLEVEL \<longleftrightarrow> cdd_rglr r = cddfalse"
    if "sound (cont s) (tabled s) (cdd_levelinfo s) B r" for r
  proof -
    have "cdd_rglr r = cddfalse \<Longrightarrow> lv (cont s) r = MAXLEVEL" using core_term(1) [OF c] by (simp add: lv_def)
    moreover have "cdd_rglr r \<noteq> cddfalse \<Longrightarrow> lv (cont s) r < MAXLEVEL"
      using sound_level [OF that] core_levels(1,2) [OF c] by simp
    ultimately show "lv (cont s) r \<le> MAXLEVEL" "lv (cont s) r = MAXLEVEL \<longleftrightarrow> cdd_rglr r = cddfalse" by fastforce+
  qed
  have IH: "c = d" if "sound (cont s) (tabled s) (cdd_levelinfo s) B c" "sound (cont s) (tabled s) (cdd_levelinfo s) B d"
    "min (lv (cont s) p) (lv (cont s) q) < lv (cont s) c" "min (lv (cont s) p) (lv (cont s) q) < lv (cont s) d"
    "same_meaning (cont s) c d" for c d
  proof (rule less.hyps [OF _ that(1,2,5)])
    have "lv (cont s) c \<le> MAXLEVEL" by (rule top(1) [OF that(1)])
    then show "MAXLEVEL - min (lv (cont s) c) (lv (cont s) d) < MAXLEVEL - min (lv (cont s) p) (lv (cont s) q)"
      using that(3,4) by linarith
  qed
  have "?p = ?q"
  proof (cases "lv (cont s) p = lv (cont s) q")
    case True
    show ?thesis
    proof (cases "?p = cddfalse")
      case pt: True
      then show ?thesis using top [OF less.prems(1)] top [OF less.prems(2)] True by simp
    next
      case False
      show ?thesis
      proof (rule canonical_regular [OF c n so(1) rglr_rglr False so(2) rglr_rglr _ eq])
        show "lv (cont s) ?q = lv (cont s) ?p" using True by simp
        show "\<And>c d. sound (cont s) (tabled s) (cdd_levelinfo s) B c \<Longrightarrow> sound (cont s) (tabled s) (cdd_levelinfo s) B d \<Longrightarrow>
          lv (cont s) ?p < lv (cont s) c \<Longrightarrow> lv (cont s) ?p < lv (cont s) d \<Longrightarrow> same_meaning (cont s) c d \<Longrightarrow> c = d"
          using IH True by simp
      qed
    qed
  next
    case False
    then consider "lv (cont s) p < lv (cont s) q" | "lv (cont s) q < lv (cont s) p" by linarith
    then show ?thesis
    proof cases
      case 1
      then have "?p \<noteq> cddfalse" using top [OF less.prems(1)] top [OF less.prems(2)] by auto
      then have False
      proof (rule depends_on_level [OF c n so(1) rglr_rglr _ so(2) _ eq])
        show "lv (cont s) ?p < lv (cont s) ?q" using 1 by simp
        show "\<And>c. sound (cont s) (tabled s) (cdd_levelinfo s) B c \<Longrightarrow> lv (cont s) ?p < lv (cont s) c \<Longrightarrow>
          same_meaning (cont s) c ?q \<Longrightarrow> c = ?q" by (rule IH) (use 1 so in simp_all)
      qed
      then show ?thesis ..
    next
      case 2
      then have "?q \<noteq> cddfalse" using top [OF less.prems(1)] top [OF less.prems(2)] by auto
      then have False
      proof (rule depends_on_level [OF c n so(2) rglr_rglr _ so(1) _ same_meaning_sym [OF eq]])
        show "lv (cont s) ?q < lv (cont s) ?p" using 2 by simp
        show "\<And>c. sound (cont s) (tabled s) (cdd_levelinfo s) B c \<Longrightarrow> lv (cont s) ?q < lv (cont s) c \<Longrightarrow>
          same_meaning (cont s) c ?p \<Longrightarrow> c = ?p" by (rule IH) (use 2 so in simp_all)
      qed
      then show ?thesis ..
    qed
  qed
  then show ?case using mk by (rule ptr_eqI)
qed

end
