(* ===== verification/Kernel_Api.thy ===== *)
theory Kernel_Api
  imports Kernel_Make
begin

text \<open>
  The rest of \<^verbatim>\<open>src/kernel.c\<close>: starting and stopping the library, declaring clocks and
  boolean variables (which lays out the levels), extra terminals, and the traversals that
  mark and unmark nodes.
\<close>

section \<open>Hooks\<close>

definition cdd_pregbc_hook :: "bool \<Rightarrow> unit K" where
  "cdd_pregbc_hook func = modifyM (\<lambda>s. s\<lparr>pregbc_handler := func\<rparr>)"

definition cdd_postgbc_hook :: "bool \<Rightarrow> unit K" where
  "cdd_postgbc_hook func = modifyM (\<lambda>s. s\<lparr>postgbc_handler := func\<rparr>)"

definition cdd_prerehash_hook :: "bool \<Rightarrow> unit K" where
  "cdd_prerehash_hook func = modifyM (\<lambda>s. s\<lparr>prerehash_handler := func\<rparr>)"

definition cdd_postrehash_hook :: "bool \<Rightarrow> unit K" where
  "cdd_postrehash_hook func = modifyM (\<lambda>s. s\<lparr>postrehash_handler := func\<rparr>)"

section \<open>Starting and stopping\<close>

definition cdd_isrunning :: "bool K" where
  "cdd_isrunning = gets cdd_running"

text \<open>
  The chunks of a manager go back to the operating system, and the nodes in them with them.
  C leaves the pointer to the freed manager in place; it must not be used, which None says.
\<close>

fun drop_man :: "mid \<Rightarrow> kstate \<Rightarrow> kstate" where
  "drop_man BddMan s = s\<lparr>bddmanager := None\<rparr>"
| "drop_man (CddMan n) s = s\<lparr>cddmanager := (cddmanager s)[n := None]\<rparr>"

definition cdd_dealloc_nodemanager :: "mid \<Rightarrow> unit K" where
  "cdd_dealloc_nodemanager i =
     bindM (gets (\<lambda>s. man_of s i)) (\<lambda>m. case m of
       None \<Rightarrow> ret ()
     | Some m \<Rightarrow>
         thenM (modifyM (\<lambda>s. s\<lparr>
           nodes := (\<lambda>p. if cdd_node2chunk p \<in> set (m_nodes m) then None else nodes s p),
           chunk_man := (\<lambda>c. if c \<in> set (m_nodes m) then None else chunk_man s c)\<rparr>))
         (modifyM (drop_man i)))"

definition free_extra_terminals :: "unit K" where
  "free_extra_terminals = modifyM (\<lambda>s. s\<lparr>
     nodes := (\<lambda>p. if p \<in> set (extra_terminals s) then None else nodes s p),
     extra_terminals := []\<rparr>)"

definition cdd_done :: "unit K" where
  "cdd_done =
     bindM (gets cdd_running) (\<lambda>running.
     whenM running (
       thenM cdd_operator_done (
       thenM (cdd_dealloc_nodemanager BddMan) (
       bindM (gets cdd_maxcddsize) (\<lambda>mx.
       thenM (forM [0..<mx + 1] (\<lambda>k. cdd_dealloc_nodemanager (CddMan k))) (
       thenM (modifyM (\<lambda>s. s\<lparr>cddmanager := [], cdd_refstack := [], cdd_levelinfo := [],
                             cdd_diff2level := []\<rparr>)) (
       thenM free_extra_terminals
       (modifyM (\<lambda>s. s\<lparr>cdd_running := False\<rparr>)))))))))"

definition terminal_node :: ddnode where
  "terminal_node = \<lparr>n_level = MAXLEVEL, n_ref = MAXREF, n_flag = 0, n_body = Term\<rparr>"

text \<open>
  \<^verbatim>\<open>sizeof(bddNode)\<close> is 16.  The default handlers of \<^verbatim>\<open>cdd_init\<close> only print.  The manager is
  allocated before the results of the earlier allocations are tested, as in C.
\<close>

definition cdd_init :: "nat \<Rightarrow> nat \<Rightarrow> nat \<Rightarrow> int K" where
  "cdd_init maxsize cs stacksize =
     bindM (gets cdd_running) (\<lambda>running.
     if running then cdd_error CDD_RUNNING else
     thenM (modifyM (\<lambda>s. s\<lparr>
       nodes := (nodes s)(cddfalse \<mapsto> terminal_node),
       cdd_maxcddsize := maxsize, cdd_maxcddused := 0, cdd_levelcnt := 0, cdd_chunkcnt := 0,
       cdd_gbccnt := 0, pregbc_handler := False, prerehash_handler := False,
       cdd_refstack := [], cddmanager := [], bddmanager := None, cdd_levelinfo := [],
       cdd_diff2level := [], cdd_clocknum := 0, cdd_varnum := 0,
       postgbc_handler := True, postrehash_handler := True\<rparr>)) (
     bindM (cdd_operator_init cs) (\<lambda>err.
     if err < 0 then thenM cdd_done (ret err) else
     thenM (modifyM (\<lambda>s. s\<lparr>cdd_refstacksize := stacksize,
       cddmanager := (if malloc_ok (4 * (maxsize + 1)) then replicate (maxsize + 1) None else [])\<rparr>)) (
     thenM (cdd_alloc_nodemanager BddMan 16) (
     if \<not> malloc_ok (8 * stacksize) \<or> \<not> malloc_ok (4 * (maxsize + 1))
     then thenM cdd_done (cdd_error CDD_MEMORY)
     else thenM (modifyM (\<lambda>s. s\<lparr>cdd_running := True\<rparr>)) (ret 0))))))"

definition cdd_ensure_running :: "unit K" where
  "cdd_ensure_running =
     bindM (gets cdd_running) (\<lambda>running.
     whenM (\<not> running) (
       bindM (cdd_init 64 10000 10000) (\<lambda>_.
       thenM (cdd_pregbc_hook False) (
       thenM (cdd_postgbc_hook False) (
       thenM (cdd_prerehash_hook False)
       (cdd_postrehash_hook False))))))"

section \<open>Extra terminals\<close>

text \<open>The \<open>k\<close>-th extra terminal gets the id \<open>k\<close>.\<close>

definition add_tautology :: "nat \<Rightarrow> unit K" where
  "add_tautology k =
     bindM (gets (\<lambda>s. env_xterm (env s) k)) (\<lambda>p.
     thenM (guardM NoMem (p \<noteq> 0))
     (modifyM (\<lambda>s. s\<lparr>
       nodes := (nodes s)(p \<mapsto> \<lparr>n_level = MAXLEVEL, n_ref = MAXREF, n_flag = 0, n_body = XTerm (int k)\<rparr>),
       extra_terminals := extra_terminals s @ [p]\<rparr>)))"

definition cdd_add_tautologies :: "nat \<Rightarrow> unit K" where
  "cdd_add_tautologies n =
     bindM (gets (\<lambda>s. length (extra_terminals s))) (\<lambda>oldn.
     forM [oldn..<oldn + n] add_tautology)"

definition cdd_get_tautology_id :: "ptr \<Rightarrow> int K" where
  "cdd_get_tautology_id p =
     bindM (cdd_is_extra_terminal p) (\<lambda>x.
     thenM (guardM AssertFail x) (
     bindM (get_node p) (\<lambda>n. case n_body n of XTerm k \<Rightarrow> ret k | _ \<Rightarrow> fail Segv)))"

definition cdd_eval_true :: "ptr \<Rightarrow> bool K" where
  "cdd_eval_true p =
     (if p = cddtrue then ret True
      else bindM (cdd_is_extra_terminal p) (\<lambda>x. ret (x \<and> cdd_mask p = 0)))"

definition cdd_eval_false :: "ptr \<Rightarrow> bool K" where
  "cdd_eval_false p =
     (if p = cddfalse then ret True
      else bindM (cdd_is_extra_terminal p) (\<lambda>x. ret (x \<and> cdd_mask p \<noteq> 0)))"

definition cdd_get_number_of_tautologies :: "nat K" where
  "cdd_get_number_of_tautologies = gets (\<lambda>s. length (extra_terminals s))"

section \<open>Levels\<close>

definition add_levels_to_nodemanager :: "mid \<Rightarrow> nat \<Rightarrow> unit K" where
  "add_levels_to_nodemanager i n =
     bindM (gets cdd_levelcnt) (\<lambda>k.
     upd_man i (\<lambda>m. m\<lparr>m_subtables := take k (m_subtables m) @ replicate n None\<rparr>))"

text \<open>The loop of \<^verbatim>\<open>add_levels\<close> stops below \<^verbatim>\<open>cdd_maxcddsize\<close>.\<close>

definition add_levels :: "nat \<Rightarrow> unit K" where
  "add_levels n =
     thenM (add_levels_to_nodemanager BddMan n) (
     bindM (gets cdd_maxcddsize) (\<lambda>mx.
     forM [0..<mx] (\<lambda>i.
       bindM (gets (\<lambda>s. man_of s (CddMan i))) (\<lambda>m.
       whenM (m \<noteq> None) (add_levels_to_nodemanager (CddMan i) n)))))"

definition add_level_info :: "nat \<Rightarrow> nat \<Rightarrow> unit K" where
  "add_level_info i j =
     bindM (gets (\<lambda>s. length (cdd_diff2level s))) (\<lambda>len.
     thenM (guardM Segv (cdd_difference i j < len))
     (modifyM (\<lambda>s. s\<lparr>
       cdd_levelinfo := cdd_levelinfo s @
         [\<lparr>li_type = TYPE_CDD, li_clock1 = i, li_clock2 = j, li_diff = cdd_difference i j\<rparr>],
       cdd_diff2level := (cdd_diff2level s)[cdd_difference i j := cdd_levelcnt s],
       cdd_levelcnt := cdd_levelcnt s + 1\<rparr>)))"

definition resize :: "nat \<Rightarrow> 'a \<Rightarrow> 'a list \<Rightarrow> 'a list" where
  "resize n x xs = take n xs @ replicate (n - length xs) x"

definition cdd_add_clocks :: "nat \<Rightarrow> unit K" where
  "cdd_add_clocks n =
     bindM (gets cdd_clocknum) (\<lambda>c.
     thenM (add_levels (cdd_difference_count (c + n) - cdd_difference_count c)) (
     thenM (modifyM (\<lambda>s. s\<lparr>cdd_diff2level := resize (cdd_difference_count (c + n)) 0 (cdd_diff2level s)\<rparr>)) (
     thenM (forM [c..<c + n] (\<lambda>i. forM [0..<i] (\<lambda>j. add_level_info i j)))
     (modifyM (\<lambda>s. s\<lparr>cdd_clocknum := cdd_clocknum s + n\<rparr>)))))"

text \<open>Only the type of a boolean level is written; the other fields are taken to be 0.\<close>

definition cdd_add_bddvar :: "nat \<Rightarrow> nat K" where
  "cdd_add_bddvar n =
     bindM (gets cdd_levelcnt) (\<lambda>offset.
     thenM (add_levels n) (
     thenM (modifyM (\<lambda>s. s\<lparr>cdd_levelcnt := cdd_levelcnt s + n, cdd_varnum := cdd_varnum s + n,
       cdd_levelinfo := cdd_levelinfo s @
         replicate n \<lparr>li_type = TYPE_BDD, li_clock1 = 0, li_clock2 = 0, li_diff = 0\<rparr>,
       bdd_start_level := offset\<rparr>))
     (ret offset)))"

definition cdd_getclocks :: "nat K" where
  "cdd_getclocks = gets cdd_clocknum"

definition cdd_get_levelinfo :: "nat \<Rightarrow> LevelInfo K" where
  "cdd_get_levelinfo level = levelinfo_at level"

definition cdd_get_level_count :: "nat K" where
  "cdd_get_level_count = gets cdd_levelcnt"

definition cdd_get_bdd_level_count :: "nat K" where
  "cdd_get_bdd_level_count = gets cdd_varnum"

section \<open>Marking\<close>

text \<open>
  The traversals recurse along the edges, which lead to higher levels, so the depth is at
  most the number of levels plus one for the terminal; that is the fuel the entry points give.
  The children of a BDD node are visited without its negation bit.
\<close>

definition node_children :: "ptr \<Rightarrow> ptr list K" where
  "node_children p =
     bindM (cdd_info p) (\<lambda>info. case li_type info of
       TYPE_CDD \<Rightarrow> cdd_it_children p
     | TYPE_BDD \<Rightarrow> bindM (bdd_node p) (\<lambda>(lo, hi). ret [lo, hi]))"

fun mark_rec :: "nat \<Rightarrow> ptr \<Rightarrow> unit K" where
  "mark_rec 0 p = fail NoFuel"
| "mark_rec (Suc n) p =
     bindM (cdd_isterminal p) (\<lambda>t. bindM (if t then ret True else cdd_ismarked p) (\<lambda>skip.
     if skip then ret () else
     thenM (cdd_setmark p) (
     bindM (node_children p) (\<lambda>cs. forM cs (mark_rec n)))))"

definition cdd_mark :: "ptr \<Rightarrow> unit K" where
  "cdd_mark p = bindM (gets cdd_levelcnt) (\<lambda>n. mark_rec (n + 2) p)"

text \<open>The counting variants return what they add to \<^verbatim>\<open>*cnt\<close>.\<close>

fun sumM :: "'a list \<Rightarrow> ('a \<Rightarrow> nat K) \<Rightarrow> nat K" where
  "sumM [] f = ret 0"
| "sumM (x # xs) f = bindM (f x) (\<lambda>a. bindM (sumM xs f) (\<lambda>b. ret (a + b)))"

fun markcount_rec :: "nat \<Rightarrow> ptr \<Rightarrow> nat K" where
  "markcount_rec 0 p = fail NoFuel"
| "markcount_rec (Suc n) p =
     bindM (cdd_isterminal p) (\<lambda>t. bindM (if t then ret True else cdd_ismarked p) (\<lambda>skip.
     if skip then ret 0 else
     thenM (cdd_setmark p) (
     bindM (node_children p) (\<lambda>cs.
     bindM (sumM cs (markcount_rec n)) (\<lambda>k. ret (Suc k))))))"

fun markedgecount_rec :: "nat \<Rightarrow> ptr \<Rightarrow> nat K" where
  "markedgecount_rec 0 p = fail NoFuel"
| "markedgecount_rec (Suc n) p =
     bindM (cdd_isterminal p) (\<lambda>t. bindM (if t then ret True else cdd_ismarked p) (\<lambda>skip.
     if skip then ret 0 else
     thenM (cdd_setmark p) (
     bindM (node_children p) (\<lambda>cs.
     bindM (sumM cs (markedgecount_rec n)) (\<lambda>k. ret (length cs + k))))))"

fun unmark_rec :: "nat \<Rightarrow> ptr \<Rightarrow> unit K" where
  "unmark_rec 0 p = fail NoFuel"
| "unmark_rec (Suc n) p =
     bindM (if cdd_is_tfterminal p then ret False else cdd_ismarked p) (\<lambda>go.
     if \<not> go then ret () else
     thenM (cdd_resetmark p) (
     bindM (cdd_is_extra_terminal p) (\<lambda>x. if x then ret () else
     bindM (node_children p) (\<lambda>cs. forM cs (unmark_rec n)))))"

fun force_unmark_rec :: "nat \<Rightarrow> ptr \<Rightarrow> unit K" where
  "force_unmark_rec 0 p = fail NoFuel"
| "force_unmark_rec (Suc n) p =
     (if cdd_is_tfterminal p then ret () else
     thenM (cdd_resetmark p) (
     bindM (cdd_is_extra_terminal p) (\<lambda>x. if x then ret () else
     bindM (node_children p) (\<lambda>cs. forM cs (force_unmark_rec n)))))"

definition cdd_markcount :: "ptr \<Rightarrow> nat K" where
  "cdd_markcount p = bindM (gets cdd_levelcnt) (\<lambda>n. markcount_rec (n + 2) p)"

definition cdd_markedgecount :: "ptr \<Rightarrow> nat K" where
  "cdd_markedgecount p = bindM (gets cdd_levelcnt) (\<lambda>n. markedgecount_rec (n + 2) p)"

definition cdd_unmark :: "ptr \<Rightarrow> unit K" where
  "cdd_unmark p = bindM (gets cdd_levelcnt) (\<lambda>n. unmark_rec (n + 2) p)"

definition cdd_force_unmark :: "ptr \<Rightarrow> unit K" where
  "cdd_force_unmark p = bindM (gets cdd_levelcnt) (\<lambda>n. force_unmark_rec (n + 2) p)"

definition cdd_nodecount :: "ptr \<Rightarrow> int K" where
  "cdd_nodecount p =
     (if p = 0 then cdd_error CDD_ILLCDD
      else bindM (cdd_markcount p) (\<lambda>n. thenM (cdd_unmark p) (ret (int n))))"

definition cdd_edgecount :: "ptr \<Rightarrow> int K" where
  "cdd_edgecount p =
     (if p = 0 then cdd_error CDD_ILLCDD
      else bindM (cdd_markedgecount p) (\<lambda>n. thenM (cdd_unmark p) (ret (int n))))"

end
