(* ===== verification/Apply.thy ===== *)
theory Apply
  imports Kernel_Api
begin

text \<open>
  The binary operators of \<^verbatim>\<open>src/cddop.c\<close>: \<^verbatim>\<open>cdd_apply\<close> with its cache, and \<^verbatim>\<open>cdd_ite\<close>.
  The recursion of \<^verbatim>\<open>cdd_apply_rec\<close> goes along edges, so its depth is bounded by the number
  of levels; the walk along two element arrays ends after as many steps as they have elements.
\<close>

section \<open>Hashing and cache slots\<close>

definition APPLYHASH :: "ptr \<Rightarrow> ptr \<Rightarrow> int \<Rightarrow> 32 word" where
  "APPLYHASH l r op = ((word_of_int op + l) * 12582917 + r) * 4256249"

definition cache_slot :: "(kstate \<Rightarrow> cddcache) \<Rightarrow> 32 word \<Rightarrow> nat K" where
  "cache_slot sel h = bindM (gets sel) (\<lambda>c. someM Segv (CddCache_lookup c (unat h)))"

definition cache_entry :: "(kstate \<Rightarrow> cddcache) \<Rightarrow> nat \<Rightarrow> cache_data K" where
  "cache_entry sel i = bindM (gets sel) (\<lambda>c.
     if i < length (cache_table c) then ret (cache_table c ! i) else fail Segv)"

definition upd_entry :: "nat \<Rightarrow> (cache_data \<Rightarrow> cache_data) \<Rightarrow> cddcache \<Rightarrow> cddcache" where
  "upd_entry i f c = c\<lparr>cache_table := (cache_table c)[i := f (cache_table c ! i)]\<rparr>"

section \<open>Walking along element arrays\<close>

text \<open>
  The element pointers \<^verbatim>\<open>lp\<close> and \<^verbatim>\<open>rp\<close>: into the array of a node, or into the reference stack,
  where a node of a lower level is put as the only child of a node of one element.
\<close>

datatype cursor = In_node ptr nat | On_stack nat

fun at_cursor :: "cursor \<Rightarrow> elem K" where
  "at_cursor (In_node p i) = elem_at p i"
| "at_cursor (On_stack i) = bindM (gets cdd_refstack) (\<lambda>stk.
     if i < length stk then ret (stk ! i) else fail Segv)"

fun next_cursor :: "cursor \<Rightarrow> cursor" where
  "next_cursor (In_node p i) = In_node p (i + 1)"
| "next_cursor (On_stack i) = On_stack (i + 1)"

definition step_cursor :: "raw_t \<Rightarrow> cursor \<Rightarrow> cursor K" where
  "step_cursor bnd c =
     bindM (at_cursor c) (\<lambda>e. ret (if e_bnd e = bnd then next_cursor c else c))"

definition cursor_for :: "bool \<Rightarrow> ptr \<Rightarrow> cursor K" where
  "cursor_for here p =
     (if here then ret (In_node p 0)
      else bindM (gets (\<lambda>s. length (cdd_refstack s))) (\<lambda>n.
        thenM (cdd_push p bnd_INF) (ret (On_stack n))))"

definition stack_from :: "nat \<Rightarrow> elem list K" where
  "stack_from n = gets (\<lambda>s. drop n (cdd_refstack s))"

definition stack_reset :: "nat \<Rightarrow> unit K" where
  "stack_reset n = modifyM (\<lambda>s. s\<lparr>cdd_refstack := take n (cdd_refstack s)\<rparr>)"

section \<open>\<^verbatim>\<open>cdd_apply\<close>\<close>

text \<open>The results that need no recursion.\<close>

definition apply_terminal :: "int \<Rightarrow> ptr \<Rightarrow> ptr \<Rightarrow> ptr option" where
  "apply_terminal op l r =
     (if op = 0 then
        (if l = r \<or> r = cddtrue then Some l
         else if l = cddfalse \<or> r = cddfalse \<or> l = cdd_neg r then Some cddfalse
         else if l = cddtrue then Some r
         else None)
      else if op = 1 then
        (if l = r then Some cddfalse
         else if l = cdd_neg r then Some cddtrue
         else if l = cddfalse then Some r
         else if r = cddfalse then Some l
         else if l = cddtrue then Some (cdd_neg r)
         else if r = cddtrue then Some (cdd_neg l)
         else None)
      else None)"

text \<open>
  The loop over the pairs of children; \<open>prev\<close> is the last child made, which holds a
  reference but is not yet on the stack.
\<close>

fun apply_loop :: "nat \<Rightarrow> (ptr \<Rightarrow> ptr \<Rightarrow> ptr K) \<Rightarrow> ptr \<Rightarrow> ptr \<Rightarrow> ptr \<Rightarrow>
    cursor \<Rightarrow> cursor \<Rightarrow> ptr \<Rightarrow> raw_t \<Rightarrow> ptr K" where
  "apply_loop m rec lmask rmask msk lp rp prev bnd =
     (if \<not> bnd < bnd_INF then ret prev
      else case m of 0 \<Rightarrow> fail NoFuel | Suc m \<Rightarrow>
        bindM (step_cursor bnd lp) (\<lambda>lp. bindM (step_cursor bnd rp) (\<lambda>rp.
        bindM (at_cursor lp) (\<lambda>le. bindM (at_cursor rp) (\<lambda>re.
        bindM (rec (cdd_neg_cond (e_child le) lmask) (cdd_neg_cond (e_child re) rmask)) (\<lambda>n.
        bindM (if n \<noteq> prev
               then thenM (cdd_push (cdd_neg_cond prev msk) bnd) (thenM (cdd_ref n) (ret n))
               else ret prev) (\<lambda>prev.
        bindM (at_cursor lp) (\<lambda>le. bindM (at_cursor rp) (\<lambda>re.
        apply_loop m rec lmask rmask msk lp rp prev (minimum (e_bnd le) (e_bnd re)))))))))))"

declare apply_loop.simps [simp del]

text \<open>The two cases, from the push of fake nodes to the references given back; \<open>l\<close> and \<open>r\<close> are regular.\<close>

definition apply_cdd :: "(ptr \<Rightarrow> ptr \<Rightarrow> ptr K) \<Rightarrow> nat \<Rightarrow> ptr \<Rightarrow> ptr \<Rightarrow> nat \<Rightarrow> nat \<Rightarrow> ptr \<Rightarrow> ptr \<Rightarrow> unit K" where
  "apply_cdd rec slot l r ll rl lmask rmask =
     bindM (gets (\<lambda>s. length (cdd_refstack s))) (\<lambda>tos.
     bindM (cursor_for (ll \<le> rl) l) (\<lambda>lp.
     bindM (cursor_for (ll \<ge> rl) r) (\<lambda>rp.
     bindM (gets (\<lambda>s. length (cdd_refstack s))) (\<lambda>first.
     bindM (at_cursor lp) (\<lambda>le. bindM (at_cursor rp) (\<lambda>re.
     bindM (rec (cdd_neg_cond (e_child le) lmask) (cdd_neg_cond (e_child re) rmask)) (\<lambda>prev.
     thenM (cdd_ref prev) (
     let msk = cdd_mask prev in
     bindM (at_cursor lp) (\<lambda>le. bindM (at_cursor rp) (\<lambda>re.
     bindM (gets cdd_maxcddsize) (\<lambda>mx.
     bindM (apply_loop (2 * mx) rec lmask rmask msk lp rp prev (minimum (e_bnd le) (e_bnd re))) (\<lambda>prev.
     thenM (cdd_push (cdd_neg_cond prev msk) bnd_INF) (
     bindM (stack_from first) (\<lambda>es.
     bindM (cdd_make_cdd_node (min ll rl) es) (\<lambda>p.
     thenM (modifyM (\<lambda>s. s\<lparr>applycache := upd_entry slot (\<lambda>e. e\<lparr>c_res := cdd_neg_cond p msk\<rparr>) (applycache s)\<rparr>)) (
     bindM (stack_from first) (\<lambda>es.
     thenM (forM es (\<lambda>e. cdd_deref (e_child e)))
     (stack_reset tos))))))))))))))))))"

definition apply_bdd :: "(ptr \<Rightarrow> ptr \<Rightarrow> ptr K) \<Rightarrow> nat \<Rightarrow> ptr \<Rightarrow> ptr \<Rightarrow> nat \<Rightarrow> nat \<Rightarrow> ptr \<Rightarrow> ptr \<Rightarrow> unit K" where
  "apply_bdd rec slot l r ll rl lmask rmask =
     bindM (if ll \<le> rl then bdd_node l else ret (l, l)) (\<lambda>(ll0, lh).
     bindM (if ll \<ge> rl then bdd_node r else ret (r, r)) (\<lambda>(rl0, rh).
     bindM (rec (cdd_neg_cond ll0 lmask) (cdd_neg_cond rl0 rmask)) (\<lambda>n.
     thenM (cdd_ref n) (
     bindM (rec (cdd_neg_cond lh lmask) (cdd_neg_cond rh rmask)) (\<lambda>h.
     bindM (cdd_make_bdd_node (min ll rl) n h) (\<lambda>p.
     thenM (modifyM (\<lambda>s. s\<lparr>applycache := upd_entry slot (\<lambda>e. e\<lparr>c_res := p\<rparr>) (applycache s)\<rparr>))
     (cdd_deref n)))))))"

text \<open>
  \<^verbatim>\<open>cdd_apply_rec\<close>.  Two different extra terminals make the code print a message and return
  the left one.
\<close>

fun cdd_apply_rec :: "nat \<Rightarrow> ptr \<Rightarrow> ptr \<Rightarrow> ptr K" where
  "cdd_apply_rec 0 l r = fail NoFuel"
| "cdd_apply_rec (Suc n) l r =
     bindM (gets cdd_errorcond) (\<lambda>err. if err \<noteq> 0 then ret 0 else
     bindM (gets applyop) (\<lambda>op.
     case apply_terminal op l r of Some p \<Rightarrow> ret p | None \<Rightarrow>
     let (l, r) = (if l > r then (r, l) else (l, r)) in
     bindM (cdd_isterminal l) (\<lambda>tl. bindM (if tl then cdd_isterminal r else ret False) (\<lambda>both.
     if both then
       bindM (cdd_is_extra_terminal l) (\<lambda>xl. bindM (cdd_is_extra_terminal r) (\<lambda>xr.
       thenM (guardM AssertFail (xl \<and> xr)) (ret l)))
     else
     bindM (cache_slot applycache (APPLYHASH l r op)) (\<lambda>slot.
     bindM (cache_entry applycache slot) (\<lambda>e.
     if c_a e = l \<and> c_b e = r \<and> c_c e = op then thenM (revive (c_res e)) (ret (c_res e))
     else
       let lmask = cdd_mask l; rmask = cdd_mask r; l = cdd_rglr l; r = cdd_rglr r in
       bindM (level_of l) (\<lambda>ll. bindM (level_of r) (\<lambda>rl.
       bindM (levelinfo_at (min ll rl)) (\<lambda>info.
       thenM (case li_type info of
           TYPE_CDD \<Rightarrow> apply_cdd (cdd_apply_rec n) slot l r ll rl lmask rmask
         | TYPE_BDD \<Rightarrow> apply_bdd (cdd_apply_rec n) slot l r ll rl lmask rmask) (
       bindM (gets applyop) (\<lambda>op.
       thenM (modifyM (\<lambda>s. s\<lparr>applycache := upd_entry slot (\<lambda>e. e\<lparr>c_a := cdd_neg_cond l lmask,
           c_b := cdd_neg_cond r rmask, c_c := op\<rparr>) (applycache s)\<rparr>)) (
       bindM (cache_entry applycache slot) (\<lambda>e. ret (c_res e))))))))))))))"

text \<open>The fuel: one call per level and one for the terminals.\<close>

definition cdd_apply :: "ptr \<Rightarrow> ptr \<Rightarrow> int \<Rightarrow> ptr K" where
  "cdd_apply l h op =
     thenM (modifyM (\<lambda>s. s\<lparr>applyop := op\<rparr>)) (
     bindM (gets cdd_levelcnt) (\<lambda>n.
     bindM (cdd_apply_rec (n + 1) l h) (\<lambda>res.
     bindM (gets cdd_errorcond) (\<lambda>err.
     if err \<noteq> 0 then thenM (cdd_error err) (ret 0) else ret res))))"

definition cdd_and :: "ptr \<Rightarrow> ptr \<Rightarrow> ptr K" where
  "cdd_and l r = cdd_apply l r 0"

definition cdd_xor :: "ptr \<Rightarrow> ptr \<Rightarrow> ptr K" where
  "cdd_xor l r = cdd_apply l r 1"

definition cdd_or :: "ptr \<Rightarrow> ptr \<Rightarrow> ptr K" where
  "cdd_or l r = bindM (cdd_and (cdd_neg l) (cdd_neg r)) (\<lambda>p. ret (cdd_neg p))"

definition cdd_ite :: "ptr \<Rightarrow> ptr \<Rightarrow> ptr \<Rightarrow> ptr K" where
  "cdd_ite f g h =
     bindM (cdd_and f g) (\<lambda>g.
     thenM (cdd_ref g) (
     bindM (cdd_and (cdd_neg f) h) (\<lambda>h.
     thenM (cdd_ref h) (
     bindM (cdd_or g h) (\<lambda>f.
     thenM (cdd_ref f) (
     thenM (cdd_rec_deref g) (
     thenM (cdd_rec_deref h) (
     thenM (cdd_deref f) (ret f)))))))))"

definition cdd_apply_tautology :: "ptr \<Rightarrow> nat \<Rightarrow> ptr K" where
  "cdd_apply_tautology node t_id =
     bindM (gets extra_terminals) (\<lambda>xs.
     thenM (guardM AssertFail (t_id < length xs)) (cdd_apply node (xs ! t_id) 0))"

end
