(* ===== verification/Apply_Spec.thy ===== *)
theory Apply_Spec
  imports Make_Nodes Apply
begin

text \<open>
  Correctness of \<^verbatim>\<open>cdd_apply\<close>: for conjunction and exclusive or it returns, without running
  out of fuel, a well-formed diagram that means the operation on its arguments; it keeps
  every diagram the client holds and the caches, whatever collections happen on the way.
\<close>

declare split_paired_All [simp del]

section \<open>What a call promises\<close>

definition op_result :: "meaning \<Rightarrow> (ptr \<Rightarrow> nat) \<Rightarrow> (nat \<Rightarrow> raw_t set) \<Rightarrow> kstate \<Rightarrow> int \<Rightarrow> ptr \<Rightarrow> ptr \<Rightarrow> ptr \<Rightarrow> kstate \<Rightarrow> bool" where
  "op_result T X B s op l r p s' \<longleftrightarrow> core s' X {cdd_rglr p} {} B \<and> caches_mean T s' B \<and> frames X s s' \<and>
     sound (cont s') (tabled s') (cdd_levelinfo s') B p \<and>
     min (lv (cont s) l) (lv (cont s) r) \<le> lv (cont s') p \<and>
     (\<forall>a. eval (cont s') a p = op_sem op (eval (cont s) a l) (eval (cont s) a r))"

definition mode :: "int \<Rightarrow> nat \<Rightarrow> kstate \<Rightarrow> bool" where
  "mode op N s \<longleftrightarrow> applyop s = op \<and> cdd_levelcnt s = N"

definition rec_ok :: "meaning \<Rightarrow> (nat \<Rightarrow> raw_t set) \<Rightarrow> int \<Rightarrow> nat \<Rightarrow> nat \<Rightarrow> (ptr \<Rightarrow> ptr \<Rightarrow> ptr K) \<Rightarrow> bool" where
  "rec_ok T B op N k rec \<longleftrightarrow> (\<forall>s X F l r. core s X F {} B \<longrightarrow> caches_mean T s B \<longrightarrow> mode op N s \<longrightarrow>
     reach X s l \<longrightarrow> reach X s r \<longrightarrow> k < lv (cont s) l \<longrightarrow> k < lv (cont s) r \<longrightarrow>
     wp (rec l r) (op_result T X B s op l r) s)"

lemma rec_okD:
  assumes "rec_ok T B op N k rec" "core s X F {} B" "caches_mean T s B" "mode op N s" "reach X s l" "reach X s r"
    "k < lv (cont s) l" "k < lv (cont s) r"
  shows "wp (rec l r) (op_result T X B s op l r) s"
  using assms unfolding rec_ok_def by blast

section \<open>Results without recursion\<close>

lemma apply_terminal_cases:
  assumes "apply_terminal op l r = Some p"
  shows "p = l \<or> p = r \<or> p = cdd_neg l \<or> p = cdd_neg r \<or> cdd_rglr p = cddfalse"
  using assms by (auto simp: apply_terminal_def split: if_splits)

lemma apply_terminal_eval:
  assumes "op = cddop_and \<or> op = cddop_xor" "C cddfalse = Some (k, Term)" "apply_terminal op l r = Some p"
  shows "eval C a p = op_sem op (eval C a l) (eval C a r)"
proof -
  have [simp]: "eval C a cddfalse = False" "eval C a cddtrue = True"
    using eval_term [of C k cddfalse a] eval_term [of C k cddtrue a] assms(2) by simp_all
  show ?thesis
    using assms(1,3) unfolding apply_terminal_def op_sem_def cddop_and_def cddop_xor_def
    by (auto split: if_splits)
qed

lemma apply_terminal_None:
  assumes "op = cddop_and \<or> op = cddop_xor" "apply_terminal op l r = None"
  shows "cdd_rglr l \<noteq> cddfalse" "cdd_rglr r \<noteq> cddfalse"
  using assms tf_cases [of l] tf_cases [of r]
  by (auto simp: apply_terminal_def cddop_and_def cddop_xor_def split: if_splits)

lemma lv_term: "core s X F W B \<Longrightarrow> cdd_rglr p = cddfalse \<Longrightarrow> lv (cont s) p = MAXLEVEL"
  by (simp add: lv_def core_term(1))

lemma lv_le: "core s X F {} B \<Longrightarrow> sound (cont s) (tabled s) (cdd_levelinfo s) B p \<Longrightarrow> lv (cont s) p \<le> MAXLEVEL"
  using sound_level [of "cont s" "tabled s" "cdd_levelinfo s" B p] core_levels(1,2) [of s X F "{}" B] lv_term [of s X F "{}" B p]
  by fastforce

lemma apply_terminal_spec:
  assumes c: "core s X F {} B" and k: "caches_mean T s B" and op: "op = cddop_and \<or> op = cddop_xor"
    and r: "reach X s l" "reach X s r" and t: "apply_terminal op l r = Some p"
  shows "op_result T X B s op l r p s"
proof -
  have rp: "reach X s p" using apply_terminal_cases [OF t] r reach_term by auto
  have "lv (cont s) p = lv (cont s) l \<or> lv (cont s) p = lv (cont s) r \<or> lv (cont s) p = MAXLEVEL"
    using apply_terminal_cases [OF t] lv_term [OF c] by auto
  then have "min (lv (cont s) l) (lv (cont s) r) \<le> lv (cont s) p"
    using lv_le [OF c reach_sound [OF c r(1)]] by auto
  then show ?thesis
    using core_single [OF c reach_usable [OF c rp]] k reach_sound [OF c rp]
      apply_terminal_eval [where C = "cont s", OF op core_term(1) [OF c] t]
    by (simp add: op_result_def)
qed

section \<open>Nodes\<close>

lemma reach_node:
  assumes c: "core s X F {} B" and r: "reach X s p" "cdd_rglr p = p" "p \<noteq> cddfalse"
  obtains b where "cont s p = Some (lv (cont s) p, b)" "shape_ok (cdd_levelinfo s) B (lv (cont s) p) b"
    "\<And>c. c \<in> set (kids b) \<Longrightarrow> reach X s c \<and> lv (cont s) p < lv (cont s) c"
    "lv (cont s) p < cdd_levelcnt s" "lv (cont s) p < MAXLEVEL"
proof -
  from reach_sound [OF c r(1)] obtain k b where b: "cont s p = Some (k, b)" "shape_ok (cdd_levelinfo s) B k b"
    "\<forall>c \<in> set (kids b). k < lv (cont s) c"
    using r(2,3) by (auto elim: soundE)
  have k: "lv (cont s) p = k" using b(1) r(2) by (simp add: lv_def)
  have "reach X s c" if "c \<in> set (kids b)" for c
    using reach_kid [OF r(1), of c] that b(1) r(2) by (simp add: kids_of_def)
  then show ?thesis using that [of b] b k core_levels(1,2) [OF c] by (auto simp: shape_ok_def)
qed

lemma sim_applycache:
  assumes "sim (s\<lparr>applycache := a\<rparr>) z"
  shows "sim s (z\<lparr>applycache := applycache s\<rparr>)"
proof -
  have b: "blank (u\<lparr>applycache := c\<rparr>) = (blank u)\<lparr>applycache := c\<rparr>" for u c
    by (cases u) (simp add: blank_def)
  have "blank (z\<lparr>applycache := applycache s\<rparr>) = blank (s\<lparr>applycache := a, applycache := applycache s\<rparr>)"
    using assms unfolding b by (simp add: sim_def b)
  then have "blank (z\<lparr>applycache := applycache s\<rparr>) = blank s" by simp
  moreover have "man_of (z\<lparr>applycache := b\<rparr>) i = man_of z i" "man_of (s\<lparr>applycache := b\<rparr>) i = man_of s i" for b i
    by (cases i; simp)+
  moreover have "cont (z\<lparr>applycache := b\<rparr>) = cont z" "cont (s\<lparr>applycache := b\<rparr>) = cont s" for b
    by (simp_all add: fun_eq_iff cont_def)
  ultimately show ?thesis using assms by (simp add: sim_def del: man_of.simps)
qed

lemma derefs_spec:
  assumes "core s (with_toks X (cs @ ps)) F {} B"
  shows "wp (forM cs cdd_deref) (\<lambda>_ s'. core s' (with_toks X ps) (cdd_rglr ` set cs \<union> F) {} B \<and> sim s s') s"
  using assms
proof (induction cs arbitrary: s F)
  case Nil
  then show ?case by (simp add: wp_simps)
next
  case (Cons c cs)
  have "core s (with_toks X (c # (cs @ ps))) F {} B" using Cons.prems by simp
  then show ?case
    unfolding forM.simps wp_then
  proof (rule wp_mono [OF cdd_deref_spec], elim conjE)
    fix x t assume t: "core t (with_toks X (cs @ ps)) (insert (cdd_rglr c) F) {} B" "sim s t"
    show "wp (forM cs cdd_deref) (\<lambda>_ s'. core s' (with_toks X ps) (cdd_rglr ` set (c # cs) \<union> F) {} B \<and> sim s s') t"
      by (rule wp_mono [OF Cons.IH [OF t(1)]]) (use t(2) sim_trans in auto)
  qed
qed

lemma with_toks_regular: "with_toks X (map cdd_rglr ps) = with_toks X ps"
  by (simp add: with_toks_def fun_eq_iff comp_def)

section \<open>What a branch leaves behind\<close>

text \<open>
  The result is written into the cache entry before the entry's key; \<open>a\<close> is the cache before
  that write, which is still right.
\<close>

definition branch_ok :: "meaning \<Rightarrow> (ptr \<Rightarrow> nat) \<Rightarrow> (nat \<Rightarrow> raw_t set) \<Rightarrow> kstate \<Rightarrow> int \<Rightarrow> ptr \<Rightarrow> ptr \<Rightarrow> nat \<Rightarrow> kstate \<Rightarrow> bool" where
  "branch_ok T X B s op l r slot z \<longleftrightarrow> (\<exists>p a. applycache z = upd_entry slot (\<lambda>e. e\<lparr>c_res := p\<rparr>) a \<and>
     slot < length (cache_table a) \<and> op_result T X B s op l r p (z\<lparr>applycache := a\<rparr>))"

lemma cache_size:
  assumes "caches_mean T s B" "caches_mean T t B" "same_env s t"
  shows "length (cache_table (applycache t)) = length (cache_table (applycache s))"
  using assms by (simp add: caches_mean_def cache_shape_def same_env_def)

section \<open>Boolean variables\<close>

lemma bdd_cofactor:
  assumes c: "core s X F {} B" and r: "reach X s l" "cdd_rglr l = l" "l \<noteq> cddfalse"
    and t: "li_type (cdd_levelinfo s ! k) = TYPE_BDD" and k: "k \<le> lv (cont s) l"
  obtains l0 l1 where "(if k = lv (cont s) l then bdd_node l else ret (l, l)) s = Inr ((l0, l1), s)"
    "reach X s l0" "reach X s l1" "k < lv (cont s) l0" "k < lv (cont s) l1"
    "\<And>a. eval (cont s) a l = (if snd a k then eval (cont s) a l1 else eval (cont s) a l0)"
proof -
  obtain b where b: "cont s l = Some (lv (cont s) l, b)" "shape_ok (cdd_levelinfo s) B (lv (cont s) l) b"
    "\<And>c. c \<in> set (kids b) \<Longrightarrow> reach X s c \<and> lv (cont s) l < lv (cont s) c" "lv (cont s) l < MAXLEVEL"
    using reach_node [OF c r] by metis
  show ?thesis
  proof (cases "k = lv (cont s) l")
    case True
    then obtain lo hi where bd: "b = Bdd lo hi" using b(2) t by (auto simp: shape_ok_def split: body.splits)
    show ?thesis
    proof (rule that [of lo hi])
      show "(if k = lv (cont s) l then bdd_node l else ret (l, l)) s = Inr ((lo, hi), s)"
        using True bdd_node_eq [OF b(1) [unfolded bd] r(2)] by simp
      show "eval (cont s) a l = (if snd a k then eval (cont s) a hi else eval (cont s) a lo)" for a
        using eval_bdd [OF b(1) [unfolded bd] r(2)] b(3,4) bd True by simp
    qed (use b(3) bd True in auto)
  next
    case False
    then show ?thesis using that [of l l] r k by (simp add: ret_def)
  qed
qed

lemma reach_frames:
  assumes "core s X F W B" "frames X s t" "reach X s p"
  shows "reach X t p" "lv (cont t) p = lv (cont s) p" "eval (cont t) a p = eval (cont s) a p"
  using frames_reach [OF assms(1) _ assms(2)] frames_lv [OF assms(2,3)] frames_eval [OF assms(2,3)] assms(3) by auto

lemma toks_pos: "0 < X q \<Longrightarrow> 0 < with_toks X ps q"
  using with_toks_le [of X q ps] by simp

lemma op_sem_if:
  "op_sem op (if c then x else y) (if c then x' else y') = (if c then op_sem op x x' else op_sem op y y')"
  by simp

lemma apply_bdd_spec:
  assumes c: "core s X F {} B" and k: "caches_mean T s B" and op: "mode op N s"
    and r: "reach X s l" "reach X s r" "cdd_rglr l \<noteq> cddfalse" "cdd_rglr r \<noteq> cddfalse"
    and lev: "ll = lv (cont s) l" "rl = lv (cont s) r"
    and ty: "li_type (cdd_levelinfo s ! min ll rl) = TYPE_BDD"
    and rec: "rec_ok T B op N (min ll rl) rec"
    and slot: "slot < length (cache_table (applycache s))"
  shows "wp (apply_bdd rec slot (cdd_rglr l) (cdd_rglr r) ll rl (cdd_mask l) (cdd_mask r))
     (\<lambda>_. branch_ok T X B s op l r slot) s"
proof -
  let ?k = "min ll rl" and ?L = "cdd_rglr l" and ?R = "cdd_rglr r"
  have kl: "?k \<le> lv (cont s) ?L" "?k \<le> lv (cont s) ?R" "ll \<le> rl \<longleftrightarrow> ?k = lv (cont s) ?L" "rl \<le> ll \<longleftrightarrow> ?k = lv (cont s) ?R"
    using lev by auto
  have lc: "?k < cdd_levelcnt s"
    using reach_node [OF c, of ?L] reach_node [OF c, of ?R] r lev by (metis lv_rglr min_def reach_rglr rglr_rglr)
  obtain l0 l1 where L: "(if ?k = lv (cont s) ?L then bdd_node ?L else ret (?L, ?L)) s = Inr ((l0, l1), s)"
    "reach X s l0" "reach X s l1" "?k < lv (cont s) l0" "?k < lv (cont s) l1"
    "\<And>a. eval (cont s) a ?L = (if snd a ?k then eval (cont s) a l1 else eval (cont s) a l0)"
    using bdd_cofactor [OF c, of ?L ?k] r ty kl by (metis reach_rglr rglr_rglr)
  obtain r0 r1 where R: "(if ?k = lv (cont s) ?R then bdd_node ?R else ret (?R, ?R)) s = Inr ((r0, r1), s)"
    "reach X s r0" "reach X s r1" "?k < lv (cont s) r0" "?k < lv (cont s) r1"
    "\<And>a. eval (cont s) a ?R = (if snd a ?k then eval (cont s) a r1 else eval (cont s) a r0)"
    using bdd_cofactor [OF c, of ?R ?k] r ty kl by (metis reach_rglr rglr_rglr)
  define L0 L1 R0 R1 where d: "L0 = cdd_neg_cond l0 (cdd_mask l)" "L1 = cdd_neg_cond l1 (cdd_mask l)"
    "R0 = cdd_neg_cond r0 (cdd_mask r)" "R1 = cdd_neg_cond r1 (cdd_mask r)"
  have q: "reach X s L0" "reach X s L1" "reach X s R0" "reach X s R1"
    "?k < lv (cont s) L0" "?k < lv (cont s) L1" "?k < lv (cont s) R0" "?k < lv (cont s) R1"
    using L R by (simp_all add: d)
  have split: "eval (cont s) a l = (if snd a ?k then eval (cont s) a L1 else eval (cont s) a L0)"
    "eval (cont s) a r = (if snd a ?k then eval (cont s) a R1 else eval (cont s) a R0)" for a
    using L(6) [of a] R(6) [of a] eval_split [of "cont s" a l] eval_split [of "cont s" a r]
    unfolding d eval_neg_cond by auto
  have ml: "wp (if ll \<le> rl then bdd_node ?L else ret (?L, ?L)) Q s = Q (l0, l1) s"
    "wp (if rl \<le> ll then bdd_node ?R else ret (?R, ?R)) Q' s = Q' (r0, r1) s" for Q Q'
    using wp_eq [where m = "if _ then _ else _" and Q = Q, OF L(1)] wp_eq [where m = "if _ then _ else _" and Q = Q', OF R(1)] unfolding kl(3,4) by blast+
  show ?thesis
    unfolding apply_bdd_def wp_bind [where m = "if _ then _ else _"] ml prod.case wp_bind wp_then wp_modify
      d [symmetric]
  proof (rule wp_mono [OF rec_okD [OF rec c k op q(1,3,5,7)]])
    fix n t assume "op_result T X B s op L0 R0 n t"
    then have t: "core t X {cdd_rglr n} {} B" "caches_mean T t B" "frames X s t"
      "sound (cont t) (tabled t) (cdd_levelinfo t) B n" "?k < lv (cont t) n"
      "\<And>a. eval (cont t) a n = op_sem op (eval (cont s) a L0) (eval (cont s) a R0)"
      using q(5,7) by (auto simp: op_result_def)
    have pl: "cdd_rglr n = cddfalse \<or> cdd_rglr n \<in> tabled t \<and> (0 < rf t (cdd_rglr n) \<or> cdd_rglr n \<in> {cdd_rglr n})"
      using sound_place [OF t(4)] by auto
    have t0: "core t (with_toks X []) {cdd_rglr n} {} B" using t(1) by simp
    show "wp (cdd_ref n) (\<lambda>_. wp (rec L1 R1) (\<lambda>h. wp (cdd_make_bdd_node ?k n h) (\<lambda>p s'. wp (cdd_deref n)
        (\<lambda>_. branch_ok T X B s op l r slot) (s'\<lparr>applycache := upd_entry slot (\<lambda>e. e\<lparr>c_res := p\<rparr>) (applycache s')\<rparr>)))) t"
    proof (rule wp_mono [OF cdd_ref_spec [OF t0 pl]], elim conjE)
      fix x u assume u: "core u (with_toks X [n]) {cdd_rglr n} {} B" "sim t u"
      let ?Y = "with_toks X [n]"
      note fu = sim_fields [OF u(2)] blank_fields [OF sim_fields(2) [OF u(2)]]
      have fsu: "frames X s u" using frames_trans [OF c _ t(3) sim_frames [OF u(2)]] by simp
      note ru = reach_frames [OF c fsu]
      have opu: "mode op N u" using frames_env [OF fsu] op by (simp add: mode_def same_env_def)
      have "reach ?Y u L1" "reach ?Y u R1" using ru(1) [OF q(2)] ru(1) [OF q(4)] by (blast intro: reach_mono toks_pos)+
      note rec2 = rec_okD [OF rec u(1) sim_caches [OF u(2) t(2)] opu this]
      show "wp (rec L1 R1) (\<lambda>h. wp (cdd_make_bdd_node ?k n h) (\<lambda>p s'. wp (cdd_deref n)
          (\<lambda>_. branch_ok T X B s op l r slot) (s'\<lparr>applycache := upd_entry slot (\<lambda>e. e\<lparr>c_res := p\<rparr>) (applycache s')\<rparr>))) u"
      proof (rule wp_mono [OF rec2])
        show "?k < lv (cont u) L1" "?k < lv (cont u) R1" using ru(2) q by simp_all
        fix h v assume "op_result T ?Y B u op L1 R1 h v"
        then have v: "core v ?Y {cdd_rglr h} {} B" "caches_mean T v B" "frames ?Y u v"
          "sound (cont v) (tabled v) (cdd_levelinfo v) B h" "?k < lv (cont v) h"
          "\<And>a. eval (cont v) a h = op_sem op (eval (cont s) a L1) (eval (cont s) a R1)"
          using ru(2,3) q by (auto simp: op_result_def)
        have fsv: "frames X s v"
          using frames_trans [OF c _ fsu frames_mono [OF v(3) toks_pos]] by simp
        have rn: "reach ?Y u n" by (rule reach_tok) simp
        note nv = reach_frames [OF u(1) v(3) rn]
        have un: "usable v B {cdd_rglr h} n" "usable v B {cdd_rglr h} h"
          using reach_usable [OF v(1) nv(1), of "{cdd_rglr h}"] v(4) by (simp_all add: usable_def)
        have lcv: "?k < cdd_levelcnt v" and tyv: "li_type (cdd_levelinfo v ! ?k) = TYPE_BDD"
          using frames_env [OF fsv] lc ty by (simp_all add: same_env_def)
        have kn: "?k < lv (cont v) n" using nv(2) t(5) by (simp add: fu)
        show "wp (cdd_make_bdd_node ?k n h) (\<lambda>p s'. wp (cdd_deref n)
            (\<lambda>_. branch_ok T X B s op l r slot) (s'\<lparr>applycache := upd_entry slot (\<lambda>e. e\<lparr>c_res := p\<rparr>) (applycache s')\<rparr>)) v"
        proof (rule wp_mono [OF cdd_make_bdd_node_spec [OF v(1,2) lcv tyv un kn v(5)]])
          fix p w assume "made_bdd_with T ?Y B v ?k n h p w"
          then have w: "core w (with_toks X (n # [])) {cdd_rglr p} {} B" "caches_mean T w B" "frames ?Y v w"
            "sound (cont w) (tabled w) (cdd_levelinfo w) B p" "?k \<le> lv (cont w) p"
            "\<And>a. eval (cont w) a p = (if snd a ?k then eval (cont v) a h else eval (cont v) a n)"
            by (simp_all add: made_bdd_with_def)
          let ?w = "w\<lparr>applycache := upd_entry slot (\<lambda>e. e\<lparr>c_res := p\<rparr>) (applycache w)\<rparr>"
          have cw: "core ?w (with_toks X (n # [])) {cdd_rglr p} {} B" using w(1) by (simp only: view_core [OF view_upd(4)])
          show "wp (cdd_deref n) (\<lambda>_. branch_ok T X B s op l r slot) ?w"
          proof (rule wp_mono [OF cdd_deref_spec [OF cw]], elim conjE)
            fix y z assume z: "core z (with_toks X []) (insert (cdd_rglr n) {cdd_rglr p}) {} B" "sim ?w z"
            let ?z = "z\<lparr>applycache := applycache w\<rparr>"
            have cz: "core ?z X {cdd_rglr p} {} B"
              using core_antitone [OF z(1), of "{cdd_rglr p}" X] by (simp add: view_core [OF view_upd(4)])
            have sz: "sim w ?z" by (rule sim_applycache [OF z(2)])
            note fz = sim_fields [OF sz] blank_fields [OF sim_fields(2) [OF sz]]
            have fsw: "frames X s w"
              using frames_trans [OF c _ fsv frames_mono [OF w(3) toks_pos]] by simp
            have fsz: "frames X s ?z"
              using frames_trans [OF c _ fsw sim_frames [OF sz]] by simp
            have ev: "eval (cont w) a p = op_sem op (eval (cont s) a l) (eval (cont s) a r)" for a
              using w(6) [of a] v(6) [of a] nv(3) [of a] t(6) [of a] split [of a] op_sem_if by (simp add: fu)
            have "op_result T X B s op l r p ?z"
              using cz fsz w(4,5) sim_caches [OF sz w(2)] ev lev unfolding op_result_def by (simp add: fz)
            moreover have "applycache z = upd_entry slot (\<lambda>e. e\<lparr>c_res := p\<rparr>) (applycache w)"
              using blank_fields(17) [OF sim_fields(2) [OF z(2)]] by simp
            moreover have "slot < length (cache_table (applycache w))"
              using slot cache_size [OF k w(2) frames_env [OF fsw]] by simp
            ultimately show "branch_ok T X B s op l r slot z"
              unfolding branch_ok_def by blast
          qed
        qed
      qed
    qed
  qed
qed

end
