(* ===== verification/Apply_Merge.thy ===== *)
theory Apply_Merge
  imports Apply_Spec
begin

text \<open>
  Correctness of \<^verbatim>\<open>cdd_apply\<close> on clock differences: the loop that merges two element arrays
  into one, with the element pointers into nodes or into the reference stack.
\<close>

declare split_paired_All [simp del]

section \<open>Frames across pushes on the reference stack\<close>

definition sframes :: "(ptr \<Rightarrow> nat) \<Rightarrow> kstate \<Rightarrow> kstate \<Rightarrow> bool" where
  "sframes X s t \<longleftrightarrow> frames X s (t\<lparr>cdd_refstack := cdd_refstack s\<rparr>)"

lemma stack_views [simp]:
  "cont (s\<lparr>cdd_refstack := r\<rparr>) = cont s" "tabled (s\<lparr>cdd_refstack := r\<rparr>) = tabled s" "rf (s\<lparr>cdd_refstack := r\<rparr>) = rf s"
  "reach X (s\<lparr>cdd_refstack := r\<rparr>) p = reach X s p" "core (s\<lparr>cdd_refstack := r\<rparr>) X F W B = core s X F W B"
  "caches_mean Me (s\<lparr>cdd_refstack := r\<rparr>) B = caches_mean Me s B" "usable (s\<lparr>cdd_refstack := r\<rparr>) B F p = usable s B F p"
  using view_views [OF view_upd(2) [of r s]] view_core [OF view_upd(2) [of r s]]
    view_caches [OF view_upd(2) [of r s]] view_usable [OF view_upd(2) [of r s]]
  by (simp_all add: reach_def)

lemma sframes_refl [simp]: "sframes X s s"
  by (simp add: sframes_def)

lemma sframes_stack [simp]: "sframes X s (t\<lparr>cdd_refstack := r\<rparr>) = sframes X s t"
  by (simp add: sframes_def)

lemma sframes_frames:
  assumes c: "core s X F W B" and f: "sframes X s t" "frames Y t u" and Y: "\<And>q. 0 < X q \<Longrightarrow> 0 < Y q"
  shows "sframes X s u"
proof -
  have "frames X t u" using frames_mono [OF f(2) Y] .
  then have "frames X (t\<lparr>cdd_refstack := cdd_refstack s\<rparr>) (u\<lparr>cdd_refstack := cdd_refstack s\<rparr>)"
    by (simp add: frames_def same_env_def)
  then show ?thesis using frames_trans [OF c _ f(1) [unfolded sframes_def]] by (simp add: sframes_def)
qed

lemma sframes_env: "sframes X s t \<Longrightarrow> same_env s (t\<lparr>cdd_refstack := cdd_refstack s\<rparr>)"
  by (simp add: sframes_def frames_def)

lemma reach_sframes:
  assumes "core s X F W B" "sframes X s t" "reach X s p"
  shows "reach X t p" "lv (cont t) p = lv (cont s) p" "eval (cont t) a p = eval (cont s) a p"
    "cont t (cdd_rglr p) = cont s (cdd_rglr p)"
  using reach_frames [OF assms(1) assms(2) [unfolded sframes_def] assms(3)]
    frames_cont [OF assms(2) [unfolded sframes_def] assms(3)] by simp_all

lemma stack_frames: "frames X s t \<Longrightarrow> cdd_refstack t = cdd_refstack s"
  by (simp add: frames_def same_env_def)

section \<open>Element pointers\<close>

text \<open>The elements from the pointer on; a pointer into the stack has the one element there.\<close>

fun clist :: "kstate \<Rightarrow> cursor \<Rightarrow> elem list" where
  "clist s (In_node p i) = (case cont s p of Some (k, Cdd es) \<Rightarrow> drop i es | _ \<Rightarrow> [])"
| "clist s (On_stack i) = (if i < length (cdd_refstack s) then [cdd_refstack s ! i] else [])"

fun cursor_at :: "(ptr \<Rightarrow> nat) \<Rightarrow> kstate \<Rightarrow> nat \<Rightarrow> cursor \<Rightarrow> bool" where
  "cursor_at X s n (In_node p i) \<longleftrightarrow> cdd_rglr p = p \<and> reach X s p"
| "cursor_at X s n (On_stack i) \<longleftrightarrow> i < n"

definition cursor_ok :: "(ptr \<Rightarrow> nat) \<Rightarrow> (nat \<Rightarrow> raw_t set) \<Rightarrow> kstate \<Rightarrow> nat \<Rightarrow> nat \<Rightarrow> cursor \<Rightarrow> elem list \<Rightarrow> bool" where
  "cursor_ok X B s k n c L \<longleftrightarrow> clist s c = L \<and> cursor_at X s n c \<and> L \<noteq> [] \<and> sorted_wrt (<) (map e_bnd L) \<and>
     e_bnd (last L) = bnd_INF \<and> e_bnd ` set L \<subseteq> B k \<and>
     (\<forall>e \<in> set L. reach X s (e_child e) \<and> k < lv (cont s) (e_child e))"

lemma at_cursor_eq:
  assumes "cursor_ok X B s k n c L"
  shows "at_cursor c s = Inr (hd L, s)"
proof (cases c)
  case (In_node p i)
  then obtain k' es where es: "cont s p = Some (k', Cdd es)" "drop i es = L" "cdd_rglr p = p" "L \<noteq> []"
    using assms by (auto simp: cursor_ok_def split: option.splits prod.splits body.splits)
  then have "i < length es" "es ! i = hd L" by (auto simp: hd_drop_conv_nth)
  then show ?thesis using In_node cdd_elems_eq [OF es(1,3)] by (simp add: elem_at_def bindM_def ret_def)
next
  case (On_stack i)
  then show ?thesis using assms by (auto simp: cursor_ok_def bindM_def gets_def ret_def split: if_splits)
qed

definition stepped :: "raw_t \<Rightarrow> elem list \<Rightarrow> cursor \<Rightarrow> cursor" where
  "stepped bnd L c = (if e_bnd (hd L) = bnd then next_cursor c else c)"

definition remaining :: "raw_t \<Rightarrow> elem list \<Rightarrow> elem list" where
  "remaining bnd L = (if e_bnd (hd L) = bnd then tl L else L)"

lemma step_cursor_eq: "cursor_ok X B s k n c L \<Longrightarrow> step_cursor bnd c s = Inr (stepped bnd L c, s)"
  by (simp add: step_cursor_def bindM_def ret_def at_cursor_eq stepped_def)

lemma cursor_ok_step:
  assumes c: "cursor_ok X B s k n c L" and b: "bnd \<noteq> bnd_INF"
  shows "cursor_ok X B s k n (stepped bnd L c) (remaining bnd L)"
proof (cases "e_bnd (hd L) = bnd")
  case False
  then show ?thesis using c by (simp add: stepped_def remaining_def)
next
  case True
  obtain e L' where L: "L = e # L'" using c by (cases L) (auto simp: cursor_ok_def)
  have ne: "L' \<noteq> []" using c b True by (auto simp: cursor_ok_def L)
  have "clist s (next_cursor c) = L' \<and> cursor_at X s n (next_cursor c)"
  proof (cases c)
    case (In_node p i)
    then show ?thesis using c
      by (auto simp: cursor_ok_def L split: option.splits prod.splits body.splits)
        (metis drop_Suc list.sel(3) tl_drop)+
  next
    case (On_stack i)
    then show ?thesis using c ne by (auto simp: cursor_ok_def L split: if_splits)
  qed
  then show ?thesis
    using c ne True unfolding cursor_ok_def L stepped_def remaining_def by simp
qed

lemma pick_remaining:
  assumes "cursor_ok X B s k n c L" "bnd \<le> e_bnd (hd L)" "\<not> bnd_sat x bnd"
  shows "pick x (remaining bnd L) = pick x L"
  using assms by (cases L) (auto simp: remaining_def cursor_ok_def)

lemma remaining_bnd:
  assumes "cursor_ok X B s k n c L" "bnd \<le> e_bnd (hd L)" "bnd \<noteq> bnd_INF"
  shows "bnd < e_bnd (hd (remaining bnd L))"
proof (cases "e_bnd (hd L) = bnd")
  case True
  with assms obtain e f L' where "L = e # f # L'"
    by (cases L; cases "tl L") (auto simp: cursor_ok_def)
  then show ?thesis using assms(1) True by (simp add: cursor_ok_def remaining_def)
next
  case False
  then show ?thesis using assms(2) by (simp add: remaining_def)
qed

lemma cursor_ok_frames:
  assumes c: "core s X F W B" and f: "sframes X s t" and st: "take n (cdd_refstack t) = take n (cdd_refstack s)"
    and n: "n \<le> length (cdd_refstack s)" and ok: "cursor_ok X B s k n cu L"
  shows "cursor_ok X B t k n cu L"
proof -
  note r = reach_sframes [OF c f]
  have "clist t cu = clist s cu \<and> cursor_at X t n cu"
  proof (cases cu)
    case (In_node p i)
    then show ?thesis using ok r(1,4) [of p] by (simp add: cursor_ok_def)
  next
    case (On_stack i)
    have i: "i < n" using ok On_stack by (simp add: cursor_ok_def)
    have "length (take n (cdd_refstack t)) = n" using st n by simp
    then have "n \<le> length (cdd_refstack t)" by simp
    moreover have "cdd_refstack t ! i = cdd_refstack s ! i" using st i by (metis nth_take)
    ultimately show ?thesis using On_stack i n by simp
  qed
  then show ?thesis using ok r(1,2) unfolding cursor_ok_def by simp
qed

lemma cursor_for_spec:
  assumes c: "core s X F {} B" and r: "reach X s l" "cdd_rglr l = l" "l \<noteq> cddfalse"
    and t: "li_type (cdd_levelinfo s ! k) = TYPE_CDD" and k: "k \<le> lv (cont s) l"
  shows "wp (cursor_for (k = lv (cont s) l) l) (\<lambda>cu t. \<exists>st L. t = s\<lparr>cdd_refstack := cdd_refstack s @ st\<rparr> \<and>
     cursor_ok X B t k (length (cdd_refstack t)) cu L \<and> (\<forall>a. eval (cont s) a l = eval (cont s) a (pick (fst a k) L))) s"
proof (cases "k = lv (cont s) l")
  case True
  obtain b where b: "cont s l = Some (k, b)" "shape_ok (cdd_levelinfo s) B k b"
    "\<And>c. c \<in> set (kids b) \<Longrightarrow> reach X s c \<and> k < lv (cont s) c" "k < MAXLEVEL"
    using reach_node [OF c r] True by metis
  then obtain es where es: "b = Cdd es" "2 \<le> length es" "sorted_wrt (<) (map e_bnd es)" "e_bnd (last es) = bnd_INF"
    "e_bnd ` set es \<subseteq> B k"
    using t by (auto simp: shape_ok_def split: body.splits)
  then have ne: "es \<noteq> []" by auto
  have "cursor_ok X B s k (length (cdd_refstack s)) (In_node l 0) es"
    using b es ne r by (simp add: cursor_ok_def)
  moreover have "eval (cont s) a l = eval (cont s) a (pick (fst a k) es)" for a
    by (rule eval_cdd) (use b es r ne in auto)
  ultimately have "\<exists>st L. s = s\<lparr>cdd_refstack := cdd_refstack s @ st\<rparr> \<and>
      cursor_ok X B s k (length (cdd_refstack s)) (In_node l 0) L \<and> (\<forall>a. eval (cont s) a l = eval (cont s) a (pick (fst a k) L))"
    by (intro exI [of _ "[]"] exI [of _ es]) simp
  then show ?thesis unfolding cursor_for_def if_P [OF True] wp_ret .
next
  case False
  have "cursor_ok X B (s\<lparr>cdd_refstack := cdd_refstack s @ [\<lparr>e_child = l, e_bnd = bnd_INF\<rparr>]\<rparr>) k
      (length (cdd_refstack s @ [\<lparr>e_child = l, e_bnd = bnd_INF\<rparr>])) (On_stack (length (cdd_refstack s))) [\<lparr>e_child = l, e_bnd = bnd_INF\<rparr>]"
    using False k r core_levels(9) [OF c] by (simp add: cursor_ok_def)
  then have "\<exists>st L. s\<lparr>cdd_refstack := cdd_refstack s @ [\<lparr>e_child = l, e_bnd = bnd_INF\<rparr>]\<rparr> = s\<lparr>cdd_refstack := cdd_refstack s @ st\<rparr> \<and>
      cursor_ok X B (s\<lparr>cdd_refstack := cdd_refstack s @ [\<lparr>e_child = l, e_bnd = bnd_INF\<rparr>]\<rparr>) k
        (length (cdd_refstack s @ [\<lparr>e_child = l, e_bnd = bnd_INF\<rparr>])) (On_stack (length (cdd_refstack s))) L \<and>
      (\<forall>a. eval (cont s) a l = eval (cont s) a (pick (fst a k) L))"
    by (intro exI [of _ "[\<lparr>e_child = l, e_bnd = bnd_INF\<rparr>]"] conjI) simp_all
  then show ?thesis
    unfolding cursor_for_def if_not_P [OF False] wp_bind wp_gets wp_then cdd_push_def wp_modify wp_ret by simp
qed

section \<open>The merging loop\<close>

text \<open>
  \<open>merged\<close>: the elements \<open>out\<close> are on the stack, \<open>prev\<close> is the last child, and together they
  give the operation on the two arrays for the values below \<open>bnd\<close>.
\<close>

definition masked :: "ptr \<Rightarrow> raw_t \<Rightarrow> ptr \<Rightarrow> elem" where
  "masked p b m = \<lparr>e_child = cdd_neg_cond p (cdd_mask m), e_bnd = b\<rparr>"

lemma masked_sel [simp]: "e_child (masked p b m) = cdd_neg_cond p (cdd_mask m)" "e_bnd (masked p b m) = b"
  by (simp_all add: masked_def)

definition elems_ok :: "(nat \<Rightarrow> raw_t set) \<Rightarrow> nat \<Rightarrow> elem list \<Rightarrow> bool" where
  "elems_ok B k es \<longleftrightarrow> sorted_wrt (<) (map e_bnd es) \<and> e_bnd ` set es \<subseteq> B k \<and> cdd_mask (e_child (hd es)) = 0 \<and>
     distinct_adj (map e_child es)"

definition merged :: "meaning \<Rightarrow> (ptr \<Rightarrow> nat) \<Rightarrow> (nat \<Rightarrow> raw_t set) \<Rightarrow> kstate \<Rightarrow> nat \<Rightarrow> (asg \<Rightarrow> bool) \<Rightarrow> ptr \<Rightarrow> elem list \<Rightarrow>
    kstate \<Rightarrow> elem list \<Rightarrow> ptr \<Rightarrow> raw_t \<Rightarrow> bool" where
  "merged Me X B s k T m stk t out prev bnd \<longleftrightarrow>
     (\<exists>F. core t (with_toks X (prev # map e_child out)) F {} B) \<and> caches_mean Me t B \<and> sframes X s t \<and>
     cdd_refstack t = stk @ out \<and> elems_ok B k (out @ [masked prev bnd m]) \<and>
     (\<forall>e \<in> set (out @ [masked prev bnd m]). k < lv (cont t) (e_child e)) \<and>
     (\<forall>a. bnd_sat (fst a k) bnd \<longrightarrow>
        (eval (cont t) a (pick (fst a k) (out @ [masked prev bnd m])) \<noteq> (cdd_mask m \<noteq> 0)) = T a)"

lemma bnd_sat_antimono: "\<not> bnd_sat x b \<Longrightarrow> a \<le> b \<Longrightarrow> \<not> bnd_sat x a"
  using bnd_sat_mono by blast

lemma pick_sat: "\<exists>e \<in> set es. bnd_sat x (e_bnd e) \<Longrightarrow> \<exists>e \<in> set es. pick x es = e_child e"
  by (induction es) auto

lemma pick_extend:
  assumes "sorted_wrt (<) (map e_bnd (out @ [masked prev bnd m]))" "bnd_sat x b'"
  shows "pick x ((if n = prev then out else out @ [masked prev bnd m]) @ [masked n b' m]) =
    (if bnd_sat x bnd then pick x (out @ [masked prev bnd m]) else cdd_neg_cond n (cdd_mask m))"
proof (cases "bnd_sat x bnd")
  case True
  then show ?thesis using assms(2) by (auto simp: pick_append)
next
  case False
  have "\<not> bnd_sat x (e_bnd e)" if "e \<in> set out" for e
  proof (rule bnd_sat_antimono [OF False])
    show "e_bnd e \<le> bnd" using assms(1) that by (auto simp: sorted_wrt_append)
  qed
  then show ?thesis using False assms(2) by (auto simp: pick_append)
qed

lemma elems_extend:
  assumes e: "elems_ok B k (out @ [masked prev bnd m])" and b: "bnd < b'" "b' \<in> B k"
  shows "elems_ok B k ((if n = prev then out else out @ [masked prev bnd m]) @ [masked n b' m])"
proof -
  have h: "\<And>e. e \<in> set out \<Longrightarrow> e_bnd e < b'" using e b by (force simp: elems_ok_def sorted_wrt_append)
  have inj: "cdd_neg_cond prev (cdd_mask m) \<noteq> cdd_neg_cond n (cdd_mask m)" if "n \<noteq> prev"
    using that by (metis neg_cond_twice)
  show ?thesis
  proof (cases "n = prev")
    case True
    then show ?thesis using e b h by (cases out) (auto simp: elems_ok_def sorted_wrt_append)
  next
    case False
    have "distinct_adj (map e_child out @ [cdd_neg_cond prev (cdd_mask m)])" using e by (simp add: elems_ok_def)
    then have "distinct_adj (map e_child out @ [cdd_neg_cond prev (cdd_mask m), cdd_neg_cond n (cdd_mask m)])"
      using inj [OF False] by (simp add: distinct_adj_append_iff)
    then show ?thesis using e b h False
      by (cases out) (auto simp: elems_ok_def sorted_wrt_append)
  qed
qed

lemma with_toks_masked: "with_toks X (n # map e_child (out @ [masked prev bnd m])) = with_toks X (n # prev # map e_child out)"
  by (simp add: with_toks_def fun_eq_iff)

text \<open>One child more.\<close>

lemma merged_step:
  assumes c: "core s X F0 {} B" and t: "merged Me X B s k T m stk t out prev bnd"
    and u: "op_result Me (with_toks X (prev # map e_child out)) B t op l r n u" "k < min (lv (cont t) l) (lv (cont t) r)"
    and b: "bnd < b'" "b' \<in> B k"
    and T: "\<forall>a. bnd_sat (fst a k) b' \<longrightarrow> \<not> bnd_sat (fst a k) bnd \<longrightarrow>
      op_sem op (eval (cont t) a l) (eval (cont t) a r) = T a"
  defines "out' \<equiv> if n = prev then out else out @ [masked prev bnd m]"
  shows "wp (if n \<noteq> prev then thenM (cdd_push (cdd_neg_cond prev (cdd_mask m)) bnd) (thenM (cdd_ref n) (ret n)) else ret prev)
     (\<lambda>p v. p = n \<and> merged Me X B s k T m stk v out' n b') u"
proof -
  let ?Y = "with_toks X (prev # map e_child out)"
  have uf: "core u ?Y {cdd_rglr n} {} B" "caches_mean Me u B" "frames ?Y t u"
    "sound (cont u) (tabled u) (cdd_levelinfo u) B n" "k < lv (cont u) n"
    "\<And>a. eval (cont u) a n = op_sem op (eval (cont t) a l) (eval (cont t) a r)"
    using u by (auto simp: op_result_def)
  obtain F where tf: "core t ?Y F {} B" "caches_mean Me t B" "sframes X s t" "cdd_refstack t = stk @ out"
    "elems_ok B k (out @ [masked prev bnd m])" "\<forall>e \<in> set (out @ [masked prev bnd m]). k < lv (cont t) (e_child e)"
    "\<And>a. bnd_sat (fst a k) bnd \<Longrightarrow> (eval (cont t) a (pick (fst a k) (out @ [masked prev bnd m])) \<noteq> (cdd_mask m \<noteq> 0)) = T a"
    using t unfolding merged_def by blast
  have su: "sframes X s u" by (rule sframes_frames [OF c tf(3) uf(3) toks_pos])
  have rt: "reach ?Y t (e_child e)" if "e \<in> set (out @ [masked prev bnd m])" for e
    using that reach_tok [of prev "prev # map e_child out" X t]
      reach_tok [of "e_child e" "prev # map e_child out" X t] by auto
  note ru = reach_frames [OF tf(1) uf(3) rt]
  have pu: "lv (cont u) (e_child e) = lv (cont t) (e_child e)" if "e \<in> set (out @ [masked prev bnd m])" for e
    using ru(2) [OF that] .
  have el: "elems_ok B k (out' @ [masked n b' m])"
    unfolding out'_def by (rule elems_extend [OF tf(5) b])
  have lv': "k < lv (cont u) (e_child e)" if "e \<in> set (out' @ [masked n b' m])" for e
    using that tf(6) pu [of e] uf(5) by (auto simp: out'_def split: if_splits)
  have ev: "(eval (cont u) a (pick (fst a k) (out' @ [masked n b' m])) \<noteq> (cdd_mask m \<noteq> 0)) = T a"
    if x: "bnd_sat (fst a k) b'" for a
  proof (cases "bnd_sat (fst a k) bnd")
    case True
    let ?es = "out @ [masked prev bnd m]"
    have "\<exists>e \<in> set ?es. bnd_sat (fst a k) (e_bnd e)" using True by simp
    from pick_sat [OF this] obtain e where e: "e \<in> set ?es" "pick (fst a k) ?es = e_child e" by blast
    have "eval (cont u) a (pick (fst a k) ?es) = eval (cont t) a (pick (fst a k) ?es)"
      unfolding e(2) by (rule ru(3) [OF e(1)])
    then show ?thesis
      using tf(7) [OF True] True pick_extend [of out prev bnd m "fst a k" b' n] tf(5) x
      by (simp add: out'_def elems_ok_def)
  next
    case False
    then show ?thesis
      using pick_extend [of out prev bnd m "fst a k" b' n] tf(5) x T [rule_format, OF x False] uf(6) [of a]
      by (cases "cdd_mask m = 0") (simp_all add: out'_def elems_ok_def eval_neg_cond)
  qed
  have st: "cdd_refstack u = stk @ out" using stack_frames [OF uf(3)] tf(4) by simp
  show ?thesis
  proof (cases "n = prev")
    case True
    have "core u (with_toks X (n # map e_child out')) {cdd_rglr n} {} B" using uf(1) True by (simp add: out'_def)
    then have "merged Me X B s k T m stk u out' n b'"
      unfolding merged_def using uf(2) su st True el lv' ev by (auto simp: out'_def)
    then show ?thesis using True by (simp add: wp_ret)
  next
    case False
    let ?u = "u\<lparr>cdd_refstack := cdd_refstack u @ [masked prev bnd m]\<rparr>"
    have cu: "core ?u ?Y {cdd_rglr n} {} B" using uf(1) by simp
    have pl: "cdd_rglr n = cddfalse \<or> cdd_rglr n \<in> tabled ?u \<and> (0 < rf ?u (cdd_rglr n) \<or> cdd_rglr n \<in> {cdd_rglr n})"
      using sound_place [OF uf(4)] by auto
    have push: "wp (cdd_push (cdd_neg_cond prev (cdd_mask m)) bnd) Q u = Q () ?u" for Q
      by (simp add: cdd_push_def wp_modify masked_def)
    have "wp (thenM (cdd_ref n) (ret n)) (\<lambda>p v. p = n \<and> merged Me X B s k T m stk v out' n b') ?u"
      unfolding wp_then wp_ret
    proof (rule wp_mono [OF cdd_ref_spec [OF cu pl]], elim conjE)
      fix y v assume v: "core v (with_toks X (n # prev # map e_child out)) {cdd_rglr n} {} B" "sim ?u v"
      note fv = sim_fields [OF v(2)] blank_fields [OF sim_fields(2) [OF v(2)]]
      have "core v (with_toks X (n # map e_child out')) {cdd_rglr n} {} B"
        using v(1) with_toks_masked [of X n out prev bnd m] False by (simp add: out'_def)
      moreover have "sframes X s ?u" using su by simp
      note sframes_frames [OF c this sim_frames [OF v(2)], of X]
      moreover have "caches_mean Me v B" using sim_caches [OF v(2)] uf(2) by simp
      ultimately have "merged Me X B s k T m stk v out' n b'"
        unfolding merged_def using False st el lv' ev by (auto simp: out'_def fv)
      then show "n = n \<and> merged Me X B s k T m stk v out' n b'" by simp
    qed
    then show ?thesis using False by (simp add: wp_then push)
  qed
qed

lemma apply_loop_spec:
  assumes c: "core s X F0 {} B" and op: "mode op N s" and rec: "rec_ok Me B op N k rec"
    and n: "n = length (cdd_refstack s)"
  shows "cursor_ok X B s k n lp L \<Longrightarrow> cursor_ok X B s k n rp R \<Longrightarrow> bnd = min (e_bnd (hd L)) (e_bnd (hd R)) \<Longrightarrow>
    merged Me X B s k T m (cdd_refstack s) t out prev bnd \<Longrightarrow>
    (\<forall>a. \<not> bnd_sat (fst a k) bnd \<longrightarrow> T a = op_sem op
       (eval (cont s) a (cdd_neg_cond (pick (fst a k) L) (cdd_mask l))) (eval (cont s) a (cdd_neg_cond (pick (fst a k) R) (cdd_mask r)))) \<Longrightarrow>
    length L + length R \<le> fuel + 2 \<Longrightarrow>
    wp (apply_loop fuel rec (cdd_mask l) (cdd_mask r) (cdd_mask m) lp rp prev bnd)
      (\<lambda>p v. \<exists>out'. merged Me X B s k T m (cdd_refstack s) v out' p bnd_INF) t"
proof (induction fuel arbitrary: lp L rp R bnd t out prev)
  case 0
  have "hd L = last L" "hd R = last R" using 0 by (cases L; cases R; auto simp: cursor_ok_def)+
  then have "bnd = bnd_INF" using 0 by (simp add: cursor_ok_def)
  then show ?case using 0(4) by (auto simp: apply_loop.simps wp_ret)
next
  case (Suc fuel)
  have bB: "bnd \<in> B k" using Suc.prems(4) by (simp add: merged_def elems_ok_def)
  show ?case
  proof (cases "bnd < bnd_INF")
    case False
    then have "bnd = bnd_INF" using core_levels(10) [OF c bB] by simp
    then show ?thesis using Suc.prems(4) by (auto simp: apply_loop.simps wp_ret)
  next
    case True
    let ?L = "remaining bnd L" and ?R = "remaining bnd R" and ?lp = "stepped bnd L lp" and ?rp = "stepped bnd R rp"
    let ?b = "min (e_bnd (hd ?L)) (e_bnd (hd ?R))" and ?Y = "with_toks X (prev # map e_child out)"
    let ?l = "cdd_neg_cond (e_child (hd ?L)) (cdd_mask l)" and ?r = "cdd_neg_cond (e_child (hd ?R)) (cdd_mask r)"
    have ninf: "bnd \<noteq> bnd_INF" using True by simp
    have le: "bnd \<le> e_bnd (hd L)" "bnd \<le> e_bnd (hd R)" using Suc.prems(3) by simp_all
    note cL = cursor_ok_step [OF Suc.prems(1) ninf] and cR = cursor_ok_step [OF Suc.prems(2) ninf]
    have bb: "bnd < ?b" using remaining_bnd [OF Suc.prems(1) le(1) ninf] remaining_bnd [OF Suc.prems(2) le(2) ninf] by simp
    have bB': "?b \<in> B k" using cL cR by (auto simp: cursor_ok_def min_def)
    have tr: "cursor_ok X B v k n cu M" if "merged Me X B s k T m (cdd_refstack s) v out' p b" "cursor_ok X B s k n cu M" for v out' p b cu M
      by (rule cursor_ok_frames [OF c _ _ _ that(2)]) (use that(1) n in \<open>auto simp: merged_def\<close>)
    note tL = tr [OF Suc.prems(4) Suc.prems(1)] and tR = tr [OF Suc.prems(4) Suc.prems(2)]
      and tL' = tr [OF Suc.prems(4) cL] and tR' = tr [OF Suc.prems(4) cR]
    obtain F where tf: "core t ?Y F {} B" "caches_mean Me t B" "sframes X s t"
      using Suc.prems(4) unfolding merged_def by blast
    have opt: "mode op N t" using sframes_env [OF tf(3)] op by (simp add: mode_def same_env_def)
    have ch: "reach X s (e_child (hd ?L))" "reach X s (e_child (hd ?R))"
      "k < lv (cont s) (e_child (hd ?L))" "k < lv (cont s) (e_child (hd ?R))"
      using cL cR by (simp_all add: cursor_ok_def)
    note rs = reach_sframes [OF c tf(3)]
    have args: "reach ?Y t ?l" "reach ?Y t ?r" "k < lv (cont t) ?l" "k < lv (cont t) ?r"
      using rs(1,2) ch by (auto intro: reach_mono [of X, OF toks_pos])
    have TT: "\<forall>a. bnd_sat (fst a k) ?b \<longrightarrow> \<not> bnd_sat (fst a k) bnd \<longrightarrow>
      op_sem op (eval (cont t) a ?l) (eval (cont t) a ?r) = T a"
    proof (intro allI impI)
      fix a :: asg assume sat: "bnd_sat (fst a k) ?b" "\<not> bnd_sat (fst a k) bnd"
      have "pick (fst a k) (remaining bnd M) = e_child (hd (remaining bnd M))"
        if "remaining bnd M \<noteq> []" "?b \<le> e_bnd (hd (remaining bnd M))" for M
        using bnd_sat_mono [OF that(2) sat(1)] that(1) by (cases "remaining bnd M") auto
      moreover have "?L \<noteq> []" "?R \<noteq> []" using cL cR by (simp_all add: cursor_ok_def)
      ultimately have "pick (fst a k) L = e_child (hd ?L)" "pick (fst a k) R = e_child (hd ?R)"
        using pick_remaining [OF Suc.prems(1) le(1) sat(2)] pick_remaining [OF Suc.prems(2) le(2) sat(2)] by simp_all
      then show "op_sem op (eval (cont t) a ?l) (eval (cont t) a ?r) = T a"
        using Suc.prems(5) [rule_format, OF sat(2)] rs(3) ch by (simp add: eval_neg_cond)
    qed
    have len: "length ?L + length ?R \<le> fuel + 2"
    proof -
      have "length ?L < length L \<or> length ?R < length R"
        using Suc.prems(1-3) by (auto simp: remaining_def cursor_ok_def min_def split: if_splits)
      moreover have "length ?L \<le> length L" "length ?R \<le> length R" by (simp_all add: remaining_def)
      ultimately show ?thesis using Suc.prems(6) by linarith
    qed
    have rest: "\<forall>a. \<not> bnd_sat (fst a k) ?b \<longrightarrow> T a = op_sem op
        (eval (cont s) a (cdd_neg_cond (pick (fst a k) ?L) (cdd_mask l)))
        (eval (cont s) a (cdd_neg_cond (pick (fst a k) ?R) (cdd_mask r)))"
    proof (intro allI impI)
      fix a :: asg assume "\<not> bnd_sat (fst a k) ?b"
      then have "\<not> bnd_sat (fst a k) bnd" using bnd_sat_antimono bb less_imp_le by blast
      then show "T a = op_sem op (eval (cont s) a (cdd_neg_cond (pick (fst a k) ?L) (cdd_mask l)))
        (eval (cont s) a (cdd_neg_cond (pick (fst a k) ?R) (cdd_mask r)))"
        using Suc.prems(5) pick_remaining [OF Suc.prems(1) le(1)] pick_remaining [OF Suc.prems(2) le(2)] by simp
    qed
    have run: "wp (rec ?l ?r) (\<lambda>p. wp (if p \<noteq> prev then thenM (cdd_push (cdd_neg_cond prev (cdd_mask m)) bnd) (thenM (cdd_ref p) (ret p)) else ret prev)
        (\<lambda>p. wp (at_cursor ?lp) (\<lambda>le. wp (at_cursor ?rp) (\<lambda>re.
          wp (apply_loop fuel rec (cdd_mask l) (cdd_mask r) (cdd_mask m) ?lp ?rp p (minimum (e_bnd le) (e_bnd re)))
            (\<lambda>p v. \<exists>out'. merged Me X B s k T m (cdd_refstack s) v out' p bnd_INF))))) t"
    proof (rule wp_mono [OF rec_okD [OF rec tf(1,2) opt args]])
      fix p u assume u: "op_result Me ?Y B t op ?l ?r p u"
      have kk: "k < min (lv (cont t) ?l) (lv (cont t) ?r)" using args(3,4) by simp
      show "wp (if p \<noteq> prev then thenM (cdd_push (cdd_neg_cond prev (cdd_mask m)) bnd) (thenM (cdd_ref p) (ret p)) else ret prev)
        (\<lambda>p. wp (at_cursor ?lp) (\<lambda>le. wp (at_cursor ?rp) (\<lambda>re.
          wp (apply_loop fuel rec (cdd_mask l) (cdd_mask r) (cdd_mask m) ?lp ?rp p (minimum (e_bnd le) (e_bnd re)))
            (\<lambda>p v. \<exists>out'. merged Me X B s k T m (cdd_refstack s) v out' p bnd_INF)))) u"
      proof (rule wp_mono [OF merged_step [OF c Suc.prems(4) u kk bb bB' TT]], elim conjE)
        fix q v assume q: "q = p" and v: "merged Me X B s k T m (cdd_refstack s) v (if p = prev then out else out @ [masked prev bnd m]) p ?b"
        have "minimum (e_bnd (hd ?L)) (e_bnd (hd ?R)) = ?b" by (simp add: minimum_def)
        with Suc.IH [OF cL cR refl v rest len]
        show "wp (at_cursor ?lp) (\<lambda>le. wp (at_cursor ?rp) (\<lambda>re.
          wp (apply_loop fuel rec (cdd_mask l) (cdd_mask r) (cdd_mask m) ?lp ?rp q (minimum (e_bnd le) (e_bnd re)))
            (\<lambda>p v. \<exists>out'. merged Me X B s k T m (cdd_refstack s) v out' p bnd_INF))) v"
          unfolding wp_eq [where m = "at_cursor ?lp", OF at_cursor_eq [OF tr [OF v cL]]]
            wp_eq [where m = "at_cursor ?rp", OF at_cursor_eq [OF tr [OF v cR]]] q by simp
      qed
    qed
    then show ?thesis
      unfolding apply_loop.simps [of "Suc fuel"] if_not_P [OF iffD2 [OF not_not True]] nat.case wp_bind
        wp_eq [where m = "step_cursor bnd lp", OF step_cursor_eq [OF tL]]
        wp_eq [where m = "step_cursor bnd rp", OF step_cursor_eq [OF tR]]
        wp_eq [where m = "at_cursor ?lp" and s = t, OF at_cursor_eq [OF tL']]
        wp_eq [where m = "at_cursor ?rp" and s = t, OF at_cursor_eq [OF tR']] .
  qed
qed

end
