(* ===== verification/Apply_Correct.thy ===== *)
theory Apply_Correct
  imports Apply_Merge
begin

text \<open>
  The correctness theorem of \<^verbatim>\<open>cdd_apply\<close>, from the merging loop and the cofactors: by
  induction on the fuel, which the levels bound.
\<close>

declare split_paired_All [simp del]

section \<open>The end of the branch for clock differences\<close>

lemma forM_children: "forM es (\<lambda>e. f (e_child e)) = forM (map e_child es) f"
  by (induction es) simp_all

lemma sframes_base [simp]: "sframes X (s\<lparr>cdd_refstack := r\<rparr>) t = sframes X s t"
  by (simp add: sframes_def frames_def same_env_def)

lemma with_toks_last: "with_toks X (map e_child (out @ [masked p b m])) = with_toks X (p # map e_child out)"
  by (simp add: with_toks_def fun_eq_iff)

lemma wp_stack_from: "wp (stack_from n) Q s = Q (drop n (cdd_refstack s)) s"
  by (simp add: stack_from_def wp_gets)

lemma wp_stack_reset: "wp (stack_reset n) Q s = Q () (s\<lparr>cdd_refstack := take n (cdd_refstack s)\<rparr>)"
  by (simp add: stack_reset_def wp_modify)

definition cdd_finish :: "nat \<Rightarrow> nat \<Rightarrow> nat \<Rightarrow> nat \<Rightarrow> ptr \<Rightarrow> ptr \<Rightarrow> unit K" where
  "cdd_finish slot k tos first msk prev =
     thenM (cdd_push (cdd_neg_cond prev msk) bnd_INF) (
     bindM (stack_from first) (\<lambda>es.
     bindM (cdd_make_cdd_node k es) (\<lambda>p.
     thenM (modifyM (\<lambda>s. s\<lparr>applycache := upd_entry slot (\<lambda>e. e\<lparr>c_res := cdd_neg_cond p msk\<rparr>) (applycache s)\<rparr>)) (
     bindM (stack_from first) (\<lambda>es.
     thenM (forM es (\<lambda>e. cdd_deref (e_child e)))
     (stack_reset tos))))))"

lemma cdd_finish_spec:
  assumes c: "core s X F0 {} B" and k: "caches_mean Me s B"
    and l: "k < cdd_levelcnt s" "li_type (cdd_levelinfo s ! k) = TYPE_CDD"
    and stk: "cdd_refstack s2 = cdd_refstack s @ st" and s2: "s2 = s\<lparr>cdd_refstack := cdd_refstack s @ st\<rparr>"
    and mg: "merged Me X B s2 k T m (cdd_refstack s2) v out p bnd_INF"
    and T: "\<And>a. T a = op_sem op (eval (cont s) a l) (eval (cont s) a r)"
    and kk: "k = min (lv (cont s) l) (lv (cont s) r)"
    and slot: "slot < length (cache_table (applycache s))"
  shows "wp (cdd_finish slot k (length (cdd_refstack s)) (length (cdd_refstack s2)) (cdd_mask m) p)
     (\<lambda>_. branch_ok Me X B s op l r slot) v"
proof -
  let ?Y = "with_toks X (p # map e_child out)" and ?es = "out @ [masked p bnd_INF m]"
  let ?v = "v\<lparr>cdd_refstack := cdd_refstack v @ [masked p bnd_INF m]\<rparr>"
  obtain F where vf: "core ?v ?Y F {} B" "caches_mean Me ?v B" "sframes X s ?v" "cdd_refstack ?v = cdd_refstack s2 @ ?es"
    "elems_ok B k ?es" "\<forall>e \<in> set ?es. k < lv (cont ?v) (e_child e)"
    "\<And>a. (eval (cont ?v) a (pick (fst a k) ?es) \<noteq> (cdd_mask m \<noteq> 0)) = T a"
    using mg unfolding merged_def s2 by auto
  have tk: "?Y = with_toks X (map e_child ?es)" by (simp only: with_toks_last)
  have us: "usable ?v B F (e_child e) \<and> k < lv (cont ?v) (e_child e)" if "e \<in> set ?es" for e
  proof -
    have "reach ?Y ?v (e_child e)" unfolding tk by (rule reach_tok) (use that in auto)
    then show ?thesis using reach_usable [OF vf(1)] vf(6) that by blast
  qed
  have lv: "k < cdd_levelcnt ?v" "li_type (cdd_levelinfo ?v ! k) = TYPE_CDD"
    using sframes_env [OF vf(3)] l by (simp_all add: same_env_def)
  have es: "?es \<noteq> []" "sorted_wrt (<) (map e_bnd ?es)" "e_bnd (last ?es) = bnd_INF" "e_bnd ` set ?es \<subseteq> B k"
    "cdd_mask (e_child (hd ?es)) = 0" "distinct_adj (map e_child ?es)"
    using vf(5) unfolding elems_ok_def by simp_all
  have push: "wp (cdd_push (cdd_neg_cond p (cdd_mask m)) bnd_INF) Q v = Q () ?v" for Q
    by (simp add: cdd_push_def wp_modify masked_def)
  have dr: "drop (length (cdd_refstack s2)) (cdd_refstack ?v) = ?es" unfolding vf(4) by simp
  show ?thesis
    unfolding cdd_finish_def wp_then wp_bind push wp_stack_from dr wp_modify wp_stack_reset
  proof (rule wp_mono [OF cdd_make_cdd_node_spec [OF vf(1,2) lv es us]])
    fix q w assume "made_cdd_with Me ?Y B ?v k ?es q w"
    then have w: "core w ?Y {cdd_rglr q} {} B" "caches_mean Me w B" "frames ?Y ?v w"
      "sound (cont w) (tabled w) (cdd_levelinfo w) B q" "k \<le> lv (cont w) q"
      "\<And>a. eval (cont w) a q = eval (cont ?v) a (pick (fst a k) ?es)"
      by (simp_all add: made_cdd_with_def)
    let ?u = "\<lambda>e. e\<lparr>c_res := cdd_neg_cond q (cdd_mask m)\<rparr>"
    let ?w = "w\<lparr>applycache := upd_entry slot ?u (applycache w)\<rparr>"
    have sw: "cdd_refstack w = cdd_refstack s2 @ ?es" using stack_frames [OF w(3)] vf(4) by simp
    have dw: "drop (length (cdd_refstack s2)) (cdd_refstack ?w) = ?es" using sw by simp
    have fsw: "sframes X s w" by (rule sframes_frames [OF c vf(3) w(3) toks_pos])
    have "core ?w ?Y {cdd_rglr q} {} B" using w(1) by (simp only: view_core [OF view_upd(4)])
    then have cw: "core ?w (with_toks X (map e_child ?es @ [])) {cdd_rglr q} {} B" using tk by simp
    show "wp (forM (drop (length (cdd_refstack s2)) (cdd_refstack ?w)) (\<lambda>e. cdd_deref (e_child e)))
        (\<lambda>_ s'. branch_ok Me X B s op l r slot (s'\<lparr>cdd_refstack := take (length (cdd_refstack s)) (cdd_refstack s')\<rparr>)) ?w"
      unfolding forM_children dw
    proof (rule wp_mono [OF derefs_spec [OF cw]], elim conjE)
      fix x z assume z: "core z (with_toks X []) (cdd_rglr ` set (map e_child ?es) \<union> {cdd_rglr q}) {} B" "sim ?w z"
      let ?z = "z\<lparr>applycache := applycache w\<rparr>" and ?z' = "z\<lparr>cdd_refstack := take (length (cdd_refstack s)) (cdd_refstack z)\<rparr>"
      have cz: "core ?z X {cdd_rglr q} {} B"
        using core_antitone [OF z(1), of "{cdd_rglr q}" X] by (simp add: view_core [OF view_upd(4)])
      have sz: "sim w ?z" by (rule sim_applycache [OF z(2)])
      note fz = sim_fields [OF sz] blank_fields [OF sim_fields(2) [OF sz]]
      have lz: "cdd_levelinfo z = cdd_levelinfo w" using blank_fields(10) [OF sim_fields(2) [OF sz]] by simp
      have "cdd_refstack z = cdd_refstack w" using blank_fields(13) [OF sim_fields(2) [OF z(2)]] by simp
      then have stz: "take (length (cdd_refstack s)) (cdd_refstack z) = cdd_refstack s" using sw stk by simp
      let ?r = "?z\<lparr>cdd_refstack := cdd_refstack s\<rparr>"
      have fsz: "frames X s ?r"
        using sframes_frames [OF c fsw sim_frames [OF sz], of X] by (simp add: sframes_def)
      have ev: "(eval (cont w) a q \<noteq> (cdd_mask m \<noteq> 0)) = op_sem op (eval (cont s) a l) (eval (cont s) a r)" for a
        using w(6) [of a] vf(7) [of a] T by simp
      have "op_result Me X B s op l r (cdd_neg_cond q (cdd_mask m)) ?r"
        using cz fsz w(4,5) sim_caches [OF sz w(2)] ev kk unfolding op_result_def
        by (simp add: fz lz eval_neg_cond)
      moreover have "?z'\<lparr>applycache := applycache w\<rparr> = ?r" unfolding stz by simp
      moreover have "applycache ?z' = upd_entry slot ?u (applycache w)"
        using blank_fields(17) [OF sim_fields(2) [OF z(2)]] by simp
      moreover have "slot < length (cache_table (applycache w))"
        using slot cache_size [OF k _ sframes_env [OF fsw]] w(2) by simp
      ultimately show "branch_ok Me X B s op l r slot ?z'"
        unfolding branch_ok_def by metis
    qed
  qed
qed

section \<open>The branch for clock differences\<close>

lemma cursor_ok_mono: "cursor_ok X B s k n c L \<Longrightarrow> n \<le> n' \<Longrightarrow> cursor_ok X B s k n' c L"
  by (cases c) (auto simp: cursor_ok_def)

text \<open>The state at the first recursive call: nodes of a lower level are on the stack.\<close>

lemma cursors_spec:
  assumes c: "core s X F {} B" and r: "reach X s l" "reach X s r" "cdd_rglr l \<noteq> cddfalse" "cdd_rglr r \<noteq> cddfalse"
    and lev: "ll = lv (cont s) l" "rl = lv (cont s) r"
    and ty: "li_type (cdd_levelinfo s ! min ll rl) = TYPE_CDD"
  shows "wp (cursor_for (ll \<le> rl) (cdd_rglr l)) (\<lambda>lp. wp (cursor_for (rl \<le> ll) (cdd_rglr r)) (\<lambda>rp t.
     \<exists>st L R. t = s\<lparr>cdd_refstack := cdd_refstack s @ st\<rparr> \<and>
       cursor_ok X B t (min ll rl) (length (cdd_refstack t)) lp L \<and>
       cursor_ok X B t (min ll rl) (length (cdd_refstack t)) rp R \<and>
       (\<forall>a. eval (cont s) a l = eval (cont s) a (cdd_neg_cond (pick (fst a (min ll rl)) L) (cdd_mask l)) \<and>
            eval (cont s) a r = eval (cont s) a (cdd_neg_cond (pick (fst a (min ll rl)) R) (cdd_mask r))))) s"
proof -
  let ?k = "min ll rl" and ?L = "cdd_rglr l" and ?R = "cdd_rglr r"
  have cond: "(ll \<le> rl) = (?k = lv (cont s) ?L)" "(rl \<le> ll) = (?k = lv (cont s) ?R)"
    and kl: "?k \<le> lv (cont s) ?L" "?k \<le> lv (cont s) ?R" using lev by auto
  have rL: "reach X s ?L" "cdd_rglr ?L = ?L" and rR: "reach X s ?R" "cdd_rglr ?R = ?R" using r by simp_all
  have sp: "eval (cont s) a p = eval (cont s) a (cdd_neg_cond q (cdd_mask p))"
    if "eval (cont s) a (cdd_rglr p) = eval (cont s) a q" for a p q
    using that eval_split [of "cont s" a p] by (auto simp: eval_neg_cond)
  show ?thesis
    unfolding cond
  proof (rule wp_mono [OF cursor_for_spec [OF c rL r(3) ty kl(1)]], elim exE conjE)
    fix lp t st1 L
    assume t: "t = s\<lparr>cdd_refstack := cdd_refstack s @ st1\<rparr>"
      and L: "cursor_ok X B t ?k (length (cdd_refstack t)) lp L" "\<forall>a. eval (cont s) a ?L = eval (cont s) a (pick (fst a ?k) L)"
    have ct: "core t X F {} B" "reach X t ?R" "li_type (cdd_levelinfo t ! ?k) = TYPE_CDD" "?k \<le> lv (cont t) ?R"
      using c rR ty kl by (simp_all add: t)
    have W: "wp (cursor_for (?k = lv (cont s) ?R) ?R) (\<lambda>cu u. \<exists>st L. u = t\<lparr>cdd_refstack := cdd_refstack t @ st\<rparr> \<and>
       cursor_ok X B u ?k (length (cdd_refstack u)) cu L \<and> (\<forall>a. eval (cont s) a ?R = eval (cont s) a (pick (fst a ?k) L))) t"
      using cursor_for_spec [OF ct(1,2) rR(2) r(4) ct(3,4)] by (simp add: t)
    show "wp (cursor_for (?k = lv (cont s) ?R) ?R) (\<lambda>rp t. \<exists>st L R. t = s\<lparr>cdd_refstack := cdd_refstack s @ st\<rparr> \<and>
       cursor_ok X B t ?k (length (cdd_refstack t)) lp L \<and> cursor_ok X B t ?k (length (cdd_refstack t)) rp R \<and>
       (\<forall>a. eval (cont s) a l = eval (cont s) a (cdd_neg_cond (pick (fst a ?k) L) (cdd_mask l)) \<and>
            eval (cont s) a r = eval (cont s) a (cdd_neg_cond (pick (fst a ?k) R) (cdd_mask r)))) t"
    proof (rule wp_mono [OF W], elim exE conjE)
      fix rp u st2 R
      assume u: "u = t\<lparr>cdd_refstack := cdd_refstack t @ st2\<rparr>"
        and R: "cursor_ok X B u ?k (length (cdd_refstack u)) rp R" "\<forall>a. eval (cont s) a ?R = eval (cont s) a (pick (fst a ?k) R)"
      have "cursor_ok X B u ?k (length (cdd_refstack t)) lp L"
        by (rule cursor_ok_frames [OF ct(1) _ _ _ L(1)]) (simp_all add: u)
      then have "cursor_ok X B u ?k (length (cdd_refstack u)) lp L" by (rule cursor_ok_mono) (simp add: u)
      then show "\<exists>st L R. u = s\<lparr>cdd_refstack := cdd_refstack s @ st\<rparr> \<and>
         cursor_ok X B u ?k (length (cdd_refstack u)) lp L \<and> cursor_ok X B u ?k (length (cdd_refstack u)) rp R \<and>
         (\<forall>a. eval (cont s) a l = eval (cont s) a (cdd_neg_cond (pick (fst a ?k) L) (cdd_mask l)) \<and>
              eval (cont s) a r = eval (cont s) a (cdd_neg_cond (pick (fst a ?k) R) (cdd_mask r)))"
        using R(1) sp [OF L(2) [rule_format]] sp [OF R(2) [rule_format]]
        by (intro exI [of _ "st1 @ st2"] exI [of _ L] exI [of _ R] conjI allI) (simp_all add: u t)
    qed
  qed
qed

text \<open>The first pair of children.\<close>

lemma merged_start:
  assumes c: "core s X F {} B" and k: "caches_mean Me s B" and n: "stk = cdd_refstack s"
    and t: "op_result Me X B s op l r p t" "k < min (lv (cont s) l) (lv (cont s) r)" and b: "b \<in> B k"
    and T: "\<And>a. bnd_sat (fst a k) b \<Longrightarrow> op_sem op (eval (cont s) a l) (eval (cont s) a r) = T a"
  shows "wp (cdd_ref p) (\<lambda>_ u. merged Me X B s k T p stk u [] p b) t"
proof -
  have tf: "core t (with_toks X []) {cdd_rglr p} {} B" "caches_mean Me t B" "frames X s t"
    "sound (cont t) (tabled t) (cdd_levelinfo t) B p" "k < lv (cont t) p"
    "\<And>a. eval (cont t) a p = op_sem op (eval (cont s) a l) (eval (cont s) a r)"
    using t by (auto simp: op_result_def)
  have pl: "cdd_rglr p = cddfalse \<or> cdd_rglr p \<in> tabled t \<and> (0 < rf t (cdd_rglr p) \<or> cdd_rglr p \<in> {cdd_rglr p})"
    using sound_place [OF tf(4)] by auto
  show ?thesis
  proof (rule wp_mono [OF cdd_ref_spec [OF tf(1) pl]], elim conjE)
    fix x u assume u: "core u (with_toks X [p]) {cdd_rglr p} {} B" "sim t u"
    note fu = sim_fields [OF u(2)] blank_fields [OF sim_fields(2) [OF u(2)]]
    have "sframes X s t" using sframes_frames [OF c sframes_refl tf(3)] by simp
    then have su: "sframes X s u" using sframes_frames [OF c _ sim_frames [OF u(2)]] by blast
    have "eval (cont t) a (cdd_rglr p) = (eval (cont t) a p \<noteq> (cdd_mask p \<noteq> 0))" for a
      using eval_split [of "cont t" a p] by blast
    then have "(eval (cont t) a (cdd_rglr p) \<noteq> (cdd_mask p \<noteq> 0)) = T a" if "bnd_sat (fst a k) b" for a
      using T [OF that] tf(6) [of a] by auto
    then show "merged Me X B s k T p stk u [] p b"
      unfolding merged_def elems_ok_def
      using u(1) sim_caches [OF u(2) tf(2)] su stack_frames [OF tf(3)] tf(5) b n by (auto simp: fu)
  qed
qed

lemma apply_cdd_finish:
  "apply_cdd rec slot l r ll rl lmask rmask =
     bindM (gets (\<lambda>s. length (cdd_refstack s))) (\<lambda>tos.
     bindM (cursor_for (ll \<le> rl) l) (\<lambda>lp.
     bindM (cursor_for (rl \<le> ll) r) (\<lambda>rp.
     bindM (gets (\<lambda>s. length (cdd_refstack s))) (\<lambda>first.
     bindM (at_cursor lp) (\<lambda>le. bindM (at_cursor rp) (\<lambda>re.
     bindM (rec (cdd_neg_cond (e_child le) lmask) (cdd_neg_cond (e_child re) rmask)) (\<lambda>prev.
     thenM (cdd_ref prev) (
     bindM (at_cursor lp) (\<lambda>le. bindM (at_cursor rp) (\<lambda>re.
     bindM (gets cdd_maxcddsize) (\<lambda>mx.
     bindM (apply_loop (2 * mx) rec lmask rmask (cdd_mask prev) lp rp prev (minimum (e_bnd le) (e_bnd re))) (\<lambda>p.
     cdd_finish slot (min ll rl) tos first (cdd_mask prev) p))))))))))))"
  unfolding apply_cdd_def cdd_finish_def Let_def ..

lemma cursor_length: "cursor_ok X B s k n c L \<Longrightarrow> core s X F W B \<Longrightarrow> length L \<le> cdd_maxcddsize s"
  using sorted_bounds_card [of L "B k"] core_levels(8,11) [of s X F W B k] unfolding cursor_ok_def by fastforce

lemma cursor_hd: "cursor_ok X B s k n c L \<Longrightarrow> e_bnd (hd L) \<in> B k"
  by (auto simp: cursor_ok_def)

lemma min_in: "a \<in> S \<Longrightarrow> b \<in> S \<Longrightarrow> min a b \<in> S"
  by (simp add: min_def)

lemma apply_cdd_spec:
  assumes c: "core s X F {} B" and k: "caches_mean Me s B" and op: "mode op N s"
    and r: "reach X s l" "reach X s r" "cdd_rglr l \<noteq> cddfalse" "cdd_rglr r \<noteq> cddfalse"
    and lev: "ll = lv (cont s) l" "rl = lv (cont s) r"
    and ty: "li_type (cdd_levelinfo s ! min ll rl) = TYPE_CDD"
    and lc: "min ll rl < cdd_levelcnt s"
    and rec: "rec_ok Me B op N (min ll rl) rec"
    and slot: "slot < length (cache_table (applycache s))"
  shows "wp (apply_cdd rec slot (cdd_rglr l) (cdd_rglr r) ll rl (cdd_mask l) (cdd_mask r))
     (\<lambda>_. branch_ok Me X B s op l r slot) s"
proof -
  let ?k = "min ll rl" and ?Q = "branch_ok Me X B s op l r slot"
  define T where "T = (\<lambda>a. op_sem op (eval (cont s) a l) (eval (cont s) a r))"
  define loop where "loop = (\<lambda>first lp rp prev. bindM (at_cursor lp) (\<lambda>le. bindM (at_cursor rp) (\<lambda>re.
     bindM (gets cdd_maxcddsize) (\<lambda>mx.
     bindM (apply_loop (2 * mx) rec (cdd_mask l) (cdd_mask r) (cdd_mask prev) lp rp prev (minimum (e_bnd le) (e_bnd re))) (\<lambda>p.
     cdd_finish slot ?k (length (cdd_refstack s)) first (cdd_mask prev) p)))))"
  have body: "wp (at_cursor lp) (\<lambda>le. wp (at_cursor rp) (\<lambda>re.
      wp (rec (cdd_neg_cond (e_child le) (cdd_mask l)) (cdd_neg_cond (e_child re) (cdd_mask r))) (\<lambda>prev.
      wp (cdd_ref prev) (\<lambda>_. wp (loop (length (cdd_refstack s2)) lp rp prev) (\<lambda>_. ?Q))))) s2"
    if s2: "s2 = s\<lparr>cdd_refstack := cdd_refstack s @ st\<rparr>"
      and L: "cursor_ok X B s2 ?k (length (cdd_refstack s2)) lp L" and R: "cursor_ok X B s2 ?k (length (cdd_refstack s2)) rp R"
      and sem: "\<forall>a. eval (cont s) a l = eval (cont s) a (cdd_neg_cond (pick (fst a ?k) L) (cdd_mask l)) \<and>
            eval (cont s) a r = eval (cont s) a (cdd_neg_cond (pick (fst a ?k) R) (cdd_mask r))" for s2 st lp rp L R
  proof -
    let ?l = "cdd_neg_cond (e_child (hd L)) (cdd_mask l)" and ?r = "cdd_neg_cond (e_child (hd R)) (cdd_mask r)"
    let ?b = "min (e_bnd (hd L)) (e_bnd (hd R))" and ?n = "length (cdd_refstack s2)"
    have c2: "core s2 X F {} B" and k2: "caches_mean Me s2 B" and op2: "mode op N s2" using c k op by (simp_all add: s2 mode_def)
    have args: "reach X s2 ?l" "reach X s2 ?r" "?k < lv (cont s2) ?l" "?k < lv (cont s2) ?r"
      using L R by (simp_all add: cursor_ok_def)
    have bB: "?b \<in> B ?k" using cursor_hd [OF L] cursor_hd [OF R] by (rule min_in)
    have hd_pick: "pick x M = e_child (hd M)" if "cursor_ok X B s2 ?k ?n cu M" "bnd_sat x ?b" "?b \<le> e_bnd (hd M)" for x M cu
      using that bnd_sat_mono [OF that(3,2)] by (cases M) (auto simp: cursor_ok_def)
    have TT: "op_sem op (eval (cont s2) a ?l) (eval (cont s2) a ?r) = T a" if "bnd_sat (fst a ?k) ?b" for a
      using hd_pick [OF L that] hd_pick [OF R that] sem by (simp add: T_def s2)
    have rest: "\<forall>a. \<not> bnd_sat (fst a ?k) ?b \<longrightarrow> T a = op_sem op
        (eval (cont s2) a (cdd_neg_cond (pick (fst a ?k) L) (cdd_mask l))) (eval (cont s2) a (cdd_neg_cond (pick (fst a ?k) R) (cdd_mask r)))"
      using sem by (simp add: T_def s2)
    have "wp (rec ?l ?r) (\<lambda>prev. wp (cdd_ref prev) (\<lambda>_. wp (loop ?n lp rp prev) (\<lambda>_. ?Q))) s2"
    proof (rule wp_mono [OF rec_okD [OF rec c2 k2 op2 args]])
      fix p t assume t: "op_result Me X B s2 op ?l ?r p t"
      have kk: "?k < min (lv (cont s2) ?l) (lv (cont s2) ?r)" using args by simp
      show "wp (cdd_ref p) (\<lambda>_. wp (loop ?n lp rp p) (\<lambda>_. ?Q)) t"
      proof (rule wp_mono [OF merged_start [OF c2 k2 refl t kk bB TT]])
        fix x u assume u: "merged Me X B s2 ?k T p (cdd_refstack s2) u [] p ?b"
        have tr: "cursor_ok X B u ?k ?n cu M" if "cursor_ok X B s2 ?k ?n cu M" for cu M
          by (rule cursor_ok_frames [OF c2 _ _ _ that]) (use u in \<open>auto simp: merged_def\<close>)
        have mx: "cdd_maxcddsize u = cdd_maxcddsize s2"
          using u sframes_env [of X s2 u] by (simp add: merged_def same_env_def)
        have len: "length L + length R \<le> 2 * cdd_maxcddsize u + 2"
          using cursor_length [OF L c2] cursor_length [OF R c2] mx by simp
        have "minimum (e_bnd (hd L)) (e_bnd (hd R)) = ?b" by (simp add: minimum_def)
        then show "wp (loop ?n lp rp p) (\<lambda>_. ?Q) u"
          unfolding loop_def wp_bind wp_gets wp_eq [where m = "at_cursor lp", OF at_cursor_eq [OF tr [OF L]]]
            wp_eq [where m = "at_cursor rp", OF at_cursor_eq [OF tr [OF R]]]
        proof (simp only:, intro wp_mono [OF apply_loop_spec [OF c2 op2 rec refl L R refl u rest len]], elim exE)
          fix q v out' assume v: "merged Me X B s2 ?k T p (cdd_refstack s2) v out' q bnd_INF"
          show "wp (cdd_finish slot ?k (length (cdd_refstack s)) ?n (cdd_mask p) q) (\<lambda>_. ?Q) v"
            by (rule cdd_finish_spec [OF c k lc ty _ s2 v _ _ slot]) (use lev in \<open>simp_all add: s2 T_def\<close>)
        qed
      qed assumption
    qed
    then show ?thesis
      unfolding wp_eq [where m = "at_cursor lp", OF at_cursor_eq [OF L]] wp_eq [where m = "at_cursor rp", OF at_cursor_eq [OF R]] .
  qed
  have "wp (cursor_for (ll \<le> rl) (cdd_rglr l)) (\<lambda>lp. wp (cursor_for (rl \<le> ll) (cdd_rglr r)) (\<lambda>rp s2.
     wp (at_cursor lp) (\<lambda>le. wp (at_cursor rp) (\<lambda>re.
      wp (rec (cdd_neg_cond (e_child le) (cdd_mask l)) (cdd_neg_cond (e_child re) (cdd_mask r))) (\<lambda>prev.
      wp (cdd_ref prev) (\<lambda>_. wp (loop (length (cdd_refstack s2)) lp rp prev) (\<lambda>_. ?Q))))) s2)) s"
  proof (rule wp_mono [OF cursors_spec [OF c r lev ty]], erule wp_mono, elim exE conjE)
    fix lp t rp s2 st L R
    assume "s2 = s\<lparr>cdd_refstack := cdd_refstack s @ st\<rparr>"
      and "cursor_ok X B s2 ?k (length (cdd_refstack s2)) lp L" "cursor_ok X B s2 ?k (length (cdd_refstack s2)) rp R"
      and "\<forall>a. eval (cont s) a l = eval (cont s) a (cdd_neg_cond (pick (fst a ?k) L) (cdd_mask l)) \<and>
            eval (cont s) a r = eval (cont s) a (cdd_neg_cond (pick (fst a ?k) R) (cdd_mask r))"
    then show "wp (at_cursor lp) (\<lambda>le. wp (at_cursor rp) (\<lambda>re.
      wp (rec (cdd_neg_cond (e_child le) (cdd_mask l)) (cdd_neg_cond (e_child re) (cdd_mask r))) (\<lambda>prev.
      wp (cdd_ref prev) (\<lambda>_. wp (loop (length (cdd_refstack s2)) lp rp prev) (\<lambda>_. ?Q))))) s2"
      by (rule body)
  qed
  then show ?thesis
    unfolding apply_cdd_finish loop_def wp_bind wp_gets wp_then .
qed

section \<open>\<^verbatim>\<open>cdd_apply_rec\<close>\<close>

lemma op_sem_sym: "op_sem op x y = op_sem op y x"
  by (auto simp: op_sem_def)

lemma op_result_sym: "op_result Me X B s op l r p s' = op_result Me X B s op r l p s'"
  by (simp add: op_result_def op_sem_sym [of op "eval (cont s) _ l"] min.commute)

lemma cache_reads:
  assumes "cache_shape (sel s)"
  obtains i where "cache_slot sel h s = Inr (i, s)" "i < length (cache_table (sel s))"
    "cache_entry sel i s = Inr (cache_table (sel s) ! i, s)"
  using assms by (intro that [of "unat h mod cache_tablesize (sel s)"])
    (simp_all add: cache_shape_def cache_slot_def cache_entry_def CddCache_lookup_def bindM_def gets_def someM_def ret_def)

lemma slot_eq:
  assumes "caches_mean Me s B"
  obtains i where "cache_slot applycache h s = Inr (i, s)" "i < length (cache_table (applycache s))"
    "cache_entry applycache i s = Inr (cache_table (applycache s) ! i, s)"
  by (rule cache_reads [of applycache s h]) (use assms in \<open>simp_all add: caches_mean_def\<close>)

text \<open>An entry with the arguments of the call has its result.\<close>

lemma cache_hit:
  assumes c: "core s X F {} B" and k: "caches_mean Me s B" and op: "op = cddop_and \<or> op = cddop_xor"
    and i: "i < length (cache_table (applycache s))" and e: "e = cache_table (applycache s) ! i"
    and key: "c_a e = l" "c_b e = r" "c_c e = op" and nz: "cdd_rglr l \<noteq> 0" "cdd_rglr r \<noteq> 0"
  shows "wp (thenM (revive (c_res e)) (ret (c_res e))) (op_result Me X B s op l r) s"
proof -
  have z: "cdd_rglr 0 = 0" by (simp add: cdd_rglr_def)
  have "e \<in> set (cache_table (applycache s))" "cache_live e" using i e key nz z by (auto simp: cache_live_def)
  then have ok: "apply_entry_ok s B e" using k by (simp add: caches_mean_def opcache.all_live_def)
  have so: "sound (cont s) (tabled s) (cdd_levelinfo s) B (c_res e)"
    using ok by (simp add: apply_entry_ok_def cache_ptrs_def)
  have "r \<noteq> 0" using nz z by auto
  then have sem: "min (lv (cont s) l) (lv (cont s) r) \<le> lv (cont s) (c_res e)"
    "\<And>a. eval (cont s) a (c_res e) = op_sem op (eval (cont s) a l) (eval (cont s) a r)"
    using ok op key by (simp_all add: apply_entry_ok_def)
  show ?thesis
    unfolding wp_then wp_ret
  proof (rule wp_mono [OF revive_spec [OF c so]])
    show "cdd_rglr (c_res e) \<in> tabled s \<or> cdd_rglr (c_res e) = cddfalse" by (rule sound_place [OF so])
    fix x t assume t: "core t X {cdd_rglr (c_res e)} {} B \<and> sim s t"
    then have st: "sim s t" by simp
    note f = sim_fields [OF st] blank_fields [OF sim_fields(2) [OF st]]
    show "op_result Me X B s op l r (c_res e) t"
      using t so sem sim_frames [OF st] sim_caches [OF st k] by (simp add: op_result_def f)
  qed
qed

text \<open>The entry written at the end is right.\<close>

lemma cache_write:
  assumes k: "caches_mean Me s B"
    and e: "entry_sound s B e" "c_c e = cddop_and \<or> c_c e = cddop_xor \<Longrightarrow>
      min (lv (cont s) (c_a e)) (lv (cont s) (c_b e)) \<le> lv (cont s) (c_res e) \<and>
      (\<forall>a. eval (cont s) a (c_res e) = op_sem (c_c e) (eval (cont s) a (c_a e)) (eval (cont s) a (c_b e)))"
  shows "caches_mean Me (s\<lparr>applycache := upd_entry i (\<lambda>_. e) (applycache s)\<rparr>) B"
proof -
  let ?s = "s\<lparr>applycache := upd_entry i (\<lambda>_. e) (applycache s)\<rparr>"
  note f = view_fields [OF view_upd(4) [of "upd_entry i (\<lambda>_. e) (applycache s)" s]]
    view_views [OF view_upd(4) [of "upd_entry i (\<lambda>_. e) (applycache s)" s]]
  have same: "apply_entry_ok ?s B = apply_entry_ok s B" "entry_means Me ?s B = entry_means Me s B"
    unfolding fun_eq_iff apply_entry_ok_def entry_means_def entry_sound_def f by simp_all
  have "apply_entry_ok s B e" using e unfolding apply_entry_ok_def entry_sound_def by blast
  then have "opcache.all_live (apply_entry_ok s B) (upd_entry i (\<lambda>_. e) (applycache s))"
    using k set_update_subset_insert [of "cache_table (applycache s)" i e]
    unfolding caches_mean_def opcache.all_live_def upd_entry_def by auto
  then show ?thesis
    using k unfolding caches_mean_def same by (simp add: upd_entry_def cache_shape_def)
qed

lemma branch_finish:
  assumes z: "branch_ok Me X B s op l r i z" and op: "mode op N s" and c: "core s X F {} B"
    and r: "reach X s l" "reach X s r"
  shows "wp (bindM (gets applyop) (\<lambda>op.
       thenM (modifyM (\<lambda>s. s\<lparr>applycache := upd_entry i (\<lambda>e. e\<lparr>c_a := l, c_b := r, c_c := op\<rparr>) (applycache s)\<rparr>)) (
       bindM (cache_entry applycache i) (\<lambda>e. ret (c_res e))))) (op_result Me X B s op l r) z"
proof -
  obtain p a where p: "applycache z = upd_entry i (\<lambda>e. e\<lparr>c_res := p\<rparr>) a" "i < length (cache_table a)"
    "op_result Me X B s op l r p (z\<lparr>applycache := a\<rparr>)" using z by (auto simp: branch_ok_def)
  let ?u = "z\<lparr>applycache := a\<rparr>" and ?e = "(cache_table a ! i)\<lparr>c_res := p, c_a := l, c_b := r, c_c := op\<rparr>"
  let ?v = "z\<lparr>applycache := upd_entry i (\<lambda>e. e\<lparr>c_a := l, c_b := r, c_c := op\<rparr>) (applycache z)\<rparr>"
  have u: "core ?u X {cdd_rglr p} {} B" "caches_mean Me ?u B" "frames X s ?u" "sound (cont ?u) (tabled ?u) (cdd_levelinfo ?u) B p"
    "min (lv (cont s) l) (lv (cont s) r) \<le> lv (cont ?u) p"
    "\<And>x. eval (cont ?u) x p = op_sem op (eval (cont s) x l) (eval (cont s) x r)"
    using p(3) by (simp_all add: op_result_def)
  have opz: "applyop z = op" using frames_env [OF u(3)] op by (simp add: mode_def same_env_def)
  have "upd_entry i (\<lambda>e. e\<lparr>c_a := l, c_b := r, c_c := op\<rparr>) (applycache z) = upd_entry i (\<lambda>_. ?e) a"
    using p(2) by (simp add: p(1) upd_entry_def)
  then have v: "?v = ?u\<lparr>applycache := upd_entry i (\<lambda>_. ?e) (applycache ?u)\<rparr>" by simp
  note rl = reach_frames [OF c u(3) r(1)] and rr = reach_frames [OF c u(3) r(2)]
  have es: "entry_sound ?u B ?e"
    using u(4) reach_sound [OF u(1) rl(1)] reach_sound [OF u(1) rr(1)] by (simp add: entry_sound_def cache_ptrs_def)
  have kv: "caches_mean Me ?v B"
    unfolding v by (rule cache_write [OF u(2) es]) (use u(5,6) rl(2,3) rr(2,3) in simp)
  have vv: "view ?v = view ?u" unfolding v by simp
  note f = view_fields [OF vv] view_views [OF vv]
  have sz: "cache_tablesize (applycache ?v) = cache_tablesize (applycache ?u)" by (simp add: p(1) upd_entry_def)
  have "core ?v X {cdd_rglr p} {} B" using u(1) unfolding view_core [OF vv] .
  moreover have "frames X s ?v"
    using u(3) unfolding frames_def same_env_def f sz by simp
  ultimately have "op_result Me X B s op l r p ?v"
    using kv u(4-6) unfolding op_result_def f by blast
  moreover have "cache_entry applycache i ?v = Inr (?e, ?v)"
    using p(2) by (simp add: cache_entry_def bindM_def gets_def ret_def p(1) upd_entry_def)
  moreover have "c_res ?e = p" by simp
  ultimately show ?thesis
    unfolding wp_bind wp_then wp_gets wp_modify opz
    by (simp only: wp_eq [where m = "cache_entry applycache i"] wp_ret)
qed

definition apply_nonterminal :: "(ptr \<Rightarrow> ptr \<Rightarrow> ptr K) \<Rightarrow> int \<Rightarrow> ptr \<Rightarrow> ptr \<Rightarrow> ptr K" where
  "apply_nonterminal rec op l r =
     bindM (cdd_isterminal l) (\<lambda>tl. bindM (if tl then cdd_isterminal r else ret False) (\<lambda>both.
     if both then
       bindM (cdd_is_extra_terminal l) (\<lambda>xl. bindM (cdd_is_extra_terminal r) (\<lambda>xr.
       thenM (guardM AssertFail (xl \<and> xr)) (ret l)))
     else
     bindM (cache_slot applycache (APPLYHASH l r op)) (\<lambda>slot.
     bindM (cache_entry applycache slot) (\<lambda>e.
     if c_a e = l \<and> c_b e = r \<and> c_c e = op then thenM (revive (c_res e)) (ret (c_res e))
     else
       bindM (level_of (cdd_rglr l)) (\<lambda>ll. bindM (level_of (cdd_rglr r)) (\<lambda>rl.
       bindM (levelinfo_at (min ll rl)) (\<lambda>info.
       thenM (case li_type info of
           TYPE_CDD \<Rightarrow> apply_cdd rec slot (cdd_rglr l) (cdd_rglr r) ll rl (cdd_mask l) (cdd_mask r)
         | TYPE_BDD \<Rightarrow> apply_bdd rec slot (cdd_rglr l) (cdd_rglr r) ll rl (cdd_mask l) (cdd_mask r)) (
       bindM (gets applyop) (\<lambda>op.
       thenM (modifyM (\<lambda>s. s\<lparr>applycache := upd_entry slot (\<lambda>e. e\<lparr>c_a := l, c_b := r, c_c := op\<rparr>) (applycache s)\<rparr>)) (
       bindM (cache_entry applycache slot) (\<lambda>e. ret (c_res e))))))))))))"

lemma apply_rec_Suc:
  "cdd_apply_rec (Suc n) l r =
     bindM (gets cdd_errorcond) (\<lambda>err. if err \<noteq> 0 then ret 0 else
     bindM (gets applyop) (\<lambda>op.
     case apply_terminal op l r of Some p \<Rightarrow> ret p | None \<Rightarrow>
     if l > r then apply_nonterminal (cdd_apply_rec n) op r l else apply_nonterminal (cdd_apply_rec n) op l r))"
  unfolding cdd_apply_rec.simps apply_nonterminal_def Let_def rglr_mask
  by (intro arg_cong2 [where f = bindM] ext refl if_cong option.case_cong) (simp_all split: option.split)

lemma node_reads:
  assumes c: "core s X F {} B" and r: "reach X s p" "cdd_rglr p \<noteq> cddfalse"
  shows "cdd_isterminal p s = Inr (False, s)" "level_of (cdd_rglr p) s = Inr (lv (cont s) p, s)"
    "lv (cont s) p < cdd_levelcnt s"
proof -
  have rp: "reach X s (cdd_rglr p)" "cdd_rglr (cdd_rglr p) = cdd_rglr p" using r(1) by simp_all
  obtain b where b: "cont s (cdd_rglr p) = Some (lv (cont s) p, b)" "lv (cont s) p < cdd_levelcnt s" "lv (cont s) p < MAXLEVEL"
    using reach_node [OF c rp r(2)] by (metis lv_rglr)
  then obtain nd where nd: "nodes s (cdd_rglr p) = Some nd" "n_level nd = lv (cont s) p" by (auto simp: cont_def)
  show "cdd_isterminal p s = Inr (False, s)" "level_of (cdd_rglr p) s = Inr (lv (cont s) p, s)"
    using nd b(3) by (simp_all add: cdd_isterminal_def level_of_def bindM_def get_node_def someM_def ret_def)
  show "lv (cont s) p < cdd_levelcnt s" by (rule b(2))
qed

lemma isterminal_term:
  assumes "core s X F {} B" "cdd_rglr p = cddfalse"
  shows "cdd_isterminal p s = Inr (True, s)"
proof -
  obtain n where "nodes s cddfalse = Some n" "n_level n = MAXLEVEL" using core_term(1) [OF assms(1)] by (auto simp: cont_def)
  then show ?thesis by (simp add: cdd_isterminal_def bindM_def get_node_def someM_def ret_def assms(2))
qed

lemma apply_nonterminal_spec:
  assumes c: "core s X F {} B" and k: "caches_mean Me s B" and op: "mode op N s" and opv: "op = cddop_and \<or> op = cddop_xor"
    and r: "reach X s l" "reach X s r" and nt: "cdd_rglr l \<noteq> cddfalse" "cdd_rglr r \<noteq> cddfalse"
    and rec: "rec_ok Me B op N (min (lv (cont s) l) (lv (cont s) r)) rec"
  shows "wp (apply_nonterminal rec op l r) (op_result Me X B s op l r) s"
proof -
  let ?k = "min (lv (cont s) l) (lv (cont s) r)"
  note nl = node_reads [OF c r(1) nt(1)] and nr = node_reads [OF c r(2) nt(2)]
  have lc: "?k < cdd_levelcnt s" using nl(3) by simp
  have li: "levelinfo_at ?k s = Inr (cdd_levelinfo s ! ?k, s)"
    using lc core_levels(1) [OF c] by (simp add: levelinfo_at_def)
  obtain i where i: "cache_slot applycache (APPLYHASH l r op) s = Inr (i, s)" "i < length (cache_table (applycache s))"
    "cache_entry applycache i s = Inr (cache_table (applycache s) ! i, s)"
    by (rule slot_eq [OF k])
  let ?e = "cache_table (applycache s) ! i"
  have br: "wp (case li_type (cdd_levelinfo s ! ?k) of
           TYPE_CDD \<Rightarrow> apply_cdd rec i (cdd_rglr l) (cdd_rglr r) (lv (cont s) l) (lv (cont s) r) (cdd_mask l) (cdd_mask r)
         | TYPE_BDD \<Rightarrow> apply_bdd rec i (cdd_rglr l) (cdd_rglr r) (lv (cont s) l) (lv (cont s) r) (cdd_mask l) (cdd_mask r))
      (\<lambda>_. branch_ok Me X B s op l r i) s"
  proof (cases "li_type (cdd_levelinfo s ! ?k)")
    case TYPE_CDD
    then show ?thesis using apply_cdd_spec [OF c k op r nt refl refl TYPE_CDD lc rec i(2)] by simp
  next
    case TYPE_BDD
    then show ?thesis using apply_bdd_spec [OF c k op r nt refl refl TYPE_BDD rec i(2)] by simp
  qed
  show ?thesis
  proof (cases "c_a ?e = l \<and> c_b ?e = r \<and> c_c ?e = op")
    case True
    have "cdd_rglr l \<noteq> 0" "cdd_rglr r \<noteq> 0"
      using sound_nonzero [OF c] reach_sound [OF c] r by blast+
    then have "wp (thenM (revive (c_res ?e)) (ret (c_res ?e))) (op_result Me X B s op l r) s"
      using cache_hit [OF c k opv i(2) refl] True by blast
    then show ?thesis
      unfolding apply_nonterminal_def wp_bind wp_eq [where m = "cdd_isterminal l", OF nl(1)] if_False wp_ret
        wp_eq [where m = "cache_slot _ _", OF i(1)] wp_eq [where m = "cache_entry _ _", OF i(3)] if_P [OF True] .
  next
    case False
    show ?thesis
      unfolding apply_nonterminal_def wp_bind [where m = "cdd_isterminal _"] wp_eq [where m = "cdd_isterminal l", OF nl(1)]
        if_False wp_bind [where m = "ret _"] wp_ret
        wp_bind [where m = "cache_slot _ _"] wp_eq [where m = "cache_slot _ _", OF i(1)]
        wp_bind [where m = "cache_entry _ _"] wp_eq [where m = "cache_entry _ _", OF i(3)] if_not_P [OF False]
        wp_bind [where m = "level_of _"] wp_eq [where m = "level_of (cdd_rglr l)", OF nl(2)]
        wp_eq [where m = "level_of (cdd_rglr r)", OF nr(2)]
        wp_bind [where m = "levelinfo_at _"] wp_eq [where m = "levelinfo_at _", OF li]
        wp_then [where m = "case_node_type _ _ _"]
      by (rule wp_mono [OF br]) (rule branch_finish [OF _ op c r, unfolded wp_bind [where m = "cache_entry _ _"]])
  qed
qed

lemma cdd_apply_rec_spec:
  assumes op: "op = cddop_and \<or> op = cddop_xor"
  shows "core s X F {} B \<Longrightarrow> caches_mean Me s B \<Longrightarrow> mode op N s \<Longrightarrow> reach X s l \<Longrightarrow> reach X s r \<Longrightarrow> 0 < n \<Longrightarrow>
    N < n + min (lv (cont s) l) (lv (cont s) r) \<Longrightarrow> wp (cdd_apply_rec n l r) (op_result Me X B s op l r) s"
proof (induction n arbitrary: s X F l r)
  case 0
  then show ?case by simp
next
  case (Suc n)
  note c = Suc.prems(1) and k = Suc.prems(2) and m = Suc.prems(3) and r = Suc.prems(4,5)
  have run: "wp (cdd_apply_rec (Suc n) l r) Q s = wp (case apply_terminal op l r of Some p \<Rightarrow> ret p | None \<Rightarrow>
     if l > r then apply_nonterminal (cdd_apply_rec n) op r l else apply_nonterminal (cdd_apply_rec n) op l r) Q s" for Q
  proof -
    have e: "cdd_errorcond s = 0" "applyop s = op" using m core_levels(3) [OF c] by (simp_all add: mode_def)
    show ?thesis unfolding apply_rec_Suc wp_bind wp_gets e by (simp only: simp_thms if_False wp_bind wp_gets e)
  qed
  show ?case
  proof (cases "apply_terminal op l r")
    case (Some p)
    then show ?thesis using apply_terminal_spec [OF c k op r Some] unfolding run by (simp add: wp_ret)
  next
    case None
    note nt = apply_terminal_None [OF op None]
    have rec: "rec_ok Me B op N (min (lv (cont s) l) (lv (cont s) r)) (cdd_apply_rec n)"
      unfolding rec_ok_def
    proof (intro allI impI)
      fix t Y G a b
      assume t: "core t Y G {} B" "caches_mean Me t B" "mode op N t" "reach Y t a" "reach Y t b"
        and lt: "min (lv (cont s) l) (lv (cont s) r) < lv (cont t) a" "min (lv (cont s) l) (lv (cont s) r) < lv (cont t) b"
      have "min (lv (cont s) l) (lv (cont s) r) < N"
        using node_reads(3) [OF c r(1) nt(1)] m by (simp add: mode_def)
      then have "0 < n" "N < n + min (lv (cont t) a) (lv (cont t) b)" using Suc.prems(7) lt by auto
      then show "wp (cdd_apply_rec n a b) (op_result Me Y B t op a b) t" using Suc.IH t by blast
    qed
    have rec': "rec_ok Me B op N (min (lv (cont s) r) (lv (cont s) l)) (cdd_apply_rec n)"
      using rec by (simp add: min.commute)
    have "wp (apply_nonterminal (cdd_apply_rec n) op r l) (op_result Me X B s op l r) s"
      using apply_nonterminal_spec [OF c k m op r(2,1) nt(2,1) rec'] unfolding op_result_sym [of Me X B s op r l] .
    then show ?thesis
      using apply_nonterminal_spec [OF c k m op r nt rec] unfolding run None option.case wp_if by simp
  qed
qed

lemma cdd_apply_spec:
  assumes op: "op = cddop_and \<or> op = cddop_xor"
    and c: "core s X F {} B" and k: "caches_mean Me s B" and r: "reach X s l" "reach X s r"
  shows "wp (cdd_apply l r op) (\<lambda>p s'. core s' X {cdd_rglr p} {} B \<and> caches_mean Me s' B \<and>
     frames X (s\<lparr>applyop := op\<rparr>) s' \<and> sound (cont s') (tabled s') (cdd_levelinfo s') B p \<and>
     min (lv (cont s) l) (lv (cont s) r) \<le> lv (cont s') p \<and>
     (\<forall>a. eval (cont s') a p = op_sem op (eval (cont s) a l) (eval (cont s) a r))) s"
proof -
  let ?s = "s\<lparr>applyop := op\<rparr>"
  have v: "view ?s = view s" "applycache ?s = applycache s" by simp_all
  have vs: "cont ?s = cont s" by (rule view_views(1) [OF v(1)])
  have rs: "reach X ?s l" "reach X ?s r" using r by (simp_all add: reach_def vs)
  have m: "mode op (cdd_levelcnt s) ?s" by (simp add: mode_def)
  have W: "wp (cdd_apply_rec (cdd_levelcnt ?s + 1) l r) (op_result Me X B ?s op l r) ?s"
    unfolding kstate.simps
    by (rule cdd_apply_rec_spec [OF op _ _ m rs]) (use c k in \<open>simp_all add: view_core [OF v(1)] view_caches [OF v]\<close>)
  show ?thesis
    unfolding cdd_apply_def wp_then wp_modify wp_bind wp_gets
  proof (rule wp_mono [OF W])
    fix p t assume t: "op_result Me X B ?s op l r p t"
    then have "cdd_errorcond t = 0" using core_levels(3) by (auto simp: op_result_def)
    then show "wp (if cdd_errorcond t \<noteq> 0 then thenM (cdd_error (cdd_errorcond t)) (ret 0) else ret p)
      (\<lambda>p s'. core s' X {cdd_rglr p} {} B \<and> caches_mean Me s' B \<and> frames X ?s s' \<and>
        sound (cont s') (tabled s') (cdd_levelinfo s') B p \<and> min (lv (cont s) l) (lv (cont s) r) \<le> lv (cont s') p \<and>
        (\<forall>a. eval (cont s') a p = op_sem op (eval (cont s) a l) (eval (cont s) a r))) t"
      using t by (simp add: wp_ret op_result_def vs)
  qed
qed

end
