(* ===== verification/Op_Spec.thy ===== *)
theory Op_Spec
  imports Apply_Correct "HOL-Library.Multiset"
begin

text \<open>
  The operators in the terms of a client: a client holds references (\<open>client\<close>), an operator
  yields a diagram with a given meaning and leaves the diagrams that the client can reach as
  they are (\<open>yields\<close>).  \<^verbatim>\<open>cdd_and\<close>, \<^verbatim>\<open>cdd_xor\<close>, \<^verbatim>\<open>cdd_or\<close>, \<^verbatim>\<open>cdd_ite\<close> and the diagrams of a
  single test.
\<close>

declare split_paired_All [simp del]

section \<open>Clients\<close>

definition client_with :: "meaning \<Rightarrow> (ptr \<Rightarrow> nat) \<Rightarrow> (nat \<Rightarrow> raw_t set) \<Rightarrow> kstate \<Rightarrow> bool" where
  "client_with T X B s \<longleftrightarrow> (\<exists>F. core s X F {} B) \<and> caches_mean T s B"

abbreviation client :: "(ptr \<Rightarrow> nat) \<Rightarrow> (nat \<Rightarrow> raw_t set) \<Rightarrow> kstate \<Rightarrow> bool" where
  "client \<equiv> client_with any_meaning"

lemmas client_def = client_with_def [where T = any_meaning]

text \<open>The operators set the variable \<^verbatim>\<open>applyop\<close> for their recursive parts.\<close>

definition kframes :: "(ptr \<Rightarrow> nat) \<Rightarrow> kstate \<Rightarrow> kstate \<Rightarrow> bool" where
  "kframes X s s' \<longleftrightarrow> frames X (s\<lparr>applyop := applyop s'\<rparr>) s'"

definition yields_with :: "meaning \<Rightarrow> (ptr \<Rightarrow> nat) \<Rightarrow> (nat \<Rightarrow> raw_t set) \<Rightarrow> kstate \<Rightarrow> (asg \<Rightarrow> bool) \<Rightarrow> nat \<Rightarrow> ptr \<Rightarrow> kstate \<Rightarrow> bool" where
  "yields_with T X B s \<phi> k p s' \<longleftrightarrow> core s' X {cdd_rglr p} {} B \<and> caches_mean T s' B \<and> kframes X s s' \<and>
     sound (cont s') (tabled s') (cdd_levelinfo s') B p \<and> k \<le> lv (cont s') p \<and> (\<forall>a. eval (cont s') a p = \<phi> a)"

abbreviation yields :: "(ptr \<Rightarrow> nat) \<Rightarrow> (nat \<Rightarrow> raw_t set) \<Rightarrow> kstate \<Rightarrow> (asg \<Rightarrow> bool) \<Rightarrow> nat \<Rightarrow> ptr \<Rightarrow> kstate \<Rightarrow> bool" where
  "yields \<equiv> yields_with any_meaning"

lemmas yields_def = yields_with_def [where T = any_meaning]

lemma view_ops [simp]: "view (s\<lparr>applyop := op\<rparr>) = view s"
  by (simp add: view_def)

lemma op_views [simp]:
  "cont (s\<lparr>applyop := op\<rparr>) = cont s" "reach X (s\<lparr>applyop := op\<rparr>) p = reach X s p"
  "core (s\<lparr>applyop := op\<rparr>) X F W B = core s X F W B"
  by (simp_all add: view_views(1) [OF view_ops] view_core [OF view_ops] reach_def)

lemma kframes_refl [simp]: "kframes X s s"
  by (simp add: kframes_def)

lemma frames_kframes: "frames X s t \<Longrightarrow> kframes X s t"
  by (simp add: kframes_def frames_def same_env_def)

lemma frames_op_kframes: "frames X (s\<lparr>applyop := op\<rparr>) t \<Longrightarrow> kframes X s t"
proof -
  have v: "cont (s\<lparr>applyop := op\<rparr>) = cont s" by (rule view_views(1)) simp
  show "frames X (s\<lparr>applyop := op\<rparr>) t \<Longrightarrow> kframes X s t"
    by (simp add: kframes_def frames_def same_env_def v)
qed

lemma kframes_trans:
  assumes c: "core s Y F W B" and f: "kframes X s t" "kframes Z t u" and Z: "\<And>q. 0 < X q \<Longrightarrow> 0 < Z q"
    and Y: "\<And>q. 0 < X q \<Longrightarrow> 0 < Y q"
  shows "kframes X s u"
proof -
  let ?s = "s\<lparr>applyop := applyop u\<rparr>" and ?t = "t\<lparr>applyop := applyop u\<rparr>"
  have "frames X ?s ?t" using f(1) by (simp add: kframes_def frames_def same_env_def)
  moreover have "frames X ?t u" using frames_mono [OF f(2) [unfolded kframes_def] Z] .
  moreover have "core ?s Y F W B" using c by simp
  ultimately show ?thesis using frames_trans [of ?s Y F W B X ?t u] Y by (simp add: kframes_def)
qed

lemma reach_kframes:
  assumes "core s X F W B" "kframes X s t" "reach X s p"
  shows "reach X t p" "lv (cont t) p = lv (cont s) p" "eval (cont t) a p = eval (cont s) a p"
  using reach_frames [of "s\<lparr>applyop := applyop t\<rparr>" X F W B t p] assms by (simp_all add: kframes_def)

lemma kframes_env:
  "kframes X s t \<Longrightarrow> cdd_levelcnt t = cdd_levelcnt s \<and> cdd_levelinfo t = cdd_levelinfo s \<and> env t = env s \<and>
     cdd_diff2level t = cdd_diff2level s \<and> cdd_clocknum t = cdd_clocknum s \<and> cdd_refstack t = cdd_refstack s \<and>
     cdd_maxcddsize t = cdd_maxcddsize s"
  by (simp add: kframes_def frames_def same_env_def)

lemma client_regular: "client_with T X B s \<Longrightarrow> 0 < X q \<Longrightarrow> cdd_rglr q = q"
  unfolding client_with_def by (blast intro: core_regular)

lemma yields_client: "yields_with T X B s \<phi> k p t \<Longrightarrow> client_with T X B t"
  by (auto simp: yields_with_def client_with_def)

section \<open>Taking and giving back references\<close>

text \<open>A diagram that is yielded and referenced.\<close>

definition keeps_one_with :: "meaning \<Rightarrow> (ptr \<Rightarrow> nat) \<Rightarrow> (nat \<Rightarrow> raw_t set) \<Rightarrow> kstate \<Rightarrow> (asg \<Rightarrow> bool) \<Rightarrow> nat \<Rightarrow> ptr \<Rightarrow> kstate \<Rightarrow> bool" where
  "keeps_one_with T X B s \<phi> k p s' \<longleftrightarrow> client_with T (with_toks X [p]) B s' \<and> kframes X s s' \<and> k \<le> lv (cont s') p \<and>
     (\<forall>a. eval (cont s') a p = \<phi> a)"

abbreviation keeps_one :: "(ptr \<Rightarrow> nat) \<Rightarrow> (nat \<Rightarrow> raw_t set) \<Rightarrow> kstate \<Rightarrow> (asg \<Rightarrow> bool) \<Rightarrow> nat \<Rightarrow> ptr \<Rightarrow> kstate \<Rightarrow> bool" where
  "keeps_one \<equiv> keeps_one_with any_meaning"

lemmas keeps_one_def = keeps_one_with_def [where T = any_meaning]

lemma ref_yields:
  assumes c: "client_with T X B s" and y: "yields_with T X B s \<phi> k p t"
  shows "wp (cdd_ref p) (\<lambda>_ u. keeps_one_with T X B s \<phi> k p u) t"
proof -
  obtain F where cs: "core s X F {} B" using c by (auto simp: client_with_def)
  have t: "core t (with_toks X []) {cdd_rglr p} {} B" "caches_mean T t B" "kframes X s t"
    "sound (cont t) (tabled t) (cdd_levelinfo t) B p" "k \<le> lv (cont t) p" "\<forall>a. eval (cont t) a p = \<phi> a"
    using y by (simp_all add: yields_with_def)
  have pl: "cdd_rglr p = cddfalse \<or> cdd_rglr p \<in> tabled t \<and> (0 < rf t (cdd_rglr p) \<or> cdd_rglr p \<in> {cdd_rglr p})"
    using sound_place [OF t(4)] by auto
  show ?thesis
  proof (rule wp_mono [OF cdd_ref_spec [OF t(1) pl]], elim conjE)
    fix x u assume u: "core u (with_toks X [p]) {cdd_rglr p} {} B" "sim t u"
    note f = sim_fields [OF u(2)]
    have "kframes X s u"
      by (rule kframes_trans [OF cs t(3) frames_kframes [OF sim_frames [OF u(2)]]]) simp_all
    then show "keeps_one_with T X B s \<phi> k p u"
      using u(1) sim_caches [OF u(2) t(2)] t(5,6) by (auto simp: keeps_one_with_def client_with_def f)
  qed
qed

lemma rec_deref_client:
  assumes "client_with T (with_toks X (p # ps)) B s"
  shows "wp (cdd_rec_deref p) (\<lambda>_ t. client_with T (with_toks X ps) B t \<and> sim s t) s"
proof -
  obtain F where c: "core s (with_toks X (p # ps)) F {} B" "caches_mean T s B" using assms by (auto simp: client_with_def)
  show ?thesis
    by (rule wp_mono [OF cdd_rec_deref_spec [OF c(1)]]) (use c(2) sim_caches in \<open>auto simp: client_with_def\<close>)
qed

section \<open>The binary operators\<close>

lemma apply_yields:
  assumes op: "op = cddop_and \<or> op = cddop_xor" and c: "client_with T X B s" and r: "reach X s l" "reach X s r"
  shows "wp (cdd_apply l r op) (yields_with T X B s (\<lambda>a. op_sem op (eval (cont s) a l) (eval (cont s) a r))
     (min (lv (cont s) l) (lv (cont s) r))) s"
proof -
  obtain F where cs: "core s X F {} B" "caches_mean T s B" using c by (auto simp: client_with_def)
  show ?thesis
    by (rule wp_mono [OF cdd_apply_spec [OF op cs r]]) (auto simp: yields_with_def dest: frames_op_kframes)
qed

lemma cdd_and_yields:
  assumes "client_with T X B s" "reach X s l" "reach X s r"
  shows "wp (cdd_and l r) (yields_with T X B s (\<lambda>a. eval (cont s) a l \<and> eval (cont s) a r) (min (lv (cont s) l) (lv (cont s) r))) s"
  using apply_yields [of cddop_and, OF _ assms] by (simp add: cdd_and_def op_sem_def cddop_and_def)

lemma cdd_xor_yields:
  assumes "client_with T X B s" "reach X s l" "reach X s r"
  shows "wp (cdd_xor l r) (yields_with T X B s (\<lambda>a. eval (cont s) a l \<noteq> eval (cont s) a r) (min (lv (cont s) l) (lv (cont s) r))) s"
  using apply_yields [of cddop_xor, OF _ assms] by (simp add: cdd_xor_def op_sem_def cddop_and_def cddop_xor_def)

lemma yields_neg: "yields_with T X B s \<phi> k p t \<Longrightarrow> yields_with T X B s (\<lambda>a. \<not> \<phi> a) k (cdd_neg p) t"
  by (simp add: yields_with_def)

lemma yields_cong: "yields_with T X B s \<phi> k p t \<Longrightarrow> (\<And>a. \<phi> a = \<psi> a) \<Longrightarrow> yields_with T X B s \<psi> k p t"
  by (simp add: yields_with_def)

lemma cdd_or_yields:
  assumes "client_with T X B s" "reach X s l" "reach X s r"
  shows "wp (cdd_or l r) (yields_with T X B s (\<lambda>a. eval (cont s) a l \<or> eval (cont s) a r) (min (lv (cont s) l) (lv (cont s) r))) s"
proof -
  have "wp (cdd_and (cdd_neg l) (cdd_neg r)) (yields_with T X B s (\<lambda>a. \<not> eval (cont s) a l \<and> \<not> eval (cont s) a r)
      (min (lv (cont s) l) (lv (cont s) r))) s"
    using cdd_and_yields [OF assms(1), of "cdd_neg l" "cdd_neg r"] assms(2,3) by simp
  then show ?thesis
    unfolding cdd_or_def wp_bind wp_ret
    by (rule wp_mono) (drule yields_neg, erule yields_cong, blast)
qed

section \<open>\<^verbatim>\<open>cdd_ite\<close>\<close>

lemma wp_bind_ref:
  assumes c: "client_with T X B s" and m: "wp m (yields_with T X B s \<phi> n) s"
    and k: "\<And>p u. keeps_one_with T X B s \<phi> n p u \<Longrightarrow> wp (k p) Q u"
  shows "wp (bindM m (\<lambda>p. thenM (cdd_ref p) (k p))) Q s"
  unfolding wp_bind wp_then
proof (rule wp_mono [OF m])
  fix p t assume "yields_with T X B s \<phi> n p t"
  from ref_yields [OF c this] show "wp (cdd_ref p) (\<lambda>_. wp (k p) Q) t"
    by (rule wp_mono) (rule k)
qed

lemma with_toks_nest [simp]: "with_toks (with_toks X ps) qs = with_toks X (qs @ ps)"
  by (simp add: with_toks_def fun_eq_iff)

lemma with_toks_perm: "mset ps = mset qs \<Longrightarrow> with_toks X ps = with_toks X qs"
  by (simp add: with_toks_def fun_eq_iff flip: count_mset)

lemma client_deref:
  assumes c: "client_with T (with_toks X [p]) B s" "kframes X s0 s" "core s0 X F W B" and e: "k \<le> lv (cont s) p" "\<And>a. eval (cont s) a p = \<phi> a"
  shows "wp (cdd_deref p) (\<lambda>_ t. yields_with T X B s0 \<phi> k p t) s"
proof -
  obtain G where g: "core s (with_toks X (p # [])) G {} B" "caches_mean T s B" using c(1) by (auto simp: client_with_def)
  have "reach (with_toks X [p]) s p" by (rule reach_tok) simp
  from reach_sound [OF g(1) this] have so: "sound (cont s) (tabled s) (cdd_levelinfo s) B p" .
  show ?thesis
  proof (rule wp_mono [OF cdd_deref_spec [OF g(1)]], elim conjE)
    fix x t assume t: "core t (with_toks X []) (insert (cdd_rglr p) G) {} B" "sim s t"
    note f = sim_fields [OF t(2)] blank_fields [OF sim_fields(2) [OF t(2)]]
    have "core t X {cdd_rglr p} {} B" using core_antitone [OF t(1), of "{cdd_rglr p}" X] by simp
    moreover have "kframes X s0 t"
      by (rule kframes_trans [OF c(3,2) frames_kframes [OF sim_frames [OF t(2)]]]) simp_all
    ultimately show "yields_with T X B s0 \<phi> k p t"
      using so sim_caches [OF t(2) g(2)] e by (simp add: yields_with_def f)
  qed
qed

lemma keeps_one_reach:
  assumes c: "client_with T X B s" and u: "keeps_one_with T X B s \<phi> n p u" and q: "reach X s q"
  shows "reach (with_toks X [p]) u q" "lv (cont u) q = lv (cont s) q" "eval (cont u) a q = eval (cont s) a q"
proof -
  obtain F where "core s X F {} B" using c by (auto simp: client_with_def)
  then have "reach X u q \<and> lv (cont u) q = lv (cont s) q \<and> eval (cont u) a q = eval (cont s) a q" for a
    using reach_kframes(1,2) [of s X F "{}" B u q] reach_kframes(3) [of s X F "{}" B u q a] u q by (simp add: keeps_one_with_def)
  then show "reach (with_toks X [p]) u q" "lv (cont u) q = lv (cont s) q" "eval (cont u) a q = eval (cont s) a q"
    using reach_mono [of X "with_toks X [p]", OF toks_pos] by blast+
qed

lemma keeps_one_self: "reach (with_toks X (p # ps)) u p"
  by (rule reach_tok) simp

lemma cdd_ite_yields:
  assumes c: "client_with T X B s" and r: "reach X s f" "reach X s g" "reach X s h"
  shows "wp (cdd_ite f g h) (yields_with T X B s
     (\<lambda>a. if eval (cont s) a f then eval (cont s) a g else eval (cont s) a h)
     (min (lv (cont s) f) (min (lv (cont s) g) (lv (cont s) h)))) s"
proof -
  obtain F where cs: "core s X F {} B" using c by (auto simp: client_with_def)
  let ?k = "min (lv (cont s) f) (min (lv (cont s) g) (lv (cont s) h))"
  let ?\<phi> = "\<lambda>a. if eval (cont s) a f then eval (cont s) a g else eval (cont s) a h"
  show ?thesis
    unfolding cdd_ite_def
  proof (rule wp_bind_ref [OF c cdd_and_yields [OF c r(1,2)]])
    fix g1 s1 assume g1: "keeps_one_with T X B s (\<lambda>a. eval (cont s) a f \<and> eval (cont s) a g) (min (lv (cont s) f) (lv (cont s) g)) g1 s1"
    have c1: "client_with T (with_toks X [g1]) B s1" and k1: "kframes X s s1" using g1 by (simp_all add: keeps_one_with_def)
    note q1 = keeps_one_reach [OF c g1]
    have rf1: "reach (with_toks X [g1]) s1 (cdd_neg f)" "reach (with_toks X [g1]) s1 h" using q1(1) r by simp_all
    show "wp (bindM (cdd_and (cdd_neg f) h) (\<lambda>h. thenM (cdd_ref h) (bindM (cdd_or g1 h) (\<lambda>f. thenM (cdd_ref f)
        (thenM (cdd_rec_deref g1) (thenM (cdd_rec_deref h) (thenM (cdd_deref f) (ret f)))))))) (yields_with T X B s ?\<phi> ?k) s1"
    proof (rule wp_bind_ref [OF c1 cdd_and_yields [OF c1 rf1]])
      fix h1 s2 assume h1: "keeps_one_with T (with_toks X [g1]) B s1 (\<lambda>a. eval (cont s1) a (cdd_neg f) \<and> eval (cont s1) a h)
          (min (lv (cont s1) (cdd_neg f)) (lv (cont s1) h)) h1 s2"
      have c2: "client_with T (with_toks X [h1, g1]) B s2" and k2: "kframes (with_toks X [g1]) s1 s2"
        using h1 by (simp_all add: keeps_one_with_def)
      have rg: "reach (with_toks X [h1, g1]) s2 g1" "reach (with_toks X [h1, g1]) s2 h1"
        by (rule reach_tok; simp)+
      note q2 = keeps_one_reach [OF c1 h1]
      show "wp (bindM (cdd_or g1 h1) (\<lambda>f. thenM (cdd_ref f)
          (thenM (cdd_rec_deref g1) (thenM (cdd_rec_deref h1) (thenM (cdd_deref f) (ret f)))))) (yields_with T X B s ?\<phi> ?k) s2"
      proof (rule wp_bind_ref [OF c2 cdd_or_yields [OF c2 rg]])
        fix f1 s3 assume f1: "keeps_one_with T (with_toks X [h1, g1]) B s2 (\<lambda>a. eval (cont s2) a g1 \<or> eval (cont s2) a h1)
            (min (lv (cont s2) g1) (lv (cont s2) h1)) f1 s3"
        have c3: "client_with T (with_toks X [g1, h1, f1]) B s3" and k3: "kframes (with_toks X [h1, g1]) s2 s3"
          using f1 with_toks_perm [of "[g1, h1, f1]" "[f1, h1, g1]" X] by (simp_all add: keeps_one_with_def)
        have k13: "kframes X s s3"
          by (rule kframes_trans [OF cs kframes_trans [OF cs k1 k2] k3]) (simp_all add: with_toks_def)
        have g2: "lv (cont s2) g1 = lv (cont s1) g1" "eval (cont s2) a g1 = eval (cont s1) a g1" for a
          using q2(2,3) [of g1] keeps_one_self [of X g1 "[]" s1] by simp_all
        have e3: "eval (cont s3) a f1 = ?\<phi> a" for a
          using f1 h1 g1 g2 q1(3) r by (auto simp: keeps_one_with_def)
        have l3: "?k \<le> lv (cont s3) f1"
          using f1 h1 g1 g2(1) q1(2) r by (auto simp: keeps_one_with_def)
        show "wp (thenM (cdd_rec_deref g1) (thenM (cdd_rec_deref h1) (thenM (cdd_deref f1) (ret f1)))) (yields_with T X B s ?\<phi> ?k) s3"
          unfolding wp_then
        proof (rule wp_mono [OF rec_deref_client [OF c3]], elim conjE, rule wp_mono [OF rec_deref_client], assumption, elim conjE)
          fix x s4 y s5 assume s: "sim s3 s4" "client_with T (with_toks X [f1]) B s5" "sim s4 s5"
          have sm: "sim s3 s5" using s by (blast intro: sim_trans)
          have k5: "kframes X s s5"
            by (rule kframes_trans [OF cs k13 frames_kframes [OF sim_frames [OF sm]]]) simp_all
          have "wp (cdd_deref f1) (\<lambda>_. yields_with T X B s ?\<phi> ?k f1) s5"
            by (rule client_deref [OF s(2) k5 cs]) (use e3 l3 in \<open>simp_all add: sim_fields(1) [OF sm]\<close>)
          then show "wp (cdd_deref f1) (\<lambda>_. wp (ret f1) (yields_with T X B s ?\<phi> ?k)) s5" unfolding wp_ret .
        qed
      qed
    qed
  qed
qed

end
