(* ===== verification/Test_Spec.thy ===== *)
theory Test_Spec
  imports Op_Spec
begin

text \<open>
  The diagrams of a single test: a boolean variable, an interval of a clock difference, and
  an upper bound, on a level and, through \<^verbatim>\<open>cdd_diff2level\<close>, on a pair of clocks.
\<close>

declare split_paired_All [simp del]

section \<open>Tests on a level\<close>

lemma usable_term: "cdd_rglr p = cddfalse \<Longrightarrow> usable s B F p"
  by (simp add: usable_def sound_term)

lemma lv_tests:
  assumes "core s X F W B" "k < cdd_levelcnt s"
  shows "k < lv (cont s) cddfalse" "k < lv (cont s) cddtrue"
  using lv_term [OF assms(1)] core_levels(2) [OF assms(1)] assms(2) by simp_all

lemma eval_tf:
  assumes "core s X F W B"
  shows "eval (cont s) a cddfalse = False" "eval (cont s) a cddtrue = True"
  using eval_term [of "cont s" MAXLEVEL] core_term(1) [OF assms] by simp_all

lemma cdd_bddvar_yields:
  assumes c: "client_with T X B s" and l: "level < cdd_levelcnt s" "li_type (cdd_levelinfo s ! level) = TYPE_BDD"
  shows "wp (cdd_bddvar level) (yields_with T X B s (\<lambda>a. snd a level) level) s"
proof -
  obtain F where cs: "core s X F {} B" "caches_mean T s B" using c by (auto simp: client_with_def)
  have u: "usable s B F cddfalse" "usable s B F cddtrue" by (simp_all add: usable_term)
  show ?thesis
    unfolding cdd_bddvar_def
    by (rule wp_mono [OF cdd_make_bdd_node_spec [OF cs l u lv_tests [OF cs(1) l(1)]]])
      (auto simp: made_bdd_with_def yields_with_def eval_tf [OF cs(1)] dest: frames_kframes)
qed

text \<open>A node whose children are the constants.\<close>

definition tests :: "elem list \<Rightarrow> bool" where
  "tests es \<longleftrightarrow> (\<forall>e \<in> set es. e_child e = cddfalse \<or> e_child e = cddtrue)"

lemma make_tests:
  assumes c: "client_with T X B s" and l: "level < cdd_levelcnt s" "li_type (cdd_levelinfo s ! level) = TYPE_CDD"
    and es: "es \<noteq> []" "sorted_wrt (<) (map e_bnd es)" "e_bnd (last es) = bnd_INF" "e_bnd ` set es \<subseteq> B level"
      "e_child (hd es) = cddfalse" "distinct_adj (map e_child es)" "tests es"
  shows "wp (cdd_make_cdd_node level es) (yields_with T X B s (\<lambda>a. pick (fst a level) es = cddtrue) level) s"
proof -
  obtain F where cs: "core s X F {} B" "caches_mean T s B" using c by (auto simp: client_with_def)
  have us: "usable s B F (e_child e) \<and> level < lv (cont s) (e_child e)" if "e \<in> set es" for e
  proof -
    have "e_child e = cddfalse \<or> e_child e = cddtrue" using es(7) that by (simp add: tests_def)
    then show ?thesis using lv_tests [OF cs(1) l(1)] by (auto intro: usable_term)
  qed
  have m: "cdd_mask (e_child (hd es)) = 0" using es(5) by simp
  have ev: "eval (cont s) a (pick x es) = (pick x es = cddtrue)" for a x
  proof -
    have "pick x es = cddfalse \<or> pick x es = cddtrue"
      using pick_in [OF es(1,3), of x] es(7) unfolding tests_def by auto
    then show ?thesis using eval_tf [OF cs(1), of a] by (auto simp: cddtrue_def)
  qed
  show ?thesis
    by (rule wp_mono [OF cdd_make_cdd_node_spec [OF cs l es(1-4) m es(6) us]])
      (auto simp: made_cdd_with_def yields_with_def ev dest: frames_kframes)
qed

lemma tf_neq [simp]: "cddfalse \<noteq> cddtrue" "cddtrue \<noteq> cddfalse"
  by (simp_all add: cddtrue_def)

lemma bound_le:
  assumes "client_with T X B s" "b \<in> B k"
  shows "- bnd_INF \<le> b" "b \<le> bnd_INF"
proof -
  obtain F where "core s X F {} B" using assms(1) by (auto simp: client_with_def)
  then have "\<bar>b\<bar> \<le> bnd_INF" using assms(2) by (rule core_levels(10))
  then show "- bnd_INF \<le> b" "b \<le> bnd_INF" by linarith+
qed

lemma bound_INF: "client_with T X B s \<Longrightarrow> bnd_INF \<in> B k"
  by (auto simp: client_with_def dest: core_levels(9))

lemma cdd_interval_from_level_yields:
  assumes c: "client_with T X B s" and l: "level < cdd_levelcnt s" "li_type (cdd_levelinfo s ! level) = TYPE_CDD"
    and b: "low < high" "- bnd_INF < low \<or> high < bnd_INF" "- bnd_INF < low \<longrightarrow> low \<in> B level" "- bnd_INF \<le> low" "high \<in> B level"
  shows "wp (cdd_interval_from_level level low high)
    (yields_with T X B s (\<lambda>a. \<not> bnd_sat (fst a level) low \<and> bnd_sat (fst a level) high) level) s"
proof (cases "low > - bnd_INF")
  case True
  let ?es = "[\<lparr>e_child = cddfalse, e_bnd = low\<rparr>, \<lparr>e_child = cddtrue, e_bnd = high\<rparr>] @
         (if high < bnd_INF then [\<lparr>e_child = cddfalse, e_bnd = bnd_INF\<rparr>] else [])"
  have hi: "high \<le> bnd_INF" using bound_le [OF c b(5)] by simp
  have "wp (cdd_make_cdd_node level ?es) (yields_with T X B s (\<lambda>a. pick (fst a level) ?es = cddtrue) level) s"
    by (rule make_tests [OF c l]) (use b True hi bound_INF [OF c] in \<open>auto simp: tests_def\<close>)
  then show ?thesis
    unfolding cdd_interval_from_level_def if_P [OF True]
    by (rule wp_mono) (erule yields_cong, use hi in \<open>auto simp: pick_def select_def\<close>)
next
  case False
  let ?es = "[\<lparr>e_child = cddfalse, e_bnd = high\<rparr>, \<lparr>e_child = cddtrue, e_bnd = bnd_INF\<rparr>]"
  have low: "low = - bnd_INF" using False b(4) by simp
  have "wp (cdd_make_cdd_node level ?es) (yields_with T X B s (\<lambda>a. pick (fst a level) ?es = cddtrue) level) s"
    by (rule make_tests [OF c l]) (use b False bound_INF [OF c] in \<open>auto simp: tests_def\<close>)
  then show ?thesis
    unfolding cdd_interval_from_level_def if_not_P [OF False] wp_bind wp_ret
    by (rule wp_mono) (drule yields_neg, erule yields_cong, auto simp: pick_def select_def low)
qed

lemma ret_yields:
  assumes c: "client_with T X B s" and p: "reach X s p" "k \<le> lv (cont s) p" "\<And>a. eval (cont s) a p = \<phi> a"
  shows "wp (ret p) (yields_with T X B s \<phi> k) s"
proof -
  obtain F where cs: "core s X F {} B" "caches_mean T s B" using c by (auto simp: client_with_def)
  have "core s X {cdd_rglr p} {} B" by (rule core_single [OF cs(1) reach_usable [OF cs(1) p(1)]])
  then show ?thesis
    using cs p reach_sound [OF cs(1) p(1)] by (simp add: wp_ret yields_with_def)
qed

lemma cdd_upper_from_level_yields:
  assumes c: "client_with T X B s" and l: "level < cdd_levelcnt s" "li_type (cdd_levelinfo s ! level) = TYPE_CDD"
    and b: "b \<in> B level"
  shows "wp (cdd_upper_from_level level b) (yields_with T X B s (\<lambda>a. bnd_sat (fst a level) b) level) s"
proof -
  obtain F where cs: "core s X F {} B" "caches_mean T s B" using c by (auto simp: client_with_def)
  note lt = lv_tests [OF cs(1) l(1)]
  consider "b = bnd_INF" | "b = - bnd_INF" "b \<noteq> bnd_INF" | "b \<noteq> bnd_INF" "b \<noteq> - bnd_INF" by blast
  then show ?thesis
  proof cases
    case 1
    have "wp (ret cddtrue) (yields_with T X B s (\<lambda>a. bnd_sat (fst a level) b) level) s"
      by (rule ret_yields [OF c reach_term]) (use lt eval_tf [OF cs(1)] 1 in auto)
    then show ?thesis using 1 by (simp add: cdd_upper_from_level_def)
  next
    case 2
    have "wp (ret cddfalse) (yields_with T X B s (\<lambda>a. bnd_sat (fst a level) b) level) s"
      by (rule ret_yields [OF c reach_term]) (use lt eval_tf [OF cs(1)] 2 in auto)
    then show ?thesis using 2 by (simp add: cdd_upper_from_level_def)
  next
    case 3
    let ?es = "[\<lparr>e_child = cddfalse, e_bnd = b\<rparr>, \<lparr>e_child = cddtrue, e_bnd = bnd_INF\<rparr>]"
    have "b < bnd_INF" using bound_le(2) [OF c b] 3 by simp
    then have "wp (cdd_make_cdd_node level ?es) (yields_with T X B s (\<lambda>a. pick (fst a level) ?es = cddtrue) level) s"
      by (intro make_tests [OF c l]) (use b bound_INF [OF c] in \<open>auto simp: tests_def\<close>)
    then show ?thesis
      unfolding cdd_upper_from_level_def if_not_P [OF 3(1)] if_not_P [OF 3(2)] wp_bind wp_ret
      by (rule wp_mono) (drule yields_neg, erule yields_cong, auto simp: pick_def select_def)
  qed
qed

section \<open>Tests on a pair of clocks\<close>

text \<open>
  \<open>clock_asg L v a\<close>: the assignment \<open>a\<close> gives each CDD level the difference of its clocks under
  the valuation \<open>v\<close>.  \<open>level_at\<close>: the level of the difference of clocks \<open>i\<close> and \<open>j\<close>.
\<close>

definition clock_asg :: "LevelInfo list \<Rightarrow> (nat \<Rightarrow> real) \<Rightarrow> asg \<Rightarrow> bool" where
  "clock_asg L v a \<longleftrightarrow> (\<forall>k < length L. li_type (L ! k) = TYPE_CDD \<longrightarrow>
     fst a k = v (li_clock1 (L ! k)) - v (li_clock2 (L ! k)))"

definition level_at :: "kstate \<Rightarrow> nat \<Rightarrow> nat \<Rightarrow> nat \<Rightarrow> bool" where
  "level_at s i j k \<longleftrightarrow> cdd_difference i j < length (cdd_diff2level s) \<and> cdd_diff2level s ! cdd_difference i j = k \<and>
     k < cdd_levelcnt s \<and> li_type (cdd_levelinfo s ! k) = TYPE_CDD \<and>
     li_clock1 (cdd_levelinfo s ! k) = i \<and> li_clock2 (cdd_levelinfo s ! k) = j"

lemma diff2level_eq: "level_at s i j k \<Longrightarrow> diff2level i j s = Inr (k, s)"
  by (simp add: level_at_def diff2level_def)

definition yields_clocks_with :: "meaning \<Rightarrow> (ptr \<Rightarrow> nat) \<Rightarrow> (nat \<Rightarrow> raw_t set) \<Rightarrow> kstate \<Rightarrow> ((nat \<Rightarrow> real) \<Rightarrow> bool) \<Rightarrow> ptr \<Rightarrow> kstate \<Rightarrow> bool" where
  "yields_clocks_with T X B s P p s' \<longleftrightarrow> core s' X {cdd_rglr p} {} B \<and> caches_mean T s' B \<and> kframes X s s' \<and>
     sound (cont s') (tabled s') (cdd_levelinfo s') B p \<and>
     (\<forall>v a. clock_asg (cdd_levelinfo s) v a \<longrightarrow> eval (cont s') a p = P v)"

abbreviation yields_clocks :: "(ptr \<Rightarrow> nat) \<Rightarrow> (nat \<Rightarrow> raw_t set) \<Rightarrow> kstate \<Rightarrow> ((nat \<Rightarrow> real) \<Rightarrow> bool) \<Rightarrow> ptr \<Rightarrow> kstate \<Rightarrow> bool" where
  "yields_clocks \<equiv> yields_clocks_with any_meaning"

lemmas yields_clocks_def = yields_clocks_with_def [where T = any_meaning]

lemma yields_to_clocks:
  assumes "yields_with T X B s \<phi> k p t" "\<And>v a. clock_asg (cdd_levelinfo s) v a \<Longrightarrow> \<phi> a = P v"
  shows "yields_clocks_with T X B s P p t"
  using assms by (simp add: yields_with_def yields_clocks_with_def)

lemma level_value:
  assumes "client_with T X B s" "level_at s i j k" "clock_asg (cdd_levelinfo s) v a"
  shows "fst a k = v i - v j"
  using assms core_levels(1) [of s X _ "{}" B] by (auto simp: client_with_def level_at_def clock_asg_def)

text \<open>
  The bounds that the conversion to the other orientation does not confuse: the finite bounds
  above \<open>1 - bnd_INF\<close>, and the two infinities.
\<close>

definition flippable :: "raw_t \<Rightarrow> bool" where
  "flippable b \<longleftrightarrow> - bnd_INF \<le> b \<and> b \<le> bnd_INF \<and> b \<noteq> 1 - bnd_INF"

lemma flip_upper:
  assumes "flippable b" "b \<noteq> - bnd_INF"
  shows "bnd_sat (- x) (bnd_u2l b) \<longleftrightarrow> \<not> bnd_sat x b"
  using assms by (intro bnd_sat_u2l) (auto simp: flippable_def)

lemma flip_lower:
  assumes "flippable b" "b \<noteq> bnd_INF"
  shows "bnd_sat (- x) (bnd_l2u b) \<longleftrightarrow> \<not> bnd_sat x b"
  using assms by (intro bnd_sat_l2u) (auto simp: flippable_def)

lemma flip_eq:
  "bnd_u2l b = (if b = bnd_INF then - bnd_INF else 1 - b)"
  "bnd_l2u b = (if b = - bnd_INF then bnd_INF else 1 - b)"
  using bnd_u2l_eq [of b] bnd_l2u_eq [of b] by (simp_all add: bnd_u2l_def bnd_l2u_def)

lemma flip_order:
  assumes "flippable low" "flippable high" "low < high" "- bnd_INF < low \<or> high < bnd_INF"
  shows "bnd_u2l high < bnd_l2u low" "- bnd_INF < bnd_u2l high \<or> bnd_l2u low < bnd_INF"
    "- bnd_INF \<le> bnd_u2l high" "bnd_l2u low \<noteq> - bnd_INF"
proof -
  have "0 < bnd_INF" by (simp add: bnd_INF_def)
  with assms show "bnd_u2l high < bnd_l2u low" "- bnd_INF < bnd_u2l high \<or> bnd_l2u low < bnd_INF"
    "- bnd_INF \<le> bnd_u2l high" "bnd_l2u low \<noteq> - bnd_INF"
    unfolding flip_eq flippable_def by (cases "high = bnd_INF"; cases "low = - bnd_INF"; auto)+
qed

theorem cdd_upper_meaning:
  assumes c: "client_with T X B s" and ij: "i \<noteq> j" and k: "level_at s (max i j) (min i j) k"
    and b: "flippable b" "b \<noteq> - bnd_INF" "if j < i then b \<in> B k else bnd_u2l b \<in> B k"
  shows "wp (cdd_upper i j b) (yields_clocks_with T X B s (\<lambda>v. bnd_sat (v i - v j) b)) s"
proof (cases "j < i")
  case True
  then have k': "level_at s i j k" using k by (simp add: max_def min_def)
  have "wp (cdd_upper_from_level k b) (yields_with T X B s (\<lambda>a. bnd_sat (fst a k) b) k) s"
    by (rule cdd_upper_from_level_yields [OF c]) (use k' b True in \<open>auto simp: level_at_def\<close>)
  then have "wp (cdd_upper_from_level k b) (yields_clocks_with T X B s (\<lambda>v. bnd_sat (v i - v j) b)) s"
    by (rule wp_mono) (erule yields_to_clocks, simp add: level_value [OF c k'])
  then show ?thesis
    unfolding cdd_upper_def if_P [OF True] wp_bind wp_eq [where m = "diff2level i j", OF diff2level_eq [OF k']] .
next
  case False
  then have k': "level_at s j i k" using k ij by (simp add: max_def min_def)
  have "wp (cdd_upper_from_level k (bnd_u2l b)) (yields_with T X B s (\<lambda>a. bnd_sat (fst a k) (bnd_u2l b)) k) s"
    by (rule cdd_upper_from_level_yields [OF c]) (use k' b False in \<open>auto simp: level_at_def\<close>)
  then have "wp (cdd_upper_from_level k (bnd_u2l b)) (\<lambda>p. yields_clocks_with T X B s (\<lambda>v. bnd_sat (v i - v j) b) (cdd_neg p)) s"
  proof (rule wp_mono)
    fix p t assume y: "yields_with T X B s (\<lambda>a. bnd_sat (fst a k) (bnd_u2l b)) k p t"
    have "(\<not> bnd_sat (fst a k) (bnd_u2l b)) = bnd_sat (v i - v j) b" if "clock_asg (cdd_levelinfo s) v a" for v a
      using flip_upper [OF b(1,2), of "v i - v j"] level_value [OF c k' that] by simp
    with yields_neg [OF y] show "yields_clocks_with T X B s (\<lambda>v. bnd_sat (v i - v j) b) (cdd_neg p) t"
      by (rule yields_to_clocks)
  qed
  then show ?thesis
    unfolding cdd_upper_def if_not_P [OF False] wp_bind wp_ret wp_eq [where m = "diff2level j i", OF diff2level_eq [OF k']] .
qed

theorem cdd_interval_meaning:
  assumes c: "client_with T X B s" and ij: "i \<noteq> j" and k: "level_at s (max i j) (min i j) k"
    and b: "flippable low" "flippable high" "low < high" "- bnd_INF < low \<or> high < bnd_INF"
    and B: "if j < i then {low, high} - {- bnd_INF} \<subseteq> B k else {bnd_u2l high, bnd_l2u low} - {- bnd_INF} \<subseteq> B k"
  shows "wp (cdd_interval i j low high) (yields_clocks_with T X B s (\<lambda>v. \<not> bnd_sat (v i - v j) low \<and> bnd_sat (v i - v j) high)) s"
proof (cases "j < i")
  case True
  then have k': "level_at s i j k" using k by (simp add: max_def min_def)
  have lk: "k < cdd_levelcnt s" "li_type (cdd_levelinfo s ! k) = TYPE_CDD" using k' by (simp_all add: level_at_def)
  have sub: "{low, high} - {- bnd_INF} \<subseteq> B k" using B unfolding if_P [OF True] .
  have "high \<noteq> - bnd_INF" using b(1,3) unfolding flippable_def by linarith
  then have inB: "- bnd_INF < low \<longrightarrow> low \<in> B k" "high \<in> B k" using sub by (auto dest: less_imp_neq [THEN not_sym])
  have "wp (cdd_interval_from_level k low high)
      (yields_with T X B s (\<lambda>a. \<not> bnd_sat (fst a k) low \<and> bnd_sat (fst a k) high) k) s"
    by (rule cdd_interval_from_level_yields [OF c lk b(3,4) inB(1) _ inB(2)]) (use b(1) in \<open>simp add: flippable_def\<close>)
  then have "wp (cdd_interval_from_level k low high)
      (yields_clocks_with T X B s (\<lambda>v. \<not> bnd_sat (v i - v j) low \<and> bnd_sat (v i - v j) high)) s"
    by (rule wp_mono) (erule yields_to_clocks, simp add: level_value [OF c k'])
  then show ?thesis
    unfolding cdd_interval_def if_P [OF True] wp_bind wp_eq [where m = "diff2level i j", OF diff2level_eq [OF k']] .
next
  case False
  then have k': "level_at s j i k" using k ij by (simp add: max_def min_def)
  have ne: "low \<noteq> bnd_INF" "high \<noteq> - bnd_INF" using b by (auto simp: flippable_def)
  have ord: "bnd_u2l high < bnd_l2u low" "- bnd_INF < bnd_u2l high \<or> bnd_l2u low < bnd_INF"
    "- bnd_INF \<le> bnd_u2l high" "bnd_l2u low \<noteq> - bnd_INF"
    by (rule flip_order [OF b])+
  have lk: "k < cdd_levelcnt s" "li_type (cdd_levelinfo s ! k) = TYPE_CDD" using k' by (simp_all add: level_at_def)
  have sub: "{bnd_u2l high, bnd_l2u low} - {- bnd_INF} \<subseteq> B k" using B unfolding if_not_P [OF False] .
  then have inB: "- bnd_INF < bnd_u2l high \<longrightarrow> bnd_u2l high \<in> B k" "bnd_l2u low \<in> B k" using ord(4) by (auto dest: less_imp_neq [THEN not_sym])
  have "wp (cdd_interval_from_level k (bnd_u2l high) (bnd_l2u low))
      (yields_with T X B s (\<lambda>a. \<not> bnd_sat (fst a k) (bnd_u2l high) \<and> bnd_sat (fst a k) (bnd_l2u low)) k) s"
    by (rule cdd_interval_from_level_yields [OF c lk ord(1,2) inB(1) ord(3) inB(2)])
  then have "wp (cdd_interval_from_level k (bnd_u2l high) (bnd_l2u low))
      (yields_clocks_with T X B s (\<lambda>v. \<not> bnd_sat (v i - v j) low \<and> bnd_sat (v i - v j) high)) s"
  proof (rule wp_mono)
    fix p t assume y: "yields_with T X B s (\<lambda>a. \<not> bnd_sat (fst a k) (bnd_u2l high) \<and> bnd_sat (fst a k) (bnd_l2u low)) k p t"
    have "(\<not> bnd_sat (fst a k) (bnd_u2l high) \<and> bnd_sat (fst a k) (bnd_l2u low)) = (\<not> bnd_sat (v i - v j) low \<and> bnd_sat (v i - v j) high)"
      if "clock_asg (cdd_levelinfo s) v a" for v a
      using flip_upper [OF b(2) ne(2), of "v i - v j"] flip_lower [OF b(1) ne(1), of "v i - v j"]
        level_value [OF c k' that] by auto
    with y show "yields_clocks_with T X B s (\<lambda>v. \<not> bnd_sat (v i - v j) low \<and> bnd_sat (v i - v j) high) p t"
      by (rule yields_to_clocks)
  qed
  then show ?thesis
    unfolding cdd_interval_def if_not_P [OF False] wp_bind wp_eq [where m = "diff2level j i", OF diff2level_eq [OF k']] .
qed

end
