(* ===== verification/Startup.thy ===== *)
theory Startup
  imports Test_Spec
begin

text \<open>
  Starting the library: \<^verbatim>\<open>cdd_init\<close> establishes the invariant, and declaring clocks and boolean
  variables keeps it, whatever diagrams the client holds.  The levels of the differences are
  laid out so that \<^verbatim>\<open>diff2level\<close> finds each of them (\<open>clocks_ok\<close>).
\<close>

declare split_paired_All [simp del]

section \<open>\<^verbatim>\<open>cdd_init\<close>\<close>

lemma man_of_put_bdd: "man_of (s\<lparr>bddmanager := Some m\<rparr>) j = (if j = BddMan then Some m else man_of s j)"
  by (cases j) simp_all

text \<open>What the operating system promises: aligned chunks, none of which is in use.\<close>

definition fresh_memory :: "kstate \<Rightarrow> bool" where
  "fresh_memory s \<longleftrightarrow>
     (\<forall>n \<ge> os_chunks s. env_chunk (env s) n AND 0xFFFF = 0 \<and> chunk_man s (env_chunk (env s) n) = None \<and>
        (\<forall>m \<ge> os_chunks s. m \<noteq> n \<longrightarrow> env_chunk (env s) m = env_chunk (env s) n \<longrightarrow> env_chunk (env s) n = 0) \<and>
        (\<forall>p. cdd_node2chunk p = env_chunk (env s) n \<longrightarrow> env_chunk (env s) n \<noteq> 0 \<longrightarrow> nodes s p = None)) \<and>
     chunk_man s 0 = None"

text \<open>The bounds that will be used at each level.\<close>

definition bounds_ok :: "(nat \<Rightarrow> raw_t set) \<Rightarrow> nat \<Rightarrow> bool" where
  "bounds_ok B n \<longleftrightarrow> (\<forall>k. finite (B k) \<and> bnd_INF \<in> B k \<and> (\<forall>b \<in> B k. \<bar>b\<bar> \<le> bnd_INF) \<and> card (B k) \<le> n)"

text \<open>The state when the first manager is made: started, with no manager yet.\<close>

definition starting :: "nat \<Rightarrow> nat \<Rightarrow> kstate \<Rightarrow> bool" where
  "starting mx cs s \<longleftrightarrow> fresh_memory s \<and> cdd_levelcnt s = 0 \<and> cdd_levelinfo s = [] \<and> cdd_errorcond s = 0 \<and>
     cdd_maxcddsize s = mx \<and> cddmanager s = replicate (mx + 1) None \<and> bddmanager s = None \<and> postrehash_handler s \<and>
     nodes s cddfalse = Some terminal_node \<and>
     (\<forall>c \<in> {applycache s, quantcache s, replacecache s}. c = snd (CddCache_init cs))"

lemma starting_no_man: "starting mx cs s \<Longrightarrow> man_of s i = None"
  by (cases i) (auto simp: starting_def simp del: replicate_Suc)

lemma starting_no_tbl: "starting mx cs s \<Longrightarrow> tbl s i k = None"
  using starting_no_man [of mx cs s i] by (simp add: tbl_def)

lemma fresh_caches:
  assumes "0 < cs" "16 * cs < 2 ^ 32"
    "\<forall>c \<in> {applycache s, quantcache s, replacecache s}. c = snd (CddCache_init cs)"
  shows "caches_mean T s B"
  using assms by (simp add: caches_mean_def cache_shape_def unary_cache_def CddCache_init_def malloc_ok_def opcache.all_live_def cache_live_def)

lemma first_manager:
  assumes st: "starting mx cs s" and mx: "2 \<le> mx" "mx \<le> 8190" and B: "bounds_ok B mx"
    and g: "managed BddMan s p ps s'"
  shows "core s' (\<lambda>_. 0) {} {} B" "man_of s' (CddMan n) = None"
proof -
  let ?c = "env_chunk (env s) (os_chunks s)"
  note f = g [unfolded managed_def Let_def] and s = st [unfolded starting_def fresh_memory_def]
  have al: "?c AND 0xFFFF = 0" and em: "\<And>q. cdd_node2chunk q = ?c \<Longrightarrow> nodes s q = None" using s f by auto
  have ok: "tables_ok s" by (simp add: tables_ok_def starting_no_tbl [OF st])
  note S = managed_spec [OF g refl al em starting_no_man [OF st] ok]
  have bl: "blank_os s' = blank_os s" using f by simp
  note e = blank_os_fields [OF bl]
  have mo: "man_of s' j = (if j = BddMan then Some (first_man BddMan (cdd_levelcnt s) ?c p ps) else None)" for j
    using f starting_no_man [OF st, of j] by simp
  then show "man_of s' (CddMan n) = None" by (simp del: man_of.simps)
  have T: "tbl s' i k = None" "tabled s' = {}" for i k
    by (simp_all add: S(2) starting_no_tbl [OF st] S(3)) (simp add: tabled_def starting_no_tbl [OF st])
  have pf: "p \<noteq> cddfalse" using S(5) f by auto
  have "static_ok s' B"
    unfolding static_ok_def
  proof (intro conjI)
    show "\<forall>n \<ge> os_chunks s'. env_chunk (env s') n AND 0xFFFF = 0 \<and> chunk_man s' (env_chunk (env s') n) = None \<and>
        (\<forall>m \<ge> os_chunks s'. m \<noteq> n \<longrightarrow> env_chunk (env s') m = env_chunk (env s') n \<longrightarrow> env_chunk (env s') n = 0) \<and>
        (\<forall>q. cdd_node2chunk q = env_chunk (env s') n \<longrightarrow> env_chunk (env s') n \<noteq> 0 \<longrightarrow> nodes s' q = None)"
    proof (intro allI impI)
      fix n assume n: "os_chunks s' \<le> n"
      then have n': "os_chunks s \<le> n" "n \<noteq> os_chunks s" using f by simp_all
      have H: "env_chunk (env s) n AND 0xFFFF = 0" "chunk_man s (env_chunk (env s) n) = None"
        "\<forall>m \<ge> os_chunks s. m \<noteq> n \<longrightarrow> env_chunk (env s) m = env_chunk (env s) n \<longrightarrow> env_chunk (env s) n = 0"
        "\<forall>q. cdd_node2chunk q = env_chunk (env s) n \<longrightarrow> env_chunk (env s) n \<noteq> 0 \<longrightarrow> nodes s q = None"
        "env_chunk (env s) n \<noteq> ?c"
        using s f n' by (blast, blast, blast, blast, metis order_refl)
      have M: "\<forall>m \<ge> os_chunks s'. m \<noteq> n \<longrightarrow> env_chunk (env s) m = env_chunk (env s) n \<longrightarrow> env_chunk (env s) n = 0"
        using H(3) f by (metis Suc_eq_plus1 Suc_leD)
      have N: "cdd_node2chunk q = env_chunk (env s) n \<longrightarrow> env_chunk (env s) n \<noteq> 0 \<longrightarrow> nodes s' q = None" for q
        using H(4,5) f S(4,5) by auto
      then show "env_chunk (env s') n AND 0xFFFF = 0 \<and> chunk_man s' (env_chunk (env s') n) = None \<and>
        (\<forall>m \<ge> os_chunks s'. m \<noteq> n \<longrightarrow> env_chunk (env s') m = env_chunk (env s') n \<longrightarrow> env_chunk (env s') n = 0) \<and>
        (\<forall>q. cdd_node2chunk q = env_chunk (env s') n \<longrightarrow> env_chunk (env s') n \<noteq> 0 \<longrightarrow> nodes s' q = None)"
        using H(1,2,5) M N f unfolding e by simp
    qed
    show "length (cddmanager s') = cdd_maxcddsize s' + 1" "2 \<le> cdd_maxcddsize s'" "cdd_maxcddsize s' \<le> 8190"
      using f s mx by (simp_all add: e)
    show "bddmanager s' \<noteq> None" using mo [of BddMan] by simp
    show "\<exists>fl. nodes s' cddfalse = Some \<lparr>n_level = MAXLEVEL, n_ref = MAXREF, n_flag = fl, n_body = Term\<rparr>"
      using f s pf S(4) by (simp add: terminal_node_def)
    show "\<forall>k. finite (B k) \<and> bnd_INF \<in> B k \<and> (\<forall>b \<in> B k. \<bar>b\<bar> \<le> bnd_INF) \<and> card (B k) \<le> cdd_maxcddsize s'"
      using B s by (simp add: bounds_ok_def e)
  qed (use f s in \<open>auto simp: e\<close>)
  moreover have "mans_ok s'" using S(1) by (simp add: mans_ok_def mo)
  ultimately show "core s' (\<lambda>_. 0) {} {} B"
    by (simp add: core_def tables_ok_def refs_ok_def owners_sound_def dead_ok_def own_def T)
qed

text \<open>The invariant does not depend on \<^verbatim>\<open>cdd_running\<close>.\<close>

lemma running_views:
  "man_of (s\<lparr>cdd_running := b\<rparr>) i = man_of s i" "core (s\<lparr>cdd_running := b\<rparr>) X F W B = core s X F W B"
  "caches_mean T (s\<lparr>cdd_running := b\<rparr>) B = caches_mean T s B"
proof -
  let ?s = "s\<lparr>cdd_running := b\<rparr>"
  show m: "man_of ?s i = man_of s i" for i by (cases i) simp_all
  have v: "cont ?s = cont s" "rf ?s = rf s" "tbl ?s = tbl s" by (simp_all add: fun_eq_iff cont_def rf_def tbl_def m del: man_of.simps)
  then have t: "tabled ?s = tabled s" by (simp add: tabled_def)
  note f = v t m
  have "static_ok ?s B \<longleftrightarrow> static_ok s B" by (simp add: static_ok_def)
  moreover have "tables_ok ?s \<longleftrightarrow> tables_ok s" by (simp add: tables_ok_def f)
  moreover have "mans_ok ?s \<longleftrightarrow> mans_ok s" by (simp add: mans_ok_def man_ok_def cell_ok_def f del: man_of.simps)
  ultimately show "core ?s X F W B = core s X F W B"
    by (simp add: core_def refs_ok_def owners_sound_def dead_ok_def f)
  have "apply_entry_ok ?s B = apply_entry_ok s B" "entry_means T ?s B = entry_means T s B"
    by (simp_all add: fun_eq_iff apply_entry_ok_def entry_means_def entry_sound_def f)
  then show "caches_mean T ?s B = caches_mean T s B" by (simp add: caches_mean_def)
qed

text \<open>What a started library looks like to its client.\<close>

definition started :: "(nat \<Rightarrow> raw_t set) \<Rightarrow> nat \<Rightarrow> kstate \<Rightarrow> bool" where
  "started B mx s \<longleftrightarrow> (\<forall>T. client_with T (\<lambda>_. 0) B s) \<and> cdd_running s \<and> cdd_maxcddsize s = mx \<and> cdd_levelcnt s = 0 \<and>
     cdd_clocknum s = 0 \<and> cdd_diff2level s = [] \<and> (\<forall>n. man_of s (CddMan n) = None)"

lemma starting_caches:
  assumes "starting mx cs s" "0 < cs" "16 * cs < 2 ^ 32" "managed BddMan s p ps s'"
  shows "caches_mean T s' B"
  using assms blank_os_fields(13-15) [of s' s] fresh_caches [of cs s' T B]
  by (simp add: starting_def managed_def Let_def)

lemma cdd_init_spec:
  assumes s: "\<not> cdd_running s" "cdd_errorcond s = 0" "fresh_memory s" and mx: "2 \<le> mx" "mx \<le> 8190"
    and cs: "0 < cs" "28 * cs < 2 ^ 32" and sk: "8 * stacksize < 2 ^ 32" and B: "bounds_ok B mx"
  shows "wp (cdd_init mx cs stacksize) (\<lambda>r s'. r = 0 \<and> started B mx s') s"
proof -
  define t where "t = s\<lparr>nodes := (nodes s)(cddfalse \<mapsto> terminal_node),
       cdd_maxcddsize := mx, cdd_maxcddused := 0, cdd_levelcnt := 0, cdd_chunkcnt := 0,
       cdd_gbccnt := 0, pregbc_handler := False, prerehash_handler := False,
       cdd_refstack := [], cddmanager := [], bddmanager := None, cdd_levelinfo := [],
       cdd_diff2level := [], cdd_clocknum := 0, cdd_varnum := 0,
       postgbc_handler := True, postrehash_handler := True,
       applycache := snd (CddCache_init cs), quantcache := snd (CddCache_init cs),
       replacecache := snd (CddCache_init cs), relaxcache := snd (CddRelaxCache_init cs),
       cdd_refstacksize := stacksize, cddmanager := replicate (mx + 1) None\<rparr>"
  have ok: "malloc_ok (16 * cs)" "malloc_ok (28 * cs)" "malloc_ok (8 * stacksize)" "malloc_ok (4 * (mx + 1))"
    using mx cs sk by (simp_all add: malloc_ok_def)
  have run: "wp (cdd_init mx cs stacksize) Q s =
      wp (cdd_alloc_nodemanager BddMan 16) (\<lambda>_. wp (thenM (modifyM (cdd_running_update (\<lambda>_. True))) (ret 0)) Q) t" for Q
    using s ok by (simp add: cdd_init_def cdd_operator_init_def CddCache_init_def CddRelaxCache_init_def Let_def
        wp_simps t_def del: replicate_Suc)
  have st: "starting mx cs t"
    using s by (auto simp: starting_def fresh_memory_def t_def)
  have "wp (cdd_alloc_nodemanager BddMan (nodesize_of BddMan)) (\<lambda>_ u. \<exists>p ps. managed BddMan t p ps u) t"
    by (rule alloc_nodemanager_run) (auto simp: chunk_nodes_def CHUNKSIZE_def man_of_put_bdd)
  then show ?thesis
    unfolding run nodesize_of.simps
  proof (rule wp_mono, elim exE)
    fix x u p ps assume g: "managed BddMan t p ps u"
    have cl: "client_with T (\<lambda>_. 0) B u" for T
      using first_manager [OF st mx B g] starting_caches [OF st cs(1) _ g] cs(2) by (auto simp: client_with_def)
    have "blank_os u = blank_os t" using g by (simp add: managed_def Let_def)
    note e = blank_os_fields [OF this]
    have "\<forall>T. client_with T (\<lambda>_. 0) B (u\<lparr>cdd_running := True\<rparr>)"
      using cl by (simp add: client_with_def running_views)
    then have "started B mx (u\<lparr>cdd_running := True\<rparr>)"
      using first_manager(2) [OF st mx B g] e running_views(1) [of _ u]
      by (simp add: started_def t_def del: man_of.simps)
    then show "wp (thenM (modifyM (cdd_running_update (\<lambda>_. True))) (ret 0)) (\<lambda>r s'. r = 0 \<and> started B mx s') u"
      by (simp add: wp_simps)
  qed
qed

section \<open>New levels\<close>

text \<open>\<open>extended L s s'\<close>: the levels \<open>L\<close> are appended, and every manager has an empty table for each.\<close>

definition more_tables :: "nat \<Rightarrow> nodemanager \<Rightarrow> nodemanager" where
  "more_tables n m = m\<lparr>m_subtables := m_subtables m @ replicate n None\<rparr>"

definition level_free :: "kstate \<Rightarrow> kstate" where
  "level_free s = s\<lparr>bddmanager := None, cddmanager := [], cdd_levelcnt := 0, cdd_levelinfo := [], cdd_diff2level := [],
     cdd_clocknum := 0, cdd_varnum := 0, bdd_start_level := 0\<rparr>"

definition extended :: "LevelInfo list \<Rightarrow> kstate \<Rightarrow> kstate \<Rightarrow> bool" where
  "extended L s s' \<longleftrightarrow> level_free s' = level_free s \<and> cdd_levelinfo s' = cdd_levelinfo s @ L \<and>
     cdd_levelcnt s' = cdd_levelcnt s + length L \<and> length (cddmanager s') = length (cddmanager s) \<and>
     (\<forall>i. man_of s' i = map_option (more_tables (length L)) (man_of s i))"

lemma level_free_fields:
  assumes "level_free s' = level_free s"
  shows "env s' = env s" "nodes s' = nodes s" "chunk_man s' = chunk_man s" "os_chunks s' = os_chunks s"
    "cdd_maxcddsize s' = cdd_maxcddsize s" "cdd_errorcond s' = cdd_errorcond s" "cdd_running s' = cdd_running s"
    "postgbc_handler s' = postgbc_handler s" "postrehash_handler s' = postrehash_handler s"
    "applycache s' = applycache s" "quantcache s' = quantcache s" "replacecache s' = replacecache s"
    "cdd_refstack s' = cdd_refstack s"
  using arg_cong [OF assms, of env] arg_cong [OF assms, of nodes] arg_cong [OF assms, of chunk_man]
    arg_cong [OF assms, of os_chunks] arg_cong [OF assms, of cdd_maxcddsize] arg_cong [OF assms, of cdd_errorcond]
    arg_cong [OF assms, of cdd_running]
    arg_cong [OF assms, of postgbc_handler] arg_cong [OF assms, of postrehash_handler] arg_cong [OF assms, of applycache]
    arg_cong [OF assms, of quantcache] arg_cong [OF assms, of replacecache] arg_cong [OF assms, of cdd_refstack]
  by (simp_all add: level_free_def)

lemma shape_more: "shape_ok L B k b \<Longrightarrow> shape_ok (L @ M) B k b"
  by (auto simp: shape_ok_def nth_append split: body.splits)

lemma sound_more: "sound C T L B p \<Longrightarrow> sound C T (L @ M) B p"
proof (induction rule: sound.induct)
  case (sound_node p k b)
  then show ?case by (intro sound.sound_node [of C p k b]) (auto intro: shape_more)
qed (rule sound_term)

lemma extended_views:
  assumes "extended L s s'"
  shows "cont s' = cont s" "rf s' = rf s" "tbl s' i k = tbl s i k" "tabled s' = tabled s"
proof -
  note e = assms [unfolded extended_def] and f = level_free_fields [of s' s]
  show "cont s' = cont s" "rf s' = rf s" using e f by (simp_all add: fun_eq_iff cont_def rf_def)
  have "tbl s' i k = tbl s i k" for i k
    using e by (cases "man_of s i") (auto simp: tbl_def more_tables_def table_of_def nth_append simp del: man_of.simps)
  then show "tbl s' i k = tbl s i k" "tabled s' = tabled s" by (simp_all add: tabled_def)
qed

lemma extended_core:
  assumes c: "core s X F {} B" and e: "extended L s s'" and n: "cdd_levelcnt s + length L \<le> MAXLEVEL"
  shows "core s' X F {} B"
proof -
  note e' = e [unfolded extended_def] and v = extended_views [OF e]
  have f: "level_free s' = level_free s" using e' by simp
  note f = level_free_fields [OF f] v
  have st: "static_ok s B" and mn: "mans_ok s" using c by (simp_all add: core_def)
  have "man_of s' BddMan = map_option (more_tables (length L)) (man_of s BddMan)" using e' by blast
  then have "bddmanager s' \<noteq> None" using st by (simp add: static_ok_def del: not_None_eq)
  then have "static_ok s' B" using st e' n unfolding static_ok_def by (simp add: f del: not_None_eq)
  moreover have "tables_ok s'" using c by (simp add: core_def tables_ok_def f)
  moreover have "mans_ok s'"
    unfolding mans_ok_def
  proof (intro allI impI)
    fix i m' assume "man_of s' i = Some m'"
    then obtain m where m: "man_of s i = Some m" "m' = more_tables (length L) m" using e' by auto
    then have "man_ok s i m" using mn by (simp add: mans_ok_def)
    then show "man_ok s' i m'"
      using e' m(2) by (auto simp: man_ok_def more_tables_def cell_ok_def f table_deads_def sum_list_replicate)
  qed
  moreover have "refs_ok s' X F {}" "dead_ok s' F {}" using c by (simp_all add: core_def refs_ok_def dead_ok_def f)
  moreover have "owners_sound s' F {} B"
    using c e' sound_more by (simp add: core_def owners_sound_def f)
  ultimately show ?thesis by (simp add: core_def)
qed

lemma all_live_mono: "opcache.all_live P c \<Longrightarrow> (\<And>e. P e \<Longrightarrow> Q e) \<Longrightarrow> opcache.all_live Q c"
  by (auto simp: opcache.all_live_def)

lemma extended_caches:
  assumes k: "caches_mean T s B" and e: "extended L s s'"
  shows "caches_mean T s' B"
proof -
  note e' = e [unfolded extended_def] and v = extended_views [OF e]
  note f = level_free_fields [of s' s] v
  have "entry_means T s B d \<Longrightarrow> entry_means T s' B d" "apply_entry_ok s B d \<Longrightarrow> apply_entry_ok s' B d" for d
    using e' sound_more by (auto simp: entry_means_def entry_sound_def apply_entry_ok_def v)
  then show ?thesis using k e' f by (auto simp: caches_mean_def intro: all_live_mono)
qed

lemma extended_client:
  assumes "client_with T X B s" "extended L s s'" "cdd_levelcnt s + length L \<le> MAXLEVEL"
  shows "client_with T X B s'"
  using assms extended_core [of s X _ B L s'] extended_caches [of T s B L s'] by (auto simp: client_with_def)

text \<open>What the client can reach, and what it means, are as before.\<close>

lemma extended_reach:
  assumes "extended L s s'"
  shows "reach X s' p = reach X s p" "eval (cont s') a p = eval (cont s) a p"
  by (simp_all add: reach_def extended_views [OF assms])

section \<open>\<^verbatim>\<open>add_levels\<close>\<close>

text \<open>\<^verbatim>\<open>add_levels\<close> grows the managers below the last; no table may be missing in the last.\<close>

definition grown :: "nat \<Rightarrow> mid set \<Rightarrow> kstate \<Rightarrow> kstate \<Rightarrow> bool" where
  "grown n I s s' \<longleftrightarrow> length (cddmanager s') = length (cddmanager s) \<and>
     s'\<lparr>bddmanager := bddmanager s, cddmanager := cddmanager s\<rparr> = s \<and>
     (\<forall>i. man_of s' i = (if i \<in> I then map_option (more_tables n) (man_of s i) else man_of s i))"

lemma put_man_back: "(put_man i m s)\<lparr>bddmanager := b, cddmanager := c\<rparr> = s\<lparr>bddmanager := b, cddmanager := c\<rparr>"
  by (cases i) simp_all

lemma grown_one:
  assumes g: "grown n I s t" and i: "i \<notin> I" and m: "man_of s i = Some m" "length (m_subtables m) = cdd_levelcnt s"
  shows "wp (add_levels_to_nodemanager i n) (\<lambda>_. grown n (insert i I) s) t"
proof -
  note g' = g [unfolded grown_def]
  have lc: "cdd_levelcnt t = cdd_levelcnt s" using arg_cong [OF conjunct1 [OF conjunct2 [OF g']], of cdd_levelcnt] by simp
  have mt: "man_of t i = Some m" using g' i m(1) by simp
  have "wp (add_levels_to_nodemanager i n) (\<lambda>_. grown n (insert i I) s) t = grown n (insert i I) s (put_man i (more_tables n m) t)"
    using m(2) unfolding add_levels_to_nodemanager_def wp_bind wp_gets lc wp_eq [where m = "upd_man i f" for f, OF upd_man_eq [OF mt]]
    by (simp add: more_tables_def)
  moreover have "man_of (put_man i (more_tables n m) t) j = (if j = i then Some (more_tables n m) else man_of t j)" for j
    by (rule man_of_put_man) (simp add: mt del: man_of.simps)
  moreover have "length (cddmanager (put_man i (more_tables n m) t)) = length (cddmanager t)" by simp
  ultimately show ?thesis
    using g' m(1) by (auto simp: grown_def put_man_back simp del: man_of.simps put_man.simps)
qed

lemma add_levels_spec:
  assumes c: "core s X F {} B" and last: "man_of s (CddMan (cdd_maxcddsize s)) = None"
  shows "wp (add_levels n) (\<lambda>_. grown n UNIV s) s"
proof -
  have mn: "length (m_subtables m) = cdd_levelcnt s" if "man_of s i = Some m" for i m
    using c that by (simp add: core_def mans_ok_def man_ok_def)
  obtain b where b: "man_of s BddMan = Some b" using c by (auto simp: core_def static_ok_def)
  have g0: "grown n {} s s" by (simp add: grown_def)
  let ?I = "\<lambda>is. insert BddMan (CddMan ` set is)"
  have loop: "wp (forM [0..<cdd_maxcddsize s] (\<lambda>i. bindM (gets (\<lambda>s. man_of s (CddMan i))) (\<lambda>m.
      whenM (m \<noteq> None) (add_levels_to_nodemanager (CddMan i) n)))) (\<lambda>_. grown n (?I [0..<cdd_maxcddsize s]) s) t"
    if t: "grown n {BddMan} s t" for t
  proof (rule wp_forM [where I = "\<lambda>is. grown n (?I is) s"])
    show "grown n (?I []) s t" using t by simp
    fix pre i rest u assume sp: "[0..<cdd_maxcddsize s] = pre @ i # rest" and u: "grown n (?I pre) s u"
    have "distinct (pre @ i # rest)" unfolding sp [symmetric] by simp
    then have ni: "CddMan i \<notin> ?I pre" by auto
    then have eq: "man_of u (CddMan i) = man_of s (CddMan i)" using u by (simp add: grown_def del: man_of.simps)
    show "wp (bindM (gets (\<lambda>s. man_of s (CddMan i))) (\<lambda>m. whenM (m \<noteq> None) (add_levels_to_nodemanager (CddMan i) n)))
        (\<lambda>_. grown n (?I (pre @ [i])) s) u"
    proof (cases "man_of s (CddMan i)")
      case None
      then have "grown n (?I (pre @ [i])) s u" using u by (auto simp: grown_def simp del: man_of.simps)
      then show ?thesis unfolding wp_bind wp_gets wp_when eq using None by (simp del: man_of.simps)
    next
      case (Some m)
      have "wp (add_levels_to_nodemanager (CddMan i) n) (\<lambda>_. grown n (insert (CddMan i) (?I pre)) s) u"
        by (rule grown_one [OF u ni Some mn [OF Some]])
      then show ?thesis unfolding wp_bind wp_gets wp_when eq using Some by (simp add: insert_commute del: man_of.simps)
    qed
  qed
  have all: "grown n UNIV s t" if t: "grown n (?I [0..<cdd_maxcddsize s]) s t" for t
  proof -
    have len: "length (cddmanager s) = cdd_maxcddsize s + 1" using c by (simp add: core_def static_ok_def)
    have "man_of s i = None" if "i \<notin> ?I [0..<cdd_maxcddsize s]" for i
    proof (cases i)
      case (CddMan k)
      then have "k = cdd_maxcddsize s \<or> \<not> k < length (cddmanager s)" using that len by auto
      then show ?thesis using last CddMan by auto
    qed (use that in simp)
    then show ?thesis using t by (auto simp: grown_def simp del: man_of.simps)
  qed
  have mx: "cdd_maxcddsize t = cdd_maxcddsize s" if "grown n {BddMan} s t" for t
    using arg_cong [OF conjunct1 [OF conjunct2 [OF that [unfolded grown_def]]], of cdd_maxcddsize] by simp
  show ?thesis
    unfolding add_levels_def wp_then
  proof (rule wp_mono [OF grown_one [OF g0 _ b mn [OF b]]])
    fix x t assume t: "grown n {BddMan} s t"
    from wp_mono [OF loop [OF t] all] show "wp (bindM (gets cdd_maxcddsize) (\<lambda>mx. forM [0..<mx] (\<lambda>i.
        bindM (gets (\<lambda>s. man_of s (CddMan i))) (\<lambda>m. whenM (m \<noteq> None) (add_levels_to_nodemanager (CddMan i) n)))))
        (\<lambda>_. grown n UNIV s) t"
      unfolding wp_bind wp_gets mx [OF t] .
  qed simp
qed

text \<open>The state once the new levels are recorded.\<close>

definition unlisted :: "kstate \<Rightarrow> kstate" where
  "unlisted s = s\<lparr>cdd_levelcnt := 0, cdd_levelinfo := [], cdd_diff2level := [], cdd_clocknum := 0, cdd_varnum := 0,
     bdd_start_level := 0\<rparr>"

lemma grown_extended:
  assumes g: "grown (length L) UNIV s t" and u: "unlisted u = unlisted t" "cdd_levelinfo u = cdd_levelinfo s @ L"
    "cdd_levelcnt u = cdd_levelcnt s + length L"
  shows "extended L s u"
proof -
  have e: "t\<lparr>bddmanager := bddmanager s, cddmanager := cddmanager s\<rparr> = s" using g by (simp add: grown_def)
  have m: "bddmanager u = bddmanager t" "cddmanager u = cddmanager t"
    using arg_cong [OF u(1), of bddmanager] arg_cong [OF u(1), of cddmanager] by (simp_all add: unlisted_def)
  have "level_free u = (unlisted u)\<lparr>bddmanager := None, cddmanager := []\<rparr>" by (simp add: level_free_def unlisted_def)
  also have "\<dots> = level_free (t\<lparr>bddmanager := bddmanager s, cddmanager := cddmanager s\<rparr>)"
    unfolding u(1) by (simp add: level_free_def unlisted_def)
  finally have "level_free u = level_free s" unfolding e .
  moreover have "man_of u i = man_of t i" for i by (cases i) (simp_all add: m)
  ultimately show ?thesis using g u(2,3) unfolding extended_def grown_def m by (simp del: man_of.simps)
qed

lemma grown_fields:
  assumes "grown n I s t"
  shows "cdd_levelinfo t = cdd_levelinfo s" "cdd_levelcnt t = cdd_levelcnt s" "cdd_diff2level t = cdd_diff2level s"
    "cdd_clocknum t = cdd_clocknum s" "cdd_varnum t = cdd_varnum s"
proof -
  have e: "t\<lparr>bddmanager := bddmanager s, cddmanager := cddmanager s\<rparr> = s" using assms by (simp add: grown_def)
  show "cdd_levelinfo t = cdd_levelinfo s" "cdd_levelcnt t = cdd_levelcnt s" "cdd_diff2level t = cdd_diff2level s"
    "cdd_clocknum t = cdd_clocknum s" "cdd_varnum t = cdd_varnum s"
    using arg_cong [OF e, of cdd_levelinfo] arg_cong [OF e, of cdd_levelcnt] arg_cong [OF e, of cdd_diff2level]
      arg_cong [OF e, of cdd_clocknum] arg_cong [OF e, of cdd_varnum] by simp_all
qed

section \<open>The numbering of the differences\<close>

lemma difference_count_Suc [simp]: "cdd_difference_count (Suc n) = cdd_difference_count n + n"
proof -
  have "Suc n * (Suc n - 1) = n * (n - 1) + 2 * n" by (cases n) (simp_all add: algebra_simps)
  then show ?thesis by (simp add: cdd_difference_count_def)
qed

lemma difference_count_mono: "m \<le> n \<Longrightarrow> cdd_difference_count m \<le> cdd_difference_count n"
  by (induction n rule: nat_induct) (auto simp: le_Suc_eq)

lemma difference_range:
  assumes "j < i" "c \<le> i" "i < n"
  shows "cdd_difference_count c \<le> cdd_difference i j" "cdd_difference i j < cdd_difference_count n"
  using assms difference_count_mono [of c i] difference_count_mono [of "Suc i" n] by (auto simp: cdd_difference_def)

lemma difference_inj:
  assumes "j < i" "l < k" "cdd_difference i j = cdd_difference k l"
  shows "i = k \<and> j = l"
proof -
  have "\<not> i < k" "\<not> k < i"
    using assms difference_range(2) [of j i 0 k] difference_range(2) [of l k 0 i]
    by (auto simp: cdd_difference_def)
  then show ?thesis using assms(3) by (simp add: cdd_difference_def)
qed

text \<open>The pairs of clocks in the order of the loops of \<^verbatim>\<open>cdd_add_clocks\<close>.\<close>

definition clock_pairs :: "nat \<Rightarrow> nat \<Rightarrow> (nat \<times> nat) list" where
  "clock_pairs c n = concat (map (\<lambda>i. map (Pair i) [0..<i]) [c..<c + n])"

lemma set_clock_pairs: "(i, j) \<in> set (clock_pairs c n) \<longleftrightarrow> c \<le> i \<and> i < c + n \<and> j < i"
  by (force simp: clock_pairs_def)

lemma length_clock_pairs: "length (clock_pairs c n) = cdd_difference_count (c + n) - cdd_difference_count c"
proof (induction n)
  case (Suc n)
  then show ?case using difference_count_mono [of c "c + n"] by (simp add: clock_pairs_def)
qed (simp add: clock_pairs_def)

lemma distinct_clock_pairs: "distinct (map (\<lambda>(i, j). cdd_difference i j) (clock_pairs c n))"
proof -
  have "distinct (clock_pairs c n)"
    unfolding clock_pairs_def by (induction n) (auto simp: distinct_map inj_on_def)
  then show ?thesis
    by (auto simp: distinct_map inj_on_def set_clock_pairs dest: difference_inj)
qed

lemma forM_append: "forM (xs @ ys) f s = thenM (forM xs f) (forM ys f) s"
  by (induction xs arbitrary: s) (auto simp: thenM_def bindM_def ret_def split: sum.splits)

lemma forM_pairs: "forM xs (\<lambda>x. forM (g x) (f x)) = forM (concat (map (\<lambda>x. map (Pair x) (g x)) xs)) (\<lambda>(x, y). f x y)"
proof (rule ext)
  fix s
  have one: "forM (map (Pair x) ys) (\<lambda>(x, y). f x y) t = forM ys (f x) t" for x ys t
    by (induction ys arbitrary: t) (auto simp: thenM_def bindM_def split: sum.splits)
  show "forM xs (\<lambda>x. forM (g x) (f x)) s = forM (concat (map (\<lambda>x. map (Pair x) (g x)) xs)) (\<lambda>(x, y). f x y) s"
    by (induction xs arbitrary: s) (auto simp: forM_append one thenM_def bindM_def split: sum.splits)
qed

section \<open>Declaring clocks and variables\<close>

definition diff_info :: "nat \<times> nat \<Rightarrow> LevelInfo" where
  "diff_info p = \<lparr>li_type = TYPE_CDD, li_clock1 = fst p, li_clock2 = snd p, li_diff = cdd_difference (fst p) (snd p)\<rparr>"

text \<open>After the pairs \<open>ps\<close>, starting from \<open>s\<close>.\<close>

definition listed :: "(nat \<times> nat) list \<Rightarrow> kstate \<Rightarrow> kstate \<Rightarrow> bool" where
  "listed ps s t \<longleftrightarrow> (\<exists>d. t = s\<lparr>cdd_levelinfo := cdd_levelinfo s @ map diff_info ps,
       cdd_levelcnt := cdd_levelcnt s + length ps, cdd_diff2level := d\<rparr> \<and> length d = length (cdd_diff2level s) \<and>
     (\<forall>m < length ps. d ! cdd_difference (fst (ps ! m)) (snd (ps ! m)) = cdd_levelcnt s + m) \<and>
     (\<forall>x. x \<notin> (\<lambda>(i, j). cdd_difference i j) ` set ps \<longrightarrow> d ! x = cdd_diff2level s ! x))"

lemma add_level_info_spec:
  assumes t: "listed ps s t" and lt: "cdd_difference i j < length (cdd_diff2level s)"
    and new: "cdd_difference i j \<notin> (\<lambda>(i, j). cdd_difference i j) ` set ps"
  shows "wp (add_level_info i j) (\<lambda>_. listed (ps @ [(i, j)]) s) t"
proof -
  obtain d where d: "t = s\<lparr>cdd_levelinfo := cdd_levelinfo s @ map diff_info ps,
       cdd_levelcnt := cdd_levelcnt s + length ps, cdd_diff2level := d\<rparr>" "length d = length (cdd_diff2level s)"
     "\<forall>m < length ps. d ! cdd_difference (fst (ps ! m)) (snd (ps ! m)) = cdd_levelcnt s + m"
     "\<forall>x. x \<notin> (\<lambda>(i, j). cdd_difference i j) ` set ps \<longrightarrow> d ! x = cdd_diff2level s ! x"
    using t unfolding listed_def by blast
  have other: "cdd_difference (fst (ps ! m)) (snd (ps ! m)) \<noteq> cdd_difference i j" if "m < length ps" for m
    using new nth_mem [OF that] by (cases "ps ! m") (fastforce simp: image_iff)
  let ?d = "d[cdd_difference i j := cdd_levelcnt s + length ps]" and ?ps = "ps @ [(i, j)]"
  have "?d ! cdd_difference (fst (?ps ! m)) (snd (?ps ! m)) = cdd_levelcnt s + m" if "m < length ?ps" for m
  proof (cases "m < length ps")
    case True
    then show ?thesis using d(3) other [OF True] by (simp add: nth_append)
  next
    case False
    then have "m = length ps" using that by simp
    then show ?thesis using lt d(2) by simp
  qed
  then have "listed (ps @ [(i, j)]) s (t\<lparr>cdd_levelinfo := cdd_levelinfo t @ [diff_info (i, j)],
      cdd_diff2level := (cdd_diff2level t)[cdd_difference i j := cdd_levelcnt t], cdd_levelcnt := cdd_levelcnt t + 1\<rparr>)"
    unfolding listed_def by (intro exI [of _ ?d]) (use d(1,2,4) in simp)
  then show ?thesis
    using d lt by (simp add: add_level_info_def wp_simps diff_info_def)
qed

text \<open>Every difference of declared clocks has its level.\<close>

definition clocks_ok :: "kstate \<Rightarrow> bool" where
  "clocks_ok s \<longleftrightarrow> length (cdd_diff2level s) = cdd_difference_count (cdd_clocknum s) \<and>
     (\<forall>i j. j < i \<longrightarrow> i < cdd_clocknum s \<longrightarrow> (\<exists>k. level_at s i j k))"

lemma level_at_extended:
  assumes "level_at s i j k" "extended L s s'" "client_with T X B s" "cdd_difference i j < length (cdd_diff2level s')"
    "cdd_diff2level s' ! cdd_difference i j = cdd_diff2level s ! cdd_difference i j"
  shows "level_at s' i j k"
proof -
  obtain F where "core s X F {} B" using assms(3) by (auto simp: client_with_def)
  from core_levels(1) [OF this] show ?thesis
    using assms by (auto simp: level_at_def extended_def nth_append)
qed

lemma cdd_add_bddvar_spec:
  assumes c: "client_with T X B s" and k: "clocks_ok s" and last: "man_of s (CddMan (cdd_maxcddsize s)) = None"
    and n: "cdd_levelcnt s + n \<le> MAXLEVEL"
  shows "wp (cdd_add_bddvar n) (\<lambda>r s'. r = cdd_levelcnt s \<and> client_with T X B s' \<and> clocks_ok s' \<and> cdd_clocknum s' = cdd_clocknum s \<and>
     (\<exists>L. length L = n \<and> extended L s s' \<and> list_all (\<lambda>l. li_type l = TYPE_BDD) L)) s"
proof -
  let ?L = "replicate n \<lparr>li_type = TYPE_BDD, li_clock1 = 0, li_clock2 = 0, li_diff = 0\<rparr>"
  obtain F where cs: "core s X F {} B" using c by (auto simp: client_with_def)
  show ?thesis
    unfolding cdd_add_bddvar_def wp_bind wp_gets wp_then wp_modify wp_ret
  proof (rule wp_mono [OF add_levels_spec [OF cs last]])
    fix x t assume t: "grown n UNIV s t"
    note f = grown_fields [OF t]
    let ?u = "t\<lparr>cdd_levelcnt := cdd_levelcnt t + n, cdd_varnum := cdd_varnum t + n,
       cdd_levelinfo := cdd_levelinfo t @ ?L, bdd_start_level := cdd_levelcnt s\<rparr>"
    have e: "extended ?L s ?u"
      by (rule grown_extended [of _ s t]) (use t in \<open>simp_all add: f unlisted_def\<close>)
    have "client_with T X B ?u" using extended_client [OF c e] n by simp
    moreover have "clocks_ok ?u"
      using k level_at_extended [OF _ e c] difference_range(2)
      unfolding clocks_ok_def by (fastforce simp: f)
    ultimately show "cdd_levelcnt s = cdd_levelcnt s \<and> client_with T X B ?u \<and> clocks_ok ?u \<and> cdd_clocknum ?u = cdd_clocknum s \<and>
        (\<exists>L. length L = n \<and> extended L s ?u \<and> list_all (\<lambda>l. li_type l = TYPE_BDD) L)" using e by (auto intro!: exI [of _ ?L] simp: list_all_iff f)
  qed
qed

lemma cdd_add_clocks_spec:
  assumes c: "client_with T X B s" and k: "clocks_ok s" and last: "man_of s (CddMan (cdd_maxcddsize s)) = None"
    and n: "cdd_levelcnt s + cdd_difference_count (cdd_clocknum s + n) - cdd_difference_count (cdd_clocknum s) \<le> MAXLEVEL"
  shows "wp (cdd_add_clocks n) (\<lambda>_ s'. client_with T X B s' \<and> clocks_ok s' \<and> cdd_clocknum s' = cdd_clocknum s + n \<and>
     extended (map diff_info (clock_pairs (cdd_clocknum s) n)) s s') s"
proof -
  let ?c = "cdd_clocknum s" and ?ps = "clock_pairs (cdd_clocknum s) n"
  let ?d = "resize (cdd_difference_count (?c + n)) 0 (cdd_diff2level s)"
  have ld: "length (cdd_diff2level s) \<le> cdd_difference_count (?c + n)"
    using k difference_count_mono [of ?c "?c + n"] by (simp add: clocks_ok_def)
  then have len: "length ?d = cdd_difference_count (?c + n)" by (simp add: resize_def)
  obtain F where cs: "core s X F {} B" using c by (auto simp: client_with_def)
  show ?thesis
    unfolding cdd_add_clocks_def wp_bind wp_gets wp_then
  proof (rule wp_mono [OF add_levels_spec [OF cs last]])
    fix x t assume "grown (cdd_difference_count (?c + n) - cdd_difference_count ?c) UNIV s t"
    then have t: "grown (length (map diff_info ?ps)) UNIV s t" by (simp add: length_clock_pairs)
    note f = grown_fields [OF t]
    let ?t = "t\<lparr>cdd_diff2level := ?d\<rparr>"
    have "wp (forM ?ps (\<lambda>(i, j). add_level_info i j)) (\<lambda>_. listed ?ps ?t) ?t"
    proof (rule wp_forM [where I = "\<lambda>ps. listed ps ?t"])
      show "listed [] ?t ?t" unfolding listed_def by (rule exI [of _ ?d]) simp
      fix pre p rest u assume sp: "?ps = pre @ p # rest" and u: "listed pre ?t u"
      obtain i j where p: "p = (i, j)" by force
      have "(i, j) \<in> set ?ps" by (simp add: sp p)
      then have "cdd_difference i j < length (cdd_diff2level ?t)"
        using len difference_range(2) [of j i ?c "?c + n"] by (simp add: set_clock_pairs)
      moreover have "cdd_difference i j \<notin> (\<lambda>(i, j). cdd_difference i j) ` set pre"
        using distinct_clock_pairs [of ?c n] by (auto simp: sp p)
      ultimately show "wp (case p of (i, j) \<Rightarrow> add_level_info i j) (\<lambda>_. listed (pre @ [p]) ?t) u"
        unfolding p prod.case by (rule add_level_info_spec [OF u])
    qed
    then have loop: "wp (forM [?c..<?c + n] (\<lambda>i. forM [0..<i] (add_level_info i))) (\<lambda>_. listed ?ps ?t) ?t"
      unfolding forM_pairs by (simp add: clock_pairs_def)
    show "wp (modifyM (\<lambda>s. s\<lparr>cdd_diff2level := resize (cdd_difference_count (?c + n)) 0 (cdd_diff2level s)\<rparr>))
      (\<lambda>_. wp (forM [?c..<?c + n] (\<lambda>i. forM [0..<i] (add_level_info i)))
         (\<lambda>_. wp (modifyM (\<lambda>s. s\<lparr>cdd_clocknum := cdd_clocknum s + n\<rparr>)) (\<lambda>_ s'. client_with T X B s' \<and> clocks_ok s' \<and>
           cdd_clocknum s' = ?c + n \<and> extended (map diff_info ?ps) s s'))) t"
      unfolding wp_modify f(3)
    proof (rule wp_mono [OF loop])
      fix y u assume "listed ?ps ?t u"
      then obtain d where d: "u = ?t\<lparr>cdd_levelinfo := cdd_levelinfo ?t @ map diff_info ?ps,
          cdd_levelcnt := cdd_levelcnt ?t + length ?ps, cdd_diff2level := d\<rparr>" "length d = length ?d"
        "\<forall>m < length ?ps. d ! cdd_difference (fst (?ps ! m)) (snd (?ps ! m)) = cdd_levelcnt s + m"
        "\<forall>x. x \<notin> (\<lambda>(i, j). cdd_difference i j) ` set ?ps \<longrightarrow> d ! x = ?d ! x"
        unfolding listed_def by (auto simp: f)
      let ?u = "u\<lparr>cdd_clocknum := cdd_clocknum u + n\<rparr>"
      have e: "extended (map diff_info ?ps) s ?u"
        by (rule grown_extended [OF t]) (simp_all add: d(1) f unlisted_def)
      have cl: "client_with T X B ?u"
        using extended_client [OF c e] n difference_count_mono [of ?c "?c + n"] by (simp add: length_clock_pairs)
      have "\<exists>l. level_at ?u i j l" if ij: "j < i" "i < ?c + n" for i j
      proof (cases "i < ?c")
        case True
        then obtain l where l: "level_at s i j l" using k ij by (auto simp: clocks_ok_def)
        have lt: "cdd_difference i j < length (cdd_diff2level s)" using l by (simp add: level_at_def)
        have "cdd_difference i j \<notin> (\<lambda>(i, j). cdd_difference i j) ` set ?ps"
          using True ij by (auto simp: set_clock_pairs dest!: difference_inj [rotated 2])
        then have "d ! cdd_difference i j = cdd_diff2level s ! cdd_difference i j"
          using d(4) lt ld by (simp add: resize_def nth_append)
        then have "level_at ?u i j l"
          by (intro level_at_extended [OF l e c]) (use lt ld len d(1,2) in simp_all)
        then show ?thesis ..
      next
        case False
        then have "(i, j) \<in> set ?ps" using ij by (simp add: set_clock_pairs)
        then obtain m where m: "m < length ?ps" "?ps ! m = (i, j)" by (auto simp: in_set_conv_nth)
        have "length (cdd_levelinfo s) = cdd_levelcnt s" using core_levels(1) [OF cs] .
        then have "level_at ?u i j (cdd_levelcnt s + m)"
          using m d(3) difference_range(2) [of j i 0 "?c + n"] ij len d(2)
          by (auto simp: level_at_def d(1) f nth_append diff_info_def dest!: spec [of _ m])
        then show ?thesis ..
      qed
      then have "clocks_ok ?u" using len d(2) by (simp add: clocks_ok_def d(1) f)
      then show "client_with T X B ?u \<and> clocks_ok ?u \<and> cdd_clocknum ?u = ?c + n \<and> extended (map diff_info ?ps) s ?u"
        using cl e by (simp add: d(1) f)
    qed
  qed
qed

end
