(* ===== verification/Quantify.thy ===== *)
theory Quantify
  imports Apply "HOL-Library.Signed_Division"
begin

text \<open>
  The operators of \<^verbatim>\<open>src/cddop.c\<close> built on \<^verbatim>\<open>cdd_apply\<close>: quantification (\<^verbatim>\<open>cdd_exist\<close> with
  \<^verbatim>\<open>relax\<close>), renaming (\<^verbatim>\<open>cdd_replace\<close>), and the conversions from and to DBMs.
\<close>

section \<open>Loops over the children of a node\<close>

text \<open>
  \<^verbatim>\<open>for (cdd_it_init(it, node); !cdd_it_atend(it); cdd_it_next(it))\<close>: reading past the
  array is a fault, so there are no more rounds than elements.
\<close>

fun it_loop :: "nat \<Rightarrow> (cdd_iterator \<Rightarrow> 'a \<Rightarrow> 'a K) \<Rightarrow> cdd_iterator \<Rightarrow> 'a \<Rightarrow> 'a K" where
  "it_loop m f it acc =
     (if cdd_it_atend it then ret acc
      else case m of 0 \<Rightarrow> fail NoFuel | Suc m \<Rightarrow>
        bindM (f it acc) (\<lambda>acc. bindM (cdd_it_next it) (\<lambda>it. it_loop m f it acc)))"

declare it_loop.simps [simp del]

definition it_for :: "ptr \<Rightarrow> (cdd_iterator \<Rightarrow> 'a \<Rightarrow> 'a K) \<Rightarrow> 'a \<Rightarrow> 'a K" where
  "it_for node f acc =
     bindM (cdd_elems node) (\<lambda>es. it_loop (length es + 1) f (cdd_it_init node) acc)"

definition nthM :: "'a list \<Rightarrow> nat \<Rightarrow> 'a K" where
  "nthM xs i = (if i < length xs then ret (xs ! i) else fail Segv)"

text \<open>Taking a reference to a result, and giving references back.\<close>

definition refd :: "ptr K \<Rightarrow> ptr K" where
  "refd m = bindM m (\<lambda>p. thenM (cdd_ref p) (ret p))"

section \<open>Relaxation\<close>

text \<open>
  \<^verbatim>\<open>RELAXHASH\<close>: the pairs of integers are computed in \<^verbatim>\<open>int\<close>, where the product overflows for
  most bounds; the model wraps around.  Only the choice of the slot depends on it.
\<close>

definition cdd_pair :: "ptr \<Rightarrow> ptr \<Rightarrow> ptr" where
  "cdd_pair a b = (a + b) * (a + b + 1) div 2 + a"

definition int_pair :: "int \<Rightarrow> int \<Rightarrow> ptr" where
  "int_pair a b = word_of_int (signed_take_bit 31 ((a + b) * (a + b + 1)) sdiv 2 + a)"

definition RELAXHASH :: "ptr \<Rightarrow> raw_t \<Rightarrow> int \<Rightarrow> int \<Rightarrow> raw_t \<Rightarrow> ptr" where
  "RELAXHASH node l c1 c2 u = cdd_pair (cdd_pair node (int_pair l c1)) (int_pair c2 u)"

definition relax_slot :: "ptr \<Rightarrow> nat K" where
  "relax_slot h = bindM (gets relaxcache) (\<lambda>c.
     if relax_tablesize c = 0 then fail Segv else ret (unat h mod relax_tablesize c))"

definition relax_entry :: "nat \<Rightarrow> relax_data K" where
  "relax_entry i = bindM (gets relaxcache) (\<lambda>c.
     if i < length (relax_table c) then ret (relax_table c ! i) else fail Segv)"

definition set_relax_entry :: "nat \<Rightarrow> relax_data \<Rightarrow> unit K" where
  "set_relax_entry i e = modifyM (\<lambda>s. s\<lparr>relaxcache :=
     (relaxcache s)\<lparr>relax_table := (relax_table (relaxcache s))[i := e]\<rparr>\<rparr>)"

definition flag_at :: "int list \<Rightarrow> nat \<Rightarrow> bool K" where
  "flag_at clocks c = bindM (nthM clocks c) (\<lambda>x. ret (x \<noteq> 0))"

text \<open>
  The consequence of the bounds of a child and of the constraint being removed: the clocks
  \<open>pos\<close> and \<open>neg\<close> with the bounds on their difference, or None.  The tests evaluate
  \<open>clocks\<close> only when the clock fits, as in C.
\<close>

definition consequence :: "int list \<Rightarrow> LevelInfo \<Rightarrow> nat \<Rightarrow> nat \<Rightarrow> raw_t \<Rightarrow> raw_t \<Rightarrow> raw_t \<Rightarrow> raw_t \<Rightarrow>
    (nat \<times> nat \<times> raw_t \<times> raw_t) option K" where
  "consequence clocks info clock1 clock2 lower upper itl itu =
     bindM (if li_clock1 info = clock1 then flag_at clocks clock1 else ret False) (\<lambda>a.
     if a then ret (Some (li_clock2 info, clock2,
       bnd_u2l (bnd_add itu (bnd_l2u lower)), bnd_add upper (bnd_l2u itl)))
     else bindM (if li_clock1 info = clock2 then flag_at clocks clock2 else ret False) (\<lambda>b.
     if b then ret (Some (clock1, li_clock2 info,
       bnd_u2l (bnd_add (bnd_l2u lower) (bnd_l2u itl)), bnd_add upper itu))
     else bindM (if li_clock2 info = clock1 then flag_at clocks clock1 else ret False) (\<lambda>c.
     if c then ret (Some (li_clock1 info, clock2,
       bnd_u2l (bnd_add (bnd_l2u lower) (bnd_l2u itl)), bnd_add upper itu))
     else bindM (if li_clock2 info = clock2 then flag_at clocks clock2 else ret False) (\<lambda>d.
     if d then ret (Some (li_clock1 info, clock1,
       bnd_u2l (bnd_add upper (bnd_l2u itl)), bnd_add itu (bnd_l2u lower)))
     else ret None))))"

text \<open>Adding the consequence to \<open>tmp2\<close> when it is tighter than the constraints removed so far.\<close>

definition add_consequence :: "raw_t list \<Rightarrow> nat \<Rightarrow> nat \<Rightarrow> raw_t \<Rightarrow> raw_t \<Rightarrow> ptr \<Rightarrow> ptr K" where
  "add_consequence rc ps ng l u tmp2 =
     bindM (gets cdd_clocknum) (\<lambda>n.
     bindM (nthM rc (ng * n + ps)) (\<lambda>rl. bindM (nthM rc (ps * n + ng)) (\<lambda>ru.
     if l > bnd_u2l rl \<or> u < ru then
       bindM (refd (cdd_interval ps ng (maximum l (bnd_u2l rl)) (minimum u ru))) (\<lambda>tmp3.
       bindM (refd (cdd_and tmp2 tmp3)) (\<lambda>tmp4.
       thenM (cdd_rec_deref tmp2) (thenM (cdd_rec_deref tmp3) (ret tmp4))))
     else ret tmp2)))"

definition relax_child :: "(ptr \<Rightarrow> ptr K) \<Rightarrow> ptr \<Rightarrow> LevelInfo \<Rightarrow> int list \<Rightarrow> raw_t \<Rightarrow> nat \<Rightarrow> nat \<Rightarrow> raw_t \<Rightarrow>
    raw_t list \<Rightarrow> cdd_iterator \<Rightarrow> ptr \<Rightarrow> ptr K" where
  "relax_child rec node info clocks lower clock1 clock2 upper rc it res =
     bindM (cdd_it_upper it) (\<lambda>itu.
     bindM (consequence clocks info clock1 clock2 lower upper (cdd_it_lower it) itu) (\<lambda>cons.
     bindM (cdd_it_child it) (\<lambda>child.
     bindM (refd (rec child)) (\<lambda>tmp2.
     bindM (case cons of None \<Rightarrow> ret tmp2 | Some (ps, ng, l, u) \<Rightarrow> add_consequence rc ps ng l u tmp2) (\<lambda>tmp2.
     bindM (level_of node) (\<lambda>k.
     bindM (cdd_it_upper it) (\<lambda>itu.
     bindM (refd (cdd_interval_from_level k (cdd_it_lower it) itu)) (\<lambda>tmp3.
     bindM (refd (cdd_and tmp2 tmp3)) (\<lambda>tmp4.
     bindM (refd (cdd_or res tmp4)) (\<lambda>tmp5.
     thenM (cdd_rec_deref tmp2) (
     thenM (cdd_rec_deref tmp3) (
     thenM (cdd_rec_deref tmp4) (
     thenM (cdd_rec_deref res) (ret tmp5))))))))))))))"

text \<open>The choice between two results by the variable of a level, and the release of all three.\<close>

definition ite_level :: "nat \<Rightarrow> ptr \<Rightarrow> ptr \<Rightarrow> ptr K" where
  "ite_level k lo hi =
     bindM (refd (cdd_bddvar k)) (\<lambda>tmp3.
     bindM (refd (cdd_ite tmp3 hi lo)) (\<lambda>res.
     thenM (cdd_rec_deref lo) (
     thenM (cdd_rec_deref hi) (
     thenM (cdd_rec_deref tmp3) (ret res)))))"

text \<open>The result of the CDD case keeps the reference that the BDD case gives back.\<close>

fun relax :: "nat \<Rightarrow> ptr \<Rightarrow> int list \<Rightarrow> raw_t \<Rightarrow> nat \<Rightarrow> nat \<Rightarrow> raw_t \<Rightarrow> raw_t list \<Rightarrow> ptr K" where
  "relax 0 node clocks lower clock1 clock2 upper rc = fail NoFuel"
| "relax (Suc n) node clocks lower clock1 clock2 upper rc =
     bindM (cdd_isterminal node) (\<lambda>t. if t then ret node else
     bindM (relax_slot (RELAXHASH node lower (int clock1) (int clock2) upper)) (\<lambda>slot.
     bindM (relax_entry slot) (\<lambda>e.
     bindM (gets opid) (\<lambda>op.
     if x_node e = node \<and> x_lower e = lower \<and> x_upper e = upper \<and> x_clock1 e = int clock1 \<and>
        x_clock2 e = int clock2 \<and> x_op e = op
     then thenM (revive (x_res e)) (ret (x_res e))
     else
       bindM (cdd_info node) (\<lambda>info.
       bindM (case li_type info of
         TYPE_CDD \<Rightarrow> it_for node
           (relax_child (\<lambda>c. relax n c clocks lower clock1 clock2 upper rc)
              node info clocks lower clock1 clock2 upper rc) cddfalse
       | TYPE_BDD \<Rightarrow>
           bindM (bdd_low node) (\<lambda>lo.
           bindM (refd (relax n lo clocks lower clock1 clock2 upper rc)) (\<lambda>tmp1.
           bindM (bdd_high node) (\<lambda>hi.
           bindM (refd (relax n hi clocks lower clock1 clock2 upper rc)) (\<lambda>tmp2.
           bindM (level_of node) (\<lambda>k.
           bindM (ite_level k tmp1 tmp2) (\<lambda>res.
           thenM (cdd_deref res) (ret res)))))))) (\<lambda>res.
       bindM (gets opid) (\<lambda>op.
       thenM (set_relax_entry slot \<lparr>x_res = res, x_node = node, x_lower = lower, x_upper = upper,
           x_clock1 = int clock1, x_clock2 = int clock2, x_op = op\<rparr>)
       (ret res))))))))"

section \<open>Existential quantification\<close>

text \<open>
  \<open>rc\<close> holds the constraints removed so far.  C saves the two entries it overwrites and
  restores them; here the recursive calls get the changed list.
\<close>

definition rc_with :: "nat \<Rightarrow> LevelInfo \<Rightarrow> raw_t \<Rightarrow> raw_t \<Rightarrow> raw_t list \<Rightarrow> raw_t list K" where
  "rc_with n info itl itu rc =
     (let a = li_clock2 info * n + li_clock1 info; b = li_clock1 info * n + li_clock2 info in
      if a < length rc \<and> b < length rc then ret (rc[a := bnd_l2u itl, b := itu]) else fail Segv)"

fun any_at :: "int list \<Rightarrow> nat list \<Rightarrow> (int \<Rightarrow> bool) \<Rightarrow> bool K" where
  "any_at xs [] P = ret False"
| "any_at xs (i # is) P = bindM (nthM xs i) (\<lambda>x. if P x then ret True else any_at xs is P)"

definition exist_removed :: "(ptr \<Rightarrow> raw_t list \<Rightarrow> ptr K) \<Rightarrow> nat \<Rightarrow> LevelInfo \<Rightarrow> int list \<Rightarrow> raw_t list \<Rightarrow>
    cdd_iterator \<Rightarrow> ptr \<Rightarrow> ptr K" where
  "exist_removed rec fuel info clocks rc it res =
     bindM (gets cdd_clocknum) (\<lambda>n.
     bindM (cdd_it_upper it) (\<lambda>itu.
     bindM (rc_with n info (cdd_it_lower it) itu rc) (\<lambda>rc.
     bindM (cdd_it_child it) (\<lambda>child.
     bindM (refd (relax fuel child clocks (cdd_it_lower it) (li_clock1 info) (li_clock2 info) itu rc)) (\<lambda>tmp1.
     bindM (refd (rec tmp1 rc)) (\<lambda>tmp2.
     bindM (refd (cdd_or res tmp2)) (\<lambda>tmp3.
     thenM (cdd_rec_deref res) (
     thenM (cdd_rec_deref tmp1) (
     thenM (cdd_rec_deref tmp2) (ret tmp3))))))))))"

definition exist_kept :: "(ptr \<Rightarrow> ptr K) \<Rightarrow> ptr \<Rightarrow> cdd_iterator \<Rightarrow> ptr \<Rightarrow> ptr K" where
  "exist_kept rec node it res =
     bindM (level_of node) (\<lambda>k.
     bindM (cdd_it_upper it) (\<lambda>itu.
     bindM (refd (cdd_interval_from_level k (cdd_it_lower it) itu)) (\<lambda>tmp1.
     bindM (cdd_it_child it) (\<lambda>child.
     bindM (refd (rec child)) (\<lambda>tmp2.
     bindM (refd (cdd_and tmp1 tmp2)) (\<lambda>tmp3.
     bindM (refd (cdd_or res tmp3)) (\<lambda>tmp4.
     thenM (cdd_rec_deref res) (
     thenM (cdd_rec_deref tmp1) (
     thenM (cdd_rec_deref tmp2) (
     thenM (cdd_rec_deref tmp3) (ret tmp4)))))))))))"

text \<open>
  The depth of \<^verbatim>\<open>cdd_exist_rec\<close> is not bounded by the levels: relaxing a child may add
  constraints of earlier levels, and the recursion goes on with the relaxed child.  The
  bound is a parameter.
\<close>

fun cdd_exist_rec :: "nat \<Rightarrow> ptr \<Rightarrow> int list \<Rightarrow> int list \<Rightarrow> nat \<Rightarrow> nat \<Rightarrow> raw_t list \<Rightarrow> ptr K" where
  "cdd_exist_rec 0 node levels_bool clocks nb nc rc = fail NoFuel"
| "cdd_exist_rec (Suc n) node levels_bool clocks nb nc rc =
     bindM (cdd_isterminal node) (\<lambda>t. if t then ret node else
     bindM (cache_slot quantcache node) (\<lambda>slot.
     bindM (cache_entry quantcache slot) (\<lambda>e.
     bindM (gets opid) (\<lambda>op.
     if c_a e = node \<and> c_c e = op then thenM (revive (c_res e)) (ret (c_res e))
     else
       bindM (cdd_info node) (\<lambda>info.
       bindM (case li_type info of
         TYPE_CDD \<Rightarrow>
           bindM (any_at clocks [0..<nc] (\<lambda>c. c = int (li_clock1 info) \<or> c = int (li_clock2 info))) (\<lambda>affected.
           bindM (gets cdd_levelcnt) (\<lambda>lc.
           bindM (it_for node
             (if affected
              then exist_removed (\<lambda>c rc. cdd_exist_rec n c levels_bool clocks nb nc rc) (lc + 1) info clocks rc
              else exist_kept (\<lambda>c. cdd_exist_rec n c levels_bool clocks nb nc rc) node) cddfalse) (\<lambda>res.
           thenM (cdd_deref res) (ret res))))
       | TYPE_BDD \<Rightarrow>
           bindM (bdd_low node) (\<lambda>lo.
           bindM (refd (cdd_exist_rec n lo levels_bool clocks nb nc rc)) (\<lambda>tmp1.
           bindM (bdd_high node) (\<lambda>hi.
           bindM (refd (cdd_exist_rec n hi levels_bool clocks nb nc rc)) (\<lambda>tmp2.
           bindM (level_of node) (\<lambda>k.
           bindM (any_at levels_bool [0..<nb] (\<lambda>x. x = int k)) (\<lambda>affected.
           bindM (if affected then refd (cdd_or tmp1 tmp2)
                  else bindM (refd (cdd_bddvar k)) (\<lambda>tmp3.
                       bindM (refd (cdd_ite tmp3 tmp2 tmp1)) (\<lambda>res.
                       thenM (cdd_rec_deref tmp3) (ret res)))) (\<lambda>res.
           thenM (cdd_rec_deref tmp1) (
           thenM (cdd_rec_deref tmp2) (
           thenM (cdd_deref res) (ret res))))))))))) (\<lambda>res.
       bindM (gets opid) (\<lambda>op.
       thenM (modifyM (\<lambda>s. s\<lparr>quantcache :=
           upd_entry slot (\<lambda>e. e\<lparr>c_res := res, c_a := node, c_c := op\<rparr>) (quantcache s)\<rparr>))
       (ret res))))))))"

definition cdd_exist :: "nat \<Rightarrow> ptr \<Rightarrow> int list \<Rightarrow> int list \<Rightarrow> nat \<Rightarrow> nat \<Rightarrow> ptr K" where
  "cdd_exist fuel node levels_bool clocks nb nc =
     bindM (gets cdd_clocknum) (\<lambda>n.
     thenM (modifyM (\<lambda>s. s\<lparr>opid := opid s + 1\<rparr>))
     (cdd_exist_rec fuel node levels_bool clocks nb nc (replicate (n * n) bnd_INF)))"

section \<open>Renaming\<close>

definition replace_child :: "(ptr \<Rightarrow> ptr K) \<Rightarrow> LevelInfo \<Rightarrow> nat list \<Rightarrow> cdd_iterator \<Rightarrow> ptr \<Rightarrow> ptr K" where
  "replace_child rec info clocks it res =
     bindM (nthM clocks (li_clock1 info)) (\<lambda>c1. bindM (nthM clocks (li_clock2 info)) (\<lambda>c2.
     bindM (cdd_it_upper it) (\<lambda>itu.
     bindM (refd (cdd_interval c1 c2 (cdd_it_lower it) itu)) (\<lambda>tmp1.
     bindM (cdd_it_child it) (\<lambda>child.
     bindM (refd (rec child)) (\<lambda>tmp2.
     bindM (refd (cdd_and tmp1 tmp2)) (\<lambda>tmp3.
     thenM (cdd_rec_deref tmp1) (
     thenM (cdd_rec_deref tmp2) (
     bindM (refd (cdd_or res tmp3)) (\<lambda>tmp1.
     thenM (cdd_rec_deref res) (
     thenM (cdd_rec_deref tmp3) (ret tmp1))))))))))))"

fun cdd_replace_rec :: "nat \<Rightarrow> ptr \<Rightarrow> nat list \<Rightarrow> nat list \<Rightarrow> ptr K" where
  "cdd_replace_rec 0 node levels clocks = fail NoFuel"
| "cdd_replace_rec (Suc n) node levels clocks =
     bindM (cdd_isterminal node) (\<lambda>t. if t then ret node else
     bindM (cache_slot replacecache node) (\<lambda>slot.
     bindM (cache_entry replacecache slot) (\<lambda>e.
     bindM (gets opid) (\<lambda>op.
     if c_a e = node \<and> c_c e = op then thenM (revive (c_res e)) (ret (c_res e))
     else
       bindM (cdd_info node) (\<lambda>info.
       bindM (case li_type info of
         TYPE_BDD \<Rightarrow>
           bindM (level_of node) (\<lambda>k. bindM (nthM levels k) (\<lambda>k'.
           bindM (refd (cdd_bddvar k')) (\<lambda>tmp1.
           bindM (bdd_low node) (\<lambda>lo.
           bindM (refd (cdd_replace_rec n lo levels clocks)) (\<lambda>tmp2.
           bindM (bdd_high node) (\<lambda>hi.
           bindM (refd (cdd_replace_rec n hi levels clocks)) (\<lambda>tmp3.
           bindM (refd (cdd_ite tmp1 tmp3 tmp2)) (\<lambda>res.
           thenM (cdd_rec_deref tmp1) (
           thenM (cdd_rec_deref tmp2) (
           thenM (cdd_rec_deref tmp3) (
           thenM (cdd_deref res) (ret res))))))))))))
       | TYPE_CDD \<Rightarrow>
           bindM (it_for node (replace_child (\<lambda>c. cdd_replace_rec n c levels clocks) info clocks) cddfalse) (\<lambda>res.
           thenM (cdd_deref res) (ret res))) (\<lambda>res.
       bindM (gets opid) (\<lambda>op.
       thenM (modifyM (\<lambda>s. s\<lparr>replacecache :=
           upd_entry slot (\<lambda>e. e\<lparr>c_res := res, c_a := node, c_c := op\<rparr>) (replacecache s)\<rparr>))
       (ret res))))))))"

definition cdd_replace :: "ptr \<Rightarrow> nat list \<Rightarrow> nat list \<Rightarrow> ptr K" where
  "cdd_replace node levels clocks =
     thenM (modifyM (\<lambda>s. s\<lparr>opid := opid s + 1\<rparr>)) (
     bindM (gets cdd_levelcnt) (\<lambda>n. cdd_replace_rec (n + 1) node levels clocks))"

end
