(* ===== verification/Convert.thy ===== *)
theory Convert
  imports Quantify
begin

text \<open>
  The operators of \<^verbatim>\<open>src/cddop.c\<close> that relate diagrams and DBMs: inclusion of a DBM,
  \<^verbatim>\<open>cdd_from_dbm\<close>, and the extraction of a DBM or a BDD from a diagram.
\<close>

definition get_lib :: "extlib K" where
  "get_lib = gets (\<lambda>s. env_lib (env s))"

section \<open>Inclusion\<close>

definition cdd_constrain2 :: "extlib \<Rightarrow> raw_t list \<Rightarrow> nat \<Rightarrow> nat \<Rightarrow> nat \<Rightarrow> raw_t \<Rightarrow> raw_t \<Rightarrow> bool \<times> raw_t list" where
  "cdd_constrain2 lib d n i j lower upper =
     dbm_constrainN lib d n [\<lparr>con_i = j, con_j = i, con_value = bnd_l2u lower\<rparr>,
                             \<lparr>con_i = i, con_j = j, con_value = upper\<rparr>]"

text \<open>
  The loop over the children; the result is whether all of them contain their part.  C
  returns from within the loop.
\<close>

definition contains_child :: "(ptr \<Rightarrow> raw_t list \<Rightarrow> bool K) \<Rightarrow> LevelInfo \<Rightarrow> raw_t list \<Rightarrow> nat \<Rightarrow>
    cdd_iterator \<Rightarrow> bool K" where
  "contains_child rec info d n it =
     bindM (cdd_it_child it) (\<lambda>child.
     bindM (cdd_eval_true child) (\<lambda>tt.
     if tt then ret True
     else
       bindM get_lib (\<lambda>lib.
       bindM (cdd_it_upper it) (\<lambda>itu.
       let (ok, tmp) = cdd_constrain2 lib d n (li_clock1 info) (li_clock2 info) (cdd_it_lower it) itu in
       if ok then rec child tmp else ret True))))"

fun contains_loop :: "nat \<Rightarrow> (cdd_iterator \<Rightarrow> bool K) \<Rightarrow> cdd_iterator \<Rightarrow> bool K" where
  "contains_loop m f it =
     (if cdd_it_atend it then ret True
      else case m of 0 \<Rightarrow> fail NoFuel | Suc m \<Rightarrow>
        bindM (f it) (\<lambda>ok. if \<not> ok then ret False
          else bindM (cdd_it_next it) (\<lambda>it. contains_loop m f it)))"

declare contains_loop.simps [simp del]

text \<open>The BDD case looks at the children without the negation bit of the pointer to the node.\<close>

fun cdd_contains_rec :: "nat \<Rightarrow> ptr \<Rightarrow> raw_t list \<Rightarrow> nat \<Rightarrow> bool K" where
  "cdd_contains_rec 0 node d n = fail NoFuel"
| "cdd_contains_rec (Suc m) node d n =
     (if node = cddtrue then ret True
      else if node = cddfalse then ret False
      else bindM (cdd_is_extra_terminal node) (\<lambda>x.
        if x then ret (cdd_mask node = 0)
        else bindM (cdd_info node) (\<lambda>info.
        case li_type info of
          TYPE_CDD \<Rightarrow>
            if li_clock1 info \<ge> n \<or> li_clock2 info \<ge> n then ret False
            else bindM (cdd_elems node) (\<lambda>es.
              contains_loop (length es + 1) (contains_child (\<lambda>c tmp. cdd_contains_rec m c tmp n) info d n)
                (cdd_it_init node))
        | TYPE_BDD \<Rightarrow>
            bindM (bdd_node node) (\<lambda>(lo, hi).
            bindM (cdd_contains_rec m lo d n) (\<lambda>a. bindM (cdd_contains_rec m hi d n) (\<lambda>b.
            ret (a \<or> b)))))))"

definition cdd_contains :: "ptr \<Rightarrow> raw_t list \<Rightarrow> nat \<Rightarrow> bool K" where
  "cdd_contains node d n =
     bindM get_lib (\<lambda>lib.
     thenM (guardM AssertFail (dbm_isValid lib d n)) (
     bindM (gets cdd_levelcnt) (\<lambda>k. cdd_contains_rec (k + 1) node d n)))"

section \<open>From a DBM to a diagram\<close>

text \<open>One round of the loop of \<^verbatim>\<open>cdd_from_dbm\<close>, for level \<open>k\<close>; \<open>c\<close> is the diagram made so far.\<close>

definition from_dbm_elems :: "raw_t list \<Rightarrow> nat \<Rightarrow> nat \<Rightarrow> nat \<Rightarrow> bool \<Rightarrow> bool \<Rightarrow> ptr \<Rightarrow> elem list K" where
  "from_dbm_elems d n i j lo hi c =
     (if lo then
        bindM (nthM d (j * n + i)) (\<lambda>l.
        if hi then bindM (nthM d (i * n + j)) (\<lambda>u.
          ret [\<lparr>e_child = cddfalse, e_bnd = bnd_u2l l\<rparr>, \<lparr>e_child = c, e_bnd = u\<rparr>,
               \<lparr>e_child = cddfalse, e_bnd = bnd_INF\<rparr>])
        else ret [\<lparr>e_child = cddfalse, e_bnd = bnd_u2l l\<rparr>, \<lparr>e_child = c, e_bnd = bnd_INF\<rparr>])
      else bindM (nthM d (i * n + j)) (\<lambda>u.
        ret [\<lparr>e_child = cdd_rglr c, e_bnd = u\<rparr>,
             \<lparr>e_child = cdd_neg_cond cddfalse (cdd_mask c), e_bnd = bnd_INF\<rparr>]))"

definition from_dbm_level :: "raw_t list \<Rightarrow> nat \<Rightarrow> 32 word list \<Rightarrow> nat \<Rightarrow> ptr \<Rightarrow> ptr K" where
  "from_dbm_level d n oks k c =
     bindM get_lib (\<lambda>lib.
     bindM (levelinfo_at k) (\<lambda>info.
     let i = li_clock1 info; j = li_clock2 info in
     if li_type info \<noteq> TYPE_CDD then ret c
     else if i \<ge> n \<or> j \<ge> n then ret c
     else
       let lo = base_getOneBit lib oks (j * n + i); hi = base_getOneBit lib oks (i * n + j) in
       if \<not> (lo \<or> hi) then ret c
       else
         bindM (from_dbm_elems d n i j lo hi c) (\<lambda>es.
         bindM (cdd_make_cdd_node k es) (\<lambda>p.
         let c' = (if lo then p else cdd_neg_cond p (cdd_mask c)) in
         thenM (cdd_ref c') (thenM (cdd_deref c) (ret c'))))))"

fun from_dbm_loop :: "raw_t list \<Rightarrow> nat \<Rightarrow> 32 word list \<Rightarrow> nat \<Rightarrow> ptr \<Rightarrow> ptr K" where
  "from_dbm_loop d n oks 0 c = ret c"
| "from_dbm_loop d n oks (Suc k) c =
     bindM (from_dbm_level d n oks k c) (\<lambda>c. from_dbm_loop d n oks k c)"

definition cdd_from_dbm :: "raw_t list \<Rightarrow> nat \<Rightarrow> ptr K" where
  "cdd_from_dbm d n =
     bindM get_lib (\<lambda>lib.
     bindM (gets cdd_levelcnt) (\<lambda>lc.
     bindM (from_dbm_loop d n (dbm_analyzeForMinDBM lib d n) lc cddtrue) (\<lambda>c.
     thenM (cdd_deref c) (ret c))))"

section \<open>Extraction\<close>

fun remove_negative_loop :: "nat list \<Rightarrow> ptr \<Rightarrow> ptr K" where
  "remove_negative_loop [] result = ret result"
| "remove_negative_loop (i # is) result =
     bindM get_lib (\<lambda>lib.
     bindM (cdd_interval i 0 0 (dbm_LS_INFINITY lib)) (\<lambda>p.
     bindM (cdd_apply result p 0) (\<lambda>result. remove_negative_loop is result)))"

definition cdd_remove_negative :: "ptr \<Rightarrow> ptr K" where
  "cdd_remove_negative p =
     bindM (gets cdd_clocknum) (\<lambda>n. remove_negative_loop [1..<n] p)"

text \<open>The first child, or the second one when the first one is false.\<close>

definition first_true_child :: "ptr \<Rightarrow> cdd_iterator K" where
  "first_true_child node =
     (let it = cdd_it_init node in
      bindM (cdd_it_child it) (\<lambda>c.
      bindM (cdd_eval_false c) (\<lambda>ff.
      bindM (if ff then cdd_it_next it else ret it) (\<lambda>it.
      bindM (cdd_it_child it) (\<lambda>c.
      thenM (guardM AssertFail (c \<noteq> cddfalse)) (ret it))))))"

text \<open>The loop of \<^verbatim>\<open>cdd_extract_dbm\<close>; it returns the constrained DBM and the touched clocks.\<close>

fun extract_loop :: "nat \<Rightarrow> ptr \<Rightarrow> nat \<Rightarrow> raw_t list \<Rightarrow> 32 word list \<Rightarrow> (raw_t list \<times> 32 word list) K" where
  "extract_loop 0 node n d touched = fail NoFuel"
| "extract_loop (Suc m) node n d touched =
     bindM (cdd_isterminal node) (\<lambda>t. if t then ret (d, touched) else
     bindM (cdd_info node) (\<lambda>info.
     if li_type info = TYPE_BDD then ret (d, touched)
     else
       thenM (guardM AssertFail (li_clock1 info < n)) (
       thenM (guardM AssertFail (li_clock2 info < n)) (
       bindM (first_true_child node) (\<lambda>it.
       bindM get_lib (\<lambda>lib.
       let (d, touched) = dbm_constrain lib d n (li_clock2 info) (li_clock1 info) (bnd_l2u (cdd_it_lower it)) touched in
       bindM (cdd_it_upper it) (\<lambda>u.
       let (d, touched) = dbm_constrain lib d n (li_clock1 info) (li_clock2 info) u touched in
       bindM (cdd_it_child it) (\<lambda>c. extract_loop m c n d touched))))))))"

text \<open>The \<open>touched\<close> array is not initialised when it is declared: \<open>raw\<close> is what it holds.\<close>

definition cdd_extract_dbm :: "32 word list \<Rightarrow> ptr \<Rightarrow> nat \<Rightarrow> (ptr \<times> raw_t list) K" where
  "cdd_extract_dbm raw p n =
     bindM get_lib (\<lambda>lib.
     bindM (gets cdd_levelcnt) (\<lambda>lc.
     bindM (extract_loop (lc + 1) p n (dbm_init lib n) (base_resetBits lib raw (bits2intsize lib n))) (\<lambda>(d, touched).
     let d = dbm_closex lib d n touched in
     thenM (guardM AssertFail (dbm_isValid lib d n)) (
     bindM (refd (cdd_from_dbm d n)) (\<lambda>zone.
     bindM (cdd_and p (cdd_neg zone)) (\<lambda>result.
     thenM (cdd_deref zone) (ret (result, d))))))))"

fun extract_bdd_loop :: "nat \<Rightarrow> ptr \<Rightarrow> nat \<Rightarrow> ptr K" where
  "extract_bdd_loop 0 node n = fail NoFuel"
| "extract_bdd_loop (Suc m) node n =
     bindM (cdd_isterminal node) (\<lambda>t. if t then ret cddtrue else
     bindM (cdd_info node) (\<lambda>info.
     if li_type info = TYPE_BDD then ret node
     else
       thenM (guardM AssertFail (li_clock1 info < n)) (
       thenM (guardM AssertFail (li_clock2 info < n)) (
       bindM (first_true_child node) (\<lambda>it.
       bindM (cdd_it_child it) (\<lambda>c. extract_bdd_loop m c n))))))"

definition cdd_extract_bdd :: "ptr \<Rightarrow> nat \<Rightarrow> ptr K" where
  "cdd_extract_bdd p n =
     bindM (gets cdd_levelcnt) (\<lambda>lc. extract_bdd_loop (lc + 1) p n)"

section \<open>Marking the levels of a clock\<close>

fun mark_clock_loop :: "nat list \<Rightarrow> nat \<Rightarrow> int list \<Rightarrow> int list K" where
  "mark_clock_loop [] c vec = ret vec"
| "mark_clock_loop (n # ns) c vec =
     (if n = c then mark_clock_loop ns c vec
      else bindM (if n < c then diff2level c n else diff2level n c) (\<lambda>k.
        thenM (guardM Segv (k < length vec)) (mark_clock_loop ns c (vec[k := 1]))))"

definition cdd_mark_clock :: "int list \<Rightarrow> nat \<Rightarrow> int list K" where
  "cdd_mark_clock vec c = bindM (gets cdd_clocknum) (\<lambda>n. mark_clock_loop [0..<n] c vec)"

section \<open>Bounding a diagram\<close>

definition add_bound :: "ptr \<Rightarrow> nat \<Rightarrow> raw_t \<Rightarrow> raw_t \<Rightarrow> ptr K" where
  "add_bound c level low up =
     (if low = - bnd_INF \<and> up = bnd_INF then ret c
      else
        bindM (refd (cdd_interval_from_level level low up)) (\<lambda>tmp1.
        bindM (refd (cdd_and c tmp1)) (\<lambda>tmp2.
        thenM (cdd_rec_deref tmp1) (
        thenM (cdd_deref tmp2) (ret tmp2)))))"

end
