(* ===== verification/From_Dbm.thy ===== *)
theory From_Dbm
  imports Canonical Startup Convert
begin

text \<open>
  Correctness of \<^verbatim>\<open>cdd_from_dbm\<close>: the diagram, built from the deepest level upwards, denotes the
  constraints that UDBM marks as sufficient, hence the zone of the DBM.
\<close>

declare split_paired_All [simp del]

section \<open>What a level contributes\<close>

definition marked :: "extlib \<Rightarrow> 32 word list \<Rightarrow> nat \<Rightarrow> nat \<Rightarrow> nat \<Rightarrow> bool" where
  "marked lib oks n i j \<longleftrightarrow> base_getOneBit lib oks (i * n + j)"

definition entry :: "raw_t list \<Rightarrow> nat \<Rightarrow> nat \<Rightarrow> nat \<Rightarrow> raw_t" where
  "entry d n i j = d ! (i * n + j)"

definition level_holds :: "extlib \<Rightarrow> raw_t list \<Rightarrow> nat \<Rightarrow> 32 word list \<Rightarrow> LevelInfo \<Rightarrow> real \<Rightarrow> bool" where
  "level_holds lib d n oks info x \<longleftrightarrow>
     (let i = li_clock1 info; j = li_clock2 info in
      li_type info = TYPE_CDD \<and> i < n \<and> j < n \<longrightarrow>
        (marked lib oks n j i \<longrightarrow> \<not> bnd_sat x (bnd_u2l (entry d n j i))) \<and>
        (marked lib oks n i j \<longrightarrow> bnd_sat x (entry d n i j)))"

text \<open>The marked bounds are proper, do not contradict each other, and may occur at their level.\<close>

definition level_ready :: "extlib \<Rightarrow> (nat \<Rightarrow> raw_t set) \<Rightarrow> raw_t list \<Rightarrow> nat \<Rightarrow> 32 word list \<Rightarrow> LevelInfo \<Rightarrow> nat \<Rightarrow> bool" where
  "level_ready lib B d n oks info k \<longleftrightarrow>
     (let i = li_clock1 info; j = li_clock2 info; lo = bnd_u2l (entry d n j i); up = entry d n i j in
      li_type info = TYPE_CDD \<and> i < n \<and> j < n \<longrightarrow>
        (marked lib oks n j i \<longrightarrow> lo \<in> B k \<and> - bnd_INF < lo \<and> lo < bnd_INF) \<and>
        (marked lib oks n i j \<longrightarrow> up \<in> B k \<and> - bnd_INF < up \<and> up < bnd_INF) \<and>
        (marked lib oks n j i \<and> marked lib oks n i j \<longrightarrow> lo < up))"

lemma level_holds_sat:
  assumes "level_ready lib B d n oks info k"
  shows "\<exists>x. level_holds lib d n oks info x"
proof -
  let ?i = "li_clock1 info" and ?j = "li_clock2 info"
  let ?lo = "if marked lib oks n ?j ?i then bnd_u2l (entry d n ?j ?i) else - bnd_INF"
  let ?up = "if marked lib oks n ?i ?j then entry d n ?i ?j else bnd_INF"
  show ?thesis
  proof (cases "li_type info = TYPE_CDD \<and> ?i < n \<and> ?j < n")
    case True
    have "- bnd_INF \<le> ?lo" "?lo < ?up" "?up \<le> bnd_INF"
      using assms True by (auto simp: level_ready_def Let_def bnd_INF_def)
    then have "\<exists>x. bnd_sat x ?up \<and> \<not> bnd_sat x ?lo" by (intro bnd_sep)
    then show ?thesis by (auto simp: level_holds_def Let_def split: if_splits)
  qed (auto simp: level_holds_def Let_def)
qed

section \<open>One level\<close>

lemma client_term: "client X B s \<Longrightarrow> client (with_toks X [cddtrue]) B s"
proof -
  assume "client X B s"
  then obtain F where c: "core s X F {} B" "caches_ok s B" by (auto simp: client_def)
  have "cddfalse \<notin> tabled s" using term_not_tabled [OF c(1)] .
  then have "refs_ok s (with_toks X [cddtrue]) F {}"
    using c(1) by (auto simp: core_def refs_ok_def with_toks_def)
  then have "core s (with_toks X [cddtrue]) F {} B" using c(1) by (simp add: core_def)
  then show ?thesis using c(2) by (auto simp: client_def)
qed

text \<open>A new node takes over the reference to the diagram below it.\<close>

lemma hand_over:
  assumes c: "client (with_toks X [c]) B s" and y: "yields (with_toks X [c]) B s \<phi> k p t"
  shows "wp (thenM (cdd_ref p) (thenM (cdd_deref c) (ret p))) (\<lambda>p u. keeps_one X B s \<phi> k p u) t"
proof -
  obtain F where cs: "core s (with_toks X [c]) F {} B" using c by (auto simp: client_def)
  have cX: "core s X F {} B" by (rule core_antitone [OF cs]) (simp_all add: with_toks_def)
  show ?thesis
    unfolding wp_then wp_ret
  proof (rule wp_mono [OF ref_yields [OF c y]])
    fix x u assume u: "keeps_one (with_toks X [c]) B s \<phi> k p u"
    have perm: "with_toks X [p, c] = with_toks X [c, p]" by (rule with_toks_perm) simp
    from u obtain G where G: "core u (with_toks X (c # [p])) G {} B" "caches_ok u B"
      by (auto simp: keeps_one_def client_def perm)
    have ku: "kframes X s u" using u kframes_trans [OF cX kframes_refl [of X s], of "with_toks X [c]" u]
      by (simp add: keeps_one_def with_toks_def)
    show "wp (cdd_deref c) (\<lambda>_ v. keeps_one X B s \<phi> k p v) u"
    proof (rule wp_mono [OF cdd_deref_spec [OF G(1)]], elim conjE)
      fix x v assume v: "core v (with_toks X [p]) (insert (cdd_rglr c) G) {} B" "sim u v"
      have "client (with_toks X [p]) B v" using v(1) sim_caches [OF v(2) G(2)] by (auto simp: client_def)
      moreover have "kframes X s v"
        by (rule kframes_trans [OF cX ku frames_kframes [OF sim_frames [OF v(2)]]]) simp_all
      ultimately show "keeps_one X B s \<phi> k p v"
        using u sim_fields(1) [OF v(2)] by (simp add: keeps_one_def)
    qed
  qed
qed

lemma yields_neg_cond:
  assumes "yields X B s \<phi> k p t"
  shows "yields X B s (\<lambda>a. \<phi> a \<noteq> (cdd_mask c \<noteq> 0)) k (cdd_neg_cond p (cdd_mask c)) t"
  using mask_cases [of c] assms yields_neg [OF assms] by (auto simp: cdd_neg_cond_def cdd_neg_def)

lemma index_bound: "i < n \<Longrightarrow> j < n \<Longrightarrow> i * n + j < n * (n::nat)"
  by (metis add_less_le_mono mult.commute mult_Suc_right mult_le_mono2 Suc_leI add.commute less_le_trans nat_add_left_cancel_less)

definition zone_elems :: "bool \<Rightarrow> bool \<Rightarrow> raw_t \<Rightarrow> raw_t \<Rightarrow> ptr \<Rightarrow> elem list" where
  "zone_elems lo hi l u c =
     (if lo then \<lparr>e_child = cddfalse, e_bnd = l\<rparr> # (if hi then [\<lparr>e_child = c, e_bnd = u\<rparr>, \<lparr>e_child = cddfalse, e_bnd = bnd_INF\<rparr>]
        else [\<lparr>e_child = c, e_bnd = bnd_INF\<rparr>])
      else [\<lparr>e_child = cdd_rglr c, e_bnd = u\<rparr>, \<lparr>e_child = cdd_neg_cond cddfalse (cdd_mask c), e_bnd = bnd_INF\<rparr>])"

lemma make_zone_level:
  assumes c: "client Y B s" "reach Y s c" "c \<noteq> cddfalse" "k < lv (cont s) c"
    and l: "k < cdd_levelcnt s" "li_type (cdd_levelinfo s ! k) = TYPE_CDD" and m: "lo \<or> hi"
    and b: "lo \<longrightarrow> l \<in> B k \<and> l < bnd_INF" "hi \<longrightarrow> u \<in> B k \<and> u < bnd_INF" "lo \<and> hi \<longrightarrow> l < u"
  shows "wp (cdd_make_cdd_node k (zone_elems lo hi l u c)) (\<lambda>p. yields Y B s
     (\<lambda>a. eval (cont s) a c \<and> (lo \<longrightarrow> \<not> bnd_sat (fst a k) l) \<and> (hi \<longrightarrow> bnd_sat (fst a k) u)) k
     (if lo then p else cdd_neg_cond p (cdd_mask c))) s"
proof -
  obtain F where cs: "core s Y F {} B" "caches_ok s B" using c by (auto simp: client_def)
  let ?es = "zone_elems lo hi l u c"
  have tf: "cddfalse XOR 1 = cddtrue" by (simp add: cddtrue_def cdd_neg_def)
  have us: "usable s B F (e_child e) \<and> k < lv (cont s) (e_child e)" if "e \<in> set ?es" for e
    using that reach_usable [OF cs(1) c(2), of F] reach_usable [OF cs(1), of "cdd_rglr c" F] c(2,4) lv_tests [OF cs(1) l(1)]
      usable_term [of _ s B F] mask_cases [of c]
    by (auto simp: zone_elems_def cdd_neg_cond_def tf split: if_splits)
  have neq: "cdd_rglr c \<noteq> cdd_neg_cond cddfalse (cdd_mask c)"
  proof
    assume e: "cdd_rglr c = cdd_neg_cond cddfalse (cdd_mask c)"
    then have "cdd_mask (cdd_neg_cond cddfalse (cdd_mask c)) = 0" by (metis mask_rglr)
    then have "cdd_mask c = 0" using mask_cases [of c] by (auto simp: cdd_neg_cond_def cdd_mask_def cddfalse_def)
    moreover from this have "cdd_rglr c = c" by (simp add: regular_iff)
    ultimately show False using e c(3) by (simp add: cdd_neg_cond_def)
  qed
  have es: "?es \<noteq> []" "sorted_wrt (<) (map e_bnd ?es)" "e_bnd (last ?es) = bnd_INF" "e_bnd ` set ?es \<subseteq> B k"
    "cdd_mask (e_child (hd ?es)) = 0" "distinct_adj (map e_child ?es)"
    using m b c(3) neq bound_INF [OF c(1)] by (auto simp: zone_elems_def)
  have ev: "(if lo then eval (cont s) a (pick x ?es) else eval (cont s) a (pick x ?es) \<noteq> (cdd_mask c \<noteq> 0)) =
      (eval (cont s) a c \<and> (lo \<longrightarrow> \<not> bnd_sat x l) \<and> (hi \<longrightarrow> bnd_sat x u))" for a x
    using m eval_tf [OF cs(1), of a] eval_split [of "cont s" a c] eval_neg_cond [of "cont s" a cddfalse c]
    by (auto simp: zone_elems_def)
  show ?thesis
  proof (rule wp_mono [OF cdd_make_cdd_node_spec [OF cs l es us]])
    fix p t assume "made_cdd Y B s k ?es p t"
    then have y: "yields Y B s (\<lambda>a. eval (cont s) a (pick (fst a k) ?es)) k p t"
      by (auto simp: made_cdd_def yields_def dest: frames_kframes)
    show "yields Y B s (\<lambda>a. eval (cont s) a c \<and> (lo \<longrightarrow> \<not> bnd_sat (fst a k) l) \<and> (hi \<longrightarrow> bnd_sat (fst a k) u)) k
       (if lo then p else cdd_neg_cond p (cdd_mask c)) t"
    proof (cases lo)
      case True
      then show ?thesis using yields_cong [OF y] ev by simp
    next
      case False
      then show ?thesis using yields_cong [OF yields_neg_cond [OF y]] ev by simp
    qed
  qed
qed

lemma from_dbm_level_spec:
  assumes c: "client (with_toks X [c]) B s" "c \<noteq> cddfalse" "k < lv (cont s) c" and k: "k < cdd_levelcnt s" and d: "length d = n * n"
    and r: "level_ready (env_lib (env s)) B d n oks (cdd_levelinfo s ! k) k"
  shows "wp (from_dbm_level d n oks k c) (keeps_one X B s
     (\<lambda>a. eval (cont s) a c \<and> level_holds (env_lib (env s)) d n oks (cdd_levelinfo s ! k) (fst a k)) k) s"
proof -
  let ?lib = "env_lib (env s)" and ?info = "cdd_levelinfo s ! k"
  let ?i = "li_clock1 ?info" and ?j = "li_clock2 ?info"
  let ?lo = "marked ?lib oks n ?j ?i" and ?hi = "marked ?lib oks n ?i ?j"
  let ?l = "bnd_u2l (entry d n ?j ?i)" and ?u = "entry d n ?i ?j"
  let ?\<phi> = "\<lambda>a. eval (cont s) a c \<and> level_holds ?lib d n oks ?info (fst a k)"
  obtain F where cs: "core s (with_toks X [c]) F {} B" using c by (auto simp: client_def)
  have info: "levelinfo_at k s = Inr (?info, s)" using k core_levels(1) [OF cs] by (simp add: levelinfo_at_def)
  show ?thesis
  proof (cases "li_type ?info = TYPE_CDD \<and> ?i < n \<and> ?j < n \<and> (?lo \<or> ?hi)")
    case False
    then have "from_dbm_level d n oks k c s = Inr (c, s)"
      by (auto simp: from_dbm_level_def get_lib_def bindM_def gets_def info Let_def ret_def marked_def not_less)
    moreover have "keeps_one X B s ?\<phi> k c s"
      using False c(1,3) by (auto simp: keeps_one_def level_holds_def Let_def)
    ultimately show ?thesis by (simp add: wp_def)
  next
    case True
    then have ij: "?i < n" "?j < n" and ty: "li_type ?info = TYPE_CDD" and m: "?lo \<or> ?hi" by auto
    have idx: "?i * n + ?j < length d" "?j * n + ?i < length d" using index_bound ij d by auto
    have es: "from_dbm_elems d n ?i ?j ?lo ?hi c s = Inr (zone_elems ?lo ?hi ?l ?u c, s)"
      using idx m by (auto simp: from_dbm_elems_def nthM_def bindM_def ret_def entry_def zone_elems_def)
    have run: "from_dbm_level d n oks k c s = bindM (cdd_make_cdd_node k (zone_elems ?lo ?hi ?l ?u c)) (\<lambda>p.
        let c' = (if ?lo then p else cdd_neg_cond p (cdd_mask c)) in
        thenM (cdd_ref c') (thenM (cdd_deref c) (ret c'))) s"
      using m ij ty es by (auto simp: from_dbm_level_def get_lib_def bindM_def [of "gets _"] bindM_def [of "levelinfo_at _"] gets_def
          info Let_def bindM_def [of "from_dbm_elems _ _ _ _ _ _ _"] simp flip: marked_def)
    have make: "wp (cdd_make_cdd_node k (zone_elems ?lo ?hi ?l ?u c)) (\<lambda>p. yields (with_toks X [c]) B s ?\<phi> k
        (if ?lo then p else cdd_neg_cond p (cdd_mask c))) s"
    proof (rule wp_mono [OF make_zone_level [OF c(1) _ c(2,3) k ty m]])
      show "reach (with_toks X [c]) s c" by (rule reach_tok) simp
      show "?lo \<longrightarrow> ?l \<in> B k \<and> ?l < bnd_INF" "?hi \<longrightarrow> ?u \<in> B k \<and> ?u < bnd_INF" "?lo \<and> ?hi \<longrightarrow> ?l < ?u"
        using r ij ty by (auto simp: level_ready_def Let_def)
    qed (erule yields_cong, use ty ij in \<open>auto simp: level_holds_def Let_def\<close>)
    have "wp (bindM (cdd_make_cdd_node k (zone_elems ?lo ?hi ?l ?u c)) (\<lambda>p.
        let c' = (if ?lo then p else cdd_neg_cond p (cdd_mask c)) in
        thenM (cdd_ref c') (thenM (cdd_deref c) (ret c')))) (keeps_one X B s ?\<phi> k) s"
      unfolding wp_bind Let_def by (rule wp_mono [OF make]) (rule hand_over [OF c(1)])
    then show ?thesis by (simp add: wp_def run)
  qed
qed

section \<open>All levels\<close>

lemma from_dbm_loop_spec:
  assumes d: "length d = n * n"
  shows "client (with_toks X [c]) B s \<Longrightarrow> k \<le> cdd_levelcnt s \<Longrightarrow> k \<le> lv (cont s) c \<Longrightarrow>
    (\<And>i. i < k \<Longrightarrow> level_ready (env_lib (env s)) B d n oks (cdd_levelinfo s ! i) i) \<Longrightarrow> eval (cont s) wit c \<Longrightarrow>
    wp (from_dbm_loop d n oks k c) (keeps_one X B s
     (\<lambda>a. eval (cont s) a c \<and> (\<forall>i < k. level_holds (env_lib (env s)) d n oks (cdd_levelinfo s ! i) (fst a i))) 0) s"
proof (induction k arbitrary: c s wit)
  case 0
  then show ?case by (simp add: wp_ret keeps_one_def)
next
  case (Suc k)
  let ?holds = "\<lambda>i x. level_holds (env_lib (env s)) d n oks (cdd_levelinfo s ! i) x"
  obtain F where cs: "core s (with_toks X [c]) F {} B" using Suc.prems(1) by (auto simp: client_def)
  have cX: "core s X F {} B" by (rule core_antitone [OF cs]) (simp_all add: with_toks_def)
  have nf: "c \<noteq> cddfalse" using Suc.prems(5) eval_tf [OF cs, of wit] by auto
  have step: "wp (from_dbm_level d n oks k c) (keeps_one X B s (\<lambda>a. eval (cont s) a c \<and> ?holds k (fst a k)) k) s"
    by (rule from_dbm_level_spec [OF Suc.prems(1) nf _ _ d]) (use Suc.prems in auto)
  show ?case
    unfolding from_dbm_loop.simps wp_bind
  proof (rule wp_mono [OF step])
    fix p t assume t: "keeps_one X B s (\<lambda>a. eval (cont s) a c \<and> ?holds k (fst a k)) k p t"
    have env: "env t = env s" "cdd_levelinfo t = cdd_levelinfo s" "cdd_levelcnt t = cdd_levelcnt s"
      using t kframes_env [of X s t] by (auto simp: keeps_one_def)
    obtain x where x: "?holds k x" using level_holds_sat Suc.prems(4) [of k] by blast
    have "eval (cont s) (set_diff k x wit) c" using Suc.prems(3,5) by simp
    then have et: "eval (cont t) (set_diff k x wit) p" using t x by (simp add: keeps_one_def set_diff_def)
    have "wp (from_dbm_loop d n oks k p) (keeps_one X B t
       (\<lambda>a. eval (cont t) a p \<and> (\<forall>i < k. ?holds i (fst a i))) 0) t"
      by (rule Suc.IH [of p t "set_diff k x wit", unfolded env(1,2)]) (use et t Suc.prems(2,4) env in \<open>simp_all add: keeps_one_def\<close>)
    then show "wp (from_dbm_loop d n oks k p) (keeps_one X B s (\<lambda>a. eval (cont s) a c \<and> (\<forall>i < Suc k. ?holds i (fst a i))) 0) t"
    proof (rule wp_mono)
      fix q u assume u: "keeps_one X B t (\<lambda>a. eval (cont t) a p \<and> (\<forall>i < k. ?holds i (fst a i))) 0 q u"
      have "kframes X s u" using kframes_trans [OF cX, of X t X u] t u by (simp add: keeps_one_def)
      then show "keeps_one X B s (\<lambda>a. eval (cont s) a c \<and> (\<forall>i < Suc k. ?holds i (fst a i))) 0 q u"
        using t u by (auto simp: keeps_one_def less_Suc_eq)
    qed
  qed
qed

definition dbm_ready :: "(nat \<Rightarrow> raw_t set) \<Rightarrow> kstate \<Rightarrow> raw_t list \<Rightarrow> nat \<Rightarrow> bool" where
  "dbm_ready B s d n \<longleftrightarrow> length d = n * n \<and> (let lib = env_lib (env s) in
     \<forall>k < cdd_levelcnt s. level_ready lib B d n (dbm_analyzeForMinDBM lib d n) (cdd_levelinfo s ! k) k)"

definition all_levels_hold :: "kstate \<Rightarrow> raw_t list \<Rightarrow> nat \<Rightarrow> asg \<Rightarrow> bool" where
  "all_levels_hold s d n a \<longleftrightarrow> (let lib = env_lib (env s) in
     \<forall>k < cdd_levelcnt s. level_holds lib d n (dbm_analyzeForMinDBM lib d n) (cdd_levelinfo s ! k) (fst a k))"

lemma cdd_from_dbm_yields:
  assumes c: "client X B s" and d: "dbm_ready B s d n"
  shows "wp (cdd_from_dbm d n) (yields X B s (all_levels_hold s d n) 0) s"
proof -
  let ?lib = "env_lib (env s)"
  let ?oks = "dbm_analyzeForMinDBM ?lib d n"
  obtain F where cs: "core s X F {} B" using c by (auto simp: client_def)
  have ct: "client (with_toks X [cddtrue]) B s" using client_term [OF c] .
  have tt: "eval (cont s) a cddtrue" for a using eval_tf [OF cs, of a] by simp
  have loop: "wp (from_dbm_loop d n ?oks (cdd_levelcnt s) cddtrue) (keeps_one X B s
     (\<lambda>a. eval (cont s) a cddtrue \<and> (\<forall>i < cdd_levelcnt s. level_holds ?lib d n ?oks (cdd_levelinfo s ! i) (fst a i))) 0) s"
    by (rule from_dbm_loop_spec [OF _ ct, where wit = undefined])
      (use d core_levels [OF cs] tt lv_term [OF cs, of cddtrue] in \<open>simp_all add: dbm_ready_def Let_def\<close>)
  show ?thesis
    unfolding cdd_from_dbm_def get_lib_def wp_bind wp_gets wp_then wp_ret
  proof (rule wp_mono [OF loop])
    fix p t assume t: "keeps_one X B s
     (\<lambda>a. eval (cont s) a cddtrue \<and> (\<forall>i < cdd_levelcnt s. level_holds ?lib d n ?oks (cdd_levelinfo s ! i) (fst a i))) 0 p t"
    then obtain G where G: "core t (with_toks X [p]) G {} B" "caches_ok t B" by (auto simp: keeps_one_def client_def)
    have rp: "reach (with_toks X [p]) t p" by (rule reach_tok) simp
    show "wp (cdd_deref p) (\<lambda>_. yields X B s (all_levels_hold s d n) 0 p) t"
    proof (rule wp_mono [OF cdd_deref_spec [OF G(1)]], elim conjE)
      fix x u assume u: "core u (with_toks X []) (insert (cdd_rglr p) G) {} B" "sim t u"
      note f = sim_fields [OF u(2)]
      have "core u X {cdd_rglr p} {} B" using core_antitone [OF u(1), of "{cdd_rglr p}" X] by simp
      moreover have "kframes X s u"
        by (rule kframes_trans [OF cs _ frames_kframes [OF sim_frames [OF u(2)]]]) (use t in \<open>simp_all add: keeps_one_def\<close>)
      moreover have "sound (cont u) (tabled u) (cdd_levelinfo u) B p"
        using reach_sound [OF G(1) rp] sim_tabled [OF u(2)] sim_same_env [OF u(2)] by (simp add: f same_env_def)
      ultimately show "yields X B s (all_levels_hold s d n) 0 p u"
        using t tt sim_caches [OF u(2) G(2)] by (simp add: yields_def keeps_one_def f all_levels_hold_def Let_def)
    qed
  qed
qed

section \<open>The zone of a DBM\<close>

text \<open>The clock values that a DBM admits, by all its bounds or by the marked ones.\<close>

definition in_zone :: "raw_t list \<Rightarrow> nat \<Rightarrow> (nat \<Rightarrow> real) \<Rightarrow> bool" where
  "in_zone d n v \<longleftrightarrow> (\<forall>i < n. \<forall>j < n. bnd_sat (v i - v j) (entry d n i j))"

definition in_marked :: "extlib \<Rightarrow> raw_t list \<Rightarrow> nat \<Rightarrow> (nat \<Rightarrow> real) \<Rightarrow> bool" where
  "in_marked lib d n v \<longleftrightarrow> (\<forall>i < n. \<forall>j < n. marked lib (dbm_analyzeForMinDBM lib d n) n i j \<longrightarrow> bnd_sat (v i - v j) (entry d n i j))"

text \<open>What UDBM documents: the constraints marked, none of them on the diagonal, describe the same zone.\<close>

definition min_dbm_lib :: "extlib \<Rightarrow> raw_t list \<Rightarrow> nat \<Rightarrow> bool" where
  "min_dbm_lib lib d n \<longleftrightarrow> (\<forall>v. in_marked lib d n v = in_zone d n v) \<and>
     (\<forall>i < n. \<not> marked lib (dbm_analyzeForMinDBM lib d n) n i i)"

text \<open>Every difference of the first \<open>n\<close> clocks has a level, with the larger clock first.\<close>

lemma levels_zone:
  assumes c: "client X B s" and k: "clocks_ok s" "n \<le> cdd_clocknum s"
    and r: "dbm_ready B s d n" and m: "\<forall>i < n. \<not> marked (env_lib (env s)) (dbm_analyzeForMinDBM (env_lib (env s)) d n) n i i"
    and fl: "\<forall>i < n. \<forall>j < n. flippable (entry d n i j) \<and> entry d n i j \<noteq> - bnd_INF"
    and a: "clock_asg (cdd_levelinfo s) v a"
  shows "all_levels_hold s d n a = in_marked (env_lib (env s)) d n v"
proof -
  let ?lib = "env_lib (env s)"
  let ?mk = "marked ?lib (dbm_analyzeForMinDBM ?lib d n) n"
  obtain F where cs: "core s X F {} B" using c by (auto simp: client_def)
  have len: "length (cdd_levelinfo s) = cdd_levelcnt s" using core_levels(1) [OF cs] .
  have flip: "\<not> bnd_sat (- x) (bnd_u2l (entry d n i j)) \<longleftrightarrow> bnd_sat x (entry d n i j)" if "i < n" "j < n" for x i j
    using flip_upper [of "entry d n i j" x] fl that by auto
  have at: "fst a k = v (li_clock1 (cdd_levelinfo s ! k)) - v (li_clock2 (cdd_levelinfo s ! k))"
    if "k < cdd_levelcnt s" "li_type (cdd_levelinfo s ! k) = TYPE_CDD" for k
    using a that len by (simp add: clock_asg_def)
  have level: "level_holds ?lib d n (dbm_analyzeForMinDBM ?lib d n) (cdd_levelinfo s ! k) (fst a k) \<longleftrightarrow>
      (let i = li_clock1 (cdd_levelinfo s ! k); j = li_clock2 (cdd_levelinfo s ! k) in
       li_type (cdd_levelinfo s ! k) = TYPE_CDD \<and> i < n \<and> j < n \<longrightarrow>
         (?mk j i \<longrightarrow> bnd_sat (v j - v i) (entry d n j i)) \<and> (?mk i j \<longrightarrow> bnd_sat (v i - v j) (entry d n i j)))"
    if "k < cdd_levelcnt s" for k
    using at [OF that] flip [of "li_clock2 (cdd_levelinfo s ! k)" "li_clock1 (cdd_levelinfo s ! k)"
        "v (li_clock2 (cdd_levelinfo s ! k)) - v (li_clock1 (cdd_levelinfo s ! k))"]
    by (auto simp: level_holds_def Let_def)
  show ?thesis
  proof
    assume L: "all_levels_hold s d n a"
    have one: "(?mk j i \<longrightarrow> bnd_sat (v j - v i) (entry d n j i)) \<and> (?mk i j \<longrightarrow> bnd_sat (v i - v j) (entry d n i j))"
      if ij: "j < i" "i < n" for i j
    proof -
      obtain k where "level_at s i j k" using k ij unfolding clocks_ok_def by (meson less_le_trans)
      then show ?thesis using L level ij by (auto simp: all_levels_hold_def Let_def level_at_def)
    qed
    show "in_marked ?lib d n v"
      unfolding in_marked_def
    proof (intro allI impI)
      fix i j assume ij: "i < n" "j < n" "?mk i j"
      then show "bnd_sat (v i - v j) (entry d n i j)"
        using one [of i j] one [of j i] m by (cases i j rule: linorder_cases) auto
    qed
  next
    assume M: "in_marked ?lib d n v"
    show "all_levels_hold s d n a"
      unfolding all_levels_hold_def Let_def
    proof (intro allI impI)
      fix k assume "k < cdd_levelcnt s"
      from level [OF this] M show "level_holds ?lib d n (dbm_analyzeForMinDBM ?lib d n) (cdd_levelinfo s ! k) (fst a k)"
        by (simp add: in_marked_def Let_def)
    qed
  qed
qed

theorem cdd_from_dbm_meaning:
  assumes c: "client X B s" and k: "clocks_ok s" "n \<le> cdd_clocknum s" and r: "dbm_ready B s d n"
    and m: "min_dbm_lib (env_lib (env s)) d n"
    and fl: "\<forall>i < n. \<forall>j < n. flippable (entry d n i j) \<and> entry d n i j \<noteq> - bnd_INF"
  shows "wp (cdd_from_dbm d n) (yields_clocks X B s (in_zone d n)) s"
proof (rule wp_mono [OF cdd_from_dbm_yields [OF c r]])
  fix p t assume y: "yields X B s (all_levels_hold s d n) 0 p t"
  have mm: "\<forall>i < n. \<not> marked (env_lib (env s)) (dbm_analyzeForMinDBM (env_lib (env s)) d n) n i i"
    "in_marked (env_lib (env s)) d n v = in_zone d n v" for v
    using m by (simp_all add: min_dbm_lib_def)
  show "yields_clocks X B s (in_zone d n) p t"
    by (rule yields_to_clocks [OF y]) (use levels_zone [OF c k r mm(1) fl] mm(2) in simp)
qed

end
