(* ===== verification/Constraint_Graph.thy ===== *)
theory Constraint_Graph
  imports External
begin

text \<open>
  Consistency of difference constraints (\<^verbatim>\<open>src/bellmanford.c\<close>, \<^verbatim>\<open>src/tarjan.c\<close>): graphs whose
  vertices are clocks and whose edges are upper bounds on differences, with a distance
  vector that is kept from one run to the next.  The functions work on the graph they are
  given; the functions of UDBM and UUtils are those of \<open>lib\<close>.  Distances are unbounded
  integers; C's \<open>int32_t\<close> overflows only for paths of more than \<open>2 ^ 31\<close> total weight.
\<close>

section \<open>Distances and arrays\<close>

record distance =
  d_value :: int
  d_strictness :: int

definition dist_add :: "extlib \<Rightarrow> distance \<Rightarrow> raw_t \<Rightarrow> distance" where
  "dist_add lib i e =
     \<lparr>d_value = d_value i + dbm_raw2bound lib e,
      d_strictness = d_strictness i + dbm_rawIsStrict lib e\<rparr>"

definition dist_less :: "distance \<Rightarrow> distance \<Rightarrow> bool" where
  "dist_less i j \<longleftrightarrow>
     d_value i < d_value j \<or> d_value i = d_value j \<and> d_strictness i > d_strictness j"

definition dist_zero :: distance where
  "dist_zero = \<lparr>d_value = 0, d_strictness = 0\<rparr>"

text \<open>Reading and writing position \<open>i\<close> of an array of the graph; outside it both are faults.\<close>

definition rd :: "('s \<Rightarrow> 'a list) \<Rightarrow> nat \<Rightarrow> ('s, 'a) M" where
  "rd f i s = (if i < length (f s) then Inr (f s ! i, s) else Inl Segv)"

definition wr :: "(('a list \<Rightarrow> 'a list) \<Rightarrow> 's \<Rightarrow> 's) \<Rightarrow> ('s \<Rightarrow> 'a list) \<Rightarrow> nat \<Rightarrow> 'a \<Rightarrow> ('s, unit) M" where
  "wr upd f i x s = (if i < length (f s) then Inr ((), upd (\<lambda>xs. xs[i := x]) s) else Inl Segv)"

section \<open>Bellman and Ford's algorithm\<close>

record bellmanford =
  bf_dim :: nat
  bf_count :: nat
  bf_dist :: "distance list"
  bf_edges :: "constraint_t list"

type_synonym 'a B = "(bellmanford, 'a) M"

definition cdd_bf_init :: "nat \<Rightarrow> distance list \<Rightarrow> constraint_t list \<Rightarrow> unit B" where
  "cdd_bf_init dm ds edges =
     thenM (guardM AssertFail (0 < dm)) (
     thenM (guardM Segv (dm \<le> length ds))
     (modifyM (\<lambda>_. \<lparr>bf_dim = dm, bf_count = 0, bf_dist = replicate dm dist_zero @ drop dm ds,
                    bf_edges = edges\<rparr>)))"

fun bf_unique :: "nat \<Rightarrow> nat \<Rightarrow> nat list \<Rightarrow> bool B" where
  "bf_unique i j [] = ret True"
| "bf_unique i j (idx # idxs) =
     bindM (rd bf_edges idx) (\<lambda>c. if con_i c = i \<and> con_j c = j then ret False else bf_unique i j idxs)"

definition cdd_bf_push :: "extlib \<Rightarrow> nat \<Rightarrow> nat \<Rightarrow> raw_t \<Rightarrow> unit B" where
  "cdd_bf_push lib i j c =
     thenM (guardM AssertFail (c < dbm_LS_INFINITY lib)) (
     bindM (gets bf_count) (\<lambda>count.
     bindM (bf_unique i j [0..<count]) (\<lambda>u. thenM (guardM AssertFail u) (
     thenM (guardM AssertFail (i \<noteq> j)) (
     thenM (modifyM (\<lambda>g. g\<lparr>bf_count := count + 1\<rparr>))
     (wr bf_edges_update bf_edges count \<lparr>con_i = i, con_j = j, con_value = c\<rparr>))))))"

definition cdd_bf_pop :: "unit B" where
  "cdd_bf_pop =
     bindM (gets bf_count) (\<lambda>count.
     thenM (guardM AssertFail (0 < count)) (modifyM (\<lambda>g. g\<lparr>bf_count := count - 1\<rparr>)))"

text \<open>The sum along an edge, if it improves the distance of the edge's target.\<close>

definition bf_improves :: "extlib \<Rightarrow> nat \<Rightarrow> distance option B" where
  "bf_improves lib e =
     bindM (rd bf_edges e) (\<lambda>c.
     bindM (rd bf_dist (con_i c)) (\<lambda>di. bindM (rd bf_dist (con_j c)) (\<lambda>dj.
     let sm = dist_add lib di (con_value c) in
     ret (if dist_less sm dj then Some sm else None))))"

definition bf_relax :: "extlib \<Rightarrow> nat \<Rightarrow> bool B" where
  "bf_relax lib e =
     bindM (bf_improves lib e) (\<lambda>r. case r of
       None \<Rightarrow> ret False
     | Some sm \<Rightarrow> bindM (rd bf_edges e) (\<lambda>c.
         thenM (wr bf_dist_update bf_dist (con_j c) sm) (ret True)))"

fun bf_round :: "extlib \<Rightarrow> nat list \<Rightarrow> bool B" where
  "bf_round lib [] = ret False"
| "bf_round lib (e # es) =
     bindM (bf_relax lib e) (\<lambda>a. bindM (bf_round lib es) (\<lambda>b. ret (a \<or> b)))"

fun bf_any :: "extlib \<Rightarrow> nat list \<Rightarrow> bool B" where
  "bf_any lib [] = ret False"
| "bf_any lib (e # es) =
     bindM (bf_improves lib e) (\<lambda>r. if r \<noteq> None then ret True else bf_any lib es)"

text \<open>The loop \<^verbatim>\<open>do ... while (--v && found)\<close>, with \<open>v\<close> one less than in C: the first round is always run.\<close>

fun bf_rounds :: "extlib \<Rightarrow> nat \<Rightarrow> nat \<Rightarrow> bool B" where
  "bf_rounds lib count 0 = bf_round lib [0..<count]"
| "bf_rounds lib count (Suc v) =
     bindM (bf_round lib [0..<count]) (\<lambda>found. if found then bf_rounds lib count v else ret False)"

definition cdd_bf_consistent :: "extlib \<Rightarrow> bool B" where
  "cdd_bf_consistent lib =
     bindM (gets bf_dim) (\<lambda>dm.
     thenM (guardM AssertFail (0 < dm)) (
     bindM (gets bf_count) (\<lambda>count.
     bindM (bf_rounds lib count (dm - 1)) (\<lambda>found.
     if found then bindM (bf_any lib [0..<count]) (\<lambda>b. ret (\<not> b)) else ret True))))"

section \<open>Linked lists in arrays\<close>

record lnode =
  l_next :: nat
  l_prev :: nat

text \<open>None: an index is outside the array.\<close>

definition insert_elt :: "lnode list \<Rightarrow> nat \<Rightarrow> nat \<Rightarrow> lnode list option" where
  "insert_elt l pos e =
     (if pos < length l \<and> e < length l \<and> l_next (l ! pos) < length l then
        let succ = l_next (l ! pos);
            l1 = l[succ := (l ! succ)\<lparr>l_prev := e\<rparr>];
            l2 = l1[e := (l1 ! e)\<lparr>l_next := succ, l_prev := pos\<rparr>]
        in Some (l2[pos := (l2 ! pos)\<lparr>l_next := e\<rparr>])
      else None)"

definition remove_elt :: "lnode list \<Rightarrow> nat \<Rightarrow> lnode list option" where
  "remove_elt l pos =
     (if pos < length l \<and> l_next (l ! pos) < length l \<and> l_prev (l ! pos) < length l then
        let next = l_next (l ! pos); prev = l_prev (l ! pos);
            l1 = l[prev := (l ! prev)\<lparr>l_next := next\<rparr>]
        in Some (l1[next := (l1 ! next)\<lparr>l_prev := prev\<rparr>])
      else None)"

section \<open>Tarjan's algorithm\<close>

record edge =
  g_v :: nat
  g_value :: raw_t

record tarjan =
  tj_dim :: nat
  tj_count :: "nat list"
  tj_dist :: "distance list"
  tj_edges :: "edge list"
  tj_fifo :: "lnode list"
  tj_queued :: "32 word list"

type_synonym 'a T = "(tarjan, 'a) M"

definition fifo_insert :: "nat \<Rightarrow> nat \<Rightarrow> unit T" where
  "fifo_insert pos e =
     bindM (gets (\<lambda>g. insert_elt (tj_fifo g) pos e)) (\<lambda>l. bindM (someM Segv l) (\<lambda>l.
     modifyM (\<lambda>g. g\<lparr>tj_fifo := l\<rparr>)))"

definition fifo_remove :: "nat \<Rightarrow> unit T" where
  "fifo_remove pos =
     bindM (gets (\<lambda>g. remove_elt (tj_fifo g) pos)) (\<lambda>l. bindM (someM Segv l) (\<lambda>l.
     modifyM (\<lambda>g. g\<lparr>tj_fifo := l\<rparr>)))"

definition is_queued :: "extlib \<Rightarrow> nat \<Rightarrow> bool T" where
  "is_queued lib i = gets (\<lambda>g. base_readOneBit lib (tj_queued g) i)"

text \<open>The edges of \<open>u\<close> are at \<open>u * dim - u\<close> and the following positions.\<close>

definition edge_range :: "nat \<Rightarrow> nat list T" where
  "edge_range u =
     bindM (gets tj_dim) (\<lambda>dm. bindM (rd tj_count u) (\<lambda>count.
     ret [u * dm - u..<u * dm - u + count]))"

fun tj_unique :: "nat \<Rightarrow> nat list \<Rightarrow> bool T" where
  "tj_unique j [] = ret True"
| "tj_unique j (e # es) =
     bindM (rd tj_edges e) (\<lambda>ed. if g_v ed = j then ret False else tj_unique j es)"

definition cdd_tarjan_init ::
  "extlib \<Rightarrow> nat \<Rightarrow> distance list \<Rightarrow> nat list \<Rightarrow> edge list \<Rightarrow> lnode list \<Rightarrow> 32 word list \<Rightarrow> unit T" where
  "cdd_tarjan_init lib dm ds count edges fifo queued =
     thenM (guardM AssertFail (0 < dm)) (
     thenM (guardM Segv (dm \<le> length ds \<and> dm \<le> length count \<and> dm < length fifo))
     (modifyM (\<lambda>_. \<lparr>tj_dim = dm, tj_count = replicate dm 0 @ drop dm count,
        tj_dist = replicate dm dist_zero @ drop dm ds, tj_edges = edges,
        tj_fifo = fifo[dm := \<lparr>l_next = dm, l_prev = dm\<rparr>],
        tj_queued = base_resetBits lib queued (bits2intsize lib dm)\<rparr>)))"

definition cdd_tarjan_push :: "extlib \<Rightarrow> nat \<Rightarrow> nat \<Rightarrow> raw_t \<Rightarrow> unit T" where
  "cdd_tarjan_push lib i j value =
     thenM (guardM AssertFail (value < dbm_LS_INFINITY lib)) (
     bindM (edge_range i) (\<lambda>es. bindM (tj_unique j es) (\<lambda>u. thenM (guardM AssertFail u) (
     thenM (guardM AssertFail (i \<noteq> j)) (
     bindM (gets tj_dim) (\<lambda>dm.
     bindM (rd tj_count i) (\<lambda>count.
     thenM (wr tj_count_update tj_count i (count + 1)) (
     thenM (wr tj_edges_update tj_edges (i * dm - i + count) \<lparr>g_v = j, g_value = value\<rparr>) (
     bindM (is_queued lib i) (\<lambda>q.
     bindM (rd tj_dist i) (\<lambda>di. bindM (rd tj_dist j) (\<lambda>dj.
     whenM (\<not> q \<and> dist_less (dist_add lib di value) dj) (
       thenM (modifyM (\<lambda>g. g\<lparr>tj_queued := base_setOneBit lib (tj_queued g) i\<rparr>)) (
       bindM (rd tj_fifo dm) (\<lambda>n. fifo_insert (l_prev n) i)))))))))))))))"

definition cdd_tarjan_pop :: "nat \<Rightarrow> unit T" where
  "cdd_tarjan_pop i =
     bindM (rd tj_count i) (\<lambda>count.
     thenM (guardM AssertFail (0 < count)) (wr tj_count_update tj_count i (count - 1)))"

text \<open>
  The spanning tree that a run of \<^verbatim>\<open>cdd_tarjan_consistent\<close> keeps in local arrays: \<open>s_preorder\<close>
  is a list of the tree nodes in preorder.  The arrays have \<open>dim + 1\<close> elements.
\<close>

record spanning =
  s_preorder :: "lnode list"
  s_depth :: "nat list"

text \<open>
  The loop of \<^verbatim>\<open>disassemble\<close>; the first component of the result tells whether \<open>node\<close> was
  found, the second is the first vertex after the subtree.  Every round sets a positive
  depth to 0.
\<close>

definition dequeue :: "extlib \<Rightarrow> nat \<Rightarrow> unit T" where
  "dequeue lib i =
     thenM (modifyM (\<lambda>g. g\<lparr>tj_queued := base_toggleOneBit lib (tj_queued g) i\<rparr>)) (fifo_remove i)"

definition cut :: "nat \<Rightarrow> nat \<Rightarrow> spanning \<Rightarrow> spanning" where
  "cut terminal current sp = sp\<lparr>
     s_preorder := (s_preorder sp)[current := \<lparr>l_next = terminal, l_prev = terminal\<rparr>],
     s_depth := (s_depth sp)[current := 0]\<rparr>"

definition height :: "nat list \<Rightarrow> nat" where
  "height ds = length (filter (\<lambda>d. 0 < d) ds)"

lemma height_update: "i < length ds \<Longrightarrow> 0 < ds ! i \<Longrightarrow> height (ds[i := 0]) < height ds"
proof (induction ds arbitrary: i)
  case (Cons d ds)
  then show ?case by (cases i) (auto simp: height_def)
qed simp

function dis_loop :: "extlib \<Rightarrow> nat \<Rightarrow> nat \<Rightarrow> nat \<Rightarrow> nat \<Rightarrow> spanning \<Rightarrow> tarjan \<Rightarrow>
    fault + ((bool \<times> nat \<times> spanning) \<times> tarjan)" where
  "dis_loop lib root_depth node terminal current sp g =
     (if \<not> (current < length (s_depth sp) \<and> current < length (s_preorder sp)) then Inl Segv
      else if s_depth sp ! current \<le> root_depth then Inr ((False, current, sp), g)
      else if current = node then Inr ((True, current, sp), g)
      else case bindM (is_queued lib current) (\<lambda>q. whenM q (dequeue lib current)) g of
          Inl f \<Rightarrow> Inl f
        | Inr (_, h) \<Rightarrow> dis_loop lib root_depth node terminal (l_next (s_preorder sp ! current))
                          (cut terminal current sp) h)"
  by pat_completeness auto

termination
  by (relation "measure (\<lambda>(lib, r, n, t, c, sp, g). height (s_depth sp))")
    (auto simp: cut_def intro!: height_update)

declare dis_loop.simps [simp del]

definition disassemble :: "extlib \<Rightarrow> nat \<Rightarrow> nat \<Rightarrow> nat \<Rightarrow> spanning \<Rightarrow> (bool \<times> spanning) T" where
  "disassemble lib rt node terminal sp =
     thenM (guardM AssertFail (rt \<noteq> node)) (
     thenM (guardM Segv (rt < length (s_depth sp) \<and> rt < length (s_preorder sp))) (
     bindM (dis_loop lib (s_depth sp ! rt) node terminal (l_next (s_preorder sp ! rt)) sp)
       (\<lambda>(found, current, sp).
     if found then ret (True, sp)
     else thenM (guardM Segv (current < length (s_preorder sp))) (
       let p1 = (s_preorder sp)[rt := (s_preorder sp ! rt)\<lparr>l_next := current\<rparr>]
       in ret (False, sp\<lparr>s_preorder := p1[current := (p1 ! current)\<lparr>l_prev := rt\<rparr>]\<rparr>)))))"

definition link_child :: "nat \<Rightarrow> nat \<Rightarrow> spanning \<Rightarrow> spanning T" where
  "link_child parent child sp =
     bindM (someM Segv (if child < length (s_preorder sp) \<and> child < length (s_depth sp)
         \<and> parent < length (s_depth sp) \<and> l_next (s_preorder sp ! child) < length (s_depth sp)
       then Some (l_next (s_preorder sp ! child)) else None)) (\<lambda>next.
     thenM (guardM AssertFail (s_depth sp ! next \<le> s_depth sp ! child)) (
     bindM (someM Segv (remove_elt (s_preorder sp) child)) (\<lambda>p1.
     bindM (someM Segv (insert_elt p1 parent child)) (\<lambda>p2.
     ret (sp\<lparr>s_depth := (s_depth sp)[child := s_depth sp ! parent + 1], s_preorder := p2\<rparr>)))))"

definition tj_improves :: "extlib \<Rightarrow> nat \<Rightarrow> nat \<Rightarrow> (nat \<times> distance) option T" where
  "tj_improves lib u e =
     bindM (rd tj_edges e) (\<lambda>ed.
     bindM (rd tj_dist u) (\<lambda>du. bindM (rd tj_dist (g_v ed)) (\<lambda>dv.
     let sm = dist_add lib du (g_value ed) in
     ret (if dist_less sm dv then Some (g_v ed, sm) else None))))"

fun populate_vertex :: "extlib \<Rightarrow> nat \<Rightarrow> nat list \<Rightarrow> unit T" where
  "populate_vertex lib u [] = ret ()"
| "populate_vertex lib u (e # es) =
     bindM (tj_improves lib u e) (\<lambda>r.
     if r \<noteq> None then
       bindM (gets tj_dim) (\<lambda>dm. bindM (rd tj_fifo dm) (\<lambda>n.
       thenM (fifo_insert (l_prev n) u)
       (modifyM (\<lambda>g. g\<lparr>tj_queued := base_setOneBit lib (tj_queued g) u\<rparr>))))
     else populate_vertex lib u es)"

definition populateQueue :: "extlib \<Rightarrow> unit T" where
  "populateQueue lib =
     bindM (gets tj_dim) (\<lambda>dm.
     thenM (modifyM (\<lambda>g. g\<lparr>tj_queued := base_resetBits lib (tj_queued g) (bits2intsize lib dm)\<rparr>)) (
     thenM (wr tj_fifo_update tj_fifo dm \<lparr>l_next = dm, l_prev = dm\<rparr>)
     (forM [0..<dm] (\<lambda>u. bindM (edge_range u) (populate_vertex lib u)))))"

text \<open>Scanning the edges of \<open>u\<close>: None when a cycle has been found.\<close>

fun scan :: "extlib \<Rightarrow> nat \<Rightarrow> nat list \<Rightarrow> spanning \<Rightarrow> spanning option T" where
  "scan lib u [] sp = ret (Some sp)"
| "scan lib u (e # es) sp =
     bindM (rd tj_edges e) (\<lambda>ed.
     thenM (guardM AssertFail (u \<noteq> g_v ed)) (
     bindM (tj_improves lib u e) (\<lambda>r. case r of
       None \<Rightarrow> scan lib u es sp
     | Some (v, sm) \<Rightarrow>
         thenM (wr tj_dist_update tj_dist v sm) (
         bindM (gets tj_dim) (\<lambda>dm.
         bindM (disassemble lib v u dm sp) (\<lambda>(found, sp).
         if found then thenM (populateQueue lib) (ret None)
         else
           bindM (link_child u v sp) (\<lambda>sp.
           bindM (is_queued lib v) (\<lambda>q.
           thenM (whenM (\<not> q) (
             thenM (modifyM (\<lambda>g. g\<lparr>tj_queued := base_setOneBit lib (tj_queued g) v\<rparr>)) (
             bindM (rd tj_fifo dm) (\<lambda>n. fifo_insert (l_prev n) v))))
           (scan lib u es sp)))))))))"

text \<open>The loop over the queue, for at most \<open>fuel\<close> vertices.\<close>

fun scan_queue :: "extlib \<Rightarrow> nat \<Rightarrow> spanning \<Rightarrow> bool T" where
  "scan_queue lib fuel sp =
     bindM (gets tj_dim) (\<lambda>dm.
     bindM (rd tj_fifo dm) (\<lambda>n.
     let u = l_next n in
     if u = dm then ret True
     else case fuel of 0 \<Rightarrow> fail NoFuel | Suc fuel \<Rightarrow>
       bindM (is_queued lib u) (\<lambda>q. thenM (guardM AssertFail q) (
       thenM (dequeue lib u) (
       bindM (edge_range u) (\<lambda>es.
       bindM (scan lib u es sp) (\<lambda>r. case r of
         None \<Rightarrow> ret False
       | Some sp \<Rightarrow> scan_queue lib fuel sp)))))))"

definition cdd_tarjan_consistent :: "extlib \<Rightarrow> bool T" where
  "cdd_tarjan_consistent lib =
     bindM (gets tj_dim) (\<lambda>dm.
     thenM (guardM AssertFail (0 < dm))
     (scan_queue lib ((dm + 1) * (dm + 1))
       \<lparr>s_preorder = replicate (dm + 1) \<lparr>l_next = dm, l_prev = dm\<rparr>, s_depth = replicate (dm + 1) 0\<rparr>))"

end
