(* ===== verification/Reduce.thy ===== *)
theory Reduce
  imports Convert Constraint_Graph
begin

text \<open>
  The reductions of \<^verbatim>\<open>src/cddop.c\<close> and \<^verbatim>\<open>src/debug.c\<close>: a walk over the diagram that keeps
  the constraints of the current path in a constraint graph and drops the children whose
  path is inconsistent.  The functions run on the library's state paired with the graph.
\<close>

type_synonym ('g, 'a) R = "(kstate \<times> 'g, 'a) M"

definition onK :: "'a K \<Rightarrow> ('g, 'a) R" where
  "onK m = (\<lambda>(s, g). case m s of Inl f \<Rightarrow> Inl f | Inr (x, t) \<Rightarrow> Inr (x, (t, g)))"

definition onG :: "('g, 'a) M \<Rightarrow> ('g, 'a) R" where
  "onG m = (\<lambda>(s, g). case m g of Inl f \<Rightarrow> Inl f | Inr (x, h) \<Rightarrow> Inr (x, (s, h)))"

lemma wp_onK [wp_simps]: "wp (onK m) Q (s, g) = wp m (\<lambda>x t. Q x (t, g)) s"
  by (auto simp: wp_def onK_def split: sum.splits prod.splits)

lemma wp_onG [wp_simps]: "wp (onG m) Q (s, g) = wp m (\<lambda>x h. Q x (s, h)) g"
  by (auto simp: wp_def onG_def split: sum.splits prod.splits)

section \<open>Reduction with Tarjan's algorithm\<close>

definition tpush :: "nat \<Rightarrow> nat \<Rightarrow> raw_t \<Rightarrow> (tarjan, unit) R" where
  "tpush i j b = bindM (onK get_lib) (\<lambda>lib. onG (cdd_tarjan_push lib i j b))"

definition tpop :: "nat \<Rightarrow> (tarjan, unit) R" where
  "tpop i = onG (cdd_tarjan_pop i)"

definition tconsistent :: "(tarjan, bool) R" where
  "tconsistent = bindM (onK get_lib) (\<lambda>lib. onG (cdd_tarjan_consistent lib))"

text \<open>
  The search for the first consistent child, starting with its upper bound pushed.  It
  returns the iterator, whether it moved, and whether it stopped at the last child.
\<close>

fun first_consistent :: "nat \<Rightarrow> LevelInfo \<Rightarrow> cdd_iterator \<Rightarrow> bool \<Rightarrow> (tarjan, cdd_iterator \<times> bool \<times> bool) R" where
  "first_consistent m info it modified =
     bindM tconsistent (\<lambda>ok. if ok then ret (it, modified, False)
     else case m of 0 \<Rightarrow> fail NoFuel | Suc m \<Rightarrow>
       thenM (tpop (li_clock1 info)) (
       bindM (onK (cdd_it_next it)) (\<lambda>it.
       bindM (onK (cdd_it_upper it)) (\<lambda>bnd.
       bindM (onK get_lib) (\<lambda>lib.
       if bnd = dbm_LS_INFINITY lib then ret (it, True, True)
       else thenM (tpush (li_clock1 info) (li_clock2 info) bnd) (first_consistent m info it True))))))"

declare first_consistent.simps [simp del]

text \<open>The loop over the children after the first consistent one; \<open>m\<close> is the last result, referenced.\<close>

fun tarjan_loop :: "nat \<Rightarrow> (ptr \<Rightarrow> (tarjan, ptr) R) \<Rightarrow> LevelInfo \<Rightarrow> ptr \<Rightarrow> cdd_iterator \<Rightarrow> ptr \<Rightarrow> bool \<Rightarrow>
    (tarjan, ptr \<times> bool) R" where
  "tarjan_loop k rec info msk it m modified =
     (if cdd_it_atend it then ret (m, modified)
      else case k of 0 \<Rightarrow> fail NoFuel | Suc k \<Rightarrow>
        thenM (tpush (li_clock2 info) (li_clock1 info) (bnd_l2u (cdd_it_lower it))) (
        bindM tconsistent (\<lambda>ok.
        if \<not> ok then thenM (tpop (li_clock2 info)) (ret (m, True))
        else
          bindM (onK (cdd_it_upper it)) (\<lambda>bnd.
          bindM (onK get_lib) (\<lambda>lib.
          bindM (if bnd < dbm_LS_INFINITY lib then
                   thenM (tpush (li_clock1 info) (li_clock2 info) bnd) (
                   bindM (onK (cdd_it_child it)) (\<lambda>c.
                   bindM (rec c) (\<lambda>n.
                   thenM (tpop (li_clock1 info)) (ret n))))
                 else bindM (onK (cdd_it_child it)) rec) (\<lambda>n.
          bindM (onK (cdd_it_child it)) (\<lambda>c.
          thenM (onK (whenM (m \<noteq> n) (
            thenM (cdd_push (cdd_neg_cond m msk) (cdd_it_lower it)) (cdd_ref n)))) (
          thenM (tpop (li_clock2 info)) (
          bindM (onK (cdd_it_next it)) (\<lambda>it.
          tarjan_loop k rec info msk it n (modified \<or> n \<noteq> c)))))))))))"

declare tarjan_loop.simps [simp del]

text \<open>The references on the stack above \<open>tos\<close> are given back from the top.\<close>

definition pop_refs :: "nat \<Rightarrow> unit K" where
  "pop_refs tos =
     bindM (stack_from tos) (\<lambda>es.
     thenM (forM (rev es) (\<lambda>e. cdd_deref (e_child e))) (stack_reset tos))"

fun cdd_tarjan_reduce_rec :: "nat \<Rightarrow> ptr \<Rightarrow> (tarjan, ptr) R" where
  "cdd_tarjan_reduce_rec 0 node = fail NoFuel"
| "cdd_tarjan_reduce_rec (Suc f) node =
     bindM (onK (cdd_isterminal node)) (\<lambda>t. if t then ret node else
     bindM (onK (cdd_info node)) (\<lambda>info.
     case li_type info of
       TYPE_BDD \<Rightarrow>
         bindM (onK (bdd_low node)) (\<lambda>lo.
         bindM (cdd_tarjan_reduce_rec f lo) (\<lambda>n.
         thenM (onK (cdd_ref n)) (
         bindM (onK (level_of node)) (\<lambda>k.
         bindM (onK (bdd_high node)) (\<lambda>hi.
         bindM (cdd_tarjan_reduce_rec f hi) (\<lambda>h.
         bindM (onK (cdd_make_bdd_node k n h)) (\<lambda>m.
         thenM (onK (cdd_deref n)) (ret m))))))))
     | TYPE_CDD \<Rightarrow>
         bindM (onK (cdd_elems node)) (\<lambda>es.
         bindM (onK (cdd_it_upper (cdd_it_init node))) (\<lambda>u.
         thenM (tpush (li_clock1 info) (li_clock2 info) u) (
         bindM (first_consistent (length es) info (cdd_it_init node) False) (\<lambda>(it, modified, last).
         if last then bindM (onK (cdd_it_child it)) (cdd_tarjan_reduce_rec f)
         else
           bindM (onK (cdd_it_child it)) (\<lambda>c.
           bindM (cdd_tarjan_reduce_rec f c) (\<lambda>m.
           let msk = cdd_mask m in
           thenM (onK (cdd_ref m)) (
           thenM (tpop (li_clock1 info)) (
           bindM (onK (cdd_it_child it)) (\<lambda>c.
           bindM (onK (gets (\<lambda>s. length (cdd_refstack s)))) (\<lambda>tos.
           bindM (onK (cdd_it_next it)) (\<lambda>it.
           bindM (tarjan_loop (length es + 1) (cdd_tarjan_reduce_rec f) info msk it m (modified \<or> m \<noteq> c)) (\<lambda>(m, modified).
           thenM (onK (cdd_push (cdd_neg_cond m msk) bnd_INF)) (
           bindM (if modified then
                    bindM (onK (level_of node)) (\<lambda>k.
                    bindM (onK (stack_from tos)) (\<lambda>es.
                    bindM (onK (cdd_make_cdd_node k es)) (\<lambda>p. ret (cdd_neg_cond p msk))))
                  else ret node) (\<lambda>m.
           thenM (onK (pop_refs tos)) (ret m)))))))))))))))))"

text \<open>
  \<^verbatim>\<open>cdd_reduce\<close>: the arrays are uninitialised local variables; \<open>raw\<close> is what they hold.
\<close>

definition raw_arrays :: "nat \<Rightarrow> tarjan \<Rightarrow> bool" where
  "raw_arrays n g \<longleftrightarrow> length (tj_dist g) = n \<and> length (tj_count g) = n \<and>
     length (tj_edges g) = n * n - n \<and> length (tj_fifo g) = n + 1"

definition with_graph :: "tarjan \<Rightarrow> (tarjan, 'a) R \<Rightarrow> 'a K" where
  "with_graph raw m =
     bindM (gets cdd_clocknum) (\<lambda>n.
     bindM get_lib (\<lambda>lib s.
       case thenM (onG (cdd_tarjan_init lib n (tj_dist raw) (tj_count raw) (tj_edges raw)
                          (tj_fifo raw) (tj_queued raw))) m (s, raw) of
         Inl f \<Rightarrow> Inl f | Inr (x, (t, g)) \<Rightarrow> Inr (x, t)))"

definition cdd_reduce :: "tarjan \<Rightarrow> ptr \<Rightarrow> ptr K" where
  "cdd_reduce raw node =
     bindM (gets cdd_levelcnt) (\<lambda>n. with_graph raw (cdd_tarjan_reduce_rec (n + 1) node))"

section \<open>Equivalence\<close>

definition cdd_equiv :: "tarjan \<Rightarrow> ptr \<Rightarrow> ptr \<Rightarrow> bool K" where
  "cdd_equiv raw c d =
     bindM (refd (cdd_xor c d)) (\<lambda>tmp1.
     bindM (refd (cdd_reduce raw tmp1)) (\<lambda>tmp2.
     thenM (cdd_rec_deref tmp1) (
     thenM (cdd_rec_deref tmp2) (ret (tmp2 = cddfalse)))))"

section \<open>\<^verbatim>\<open>cdd_reduce2\<close>\<close>

text \<open>
  One round of the loop over the children: the state is the result so far, the pending
  child \<open>prev\<close> (referenced) and the lower bound it starts at.
\<close>

definition reduce2_child :: "tarjan \<Rightarrow> (ptr \<Rightarrow> ptr K) \<Rightarrow> ptr \<Rightarrow> cdd_iterator \<Rightarrow> ptr \<times> ptr \<times> raw_t \<Rightarrow>
    (ptr \<times> ptr \<times> raw_t) K" where
  "reduce2_child raw rec node it = (\<lambda>(res, prev, low).
     bindM (level_of node) (\<lambda>k.
     bindM (refd (add_bound prev k low (cdd_it_lower it))) (\<lambda>tmp1.
     bindM (cdd_it_child it) (\<lambda>child. bindM (cdd_it_upper it) (\<lambda>up.
     bindM (refd (add_bound child k (cdd_it_lower it) up)) (\<lambda>tmp2.
     bindM (refd (cdd_or tmp1 tmp2)) (\<lambda>split.
     thenM (cdd_rec_deref tmp1) (
     thenM (cdd_rec_deref tmp2) (
     bindM (cdd_it_child it) (\<lambda>child.
     bindM (refd (cdd_or prev child)) (\<lambda>tmp1.
     bindM (cdd_it_upper it) (\<lambda>up.
     bindM (refd (add_bound tmp1 k low up)) (\<lambda>join.
     bindM (cdd_equiv raw split join) (\<lambda>eq.
     bindM (if eq then thenM (cdd_rec_deref prev) (ret (res, tmp1, low))
            else
              thenM (cdd_rec_deref tmp1) (
              bindM (refd (rec prev)) (\<lambda>tmp1.
              bindM (refd (add_bound tmp1 k low (cdd_it_lower it))) (\<lambda>tmp2.
              bindM (refd (cdd_or res tmp2)) (\<lambda>tmp3.
              thenM (cdd_rec_deref tmp1) (
              thenM (cdd_rec_deref tmp2) (
              thenM (cdd_rec_deref res) (
              thenM (cdd_rec_deref prev) (
              bindM (cdd_it_child it) (\<lambda>child.
              thenM (cdd_ref child) (ret (tmp3, child, cdd_it_lower it)))))))))))) (\<lambda>acc.
     thenM (cdd_rec_deref split) (
     thenM (cdd_rec_deref join) (ret acc)))))))))))))))))"

fun cdd_reduce2_rec :: "nat \<Rightarrow> tarjan \<Rightarrow> ptr \<Rightarrow> ptr K" where
  "cdd_reduce2_rec 0 raw node = fail NoFuel"
| "cdd_reduce2_rec (Suc f) raw node =
     bindM (cdd_isterminal node) (\<lambda>t. if t then ret node else
     bindM (cdd_info node) (\<lambda>info.
     case li_type info of
       TYPE_CDD \<Rightarrow>
         bindM (cdd_elems node) (\<lambda>es.
         bindM (refd (cdd_it_child (cdd_it_init node))) (\<lambda>prev.
         bindM (cdd_it_next (cdd_it_init node)) (\<lambda>it.
         bindM (it_loop (length es + 1) (reduce2_child raw (cdd_reduce2_rec f raw) node) it
                  (cddfalse, prev, cdd_it_lower (cdd_it_init node))) (\<lambda>(res, prev, low).
         bindM (refd (cdd_reduce2_rec f raw prev)) (\<lambda>tmp1.
         bindM (level_of node) (\<lambda>k.
         bindM (refd (add_bound tmp1 k low bnd_INF)) (\<lambda>tmp2.
         bindM (refd (cdd_or res tmp2)) (\<lambda>tmp3.
         thenM (cdd_rec_deref tmp1) (
         thenM (cdd_rec_deref tmp2) (
         thenM (cdd_rec_deref res) (
         thenM (cdd_rec_deref prev) (
         thenM (cdd_deref tmp3) (ret tmp3)))))))))))))
     | TYPE_BDD \<Rightarrow>
         bindM (bdd_low node) (\<lambda>lo.
         bindM (refd (cdd_reduce2_rec f raw lo)) (\<lambda>tmp1.
         bindM (bdd_high node) (\<lambda>hi.
         bindM (refd (cdd_reduce2_rec f raw hi)) (\<lambda>tmp2.
         bindM (level_of node) (\<lambda>k.
         bindM (cdd_make_bdd_node k tmp1 tmp2) (\<lambda>res.
         thenM (cdd_deref tmp1) (
         thenM (cdd_deref tmp2) (ret res))))))))))"

text \<open>
  The children that \<^verbatim>\<open>cdd_reduce2_rec\<close> recurses into are joins of children, whose nodes lie
  at later levels than the node.
\<close>

definition cdd_reduce2 :: "tarjan \<Rightarrow> ptr \<Rightarrow> ptr K" where
  "cdd_reduce2 raw node = bindM (gets cdd_levelcnt) (\<lambda>n. cdd_reduce2_rec (n + 1) raw node)"

end
