(* ===== verification/Apply_Reduce.thy ===== *)
theory Apply_Reduce
  imports Reduce
begin

text \<open>
  \<^verbatim>\<open>cdd_apply_reduce\<close> of \<^verbatim>\<open>src/cddop.c\<close>, which applies an operator and reduces on the fly, and
  \<^verbatim>\<open>cdd_bf_reduce\<close> of \<^verbatim>\<open>src/debug.c\<close>, the reduction with Bellman and Ford's algorithm.
\<close>

section \<open>\<^verbatim>\<open>cdd_apply_reduce\<close>\<close>

text \<open>What the termination conditions decide: a result, or a diagram to be reduced.\<close>

datatype outcome = Done ptr | Reduce_to ptr | Recurse

text \<open>The code for extra terminals follows the \<^verbatim>\<open>break\<close> in the case of xor, and is not reached.\<close>

definition apply_reduce_terminal :: "int \<Rightarrow> ptr \<Rightarrow> ptr \<Rightarrow> outcome K" where
  "apply_reduce_terminal op l r =
     (if op = 0 then
        (if l = r \<or> r = cddtrue then ret (Reduce_to l)
         else if l = cddfalse \<or> r = cddfalse \<or> l = cdd_neg r then ret (Done cddfalse)
         else if l = cddtrue then ret (Reduce_to r)
         else bindM (cdd_is_extra_terminal l) (\<lambda>xl.
           if xl then ret (if cdd_mask l \<noteq> 0 then Done l else Reduce_to r)
           else bindM (cdd_is_extra_terminal r) (\<lambda>xr.
           if xr then ret (if cdd_mask r \<noteq> 0 then Done r else Reduce_to l)
           else ret Recurse)))
      else if op = 1 then
        (if l = r then ret (Done cddfalse)
         else if l = cdd_neg r then ret (Done cddtrue)
         else if l = cddfalse then ret (Reduce_to r)
         else if r = cddfalse then ret (Reduce_to l)
         else if l = cddtrue then ret (Reduce_to (cdd_neg r))
         else if r = cddtrue then ret (Reduce_to (cdd_neg l))
         else ret Recurse)
      else ret Recurse)"

text \<open>The search for the first consistent pair of children; the flag tells that the last pair was reached.\<close>

fun first_pair :: "nat \<Rightarrow> LevelInfo \<Rightarrow> cursor \<Rightarrow> cursor \<Rightarrow> raw_t \<Rightarrow>
    (tarjan, cursor \<times> cursor \<times> raw_t \<times> bool) R" where
  "first_pair m info lp rp bnd =
     bindM tconsistent (\<lambda>ok. if ok then ret (lp, rp, bnd, False)
     else case m of 0 \<Rightarrow> fail NoFuel | Suc m \<Rightarrow>
       thenM (tpop (li_clock1 info)) (
       bindM (onK (step_cursor bnd lp)) (\<lambda>lp. bindM (onK (step_cursor bnd rp)) (\<lambda>rp.
       bindM (onK (at_cursor lp)) (\<lambda>le. bindM (onK (at_cursor rp)) (\<lambda>re.
       let bnd = minimum (e_bnd le) (e_bnd re) in
       bindM (onK get_lib) (\<lambda>lib.
       if bnd = dbm_LS_INFINITY lib then ret (lp, rp, bnd, True)
       else thenM (tpush (li_clock1 info) (li_clock2 info) bnd) (first_pair m info lp rp bnd))))))))"

declare first_pair.simps [simp del]

text \<open>The recursive call on the pair of children under the cursors.\<close>

definition on_pair :: "(ptr \<Rightarrow> ptr \<Rightarrow> (tarjan, ptr) R) \<Rightarrow> ptr \<Rightarrow> ptr \<Rightarrow> cursor \<Rightarrow> cursor \<Rightarrow> (tarjan, ptr) R" where
  "on_pair rec lmask rmask lp rp =
     bindM (onK (at_cursor lp)) (\<lambda>le. bindM (onK (at_cursor rp)) (\<lambda>re.
     rec (cdd_neg_cond (e_child le) lmask) (cdd_neg_cond (e_child re) rmask)))"

definition emit_child :: "ptr \<Rightarrow> ptr \<Rightarrow> ptr \<Rightarrow> raw_t \<Rightarrow> unit K" where
  "emit_child prev n msk lower =
     whenM (n \<noteq> prev) (thenM (cdd_push (cdd_neg_cond prev msk) lower) (cdd_ref n))"

text \<open>
  The loop over the intermediate pairs; it returns the last child made, whether the last
  pair was reached, and the bound the last cell starts at.
\<close>

fun pair_loop :: "nat \<Rightarrow> (ptr \<Rightarrow> ptr \<Rightarrow> (tarjan, ptr) R) \<Rightarrow> LevelInfo \<Rightarrow> ptr \<Rightarrow> ptr \<Rightarrow> ptr \<Rightarrow>
    cursor \<Rightarrow> cursor \<Rightarrow> ptr \<Rightarrow> raw_t \<Rightarrow> raw_t \<Rightarrow> (tarjan, cursor \<times> cursor \<times> ptr \<times> raw_t \<times> raw_t) R" where
  "pair_loop m rec info lmask rmask msk lp rp prev lower bnd =
     bindM (if bnd < bnd_INF then tconsistent else ret False) (\<lambda>go.
     if \<not> go then ret (lp, rp, prev, lower, bnd)
     else case m of 0 \<Rightarrow> fail NoFuel | Suc m \<Rightarrow>
       thenM (tpush (li_clock1 info) (li_clock2 info) bnd) (
       bindM (on_pair rec lmask rmask lp rp) (\<lambda>n.
       thenM (tpop (li_clock1 info)) (
       thenM (tpop (li_clock2 info)) (
       thenM (onK (emit_child prev n msk lower)) (
       bindM (onK (step_cursor bnd lp)) (\<lambda>lp. bindM (onK (step_cursor bnd rp)) (\<lambda>rp.
       bindM (onK (at_cursor lp)) (\<lambda>le. bindM (onK (at_cursor rp)) (\<lambda>re.
       thenM (tpush (li_clock2 info) (li_clock1 info) (bnd_l2u bnd))
       (pair_loop m rec info lmask rmask msk lp rp n bnd (minimum (e_bnd le) (e_bnd re)))))))))))))"

declare pair_loop.simps [simp del]

definition apply_reduce_cdd :: "(ptr \<Rightarrow> ptr \<Rightarrow> (tarjan, ptr) R) \<Rightarrow> LevelInfo \<Rightarrow> ptr \<Rightarrow> ptr \<Rightarrow> nat \<Rightarrow> nat \<Rightarrow>
    ptr \<Rightarrow> ptr \<Rightarrow> (tarjan, ptr) R" where
  "apply_reduce_cdd rec info l r ll rl lmask rmask =
     bindM (onK (gets (\<lambda>s. length (cdd_refstack s)))) (\<lambda>tos.
     bindM (onK (cursor_for (ll \<le> rl) l)) (\<lambda>lp.
     bindM (onK (cursor_for (ll \<ge> rl) r)) (\<lambda>rp.
     bindM (onK (gets (\<lambda>s. length (cdd_refstack s)))) (\<lambda>first.
     bindM (onK (gets cdd_maxcddsize)) (\<lambda>mx.
     bindM (onK (at_cursor lp)) (\<lambda>le. bindM (onK (at_cursor rp)) (\<lambda>re.
     let bnd = minimum (e_bnd le) (e_bnd re) in
     thenM (tpush (li_clock1 info) (li_clock2 info) bnd) (
     bindM (first_pair (2 * mx) info lp rp bnd) (\<lambda>(lp, rp, bnd, last).
     if last then
       bindM (onK (at_cursor lp)) (\<lambda>le. bindM (onK (at_cursor rp)) (\<lambda>re.
       thenM (onK (stack_reset tos))
       (rec (cdd_neg_cond (e_child le) lmask) (cdd_neg_cond (e_child re) rmask))))
     else
       bindM (on_pair rec lmask rmask lp rp) (\<lambda>prev.
       thenM (onK (cdd_ref prev)) (
       let msk = cdd_mask prev in
       thenM (tpop (li_clock1 info)) (
       bindM (onK (step_cursor bnd lp)) (\<lambda>lp. bindM (onK (step_cursor bnd rp)) (\<lambda>rp.
       bindM (onK (at_cursor lp)) (\<lambda>le. bindM (onK (at_cursor rp)) (\<lambda>re.
       thenM (tpush (li_clock2 info) (li_clock1 info) (bnd_l2u bnd)) (
       bindM (pair_loop (2 * mx) rec info lmask rmask msk lp rp prev bnd (minimum (e_bnd le) (e_bnd re)))
         (\<lambda>(lp, rp, prev, lower, bnd).
       bindM (if bnd = bnd_INF then tconsistent else ret False) (\<lambda>go.
       bindM (if go then
                bindM (on_pair rec lmask rmask lp rp) (\<lambda>n.
                thenM (onK (emit_child prev n msk lower)) (ret n))
              else ret prev) (\<lambda>prev.
       thenM (tpop (li_clock2 info)) (
       thenM (onK (cdd_push (cdd_neg_cond prev msk) bnd_INF)) (
       bindM (onK (stack_from first)) (\<lambda>es.
       bindM (onK (cdd_make_cdd_node (min ll rl) es)) (\<lambda>p.
       thenM (onK (pop_refs first)) (
       thenM (onK (stack_reset tos)) (ret (cdd_neg_cond p msk)))))))))))))))))))))))))))"

definition apply_reduce_bdd :: "(ptr \<Rightarrow> ptr \<Rightarrow> (tarjan, ptr) R) \<Rightarrow> ptr \<Rightarrow> ptr \<Rightarrow> nat \<Rightarrow> nat \<Rightarrow>
    ptr \<Rightarrow> ptr \<Rightarrow> (tarjan, ptr) R" where
  "apply_reduce_bdd rec l r ll rl lmask rmask =
     bindM (onK (if ll \<le> rl then bdd_node l else ret (l, l))) (\<lambda>(ll0, lh).
     bindM (onK (if ll \<ge> rl then bdd_node r else ret (r, r))) (\<lambda>(rl0, rh).
     bindM (rec (cdd_neg_cond ll0 lmask) (cdd_neg_cond rl0 rmask)) (\<lambda>n.
     thenM (onK (cdd_ref n)) (
     bindM (rec (cdd_neg_cond lh lmask) (cdd_neg_cond rh rmask)) (\<lambda>h.
     bindM (onK (cdd_make_bdd_node (min ll rl) n h)) (\<lambda>p.
     thenM (onK (cdd_deref n)) (ret p)))))))"

text \<open>
  The cache is only read.  \<^verbatim>\<open>assert\<close> runs the consistency check.  The reductions get the fuel
  \<open>k\<close> of a whole diagram.
\<close>

fun cdd_apply_reduce_rec :: "nat \<Rightarrow> nat \<Rightarrow> ptr \<Rightarrow> ptr \<Rightarrow> (tarjan, ptr) R" where
  "cdd_apply_reduce_rec k 0 l r = fail NoFuel"
| "cdd_apply_reduce_rec k (Suc f) l r =
     bindM tconsistent (\<lambda>ok. thenM (guardM AssertFail ok) (
     bindM (onK (gets cdd_errorcond)) (\<lambda>err. if err \<noteq> 0 then ret 0 else
     bindM (onK (gets applyop)) (\<lambda>op.
     bindM (onK (apply_reduce_terminal op l r)) (\<lambda>out. case out of
       Done p \<Rightarrow> ret p
     | Reduce_to p \<Rightarrow> cdd_tarjan_reduce_rec k p
     | Recurse \<Rightarrow>
     let (l, r) = (if l > r then (r, l) else (l, r)) in
     bindM (onK (cache_slot applycache (APPLYHASH l r op))) (\<lambda>slot.
     bindM (onK (cache_entry applycache slot)) (\<lambda>e.
     if c_a e = l \<and> c_b e = r \<and> c_c e = op then
       thenM (onK (revive (c_res e))) (
       thenM (onK (cdd_ref (c_res e))) (
       bindM (cdd_tarjan_reduce_rec k (c_res e)) (\<lambda>res.
       bindM (onK (cache_entry applycache slot)) (\<lambda>e.
       thenM (onK (cdd_rec_deref (c_res e))) (ret res)))))
     else
       let lmask = cdd_mask l; rmask = cdd_mask r; l = cdd_rglr l; r = cdd_rglr r in
       bindM (onK (level_of l)) (\<lambda>ll. bindM (onK (level_of r)) (\<lambda>rl.
       bindM (onK (levelinfo_at (min ll rl))) (\<lambda>info.
       case li_type info of
         TYPE_CDD \<Rightarrow> apply_reduce_cdd (cdd_apply_reduce_rec k f) info l r ll rl lmask rmask
       | TYPE_BDD \<Rightarrow> apply_reduce_bdd (cdd_apply_reduce_rec k f) l r ll rl lmask rmask))))))))))"

definition cdd_apply_reduce :: "tarjan \<Rightarrow> ptr \<Rightarrow> ptr \<Rightarrow> int \<Rightarrow> ptr K" where
  "cdd_apply_reduce raw l h op =
     bindM (gets cdd_levelcnt) (\<lambda>n.
     bindM (with_graph raw (
       thenM (onK (modifyM (\<lambda>s. s\<lparr>applyop := op\<rparr>)))
       (cdd_apply_reduce_rec (n + 1) (n + 1) l h))) (\<lambda>res.
     bindM (gets cdd_errorcond) (\<lambda>err.
     if err \<noteq> 0 then thenM (cdd_error err) (ret 0) else ret res)))"

section \<open>\<^verbatim>\<open>cdd_bf_reduce\<close>\<close>

definition bpush :: "nat \<Rightarrow> nat \<Rightarrow> raw_t \<Rightarrow> (bellmanford, unit) R" where
  "bpush i j b = bindM (onK get_lib) (\<lambda>lib. onG (cdd_bf_push lib i j b))"

definition bpop :: "(bellmanford, unit) R" where
  "bpop = onG cdd_bf_pop"

definition bconsistent :: "(bellmanford, bool) R" where
  "bconsistent = bindM (onK get_lib) (\<lambda>lib. onG (cdd_bf_consistent lib))"

fun bf_first_consistent :: "nat \<Rightarrow> LevelInfo \<Rightarrow> cdd_iterator \<Rightarrow> (bellmanford, cdd_iterator \<times> bool) R" where
  "bf_first_consistent m info it =
     bindM bconsistent (\<lambda>ok. if ok then ret (it, False)
     else case m of 0 \<Rightarrow> fail NoFuel | Suc m \<Rightarrow>
       thenM bpop (
       bindM (onK (cdd_it_next it)) (\<lambda>it.
       bindM (onK (cdd_it_upper it)) (\<lambda>bnd.
       bindM (onK get_lib) (\<lambda>lib.
       if bnd = dbm_LS_INFINITY lib then ret (it, True)
       else thenM (bpush (li_clock1 info) (li_clock2 info) bnd) (bf_first_consistent m info it))))))"

declare bf_first_consistent.simps [simp del]

fun bf_loop :: "nat \<Rightarrow> (ptr \<Rightarrow> (bellmanford, ptr) R) \<Rightarrow> LevelInfo \<Rightarrow> ptr \<Rightarrow> cdd_iterator \<Rightarrow> ptr \<Rightarrow>
    (bellmanford, ptr) R" where
  "bf_loop k rec info msk it prev =
     (if cdd_it_atend it then ret prev
      else case k of 0 \<Rightarrow> fail NoFuel | Suc k \<Rightarrow>
        thenM bpop (
        thenM (bpush (li_clock2 info) (li_clock1 info) (bnd_l2u (cdd_it_lower it))) (
        bindM bconsistent (\<lambda>ok.
        if \<not> ok then ret prev
        else
          bindM (onK (cdd_it_upper it)) (\<lambda>bnd.
          bindM (onK get_lib) (\<lambda>lib.
          bindM (if bnd < dbm_LS_INFINITY lib then
                   thenM (bpush (li_clock1 info) (li_clock2 info) bnd) (
                   bindM (onK (cdd_it_child it)) (\<lambda>c.
                   bindM (rec c) (\<lambda>n. thenM bpop (ret n))))
                 else bindM (onK (cdd_it_child it)) rec) (\<lambda>n.
          thenM (onK (emit_child prev n msk (cdd_it_lower it))) (
          bindM (onK (cdd_it_next it)) (\<lambda>it.
          bf_loop k rec info msk it n)))))))))"

declare bf_loop.simps [simp del]

fun cdd_bf_reduce_rec :: "nat \<Rightarrow> ptr \<Rightarrow> (bellmanford, ptr) R" where
  "cdd_bf_reduce_rec 0 node = fail NoFuel"
| "cdd_bf_reduce_rec (Suc f) node =
     bindM (onK (cdd_isterminal node)) (\<lambda>t. if t then ret node else
     bindM (onK (cdd_info node)) (\<lambda>info.
     case li_type info of
       TYPE_BDD \<Rightarrow>
         bindM (onK (bdd_low node)) (\<lambda>lo.
         bindM (cdd_bf_reduce_rec f lo) (\<lambda>n.
         thenM (onK (cdd_ref n)) (
         bindM (onK (level_of node)) (\<lambda>k.
         bindM (onK (bdd_high node)) (\<lambda>hi.
         bindM (cdd_bf_reduce_rec f hi) (\<lambda>h.
         bindM (onK (cdd_make_bdd_node k n h)) (\<lambda>res.
         thenM (onK (cdd_deref n)) (ret res))))))))
     | TYPE_CDD \<Rightarrow>
         bindM (onK (cdd_elems node)) (\<lambda>es.
         bindM (onK (cdd_it_upper (cdd_it_init node))) (\<lambda>u.
         thenM (bpush (li_clock1 info) (li_clock2 info) u) (
         bindM (bf_first_consistent (length es) info (cdd_it_init node)) (\<lambda>(it, last).
         if last then bindM (onK (cdd_it_child it)) (cdd_bf_reduce_rec f)
         else
           bindM (onK (cdd_it_child it)) (\<lambda>c.
           bindM (cdd_bf_reduce_rec f c) (\<lambda>prev.
           let msk = cdd_mask prev in
           thenM (onK (cdd_ref prev)) (
           bindM (onK (gets (\<lambda>s. length (cdd_refstack s)))) (\<lambda>tos.
           bindM (onK (cdd_it_next it)) (\<lambda>it.
           bindM (bf_loop (length es + 1) (cdd_bf_reduce_rec f) info msk it prev) (\<lambda>prev.
           thenM bpop (
           thenM (onK (cdd_push (cdd_neg_cond prev msk) bnd_INF)) (
           bindM (onK (level_of node)) (\<lambda>k.
           bindM (onK (stack_from tos)) (\<lambda>es.
           bindM (onK (cdd_make_cdd_node k es)) (\<lambda>p.
           thenM (onK (pop_refs tos)) (ret (cdd_neg_cond p msk)))))))))))))))))))"

definition with_bf_graph :: "bellmanford \<Rightarrow> (bellmanford, 'a) R \<Rightarrow> 'a K" where
  "with_bf_graph raw m =
     bindM (gets cdd_clocknum) (\<lambda>n s.
       case thenM (onG (cdd_bf_init n (bf_dist raw) (bf_edges raw))) m (s, raw) of
         Inl f \<Rightarrow> Inl f | Inr (x, (t, g)) \<Rightarrow> Inr (x, t))"

definition cdd_bf_reduce :: "bellmanford \<Rightarrow> ptr \<Rightarrow> ptr K" where
  "cdd_bf_reduce raw node =
     bindM (gets cdd_levelcnt) (\<lambda>n. with_bf_graph raw (cdd_bf_reduce_rec (n + 1) node))"

end
