(* ===== verification/Cpp_Class.thy ===== *)
theory Cpp_Class
  imports Apply_Reduce
begin

text \<open>
  The class \<^verbatim>\<open>cdd\<close> of \<^verbatim>\<open>include/cdd/cdd.h\<close> and \<^verbatim>\<open>src/cppext.cpp\<close>.  An object is its \<^verbatim>\<open>root\<close>
  pointer; it holds one reference to that node from its construction to its destruction.  The
  constructors and the destructor, which C++ calls implicitly, are written out: \<open>with_tmp m k\<close>
  is a full expression that needs the temporary object \<open>m\<close>, destroyed once the result of \<open>k\<close>
  has been constructed, so that temporaries die in the reverse order of their construction.
  Operands are evaluated from left to right, which C++ leaves open.  A function that returns a
  local object hands over that object.  Arrays that the code leaves uninitialised are
  parameters (\<open>tarjan\<close> for the graph of the reduction, \<open>32 word list\<close> for bit sets).
\<close>

section \<open>Construction, destruction, assignment\<close>

definition cpp_running :: "unit K" where
  "cpp_running = bindM cdd_isrunning (\<lambda>r. guardM AssertFail r)"

text \<open>\<^verbatim>\<open>cdd(const cdd&)\<close>, \<^verbatim>\<open>cdd(const raw_t*, uint32_t)\<close>, \<^verbatim>\<open>cdd(ddNode*)\<close>, \<^verbatim>\<open>cdd()\<close> and \<^verbatim>\<open>~cdd()\<close>.\<close>

definition cpp_copy :: "ptr \<Rightarrow> ptr K" where
  "cpp_copy r = thenM cpp_running (thenM (whenM (r \<noteq> 0) (cdd_ref r)) (ret r))"

definition cpp_from_dbm :: "raw_t list \<Rightarrow> nat \<Rightarrow> ptr K" where
  "cpp_from_dbm d n = thenM cpp_running (bindM (cdd_from_dbm d n) (\<lambda>rt. thenM (cdd_ref rt) (ret rt)))"

definition cpp_wrap :: "ptr \<Rightarrow> ptr K" where
  "cpp_wrap r = bindM cdd_isrunning (\<lambda>b. thenM (guardM AssertFail (b \<and> r \<noteq> 0)) (thenM (cdd_ref r) (ret r)))"

definition cpp_default :: "ptr K" where
  "cpp_default = thenM cpp_running (ret cddfalse)"

definition cpp_destroy :: "ptr \<Rightarrow> unit K" where
  "cpp_destroy rt = cdd_rec_deref rt"

text \<open>\<^verbatim>\<open>operator=(const cdd&)\<close>: the new rt of the object.\<close>

definition cpp_assign :: "ptr \<Rightarrow> ptr \<Rightarrow> ptr K" where
  "cpp_assign rt r =
     (if rt \<noteq> r then thenM (cdd_rec_deref rt) (thenM (cdd_ref r) (ret r)) else ret rt)"

text \<open>\<^verbatim>\<open>operator=(ddNode*)\<close> returns a copy of the object: the new rt and that copy.\<close>

definition cpp_assign_node :: "ptr \<Rightarrow> ptr \<Rightarrow> (ptr \<times> ptr) K" where
  "cpp_assign_node rt node =
     bindM (if rt \<noteq> node then thenM (cdd_rec_deref rt) (thenM (cdd_ref node) (ret node)) else ret rt)
       (\<lambda>rt. bindM (cpp_copy rt) (\<lambda>c. ret (rt, c)))"

definition with_tmp :: "ptr K \<Rightarrow> (ptr \<Rightarrow> 'a K) \<Rightarrow> 'a K" where
  "with_tmp m k = bindM m (\<lambda>t. bindM (k t) (\<lambda>x. thenM (cpp_destroy t) (ret x)))"

section \<open>Operators\<close>

definition cpp_apply :: "ptr \<Rightarrow> ptr \<Rightarrow> int \<Rightarrow> ptr K" where
  "cpp_apply l r op = bindM (cdd_apply l r op) cpp_wrap"

definition cpp_not :: "ptr \<Rightarrow> ptr K" where
  "cpp_not rt = cpp_wrap (cdd_neg rt)"

definition cpp_and :: "ptr \<Rightarrow> ptr \<Rightarrow> ptr K" where
  "cpp_and l r = cpp_apply l r 0"

definition cpp_or :: "ptr \<Rightarrow> ptr \<Rightarrow> ptr K" where
  "cpp_or this r =
     with_tmp (cpp_not this) (\<lambda>a. with_tmp (cpp_not r) (\<lambda>b. with_tmp (cpp_apply a b 0) cpp_not))"

definition cpp_minus :: "ptr \<Rightarrow> ptr \<Rightarrow> ptr K" where
  "cpp_minus this r = with_tmp (cpp_not r) (\<lambda>b. cpp_apply this b 0)"

definition cpp_xor :: "ptr \<Rightarrow> ptr \<Rightarrow> ptr K" where
  "cpp_xor this r = cpp_apply this r 1"

text \<open>
  The assignment operators \<^verbatim>\<open>&=\<close>, \<^verbatim>\<open>|=\<close>, \<^verbatim>\<open>-=\<close> and \<^verbatim>\<open>^=\<close> return the object by value: the new rt
  and the copy.  As a statement, the copy is destroyed at once.
\<close>

definition cpp_update :: "ptr \<Rightarrow> ptr K \<Rightarrow> (ptr \<times> ptr) K" where
  "cpp_update this m =
     with_tmp m (\<lambda>t. bindM (cpp_assign this t) (\<lambda>this. bindM (cpp_copy this) (\<lambda>c. ret (this, c))))"

definition cpp_and_assign :: "ptr \<Rightarrow> ptr \<Rightarrow> (ptr \<times> ptr) K" where
  "cpp_and_assign this r = cpp_update this (cpp_and this r)"

definition cpp_or_assign :: "ptr \<Rightarrow> ptr \<Rightarrow> (ptr \<times> ptr) K" where
  "cpp_or_assign this r = cpp_update this (cpp_or this r)"

definition cpp_minus_assign :: "ptr \<Rightarrow> ptr \<Rightarrow> (ptr \<times> ptr) K" where
  "cpp_minus_assign this r = cpp_update this (cpp_minus this r)"

definition cpp_xor_assign :: "ptr \<Rightarrow> ptr \<Rightarrow> (ptr \<times> ptr) K" where
  "cpp_xor_assign this r = cpp_update this (cpp_xor this r)"

definition stmt :: "(ptr \<times> ptr) K \<Rightarrow> ptr K" where
  "stmt m = bindM m (\<lambda>(this, c). thenM (cpp_destroy c) (ret this))"

definition cpp_eq :: "ptr \<Rightarrow> ptr \<Rightarrow> bool" where
  "cpp_eq this r \<longleftrightarrow> r = this"

definition cpp_neq :: "ptr \<Rightarrow> ptr \<Rightarrow> bool" where
  "cpp_neq this r \<longleftrightarrow> r \<noteq> this"

definition cpp_ite :: "ptr \<Rightarrow> ptr \<Rightarrow> ptr \<Rightarrow> ptr K" where
  "cpp_ite f g h =
     with_tmp (cpp_and f g) (\<lambda>a. with_tmp (cpp_not f) (\<lambda>nf. with_tmp (cpp_and nf h) (\<lambda>b. cpp_or a b)))"

text \<open>A statement \<open>x = e\<close>, and the comparison with the false diagram.\<close>

definition assign_to :: "ptr \<Rightarrow> ptr K \<Rightarrow> ptr K" where
  "assign_to x m = with_tmp m (cpp_assign x)"

section \<open>The functions that wrap those of the C interface\<close>

definition cpp_true :: "ptr K" where
  "cpp_true = cpp_wrap cddtrue"

definition cpp_false :: "ptr K" where
  "cpp_false = cpp_wrap cddfalse"

definition cdd_upperpp :: "nat \<Rightarrow> nat \<Rightarrow> raw_t \<Rightarrow> ptr K" where
  "cdd_upperpp i j bound = bindM (cdd_upper i j bound) cpp_wrap"

definition cdd_lowerpp :: "nat \<Rightarrow> nat \<Rightarrow> raw_t \<Rightarrow> ptr K" where
  "cdd_lowerpp i j bound = bindM (cdd_upper i j bound) (\<lambda>p. cpp_wrap (cdd_neg p))"

definition cdd_intervalpp :: "nat \<Rightarrow> nat \<Rightarrow> raw_t \<Rightarrow> raw_t \<Rightarrow> ptr K" where
  "cdd_intervalpp i j low up = bindM (cdd_interval i j low up) cpp_wrap"

definition cdd_bddvarpp :: "nat \<Rightarrow> ptr K" where
  "cdd_bddvarpp level = bindM (cdd_bddvar level) cpp_wrap"

definition cdd_bddnvarpp :: "nat \<Rightarrow> ptr K" where
  "cdd_bddnvarpp level = bindM (cdd_bddvar level) (\<lambda>p. cpp_wrap (cdd_neg p))"

definition cpp_remove_negative :: "ptr \<Rightarrow> ptr K" where
  "cpp_remove_negative node = bindM (cdd_remove_negative node) cpp_wrap"

definition cpp_equiv :: "tarjan \<Rightarrow> ptr \<Rightarrow> ptr \<Rightarrow> bool K" where
  "cpp_equiv raw l r = cdd_equiv raw l r"

definition cpp_contains :: "ptr \<Rightarrow> raw_t list \<Rightarrow> nat \<Rightarrow> bool K" where
  "cpp_contains c d n = cdd_contains c d n"

definition cpp_exist :: "nat \<Rightarrow> ptr \<Rightarrow> int list \<Rightarrow> int list \<Rightarrow> nat \<Rightarrow> nat \<Rightarrow> ptr K" where
  "cpp_exist fuel r levels clocks nb nc = bindM (cdd_exist fuel r levels clocks nb nc) cpp_wrap"

definition cpp_replace :: "ptr \<Rightarrow> nat list \<Rightarrow> nat list \<Rightarrow> ptr K" where
  "cpp_replace r f g = bindM (cdd_replace r f g) cpp_wrap"

definition cpp_nodecount :: "ptr \<Rightarrow> int K" where
  "cpp_nodecount r = cdd_nodecount r"

definition cpp_apply_reduce :: "tarjan \<Rightarrow> ptr \<Rightarrow> ptr \<Rightarrow> int \<Rightarrow> ptr K" where
  "cpp_apply_reduce raw l r op = bindM (cdd_apply_reduce raw l r op) cpp_wrap"

definition cpp_reduce :: "tarjan \<Rightarrow> ptr \<Rightarrow> ptr K" where
  "cpp_reduce raw r = bindM (cdd_reduce raw r) cpp_wrap"

definition cpp_reduce2 :: "tarjan \<Rightarrow> ptr \<Rightarrow> ptr K" where
  "cpp_reduce2 raw r = bindM (cdd_reduce2 raw r) cpp_wrap"

definition cpp_extract_dbm :: "32 word list \<Rightarrow> ptr \<Rightarrow> nat \<Rightarrow> (ptr \<times> raw_t list) K" where
  "cpp_extract_dbm raw r n =
     bindM (cdd_extract_dbm raw r n) (\<lambda>(p, d). bindM (cpp_wrap p) (\<lambda>p. ret (p, d)))"

definition cpp_extract_bdd :: "ptr \<Rightarrow> nat \<Rightarrow> ptr K" where
  "cpp_extract_bdd r n = bindM (cdd_extract_bdd r n) cpp_wrap"

definition cpp_apply_tautology :: "ptr \<Rightarrow> nat \<Rightarrow> ptr K" where
  "cpp_apply_tautology d k = bindM (cdd_apply_tautology d k) cpp_wrap"

definition cpp_get_tautology_id :: "ptr \<Rightarrow> int K" where
  "cpp_get_tautology_id p = cdd_get_tautology_id p"

definition cpp_eval_true :: "ptr \<Rightarrow> bool K" where
  "cpp_eval_true p = cdd_eval_true p"

definition cpp_eval_false :: "ptr \<Rightarrow> bool K" where
  "cpp_eval_false p = cdd_eval_false p"

end
