(* ===== verification/Cpp_Matrix.thy ===== *)
theory Cpp_Matrix
  imports Cpp_Class
begin

text \<open>
  \<^verbatim>\<open>cdd_bdd_to_array\<close> of \<^verbatim>\<open>src/cppext.cpp\<close>: the traces of a boolean diagram as two arrays, built with
  the class \<^verbatim>\<open>dynamic_two_dim_matrix\<close>.  A matrix is a value that its methods return updated.
  The text printed when a node of a difference is met is left out.
\<close>

section \<open>Matrices with a growing number of rows\<close>

record dynamic_two_dim_matrix =
  matrix :: "int list list"
  rows_to_be_ignored :: "bool list"
  num_cols :: nat

definition new_matrix :: "nat \<Rightarrow> dynamic_two_dim_matrix" where
  "new_matrix n = \<lparr>matrix = [[]], rows_to_be_ignored = [False], num_cols = n\<rparr>"

definition add_value_to_row :: "int \<Rightarrow> dynamic_two_dim_matrix \<Rightarrow> dynamic_two_dim_matrix K" where
  "add_value_to_row v m =
     thenM (guardM Segv (matrix m \<noteq> [])) (
     thenM (guardM AssertFail (length (last (matrix m)) < num_cols m))
     (ret (m\<lparr>matrix := butlast (matrix m) @ [last (matrix m) @ [v]]\<rparr>)))"

text \<open>The column may be \<open>-1\<close>; copying more values than the row has is undefined.\<close>

definition next_row :: "int \<Rightarrow> dynamic_two_dim_matrix \<Rightarrow> dynamic_two_dim_matrix K" where
  "next_row copy_to_column m =
     thenM (guardM AssertFail (copy_to_column < int (num_cols m))) (
     thenM (guardM AssertFail (matrix m \<noteq> [])) (
     thenM (guardM Segv (- 1 \<le> copy_to_column \<and> copy_to_column < int (length (last (matrix m)))))
     (ret (m\<lparr>matrix := matrix m @ [take (nat (copy_to_column + 1)) (last (matrix m))],
            rows_to_be_ignored := rows_to_be_ignored m @ [False]\<rparr>))))"

definition ignore_current_row :: "dynamic_two_dim_matrix \<Rightarrow> dynamic_two_dim_matrix K" where
  "ignore_current_row m =
     thenM (guardM Segv (rows_to_be_ignored m \<noteq> []))
     (ret (m\<lparr>rows_to_be_ignored := butlast (rows_to_be_ignored m) @ [True]\<rparr>))"

text \<open>\<^verbatim>\<open>at\<close> throws when there are more rows than flags; nothing catches it.\<close>

definition delete_ignored_rows :: "dynamic_two_dim_matrix \<Rightarrow> dynamic_two_dim_matrix K" where
  "delete_ignored_rows m =
     thenM (guardM AssertFail (length (matrix m) \<le> length (rows_to_be_ignored m)))
     (ret (m\<lparr>matrix := map fst (filter (\<lambda>(row, ign). \<not> ign) (zip (matrix m) (rows_to_be_ignored m)))\<rparr>))"

definition pad :: "nat \<Rightarrow> int \<Rightarrow> int list \<Rightarrow> int list" where
  "pad n v row = row @ replicate (n - length row) v"

definition get_array :: "int \<Rightarrow> dynamic_two_dim_matrix \<Rightarrow> int list" where
  "get_array default_value m = concat (map (pad (num_cols m) default_value) (matrix m))"

definition get_current_row_size :: "dynamic_two_dim_matrix \<Rightarrow> nat" where
  "get_current_row_size m = length (matrix m)"

section \<open>The traces of a boolean diagram\<close>

text \<open>The depth is bounded by the number of levels; \<open>n\<close> counts it down.\<close>

fun cdd_bdd_to_matrix_rec :: "nat \<Rightarrow> ptr \<Rightarrow> dynamic_two_dim_matrix \<Rightarrow> dynamic_two_dim_matrix \<Rightarrow> int \<Rightarrow> bool \<Rightarrow>
    (dynamic_two_dim_matrix \<times> dynamic_two_dim_matrix) K" where
  "cdd_bdd_to_matrix_rec n r vars vals step negated =
     (if r = cddtrue \<and> \<not> negated then ret (vars, vals)
      else if r = cddtrue \<and> negated then
        bindM (ignore_current_row vars) (\<lambda>vars. bindM (ignore_current_row vals) (\<lambda>vals. ret (vars, vals)))
      else if r = cddfalse \<and> negated then ret (vars, vals)
      else if r = cddfalse \<and> \<not> negated then
        bindM (ignore_current_row vars) (\<lambda>vars. bindM (ignore_current_row vals) (\<lambda>vals. ret (vars, vals)))
      else case n of 0 \<Rightarrow> fail NoFuel | Suc n \<Rightarrow>
        bindM (cdd_isterminal r) (\<lambda>t. thenM (guardM AssertFail (\<not> t)) (
        bindM (cdd_info r) (\<lambda>info.
        if li_type info = TYPE_BDD then
          bindM (level_of r) (\<lambda>k. bindM (bdd_node r) (\<lambda>(low, high).
          bindM (add_value_to_row (int k) vars) (\<lambda>vars. bindM (add_value_to_row 1 vals) (\<lambda>vals.
          bindM (cdd_bdd_to_matrix_rec n high vars vals (step + 1) (negated \<noteq> (cdd_is_negated r \<noteq> 0))) (\<lambda>(vars, vals).
          bindM (next_row step vars) (\<lambda>vars. bindM (next_row (step - 1) vals) (\<lambda>vals.
          bindM (add_value_to_row 0 vals) (\<lambda>vals.
          cdd_bdd_to_matrix_rec n low vars vals (step + 1) (negated \<noteq> (cdd_is_negated r \<noteq> 0))))))))))
        else ret (vars, vals)))))"

declare cdd_bdd_to_matrix_rec.simps [simp del]

record bdd_arrays =
  ba_vars :: "int list"
  ba_values :: "int list"
  ba_numTraces :: nat
  ba_numBools :: nat

definition cdd_bdd_to_array :: "ptr \<Rightarrow> bdd_arrays K" where
  "cdd_bdd_to_array state =
     bindM (gets cdd_varnum) (\<lambda>vn. bindM (gets cdd_levelcnt) (\<lambda>lc.
     bindM (cdd_bdd_to_matrix_rec lc state (new_matrix vn) (new_matrix vn) 0 False) (\<lambda>(vars, vals).
     thenM (guardM AssertFail (get_current_row_size vars = get_current_row_size vals)) (
     bindM (delete_ignored_rows vars) (\<lambda>vars. bindM (delete_ignored_rows vals) (\<lambda>vals.
     thenM (guardM AssertFail (get_current_row_size vars = get_current_row_size vals)) (
     let vs = get_array (- 1) vars in
     thenM (guardM Segv (vs \<noteq> []))
     (ret \<lparr>ba_vars = vs, ba_values = get_array (- 1) vals,
           ba_numTraces = (if hd vs = - 1 then 0 else get_current_row_size vars), ba_numBools = vn\<rparr>))))))))"

end
