(* ===== verification/Cpp_Spec.thy ===== *)
theory Cpp_Spec
  imports Cpp_Class Test_Spec
begin

text \<open>
  Ownership in the class \<^verbatim>\<open>cdd\<close>: each object holds exactly one reference.  \<open>cpp X B s\<close>: the
  library runs, and \<open>X p\<close> references are held, by objects among others; an expression that
  makes an object \<open>p\<close> of a given meaning ends with \<open>makes\<close>, which adds one reference to \<open>X\<close>
  and nothing else, so no temporary leaks and none is destroyed twice.
\<close>

declare split_paired_All [simp del]

definition cpp :: "(ptr \<Rightarrow> nat) \<Rightarrow> (nat \<Rightarrow> raw_t set) \<Rightarrow> kstate \<Rightarrow> bool" where
  "cpp X B s \<longleftrightarrow> client X B s \<and> cdd_running s"

definition makes :: "(ptr \<Rightarrow> nat) \<Rightarrow> (nat \<Rightarrow> raw_t set) \<Rightarrow> kstate \<Rightarrow> (asg \<Rightarrow> bool) \<Rightarrow> nat \<Rightarrow> ptr \<Rightarrow> kstate \<Rightarrow> bool" where
  "makes X B s \<phi> k p s' \<longleftrightarrow> cpp (with_toks X [p]) B s' \<and> kframes X s s' \<and> k \<le> lv (cont s') p \<and>
     (\<forall>a. eval (cont s') a p = \<phi> a)"

lemma kframes_running: "kframes X s t \<Longrightarrow> cdd_running t = cdd_running s"
  by (simp add: kframes_def frames_def same_env_def)

lemma sim_running: "sim s t \<Longrightarrow> cdd_running t = cdd_running s"
  using sim_same_env by (simp add: same_env_def)

lemma makes_keeps: "makes X B s \<phi> k p t \<Longrightarrow> keeps_one X B s \<phi> k p t"
  by (simp add: makes_def keeps_one_def cpp_def)

lemma keeps_makes: "keeps_one X B s \<phi> k p t \<Longrightarrow> cdd_running s \<Longrightarrow> makes X B s \<phi> k p t"
  using kframes_running [of X s t] by (simp add: makes_def keeps_one_def cpp_def)

lemma makes_cong: "makes X B s \<phi> k p t \<Longrightarrow> (\<And>a. \<phi> a = \<psi> a) \<Longrightarrow> j \<le> k \<Longrightarrow> makes X B s \<psi> j p t"
  by (simp add: makes_def)

section \<open>Making and destroying objects\<close>

lemma yields_nonzero:
  assumes "yields X B s \<phi> k p t"
  shows "p \<noteq> 0"
proof
  assume "p = 0"
  then have "cdd_rglr p = 0" by (simp add: cdd_rglr_def)
  then show False using assms sound_nonzero [of t X "{cdd_rglr p}" "{}" B p] by (simp add: yields_def)
qed

lemma cpp_wrap_makes:
  assumes c: "cpp X B s" and y: "yields X B s \<phi> k p t"
  shows "wp (cpp_wrap p) (makes X B s \<phi> k) t"
proof -
  have cl: "client X B s" and r: "cdd_running s" using c by (simp_all add: cpp_def)
  have "cdd_running t" using y r kframes_running [of X s t] by (simp add: yields_def)
  then have "wp (cpp_wrap p) Q t = wp (cdd_ref p) (\<lambda>_. wp (ret p) Q) t" for Q
    using yields_nonzero [OF y] unfolding cpp_wrap_def cdd_isrunning_def wp_bind wp_gets wp_then wp_guard by simp
  moreover have "wp (cdd_ref p) (\<lambda>_ u. makes X B s \<phi> k p u) t"
    by (rule wp_mono [OF ref_yields [OF cl y]]) (rule keeps_makes [OF _ r])
  ultimately show ?thesis unfolding wp_ret by simp
qed

lemma wrap_yields:
  assumes c: "cpp X B s" and m: "wp m (yields X B s \<phi> k) s"
  shows "wp (bindM m cpp_wrap) (makes X B s \<phi> k) s"
  unfolding wp_bind by (rule wp_mono [OF m]) (rule cpp_wrap_makes [OF c])

lemma reach_yields:
  assumes c: "client X B s" and p: "reach X s p"
  shows "yields X B s (\<lambda>a. eval (cont s) a p) (lv (cont s) p) p s"
  using ret_yields [OF c p order_refl] by (simp add: wp_ret)

lemma cpp_not_makes:
  assumes c: "cpp X B s" and p: "reach X s p"
  shows "wp (cpp_not p) (makes X B s (\<lambda>a. \<not> eval (cont s) a p) (lv (cont s) p)) s"
  unfolding cpp_not_def using cpp_wrap_makes [OF c reach_yields [of X B s "cdd_neg p"]] c p by (simp add: cpp_def)

lemma cpp_copy_makes:
  assumes c: "cpp X B s" and p: "reach X s p"
  shows "wp (cpp_copy p) (makes X B s (\<lambda>a. eval (cont s) a p) (lv (cont s) p)) s"
proof -
  have r: "cdd_running s" and y: "yields X B s (\<lambda>a. eval (cont s) a p) (lv (cont s) p) p s"
    using c p reach_yields by (simp_all add: cpp_def)
  have "wp (cpp_copy p) Q s = wp (cpp_wrap p) Q s" for Q
    using r yields_nonzero [OF y] unfolding cpp_copy_def cpp_wrap_def cpp_running_def cdd_isrunning_def
    by (simp add: wp_bind wp_then wp_gets wp_guard wp_when wp_ret)
  then show ?thesis using cpp_wrap_makes [OF c y] by simp
qed

lemma cpp_destroy_spec:
  assumes "cpp (with_toks X (p # ps)) B s"
  shows "wp (cpp_destroy p) (\<lambda>_ t. cpp (with_toks X ps) B t \<and> sim s t) s"
  unfolding cpp_destroy_def using assms
  by (intro wp_mono [OF rec_deref_client [of _ X p ps B s]]) (auto simp: cpp_def sim_running)

text \<open>Destroying one of the objects keeps what the others mean.\<close>

lemma destroy_makes:
  assumes c: "cpp X B s0" and m: "makes X B s0 \<psi> j t u" and x: "makes (with_toks X [t]) B u \<phi> n x v"
  shows "wp (cpp_destroy t) (\<lambda>_ w. makes X B s0 \<phi> n x w) v"
proof -
  obtain F where cs: "core s0 X F {} B" using c by (auto simp: cpp_def client_def)
  have "with_toks X [x, t] = with_toks X [t, x]" by (rule with_toks_perm) simp
  then have v: "cpp (with_toks X (t # [x])) B v" using x by (simp add: makes_def)
  have k: "kframes X s0 v"
    using kframes_trans [OF cs, of X u "with_toks X [t]" v] m x by (simp add: makes_def with_toks_def)
  show ?thesis
  proof (rule wp_mono [OF cpp_destroy_spec [OF v]], elim conjE)
    fix y w assume w: "cpp (with_toks X [x]) B w" "sim v w"
    have "kframes X s0 w"
      by (rule kframes_trans [OF cs k frames_kframes [OF sim_frames [OF w(2)]]]) simp_all
    then show "makes X B s0 \<phi> n x w" using w x sim_fields(1) [OF w(2)] by (simp add: makes_def)
  qed
qed

lemma makes_reach:
  assumes c: "cpp X B s" and m: "makes X B s \<phi> k p u"
  shows "cpp (with_toks X [p]) B u" "reach (with_toks X [p]) u p" "eval (cont u) a p = \<phi> a" "k \<le> lv (cont u) p"
    "reach X s q \<Longrightarrow> reach (with_toks X [p]) u q" "reach X s q \<Longrightarrow> eval (cont u) a q = eval (cont s) a q"
    "reach X s q \<Longrightarrow> lv (cont u) q = lv (cont s) q"
  using m keeps_one_reach [of any_meaning X B s \<phi> k p u q] c makes_keeps [OF m] reach_tok [of p "[p]" X u]
  by (simp_all add: makes_def cpp_def)

text \<open>The rule for a temporary object.\<close>

lemma with_tmp_makes:
  assumes c: "cpp X B s" and m: "wp m (makes X B s \<psi> j) s"
    and k: "\<And>t u. makes X B s \<psi> j t u \<Longrightarrow> wp (k t) (makes (with_toks X [t]) B u \<phi> n) u"
  shows "wp (with_tmp m k) (makes X B s \<phi> n) s"
  unfolding with_tmp_def wp_bind wp_then
proof (rule wp_mono [OF m])
  fix t u assume u: "makes X B s \<psi> j t u"
  show "wp (k t) (\<lambda>x. wp (cpp_destroy t) (\<lambda>_. wp (ret x) (makes X B s \<phi> n))) u"
    by (rule wp_mono [OF k [OF u]]) (unfold wp_ret, rule destroy_makes [OF c u])
qed

section \<open>The operators\<close>

lemma cpp_apply_makes:
  assumes "op = cddop_and \<or> op = cddop_xor" "cpp X B s" "reach X s l" "reach X s r"
  shows "wp (cpp_apply l r op) (makes X B s (\<lambda>a. op_sem op (eval (cont s) a l) (eval (cont s) a r))
     (min (lv (cont s) l) (lv (cont s) r))) s"
  unfolding cpp_apply_def using assms wrap_yields [OF assms(2) apply_yields [OF assms(1)]] by (simp add: cpp_def)

lemma cpp_and_makes:
  assumes "cpp X B s" "reach X s l" "reach X s r"
  shows "wp (cpp_and l r) (makes X B s (\<lambda>a. eval (cont s) a l \<and> eval (cont s) a r) (min (lv (cont s) l) (lv (cont s) r))) s"
  using cpp_apply_makes [of cddop_and X B s l r] assms by (simp add: cpp_and_def op_sem_def cddop_and_def)

lemma cpp_xor_makes:
  assumes "cpp X B s" "reach X s l" "reach X s r"
  shows "wp (cpp_xor l r) (makes X B s (\<lambda>a. eval (cont s) a l \<noteq> eval (cont s) a r) (min (lv (cont s) l) (lv (cont s) r))) s"
  using cpp_apply_makes [of cddop_xor X B s l r] assms by (simp add: cpp_xor_def op_sem_def cddop_and_def cddop_xor_def)

lemma cpp_minus_makes:
  assumes c: "cpp X B s" and r: "reach X s l" "reach X s r"
  shows "wp (cpp_minus l r) (makes X B s (\<lambda>a. eval (cont s) a l \<and> \<not> eval (cont s) a r) (min (lv (cont s) l) (lv (cont s) r))) s"
  unfolding cpp_minus_def
proof (rule with_tmp_makes [OF c cpp_not_makes [OF c r(2)]])
  fix b u assume b: "makes X B s (\<lambda>a. \<not> eval (cont s) a r) (lv (cont s) r) b u"
  note m = makes_reach [OF c b]
  show "wp (cpp_apply l b 0) (makes (with_toks X [b]) B u (\<lambda>a. eval (cont s) a l \<and> \<not> eval (cont s) a r)
      (min (lv (cont s) l) (lv (cont s) r))) u"
    by (rule wp_mono [OF cpp_and_makes [OF m(1) m(5) [OF r(1)] m(2), unfolded cpp_and_def]])
      (erule makes_cong; use m(3) m(4) m(6,7) [OF r(1)] in \<open>auto simp: min_def\<close>)
qed

lemma cpp_or_makes:
  assumes c: "cpp X B s" and r: "reach X s l" "reach X s r"
  shows "wp (cpp_or l r) (makes X B s (\<lambda>a. eval (cont s) a l \<or> eval (cont s) a r) (min (lv (cont s) l) (lv (cont s) r))) s"
    (is "wp _ (makes X B s ?\<phi> ?k) s")
  unfolding cpp_or_def
proof (rule with_tmp_makes [OF c cpp_not_makes [OF c r(1)]])
  fix a1 u assume a: "makes X B s (\<lambda>a. \<not> eval (cont s) a l) (lv (cont s) l) a1 u"
  note m = makes_reach [OF c a]
  have ru: "reach (with_toks X [a1]) u r" using m(5) r(2) .
  show "wp (with_tmp (cpp_not r) (\<lambda>b. with_tmp (cpp_apply a1 b 0) cpp_not)) (makes (with_toks X [a1]) B u ?\<phi> ?k) u"
  proof (rule with_tmp_makes [OF m(1) cpp_not_makes [OF m(1) ru]])
    fix b v assume b: "makes (with_toks X [a1]) B u (\<lambda>a. \<not> eval (cont u) a r) (lv (cont u) r) b v"
    note n = makes_reach [OF m(1) b]
    let ?X = "with_toks (with_toks X [a1]) [b]"
    show "wp (with_tmp (cpp_apply a1 b 0) cpp_not) (makes ?X B v ?\<phi> ?k) v"
    proof (rule with_tmp_makes [OF n(1) cpp_and_makes [OF n(1) n(5) [OF m(2)] n(2), unfolded cpp_and_def]])
      fix d w assume d: "makes ?X B v (\<lambda>a. eval (cont v) a a1 \<and> eval (cont v) a b) (min (lv (cont v) a1) (lv (cont v) b)) d w"
      note o = makes_reach [OF n(1) d]
      show "wp (cpp_not d) (makes (with_toks ?X [d]) B w ?\<phi> ?k) w"
        by (rule wp_mono [OF cpp_not_makes [OF o(1,2)]], erule makes_cong)
          (use o(3,4) n(3,4) n(6,7) [OF m(2)] m(3,4) m(6,7) [OF r(2)] in \<open>auto simp: min_def split: if_splits\<close>)
    qed
  qed
qed

lemma cpp_ite_makes:
  assumes c: "cpp X B s" and r: "reach X s f" "reach X s g" "reach X s h"
  shows "wp (cpp_ite f g h) (makes X B s (\<lambda>a. if eval (cont s) a f then eval (cont s) a g else eval (cont s) a h)
     (min (lv (cont s) f) (min (lv (cont s) g) (lv (cont s) h)))) s"
    (is "wp _ (makes X B s ?\<phi> ?k) s")
  unfolding cpp_ite_def
proof (rule with_tmp_makes [OF c cpp_and_makes [OF c r(1,2)]])
  fix a1 u assume a: "makes X B s (\<lambda>a. eval (cont s) a f \<and> eval (cont s) a g) (min (lv (cont s) f) (lv (cont s) g)) a1 u"
  note m = makes_reach [OF c a]
  let ?Y = "with_toks X [a1]"
  show "wp (with_tmp (cpp_not f) (\<lambda>nf. with_tmp (cpp_and nf h) (cpp_or a1))) (makes ?Y B u ?\<phi> ?k) u"
  proof (rule with_tmp_makes [OF m(1) cpp_not_makes [OF m(1) m(5) [OF r(1)]]])
    fix nf v assume nf: "makes ?Y B u (\<lambda>a. \<not> eval (cont u) a f) (lv (cont u) f) nf v"
    note n = makes_reach [OF m(1) nf]
    let ?Z = "with_toks ?Y [nf]"
    have h: "reach ?Z v h" using n(5) m(5) r(3) by blast
    show "wp (with_tmp (cpp_and nf h) (cpp_or a1)) (makes ?Z B v ?\<phi> ?k) v"
    proof (rule with_tmp_makes [OF n(1) cpp_and_makes [OF n(1,2) h]])
      fix b w assume b: "makes ?Z B v (\<lambda>a. eval (cont v) a nf \<and> eval (cont v) a h) (min (lv (cont v) nf) (lv (cont v) h)) b w"
      note o = makes_reach [OF n(1) b]
      have e: "eval (cont w) a b = (\<not> eval (cont s) a f \<and> eval (cont s) a h)"
          "eval (cont w) a a1 = (eval (cont s) a f \<and> eval (cont s) a g)" for a
        using o(3) n(3) n(6) [OF m(5) [OF r(3)]] m(6) [OF r(1)] m(6) [OF r(3)] o(6) [OF n(5) [OF m(2)]] n(6) [OF m(2)] m(3)
        by simp_all
      have l: "min (lv (cont s) f) (lv (cont s) h) \<le> lv (cont w) b" "min (lv (cont s) f) (lv (cont s) g) \<le> lv (cont w) a1"
        using o(4) n(4) n(7) [OF m(5) [OF r(3)]] m(7) [OF r(1)] m(7) [OF r(3)] o(7) [OF n(5) [OF m(2)]] n(7) [OF m(2)] m(4)
        by (auto simp: min_def split: if_splits)
      show "wp (cpp_or a1 b) (makes (with_toks ?Z [b]) B w ?\<phi> ?k) w"
        by (rule wp_mono [OF cpp_or_makes [OF o(1) o(5) [OF n(5) [OF m(2)]] o(2)]], erule makes_cong)
          (use e l in \<open>auto simp: min_def split: if_splits\<close>)
    qed
  qed
qed

section \<open>Assignment\<close>

lemma cpp_assign_spec:
  assumes c: "cpp (with_toks X [p, this]) B s"
  shows "wp (cpp_assign this p) (\<lambda>r t. r = p \<and> cpp (with_toks X [p, p]) B t \<and> sim s t) s"
proof (cases "this = p")
  case True
  then show ?thesis using c by (simp add: cpp_assign_def wp_ret)
next
  case False
  have "with_toks X [p, this] = with_toks X [this, p]" by (rule with_toks_perm) simp
  then have c': "cpp (with_toks X (this # [p])) B s" using c by simp
  have ref: "wp (cdd_ref p) (\<lambda>_ u. cpp (with_toks X [p, p]) B u \<and> sim s u) t"
    if t: "cpp (with_toks X [p]) B t" "sim s t" for t
  proof -
    obtain F where F: "core t (with_toks X [p]) F {} B" "caches_ok t B" using t by (auto simp: cpp_def client_def)
    have "reach (with_toks X [p]) t p" by (rule reach_tok) simp
    from reach_usable [OF F(1) this, of F] have u: "usable t B F p" .
    have "cdd_rglr p = cddfalse \<or> cdd_rglr p \<in> tabled t \<and> (0 < rf t (cdd_rglr p) \<or> cdd_rglr p \<in> F)"
      using u sound_place [OF usable_sound [OF u]] by (auto simp: usable_def)
    from cdd_ref_spec [OF F(1) this] show ?thesis
      by (rule wp_mono) (use F(2) t sim_caches sim_running in \<open>auto simp: cpp_def client_def intro: sim_trans\<close>)
  qed
  show ?thesis
    unfolding cpp_assign_def if_P [OF False] wp_then wp_ret
  proof (rule wp_mono [OF cpp_destroy_spec [OF c', unfolded cpp_destroy_def]], elim conjE)
    fix x t assume "cpp (with_toks X [p]) B t" "sim s t"
    from ref [OF this] show "wp (cdd_ref p) (\<lambda>_ u. p = p \<and> cpp (with_toks X [p, p]) B u \<and> sim s u) t" by simp
  qed
qed

text \<open>The assignment operators as statements: the object's old reference is given up, it
  holds one to the result, and the copy that the operator returns is gone.\<close>

lemma makes_sim:
  assumes c: "core s X F {} B" and k: "kframes X s t" "k \<le> lv (cont t) p" "\<And>a. eval (cont t) a p = \<phi> a"
    and u: "cpp (with_toks X [p]) B u" "sim t u"
  shows "makes X B s \<phi> k p u"
  using kframes_trans [OF c k(1) frames_kframes [OF sim_frames [OF u(2), of X]]] k(2,3) u(1) sim_fields(1) [OF u(2)]
  by (simp add: makes_def)

lemma stmt_copy:
  assumes v: "cpp (with_toks X [t, t]) B v"
  shows "wp (bindM (cpp_copy t) (\<lambda>c. thenM (cpp_destroy t) (cpp_destroy c)))
    (\<lambda>_ w. cpp (with_toks X [t]) B w \<and> kframes X v w \<and> lv (cont w) t = lv (cont v) t \<and> (\<forall>a. eval (cont w) a t = eval (cont v) a t)) v"
  unfolding wp_bind wp_then
proof (rule wp_mono [OF cpp_copy_makes [OF v]])
  show rt: "reach (with_toks X [t, t]) v t" by (rule reach_tok) simp
  obtain F where cv: "core v (with_toks X [t, t]) F {} B" using v by (auto simp: cpp_def client_def)
  have cX: "core v X F {} B" by (rule core_antitone [OF cv]) (simp_all add: with_toks_def)
  fix d w assume d: "makes (with_toks X [t, t]) B v (\<lambda>a. eval (cont v) a t) (lv (cont v) t) d w"
  have "with_toks X [d, t, t] = with_toks X [t, d, t]" by (rule with_toks_perm) simp
  then have w: "cpp (with_toks X (t # [d, t])) B w" using d by (simp add: makes_def)
  have kw: "kframes X v w" using kframes_trans [OF cX kframes_refl [of X v], of "with_toks X [t, t]" w] d
    by (simp add: makes_def with_toks_def)
  note m = makes_reach [OF v d]
  show "wp (cpp_destroy t) (\<lambda>_. wp (cpp_destroy d) (\<lambda>_ w. cpp (with_toks X [t]) B w \<and> kframes X v w \<and>
      lv (cont w) t = lv (cont v) t \<and> (\<forall>a. eval (cont w) a t = eval (cont v) a t))) w"
  proof (rule wp_mono [OF cpp_destroy_spec [OF w]], elim conjE)
    fix z y assume y: "cpp (with_toks X [d, t]) B y" "sim w y"
    show "wp (cpp_destroy d) (\<lambda>_ w. cpp (with_toks X [t]) B w \<and> kframes X v w \<and>
      lv (cont w) t = lv (cont v) t \<and> (\<forall>a. eval (cont w) a t = eval (cont v) a t)) y"
    proof (rule wp_mono [OF cpp_destroy_spec [OF y(1)]], elim conjE)
      fix z x assume x: "cpp (with_toks X [t]) B x" "sim y x"
      have sx: "sim w x" using y(2) x(2) by (rule sim_trans)
      have "kframes X v x" by (rule kframes_trans [OF cX kw frames_kframes [OF sim_frames [OF sx]]]) simp_all
      then show "cpp (with_toks X [t]) B x \<and> kframes X v x \<and> lv (cont x) t = lv (cont v) t \<and>
          (\<forall>a. eval (cont x) a t = eval (cont v) a t)"
        using x(1) sim_fields(1) [OF sx] m(6,7) [OF rt] by simp
    qed
  qed
qed

lemma stmt_update_makes:
  assumes c: "cpp (with_toks X [this]) B s" and m: "wp m (makes (with_toks X [this]) B s \<phi> k) s"
  shows "wp (stmt (cpp_update this m)) (makes X B s \<phi> k) s"
proof -
  obtain F where cs: "core s (with_toks X [this]) F {} B" using c by (auto simp: cpp_def client_def)
  have cX: "core s X F {} B" by (rule core_antitone [OF cs]) (simp_all add: with_toks_def)
  show ?thesis
    unfolding stmt_def cpp_update_def with_tmp_def wp_bind wp_then wp_ret prod.case
  proof (rule wp_mono [OF m])
    fix t u assume u: "makes (with_toks X [this]) B s \<phi> k t u"
    then have cu: "cpp (with_toks X [t, this]) B u" by (simp add: makes_def)
    have ku: "kframes X s u"
      using u kframes_trans [OF cX kframes_refl [of X s], of "with_toks X [this]" u] by (simp add: makes_def with_toks_def)
    have copy: "wp (cpp_copy t) (\<lambda>c. wp (cpp_destroy t) (\<lambda>_. wp (cpp_destroy c) (\<lambda>_. makes X B s \<phi> k t))) v"
      if v: "cpp (with_toks X [t, t]) B v" "sim u v" for v
      unfolding wp_then [symmetric] wp_bind [symmetric, where k = "\<lambda>c. thenM (cpp_destroy t) (cpp_destroy c)"]
    proof (rule wp_mono [OF stmt_copy [OF v(1)]], elim conjE)
      fix z w assume w: "cpp (with_toks X [t]) B w" "kframes X v w" "lv (cont w) t = lv (cont v) t"
        "\<forall>a. eval (cont w) a t = eval (cont v) a t"
      have "kframes X s v" by (rule kframes_trans [OF cX ku frames_kframes [OF sim_frames [OF v(2)]]]) simp_all
      then have "kframes X s w" by (rule kframes_trans [OF cX _ w(2)]) simp_all
      then show "makes X B s \<phi> k t w" using w sim_fields(1) [OF v(2)] u by (simp add: makes_def)
    qed
    show "wp (cpp_assign this t) (\<lambda>this. wp (cpp_copy this) (\<lambda>c. wp (cpp_destroy t) (\<lambda>_. wp (cpp_destroy c)
        (\<lambda>_. makes X B s \<phi> k this)))) u"
      by (rule wp_mono [OF cpp_assign_spec [OF cu]]) (use copy in auto)
  qed
qed

end
