(* ===== verification/Matrix_Spec.thy ===== *)
theory Matrix_Spec
  imports Cpp_Matrix Cpp_Spec
begin

text \<open>
  What \<^verbatim>\<open>cdd_bdd_to_array\<close> returns: the paths of the diagram that end in true, in the order of a
  depth-first search that takes the high child first.  \<open>leaves\<close> lists all paths with the truth
  value at their end, which is the specification the two matrices are compared with.
\<close>

declare split_paired_All [simp del]

section \<open>The paths of a boolean diagram\<close>

type_synonym trace = "(nat \<times> bool) list"

fun leaves :: "contents \<Rightarrow> nat \<Rightarrow> ptr \<Rightarrow> bool \<Rightarrow> (trace \<times> bool) list" where
  "leaves C n r neg =
     (if cdd_rglr r = cddfalse then [([], (cdd_mask r \<noteq> 0) \<noteq> neg)]
      else case n of 0 \<Rightarrow> [] | Suc n \<Rightarrow>
        (case C (cdd_rglr r) of Some (k, Bdd lo hi) \<Rightarrow>
           map (apfst (Cons (k, True))) (leaves C n hi (neg \<noteq> (cdd_mask r \<noteq> 0))) @
           map (apfst (Cons (k, False))) (leaves C n lo (neg \<noteq> (cdd_mask r \<noteq> 0)))
         | _ \<Rightarrow> []))"

declare leaves.simps [simp del]

lemma leaves_term: "cdd_rglr r = cddfalse \<Longrightarrow> leaves C n r neg = [([], (cdd_mask r \<noteq> 0) \<noteq> neg)]"
  by (simp add: leaves.simps)

lemma leaves_node:
  assumes "cdd_rglr r \<noteq> cddfalse" "C (cdd_rglr r) = Some (k, Bdd lo hi)"
  shows "leaves C (Suc n) r neg = map (apfst (Cons (k, True))) (leaves C n hi (neg \<noteq> (cdd_mask r \<noteq> 0))) @
    map (apfst (Cons (k, False))) (leaves C n lo (neg \<noteq> (cdd_mask r \<noteq> 0)))"
  by (subst leaves.simps) (simp add: assms)

lemma cons_paths: "(t, v) \<in> apfst (Cons x) ` set L \<longleftrightarrow> (\<exists>u. t = x # u \<and> (u, v) \<in> set L)"
  by force

definition agrees :: "asg \<Rightarrow> trace \<Rightarrow> bool" where
  "agrees a t \<longleftrightarrow> list_all (\<lambda>(k, b). snd a k = b) t"

lemma agrees_simps [simp]: "agrees a []" "agrees a ((k, b) # t) \<longleftrightarrow> snd a k = b \<and> agrees a t"
  by (simp_all add: agrees_def)

definition traces :: "kstate \<Rightarrow> ptr \<Rightarrow> trace list" where
  "traces s r = map fst (filter snd (leaves (cont s) (cdd_levelcnt s) r False))"

section \<open>Nodes of boolean levels\<close>

inductive boolean :: "contents \<Rightarrow> ptr \<Rightarrow> bool" for C where
  boolean_term: "cdd_rglr p = cddfalse \<Longrightarrow> boolean C p"
| boolean_node: "C (cdd_rglr p) = Some (k, Bdd lo hi) \<Longrightarrow> boolean C lo \<Longrightarrow> boolean C hi \<Longrightarrow> boolean C p"

inductive_cases booleanE: "boolean C p"

text \<open>The number of boolean levels from \<open>k\<close> on.\<close>

definition bools :: "kstate \<Rightarrow> nat \<Rightarrow> nat" where
  "bools s k = length (filter (\<lambda>i. li_type (cdd_levelinfo s ! i) = TYPE_BDD) [k..<cdd_levelcnt s])"

lemma bools_less:
  assumes "k < m" "k < cdd_levelcnt s" "li_type (cdd_levelinfo s ! k) = TYPE_BDD"
  shows "Suc (bools s m) \<le> bools s k"
proof (cases "m \<le> cdd_levelcnt s")
  case True
  then have "[k..<cdd_levelcnt s] = k # [Suc k..<m] @ [m..<cdd_levelcnt s]"
    using assms upt_add_eq_append [of "Suc k" m "cdd_levelcnt s - m"] by (simp add: upt_conv_Cons)
  then show ?thesis using assms(3) by (simp add: bools_def)
next
  case False
  then show ?thesis using assms by (simp add: bools_def upt_conv_Cons)
qed

lemma get_node_rglr: "get_node r = get_node (cdd_rglr r)"
  by (simp add: get_node_def fun_eq_iff)

lemma bool_node:
  assumes c: "core s X F {} B" and r: "reach X s r" "cdd_rglr r \<noteq> cddfalse" and b: "boolean (cont s) r"
  obtains lo hi where "cont s (cdd_rglr r) = Some (lv (cont s) r, Bdd lo hi)" "bdd_node r s = Inr ((lo, hi), s)"
    "cdd_isterminal r s = Inr (False, s)" "level_of r s = Inr (lv (cont s) r, s)"
    "cdd_info r s = Inr (cdd_levelinfo s ! lv (cont s) r, s)" "li_type (cdd_levelinfo s ! lv (cont s) r) = TYPE_BDD"
    "reach X s lo" "reach X s hi" "lv (cont s) r < lv (cont s) lo" "lv (cont s) r < lv (cont s) hi"
    "boolean (cont s) lo" "boolean (cont s) hi" "lv (cont s) r < cdd_levelcnt s" "cdd_levelcnt s \<le> MAXLEVEL"
    "\<And>a. eval (cont s) a r = ((if snd a (lv (cont s) r) then eval (cont s) a hi else eval (cont s) a lo) \<noteq> (cdd_mask r \<noteq> 0))"
proof -
  let ?k = "lv (cont s) r"
  note nr = node_reads [OF c r]
  have rr: "reach X s (cdd_rglr r)" "cdd_rglr (cdd_rglr r) = cdd_rglr r" using r(1) by simp_all
  obtain bd where bd: "cont s (cdd_rglr r) = Some (?k, bd)" "shape_ok (cdd_levelinfo s) B ?k bd"
    "\<And>c. c \<in> set (kids bd) \<Longrightarrow> reach X s c \<and> ?k < lv (cont s) c" "?k < MAXLEVEL"
    using reach_node [OF c rr r(2)] by (metis lv_rglr)
  from b obtain lo hi where lh: "bd = Bdd lo hi" "boolean (cont s) lo" "boolean (cont s) hi"
    by (rule booleanE) (use r(2) bd(1) in auto)
  then have ty: "li_type (cdd_levelinfo s ! ?k) = TYPE_BDD" using bd(2) by (simp add: shape_ok_def)
  have nd: "bdd_node r = bdd_node (cdd_rglr r)" "level_of r = level_of (cdd_rglr r)"
    by (simp_all add: bdd_node_def level_of_def get_node_rglr [of r])
  have "levelinfo_at ?k s = Inr (cdd_levelinfo s ! ?k, s)" using nr(3) core_levels(1) [OF c] by (simp add: levelinfo_at_def)
  then have info: "cdd_info r s = Inr (cdd_levelinfo s ! ?k, s)" using nr(2) nd(2) by (simp add: cdd_info_def bindM_def)
  have ev: "eval (cont s) a (cdd_rglr r) = (if snd a ?k then eval (cont s) a hi else eval (cont s) a lo)" for a
    using eval_bdd [of s "cdd_rglr r" ?k lo hi a] bd lh by simp
  show ?thesis
  proof (rule that [of lo hi])
    show "eval (cont s) a r = ((if snd a ?k then eval (cont s) a hi else eval (cont s) a lo) \<noteq> (cdd_mask r \<noteq> 0))" for a
      using eval_split [of "cont s" a r] ev by auto
    show "bdd_node r s = Inr ((lo, hi), s)" using bdd_node_eq [of s "cdd_rglr r"] bd(1) lh nd(1) by simp
  qed (use bd lh nr nd ty info core_levels [OF c] in auto)
qed

lemma leaves_meaning:
  assumes c: "core s X F {} B" and r: "reach X s r" and b: "boolean (cont s) r"
    and n: "cdd_levelcnt s \<le> lv (cont s) r + n"
  shows "(\<exists>t. (t, v) \<in> set (leaves (cont s) n r neg) \<and> agrees a t) \<longleftrightarrow> v = (eval (cont s) a r \<noteq> neg)"
  using r b n
proof (induction n arbitrary: r neg v)
  case 0
  have "cdd_rglr r = cddfalse" using bool_node [OF c 0(1) _ 0(2)] 0(3) by (metis add_0_right not_less)
  then show ?case using core_term [OF c] eval_term [of "cont s" _ r a] by (auto simp: leaves.simps)
next
  case (Suc n)
  show ?case
  proof (cases "cdd_rglr r = cddfalse")
    case True
    then show ?thesis using core_term [OF c] eval_term [of "cont s" _ r a] by (auto simp: leaves.simps)
  next
    case False
    from bool_node [OF c Suc.prems(1) False Suc.prems(2)] obtain lo hi where
      lh: "cont s (cdd_rglr r) = Some (lv (cont s) r, Bdd lo hi)" "reach X s lo" "reach X s hi"
        "lv (cont s) r < lv (cont s) lo" "lv (cont s) r < lv (cont s) hi" "boolean (cont s) lo" "boolean (cont s) hi"
        "eval (cont s) a r = ((if snd a (lv (cont s) r) then eval (cont s) a hi else eval (cont s) a lo) \<noteq> (cdd_mask r \<noteq> 0))"
      by metis
    have IH: "(\<exists>t. (t, v) \<in> set (leaves (cont s) n hi g) \<and> agrees a t) \<longleftrightarrow> v = (eval (cont s) a hi \<noteq> g)"
      "(\<exists>t. (t, v) \<in> set (leaves (cont s) n lo g) \<and> agrees a t) \<longleftrightarrow> v = (eval (cont s) a lo \<noteq> g)" for g v
      using Suc.IH [of hi v g] Suc.IH [of lo v g] lh Suc.prems by simp_all
    have "(\<exists>t. (t, v) \<in> set (leaves (cont s) (Suc n) r neg) \<and> agrees a t) \<longleftrightarrow>
       (if snd a (lv (cont s) r) then \<exists>t. (t, v) \<in> set (leaves (cont s) n hi (neg \<noteq> (cdd_mask r \<noteq> 0))) \<and> agrees a t
        else \<exists>t. (t, v) \<in> set (leaves (cont s) n lo (neg \<noteq> (cdd_mask r \<noteq> 0))) \<and> agrees a t)"
      unfolding leaves_node [where C = "cont s", OF False lh(1)] by (cases "snd a (lv (cont s) r)") (auto simp: cons_paths)
    then show ?thesis unfolding IH lh(8) by auto
  qed
qed

text \<open>Every path meets different levels, in increasing order.\<close>

lemma leaves_length:
  assumes c: "core s X F {} B" and r: "reach X s r" and b: "boolean (cont s) r"
  shows "(t, v) \<in> set (leaves (cont s) n r neg) \<Longrightarrow> length t \<le> bools s (lv (cont s) r)"
  using r b
proof (induction n arbitrary: r neg t)
  case 0
  then show ?case by (auto simp: leaves.simps split: if_splits)
next
  case (Suc n)
  show ?case
  proof (cases "cdd_rglr r = cddfalse")
    case False
    from bool_node [OF c Suc.prems(2) False Suc.prems(3)] obtain lo hi where
      lh: "cont s (cdd_rglr r) = Some (lv (cont s) r, Bdd lo hi)" "reach X s lo" "reach X s hi"
        "lv (cont s) r < lv (cont s) lo" "lv (cont s) r < lv (cont s) hi" "boolean (cont s) lo" "boolean (cont s) hi"
        "lv (cont s) r < cdd_levelcnt s" "li_type (cdd_levelinfo s ! lv (cont s) r) = TYPE_BDD"
      by metis
    have "Suc (bools s (lv (cont s) lo)) \<le> bools s (lv (cont s) r)" "Suc (bools s (lv (cont s) hi)) \<le> bools s (lv (cont s) r)"
      using bools_less lh by simp_all
    moreover obtain u x g where "(u, v) \<in> set (leaves (cont s) n (if x then hi else lo) g)" "length t = Suc (length u)"
      using Suc.prems(1) unfolding leaves_node [where C = "cont s", OF False lh(1)]
      by (auto simp: apfst_def split: prod.splits intro: that [where x = True] that [where x = False])
    ultimately show ?thesis
      using Suc.IH [of u "if x then hi else lo" g] lh by (auto split: if_splits)
  qed (use Suc.prems(1) in \<open>auto simp: leaves.simps\<close>)
qed

lemma leaves_nonempty:
  assumes "core s X F {} B" "reach X s r" "boolean (cont s) r" "cdd_levelcnt s \<le> lv (cont s) r + n"
  shows "leaves (cont s) n r neg \<noteq> []"
  using leaves_meaning [OF assms, of True neg undefined] leaves_meaning [OF assms, of False neg undefined] by auto

section \<open>The two matrices\<close>

definition fill :: "int list list \<Rightarrow> bool list \<Rightarrow> nat \<Rightarrow> (nat \<times> bool \<Rightarrow> int) \<Rightarrow> trace \<Rightarrow> (trace \<times> bool) list \<Rightarrow> dynamic_two_dim_matrix" where
  "fill P F N f pre L =
     \<lparr>matrix = P @ map (\<lambda>x. map f (pre @ fst x)) L, rows_to_be_ignored = F @ map (Not \<circ> snd) L, num_cols = N\<rparr>"

definition var_of :: "nat \<times> bool \<Rightarrow> int" where "var_of x = int (fst x)"
definition value_of :: "nat \<times> bool \<Rightarrow> int" where "value_of x = (if snd x then 1 else 0)"

abbreviation open_row :: "(trace \<times> bool) list" where "open_row \<equiv> [([], True)]"

lemma add_value_fill:
  assumes "length pre < N" "v = f x"
  shows "add_value_to_row v (fill P F N f pre open_row) s = Inr (fill P F N f (pre @ [x]) open_row, s)"
  using assms by (simp add: add_value_to_row_def fill_def thenM_def bindM_def guardM_def ret_def)

lemma ignore_fill: "ignore_current_row (fill P F N f pre open_row) s = Inr (fill P F N f pre [([], False)], s)"
  by (simp add: ignore_current_row_def fill_def thenM_def bindM_def guardM_def ret_def)

lemma next_row_fill:
  assumes L: "L \<noteq> []" and j: "j \<le> length pre" "j \<le> N" "j = length q" "map f (take j pre) = map f q" and J: "J = int j - 1"
  shows "next_row J (fill P F N f pre L) s =
    Inr (fill (P @ map (\<lambda>x. map f (pre @ fst x)) L) (F @ map (Not \<circ> snd) L) N f q open_row, s)"
proof -
  have "last (P @ map (\<lambda>x. map f (pre @ fst x)) L) = map f (pre @ fst (last L))" using L by (simp add: last_map)
  moreover have "take j (map f (pre @ fst (last L))) = map f q" using j by (simp add: take_map flip: map_append)
  ultimately show ?thesis
    using L j J by (simp add: next_row_def fill_def thenM_def bindM_def guardM_def ret_def)
qed

lemma fill_append:
  "fill (P @ map (\<lambda>x. map f (pre @ fst x)) L) (F @ map (Not \<circ> snd) L) N f q M =
   \<lparr>matrix = P @ map (\<lambda>x. map f (pre @ fst x)) L @ map (\<lambda>x. map f (q @ fst x)) M,
    rows_to_be_ignored = F @ map (Not \<circ> snd) (L @ M), num_cols = N\<rparr>"
  by (simp add: fill_def)

lemma matrix_rec:
  assumes c: "core s X F0 {} B"
  shows "reach X s r \<Longrightarrow> boolean (cont s) r \<Longrightarrow> cdd_levelcnt s \<le> lv (cont s) r + n \<Longrightarrow>
    length pre + (bools s (lv (cont s) r)) \<le> N \<Longrightarrow>
    cdd_bdd_to_matrix_rec n r (fill P F N var_of pre open_row) (fill Q F N value_of pre open_row) (int (length pre)) neg s =
    Inr ((fill P F N var_of pre (leaves (cont s) n r neg), fill Q F N value_of pre (leaves (cont s) n r neg)), s)"
proof (induction n arbitrary: r pre P Q F neg)
  case 0
  have t: "cdd_rglr r = cddfalse" using bool_node [OF c 0(1) _ 0(2)] 0(3) by (metis add_0_right not_less)
  then have "r = cddfalse \<or> r = cddtrue" by (rule tf_cases)
  then show ?case
    using leaves_term [OF t, of "cont s" 0 neg]
    by (subst cdd_bdd_to_matrix_rec.simps) (auto simp: ret_def bindM_def ignore_fill)
next
  case (Suc n)
  show ?case
  proof (cases "cdd_rglr r = cddfalse")
    case t: True
    then have "r = cddfalse \<or> r = cddtrue" by (rule tf_cases)
    then show ?thesis
      using leaves_term [OF t, of "cont s" "Suc n" neg]
      by (subst cdd_bdd_to_matrix_rec.simps) (auto simp: ret_def bindM_def ignore_fill)
  next
    case False
    let ?k = "lv (cont s) r" and ?g = "neg \<noteq> (cdd_mask r \<noteq> 0)"
    from bool_node [OF c Suc.prems(1) False Suc.prems(2)] obtain lo hi where
      lh: "cont s (cdd_rglr r) = Some (?k, Bdd lo hi)" "bdd_node r s = Inr ((lo, hi), s)"
        "cdd_isterminal r s = Inr (False, s)" "level_of r s = Inr (?k, s)"
        "cdd_info r s = Inr (cdd_levelinfo s ! ?k, s)" "li_type (cdd_levelinfo s ! ?k) = TYPE_BDD"
      and r: "reach X s lo" "reach X s hi" "?k < lv (cont s) lo" "?k < lv (cont s) hi" "?k < cdd_levelcnt s"
      and b: "boolean (cont s) lo" "boolean (cont s) hi"
      by metis
    have dn: "Suc (bools s (lv (cont s) lo)) \<le> bools s ?k" "Suc (bools s (lv (cont s) hi)) \<le> bools s ?k"
      using bools_less r lh(6) by simp_all
    have nt: "r \<noteq> cddfalse" "r \<noteq> cddtrue" using False by auto
    have N: "length pre < N" using Suc.prems(4) dn by simp
    have ne: "leaves (cont s) n hi ?g \<noteq> []" using leaves_nonempty [OF c r(2) b(2)] Suc.prems(3) r(4) by simp
    define g where "g = (neg \<noteq> (cdd_mask r \<noteq> 0))"
    define H where "H = leaves (cont s) n hi g"
    define PH where "PH = P @ map (\<lambda>x. map var_of ((pre @ [(?k, True)]) @ fst x)) H"
    define QH where "QH = Q @ map (\<lambda>x. map value_of ((pre @ [(?k, True)]) @ fst x)) H"
    define FH where "FH = F @ map (Not \<circ> snd) H"
    let ?t = "pre @ [(?k, True)]" and ?f = "pre @ [(?k, False)]"
    have len: "int (length (pre @ [(?k, x)])) = int (length pre) + 1" for x by simp
    have hi: "cdd_bdd_to_matrix_rec n hi (fill P F N var_of ?t open_row) (fill Q F N value_of ?t open_row) (int (length pre) + 1) g s =
        Inr ((fill P F N var_of ?t H, fill Q F N value_of ?t H), s)"
      unfolding len [of True, symmetric] H_def by (rule Suc.IH [OF r(2) b(2)]) (use Suc.prems(3,4) r(4) dn in simp_all)
    have lo: "cdd_bdd_to_matrix_rec n lo (fill PH FH N var_of ?f open_row) (fill QH FH N value_of ?f open_row) (int (length pre) + 1) g s =
        Inr ((fill PH FH N var_of ?f (leaves (cont s) n lo g), fill QH FH N value_of ?f (leaves (cont s) n lo g)), s)"
      unfolding len [of False, symmetric] by (rule Suc.IH [OF r(1) b(1)]) (use Suc.prems(3,4) r(3) dn in simp_all)
    have nv: "next_row (int (length pre)) (fill P F N var_of ?t H) s = Inr (fill PH FH N var_of ?f open_row, s)"
      unfolding PH_def FH_def
      by (rule next_row_fill [where j = "Suc (length pre)", OF ne [folded g_def, folded H_def]]) (use N in \<open>simp_all add: var_of_def\<close>)
    have nw: "next_row (int (length pre) - 1) (fill Q F N value_of ?t H) s = Inr (fill QH FH N value_of pre open_row, s)"
      unfolding QH_def FH_def
      by (rule next_row_fill [where j = "length pre", OF ne [folded g_def, folded H_def]]) (use N in simp_all)
    have m: "(neg = (cdd_is_negated r = 0)) = g" by (auto simp: cdd_is_negated_def cdd_mask_def g_def)
    have out: "fill PH FH N var_of ?f M = fill P F N var_of pre (map (apfst (Cons (?k, True))) H @ map (apfst (Cons (?k, False))) M)"
        "fill QH FH N value_of ?f M = fill Q F N value_of pre (map (apfst (Cons (?k, True))) H @ map (apfst (Cons (?k, False))) M)" for M
      by (simp_all add: fill_def comp_def PH_def QH_def FH_def)
    have av: "add_value_to_row (int ?k) (fill P F N var_of pre open_row) s = Inr (fill P F N var_of ?t open_row, s)"
        "add_value_to_row 1 (fill Q F N value_of pre open_row) s = Inr (fill Q F N value_of ?t open_row, s)"
        "add_value_to_row 0 (fill QH FH N value_of pre open_row) s = Inr (fill QH FH N value_of ?f open_row, s)"
      by (rule add_value_fill [OF N]; simp add: var_of_def value_of_def)+
    show ?thesis
      unfolding leaves_node [where C = "cont s", OF False lh(1)] g_def [symmetric] H_def [symmetric] out [symmetric]
      by (subst cdd_bdd_to_matrix_rec.simps) (simp add: nt bindM_def thenM_def guardM_def lh m hi nv nw lo av)
  qed
qed

section \<open>The arrays\<close>

text \<open>A node has a path to each truth value, because its children differ.\<close>

lemma leaves_both:
  assumes c: "core s X F {} B" and r: "reach X s r" "boolean (cont s) r" and n: "cdd_levelcnt s \<le> lv (cont s) r + n"
    and t: "cdd_rglr r \<noteq> cddfalse"
  shows "\<exists>t. (t, v) \<in> set (leaves (cont s) n r neg)"
  using r n t
proof (induction n arbitrary: r neg v)
  case 0
  from bool_node [OF c 0(1,4,2)] 0(3) show ?case by (metis add_0_right not_less)
next
  case (Suc n)
  let ?g = "neg \<noteq> (cdd_mask r \<noteq> 0)"
  from bool_node [OF c Suc.prems(1,4,2)] obtain lo hi where
    lh: "cont s (cdd_rglr r) = Some (lv (cont s) r, Bdd lo hi)" "reach X s lo" "reach X s hi"
      "lv (cont s) r < lv (cont s) lo" "lv (cont s) r < lv (cont s) hi" "boolean (cont s) lo" "boolean (cont s) hi"
    by metis
  have "lo \<noteq> hi"
    using reach_node [OF c _ _ Suc.prems(4)] Suc.prems(1) lh(1) by (auto simp: shape_ok_def)
  have one: "\<exists>t. (t, v) \<in> set (leaves (cont s) n x ?g)"
    if "x \<in> {lo, hi}" "cdd_rglr x \<noteq> cddfalse" for x v
    using Suc.IH [of x v ?g] that lh Suc.prems by auto
  have "\<exists>t. (t, v) \<in> set (leaves (cont s) n lo ?g) \<union> set (leaves (cont s) n hi ?g)"
  proof (cases "cdd_rglr lo = cddfalse \<and> cdd_rglr hi = cddfalse")
    case True
    then have "lo = cddfalse \<and> hi = cddtrue \<or> lo = cddtrue \<and> hi = cddfalse" using \<open>lo \<noteq> hi\<close> tf_cases [of lo] tf_cases [of hi] by blast
    then show ?thesis by (cases v; cases ?g) (auto simp: leaves_term)
  next
    case False
    then show ?thesis using one [of lo v] one [of hi v] by auto
  qed
  then show ?case
    unfolding leaves_node [where C = "cont s", OF Suc.prems(4) lh(1)] by (auto simp: cons_paths)
qed

lemma leaves_not_Nil: "cdd_rglr r \<noteq> cddfalse \<Longrightarrow> ([], v) \<notin> set (leaves C n r neg)"
  by (subst leaves.simps) (auto split: nat.splits option.splits body.splits prod.splits)

lemma delete_fill:
  "delete_ignored_rows (fill [] [] N f [] L) s =
   Inr ((fill [] [] N f [] L)\<lparr>matrix := map (map f) (map fst (filter snd L))\<rparr>, s)"
proof -
  have "map fst (filter (\<lambda>(row, ign). \<not> ign) (zip (map (\<lambda>x. map f (fst x)) L) (map (Not \<circ> snd) L))) =
      map (map f) (map fst (filter snd L))"
    by (induction L) auto
  then show ?thesis
    by (simp add: delete_ignored_rows_def fill_def thenM_def bindM_def guardM_def ret_def)
qed

definition arrays_of :: "nat \<Rightarrow> trace list \<Rightarrow> bdd_arrays" where
  "arrays_of vn ts = \<lparr>ba_vars = concat (map (\<lambda>t. pad vn (- 1) (map var_of t)) ts),
     ba_values = concat (map (\<lambda>t. pad vn (- 1) (map value_of t)) ts), ba_numTraces = length ts, ba_numBools = vn\<rparr>"

lemma array_run:
  assumes c: "core s X F {} B" and r: "reach X s r" "boolean (cont s) r" "bools s (lv (cont s) r) \<le> cdd_varnum s"
  shows "cdd_bdd_to_array r s =
    (let A = arrays_of (cdd_varnum s) (traces s r) in
     if ba_vars A = [] then Inl Segv else Inr (if hd (ba_vars A) = - 1 then A\<lparr>ba_numTraces := 0\<rparr> else A, s))"
proof -
  have new: "new_matrix (cdd_varnum s) = fill [] [] (cdd_varnum s) f [] open_row" for f
    by (simp add: new_matrix_def fill_def)
  have run: "cdd_bdd_to_matrix_rec (cdd_levelcnt s) r (new_matrix (cdd_varnum s)) (new_matrix (cdd_varnum s)) 0 False s =
      Inr ((fill [] [] (cdd_varnum s) var_of [] (leaves (cont s) (cdd_levelcnt s) r False),
            fill [] [] (cdd_varnum s) value_of [] (leaves (cont s) (cdd_levelcnt s) r False)), s)"
    using matrix_rec [OF c r(1,2), of "cdd_levelcnt s" "[]" "cdd_varnum s" "[]" "[]" "[]" False] r(3)
    by (simp flip: new [of var_of] new [of value_of])
  have arr: "get_array (- 1) ((fill [] [] N f [] L)\<lparr>matrix := map (map f) ts\<rparr>) = concat (map (\<lambda>t. pad N (- 1) (map f t)) ts)" for N f L ts
    by (simp add: get_array_def fill_def comp_def)
  show ?thesis
    unfolding cdd_bdd_to_array_def
    by (simp add: bindM_def thenM_def gets_def run delete_fill guardM_def ret_def get_current_row_size_def Let_def arr arrays_of_def
        flip: traces_def) (simp add: fill_def)
qed

lemma traces_meaning:
  assumes c: "core s X F {} B" and r: "reach X s r" "boolean (cont s) r"
  shows "eval (cont s) a r \<longleftrightarrow> (\<exists>t \<in> set (traces s r). agrees a t)"
  using leaves_meaning [OF c r, of "cdd_levelcnt s" True False a] by (auto simp: traces_def image_iff)

theorem cdd_bdd_to_array_spec:
  assumes c: "core s X F {} B" and r: "reach X s r" "cdd_rglr r \<noteq> cddfalse" "boolean (cont s) r"
    and v: "bools s (lv (cont s) r) \<le> cdd_varnum s"
  shows "cdd_bdd_to_array r s = Inr (arrays_of (cdd_varnum s) (traces s r), s)"
proof -
  obtain t0 where "(t0, True) \<in> set (leaves (cont s) (cdd_levelcnt s) r False)"
    using leaves_both [OF c r(1,3) _ r(2), of "cdd_levelcnt s" True False] by auto
  then have "traces s r \<noteq> []" by (force simp: traces_def filter_empty_conv)
  then obtain t ts where ts: "traces s r = t # ts" by (cases "traces s r") auto
  have "t \<in> set (traces s r)" using ts by simp
  then have "t \<noteq> []" using leaves_not_Nil [OF r(2), of _ "cont s" "cdd_levelcnt s" False] by (auto simp: traces_def)
  then obtain x u where "t = x # u" by (cases t) auto
  then have "ba_vars (arrays_of (cdd_varnum s) (traces s r)) \<noteq> []" "hd (ba_vars (arrays_of (cdd_varnum s) (traces s r))) \<noteq> - 1"
    by (simp_all add: arrays_of_def ts pad_def var_of_def)
  then show ?thesis unfolding array_run [OF c r(1,3) v] by simp
qed

text \<open>Without a trace the element that the code tests does not exist, and one empty trace is taken for none.\<close>

lemma cdd_bdd_to_array_terminal:
  assumes c: "core s X F {} B"
  shows "cdd_bdd_to_array cddfalse s = Inl Segv"
    "0 < cdd_varnum s \<Longrightarrow> cdd_bdd_to_array cddtrue s =
       Inr (\<lparr>ba_vars = replicate (cdd_varnum s) (- 1), ba_values = replicate (cdd_varnum s) (- 1), ba_numTraces = 0,
             ba_numBools = cdd_varnum s\<rparr>, s)"
proof -
  have lv: "lv (cont s) p = MAXLEVEL" if "cdd_rglr p = cddfalse" for p using lv_term [OF c that] .
  have b: "boolean (cont s) cddfalse" "boolean (cont s) cddtrue" "bools s MAXLEVEL = 0"
    using core_levels [OF c] by (simp_all add: boolean_term bools_def)
  have tr: "traces s cddfalse = []" "traces s cddtrue = [[]]" by (simp_all add: traces_def leaves_term)
  show "cdd_bdd_to_array cddfalse s = Inl Segv"
    using array_run [OF c, of cddfalse] b by (simp add: lv reach_term tr arrays_of_def)
  show "cdd_bdd_to_array cddtrue s =
       Inr (\<lparr>ba_vars = replicate (cdd_varnum s) (- 1), ba_values = replicate (cdd_varnum s) (- 1), ba_numTraces = 0,
             ba_numBools = cdd_varnum s\<rparr>, s)" if "0 < cdd_varnum s"
    using array_run [OF c, of cddtrue] b that by (simp add: lv reach_term tr arrays_of_def pad_def Let_def)
qed

end
