(* ===== verification/Session.thy ===== *)
theory Session
  imports Cpp_Spec Startup
begin

text \<open>
  Programs over the C++ interface: sequences of commands that make, combine, assign and destroy
  objects of the class \<^verbatim>\<open>cdd\<close>.  The abstract program works on sets of timed states instead
  of nodes; every run of the library refines it, keeps the invariant, and can go on with any
  enabled command unless memory runs out.
\<close>

declare split_paired_All [simp del]

section \<open>Commands\<close>

text \<open>The operands are indices into the list of live objects.\<close>

datatype command =
    MkTrue | MkFalse | MkVar nat | MkNVar nat
  | MkInterval nat nat raw_t raw_t | MkUpper nat nat raw_t | MkLower nat nat raw_t
  | MkCopy nat | MkNot nat | MkAnd nat nat | MkOr nat nat | MkXor nat nat | MkMinus nat nat | MkIte nat nat nat
  | AndAssign nat nat | OrAssign nat nat | MinusAssign nat nat | XorAssign nat nat
  | Destroy nat

definition rest :: "nat \<Rightarrow> 'a list \<Rightarrow> 'a list" where
  "rest i xs = take i xs @ drop (Suc i) xs"

definition made :: "ptr K \<Rightarrow> ptr list \<Rightarrow> ptr list K" where
  "made m hs = bindM m (\<lambda>p. ret (p # hs))"

definition updated :: "ptr K \<Rightarrow> nat \<Rightarrow> ptr list \<Rightarrow> ptr list K" where
  "updated m i hs = bindM m (\<lambda>p. ret (hs[i := p]))"

fun exec :: "command \<Rightarrow> ptr list \<Rightarrow> ptr list K" where
  "exec MkTrue hs = made cpp_true hs"
| "exec MkFalse hs = made cpp_false hs"
| "exec (MkVar k) hs = made (cdd_bddvarpp k) hs"
| "exec (MkNVar k) hs = made (cdd_bddnvarpp k) hs"
| "exec (MkInterval i j lo up) hs = made (cdd_intervalpp i j lo up) hs"
| "exec (MkUpper i j b) hs = made (cdd_upperpp i j b) hs"
| "exec (MkLower i j b) hs = made (cdd_lowerpp i j b) hs"
| "exec (MkCopy x) hs = made (cpp_copy (hs ! x)) hs"
| "exec (MkNot x) hs = made (cpp_not (hs ! x)) hs"
| "exec (MkAnd x y) hs = made (cpp_and (hs ! x) (hs ! y)) hs"
| "exec (MkOr x y) hs = made (cpp_or (hs ! x) (hs ! y)) hs"
| "exec (MkXor x y) hs = made (cpp_xor (hs ! x) (hs ! y)) hs"
| "exec (MkMinus x y) hs = made (cpp_minus (hs ! x) (hs ! y)) hs"
| "exec (MkIte x y z) hs = made (cpp_ite (hs ! x) (hs ! y) (hs ! z)) hs"
| "exec (AndAssign x y) hs = updated (stmt (cpp_and_assign (hs ! x) (hs ! y))) x hs"
| "exec (OrAssign x y) hs = updated (stmt (cpp_or_assign (hs ! x) (hs ! y))) x hs"
| "exec (MinusAssign x y) hs = updated (stmt (cpp_minus_assign (hs ! x) (hs ! y))) x hs"
| "exec (XorAssign x y) hs = updated (stmt (cpp_xor_assign (hs ! x) (hs ! y))) x hs"
| "exec (Destroy x) hs = thenM (cpp_destroy (hs ! x)) (ret (rest x hs))"

section \<open>The abstract program\<close>

text \<open>A timed state: values of the clocks and of the boolean levels.\<close>

type_synonym timed = "(nat \<Rightarrow> real) \<times> (nat \<Rightarrow> bool)"

fun spec :: "command \<Rightarrow> (timed \<Rightarrow> bool) list \<Rightarrow> (timed \<Rightarrow> bool) list" where
  "spec MkTrue ms = (\<lambda>_. True) # ms"
| "spec MkFalse ms = (\<lambda>_. False) # ms"
| "spec (MkVar k) ms = (\<lambda>(v, b). b k) # ms"
| "spec (MkNVar k) ms = (\<lambda>(v, b). \<not> b k) # ms"
| "spec (MkInterval i j lo up) ms = (\<lambda>(v, b). \<not> bnd_sat (v i - v j) lo \<and> bnd_sat (v i - v j) up) # ms"
| "spec (MkUpper i j bd) ms = (\<lambda>(v, b). bnd_sat (v i - v j) bd) # ms"
| "spec (MkLower i j bd) ms = (\<lambda>(v, b). \<not> bnd_sat (v i - v j) bd) # ms"
| "spec (MkCopy x) ms = ms ! x # ms"
| "spec (MkNot x) ms = (\<lambda>w. \<not> (ms ! x) w) # ms"
| "spec (MkAnd x y) ms = (\<lambda>w. (ms ! x) w \<and> (ms ! y) w) # ms"
| "spec (MkOr x y) ms = (\<lambda>w. (ms ! x) w \<or> (ms ! y) w) # ms"
| "spec (MkXor x y) ms = (\<lambda>w. (ms ! x) w \<noteq> (ms ! y) w) # ms"
| "spec (MkMinus x y) ms = (\<lambda>w. (ms ! x) w \<and> \<not> (ms ! y) w) # ms"
| "spec (MkIte x y z) ms = (\<lambda>w. if (ms ! x) w then (ms ! y) w else (ms ! z) w) # ms"
| "spec (AndAssign x y) ms = ms[x := \<lambda>w. (ms ! x) w \<and> (ms ! y) w]"
| "spec (OrAssign x y) ms = ms[x := \<lambda>w. (ms ! x) w \<or> (ms ! y) w]"
| "spec (MinusAssign x y) ms = ms[x := \<lambda>w. (ms ! x) w \<and> \<not> (ms ! y) w]"
| "spec (XorAssign x y) ms = ms[x := \<lambda>w. (ms ! x) w \<noteq> (ms ! y) w]"
| "spec (Destroy x) ms = rest x ms"

text \<open>What the interface asks for: objects that exist, levels of the right kind, bounds among \<open>B\<close>.\<close>

definition bound_ok :: "(nat \<Rightarrow> raw_t set) \<Rightarrow> kstate \<Rightarrow> nat \<Rightarrow> nat \<Rightarrow> raw_t \<Rightarrow> bool" where
  "bound_ok B s i j b \<longleftrightarrow> i \<noteq> j \<and> (\<exists>k. level_at s (max i j) (min i j) k \<and>
     flippable b \<and> b \<noteq> - bnd_INF \<and> (if j < i then b \<in> B k else bnd_u2l b \<in> B k))"

definition range_ok :: "(nat \<Rightarrow> raw_t set) \<Rightarrow> kstate \<Rightarrow> nat \<Rightarrow> nat \<Rightarrow> raw_t \<Rightarrow> raw_t \<Rightarrow> bool" where
  "range_ok B s i j lo up \<longleftrightarrow> i \<noteq> j \<and> flippable lo \<and> flippable up \<and> lo < up \<and> (- bnd_INF < lo \<or> up < bnd_INF) \<and>
     (\<exists>k. level_at s (max i j) (min i j) k \<and>
       (if j < i then {lo, up} - {- bnd_INF} \<subseteq> B k else {bnd_u2l up, bnd_l2u lo} - {- bnd_INF} \<subseteq> B k))"

definition bool_level :: "kstate \<Rightarrow> nat \<Rightarrow> bool" where
  "bool_level s k \<longleftrightarrow> k < cdd_levelcnt s \<and> li_type (cdd_levelinfo s ! k) = TYPE_BDD"

fun operands :: "command \<Rightarrow> nat list" where
  "operands (MkCopy x) = [x]" | "operands (MkNot x) = [x]" | "operands (Destroy x) = [x]"
| "operands (MkAnd x y) = [x, y]" | "operands (MkOr x y) = [x, y]" | "operands (MkXor x y) = [x, y]"
| "operands (MkMinus x y) = [x, y]" | "operands (MkIte x y z) = [x, y, z]"
| "operands (AndAssign x y) = [x, y]" | "operands (OrAssign x y) = [x, y]"
| "operands (MinusAssign x y) = [x, y]" | "operands (XorAssign x y) = [x, y]"
| "operands _ = []"

definition enabled :: "(nat \<Rightarrow> raw_t set) \<Rightarrow> kstate \<Rightarrow> ptr list \<Rightarrow> command \<Rightarrow> bool" where
  "enabled B s hs c \<longleftrightarrow> list_all (\<lambda>x. x < length hs) (operands c) \<and>
     (case c of MkVar k \<Rightarrow> bool_level s k | MkNVar k \<Rightarrow> bool_level s k
      | MkInterval i j lo up \<Rightarrow> range_ok B s i j lo up | MkUpper i j b \<Rightarrow> bound_ok B s i j b
      | MkLower i j b \<Rightarrow> bound_ok B s i j b | _ \<Rightarrow> True)"

section \<open>The simulation\<close>

definition at_clocks :: "LevelInfo list \<Rightarrow> timed \<Rightarrow> asg" where
  "at_clocks L w = (\<lambda>k. fst w (li_clock1 (L ! k)) - fst w (li_clock2 (L ! k)), snd w)"

lemma clock_asg_at: "clock_asg L (fst w) (at_clocks L w)"
  by (simp add: clock_asg_def at_clocks_def)

definition means :: "kstate \<Rightarrow> ptr \<Rightarrow> timed \<Rightarrow> bool" where
  "means s p w = eval (cont s) (at_clocks (cdd_levelinfo s) w) p"

abbreviation objs :: "ptr list \<Rightarrow> ptr \<Rightarrow> nat" where
  "objs hs \<equiv> with_toks (\<lambda>_. 0) hs"

definition related :: "(nat \<Rightarrow> raw_t set) \<Rightarrow> kstate \<Rightarrow> ptr list \<Rightarrow> (timed \<Rightarrow> bool) list \<Rightarrow> bool" where
  "related B s hs ms \<longleftrightarrow> cpp (objs hs) B s \<and> map (means s) hs = ms"

lemma with_toks_append: "with_toks (with_toks X ps) qs = with_toks X (qs @ ps)"
  by (simp add: with_toks_def fun_eq_iff)

lemma cpp_fewer: "cpp (with_toks X ps) B s \<Longrightarrow> cpp X B s"
  unfolding cpp_def client_def using core_antitone [of s "with_toks X ps" _ "{}" B _ X] by (fastforce simp: with_toks_def)

text \<open>\<open>gives X B s f\<close>: an object with the meaning \<open>f\<close> is made.\<close>

definition gives :: "(ptr \<Rightarrow> nat) \<Rightarrow> (nat \<Rightarrow> raw_t set) \<Rightarrow> kstate \<Rightarrow> (timed \<Rightarrow> bool) \<Rightarrow> ptr \<Rightarrow> kstate \<Rightarrow> bool" where
  "gives X B s f p t \<longleftrightarrow> (\<exists>\<phi> k. makes X B s \<phi> k p t \<and> (\<forall>w. \<phi> (at_clocks (cdd_levelinfo s) w) = f w))"

lemma makes_gives: "makes X B s \<phi> k p t \<Longrightarrow> (\<And>w. \<phi> (at_clocks (cdd_levelinfo s) w) = f w) \<Longrightarrow> gives X B s f p t"
  by (auto simp: gives_def)

lemma gives_means:
  assumes c: "cpp X B s" and g: "gives X B s f p t"
  shows "cpp (with_toks X [p]) B t" "means t p = f" "reach X s q \<Longrightarrow> means t q = means s q"
proof -
  from g obtain \<phi> k where m: "makes X B s \<phi> k p t" "\<And>w. \<phi> (at_clocks (cdd_levelinfo s) w) = f w" by (auto simp: gives_def)
  have "cdd_levelinfo t = cdd_levelinfo s" using m(1) kframes_env [of X s t] by (simp add: makes_def)
  note l = this and r = makes_reach [OF c m(1)]
  show "cpp (with_toks X [p]) B t" by (rule r(1))
  show "means t p = f" using r(3) m(2) by (simp add: means_def l fun_eq_iff)
  show "means t q = means s q" if "reach X s q" using r(6) [OF that] by (simp add: means_def l fun_eq_iff)
qed

lemma obj_reach: "p \<in> set hs \<Longrightarrow> reach (objs hs) s p"
  by (rule reach_tok)

lemma made_related:
  assumes r: "related B s hs ms" and m: "wp m (gives (objs hs) B s f) s"
  shows "wp (made m hs) (\<lambda>hs' t. related B t hs' (f # ms)) s"
  unfolding made_def wp_bind wp_ret
proof (rule wp_mono [OF m])
  fix p t assume g: "gives (objs hs) B s f p t"
  have c: "cpp (objs hs) B s" and ms: "map (means s) hs = ms" using r by (simp_all add: related_def)
  have "map (means t) hs = ms"
    using gives_means(3) [OF c g obj_reach] ms by (simp cong: map_cong)
  then show "related B t (p # hs) (f # ms)"
    using gives_means(1,2) [OF c g] by (simp add: related_def with_toks_append)
qed

lemma rest_perm:
  assumes "i < length xs"
  shows "mset (x # rest i xs) = mset (xs[i := x])" "set (rest i xs) \<subseteq> set xs"
proof -
  have "xs[i := x] = take i xs @ x # drop (Suc i) xs" using assms by (simp add: upd_conv_take_nth_drop)
  then show "mset (x # rest i xs) = mset (xs[i := x])" by (simp add: rest_def)
  show "set (rest i xs) \<subseteq> set xs" by (auto simp: rest_def dest: in_set_takeD in_set_dropD)
qed

lemma objs_rest: "i < length hs \<Longrightarrow> objs (p # rest i hs) = objs (hs[i := p])"
  by (rule with_toks_perm) (rule rest_perm)

lemma updated_related:
  assumes r: "related B s hs ms" and i: "i < length hs"
    and m: "wp m (gives (objs (rest i hs)) B s f) s"
  shows "wp (updated m i hs) (\<lambda>hs' t. related B t hs' (ms[i := f])) s"
  unfolding updated_def wp_bind wp_ret
proof (rule wp_mono [OF m])
  fix p t assume g: "gives (objs (rest i hs)) B s f p t"
  have c: "cpp (objs hs) B s" and ms: "map (means s) hs = ms" using r by (simp_all add: related_def)
  have "cpp (with_toks (objs (rest i hs)) [hs ! i]) B s"
    using c objs_rest [OF i, of "hs ! i"] by (simp add: with_toks_append)
  note cr = cpp_fewer [OF this]
  have keep: "means t (hs ! j) = means s (hs ! j)" if "j < length hs" "j \<noteq> i" for j
  proof (rule gives_means(3) [OF cr g obj_reach])
    show "hs ! j \<in> set (rest i hs)"
      using that i by (cases "j < i") (auto simp: rest_def in_set_conv_nth intro: exI [of _ j] exI [of _ "j - Suc i"])
  qed
  have "map (means t) (hs[i := p]) = ms[i := f]"
    by (rule nth_equalityI) (use ms i keep gives_means(2) [OF cr g] in \<open>auto simp: nth_list_update\<close>)
  then show "related B t (hs[i := p]) (ms[i := f])"
    using gives_means(1) [OF cr g] objs_rest [OF i, of p] by (simp add: related_def with_toks_append)
qed

section \<open>The commands one by one\<close>

lemma wrap_clocks:
  assumes c: "cpp X B s" and m: "wp m (yields_clocks X B s P) s"
  shows "wp (bindM m cpp_wrap) (gives X B s (\<lambda>w. P (fst w))) s" "wp (bindM m (\<lambda>p. cpp_wrap (cdd_neg p))) (gives X B s (\<lambda>w. \<not> P (fst w))) s"
proof -
  have y: "yields X B s (\<lambda>a. eval (cont t) a p) 0 p t" if "yields_clocks X B s P p t" for p t
    using that by (simp add: yields_def yields_clocks_def)
  have e: "eval (cont t) (at_clocks (cdd_levelinfo s) w) p = P (fst w)" if "yields_clocks X B s P p t" for p t w
    using that clock_asg_at by (auto simp: yields_clocks_def)
  show "wp (bindM m cpp_wrap) (gives X B s (\<lambda>w. P (fst w))) s"
    unfolding wp_bind
  proof (rule wp_mono [OF m])
    fix p t assume yt: "yields_clocks X B s P p t"
    show "wp (cpp_wrap p) (gives X B s (\<lambda>w. P (fst w))) t"
      by (rule wp_mono [OF cpp_wrap_makes [OF c y [OF yt]]]) (erule makes_gives, rule e [OF yt])
  qed
  show "wp (bindM m (\<lambda>p. cpp_wrap (cdd_neg p))) (gives X B s (\<lambda>w. \<not> P (fst w))) s"
    unfolding wp_bind
  proof (rule wp_mono [OF m])
    fix p t assume yt: "yields_clocks X B s P p t"
    show "wp (cpp_wrap (cdd_neg p)) (gives X B s (\<lambda>w. \<not> P (fst w))) t"
      by (rule wp_mono [OF cpp_wrap_makes [OF c yields_neg [OF y [OF yt]]]]) (erule makes_gives, simp add: e [OF yt])
  qed
qed

lemma const_makes:
  assumes c: "cpp X B s"
  shows "wp cpp_true (gives X B s (\<lambda>_. True)) s" "wp cpp_false (gives X B s (\<lambda>_. False)) s"
proof -
  obtain F where F: "core s X F {} B" "client X B s" using c by (auto simp: cpp_def client_def)
  have t: "yields X B s (\<lambda>a. eval (cont s) a p) (lv (cont s) p) p s" if "cdd_rglr p = cddfalse" for p
    by (rule reach_yields [OF F(2) reach_term [OF that]])
  have e: "eval (cont s) a cddtrue" "\<not> eval (cont s) a cddfalse" for a
    using eval_term [of "cont s" MAXLEVEL _ a] core_term(1) [OF F(1)] by simp_all
  show "wp cpp_true (gives X B s (\<lambda>_. True)) s"
    unfolding cpp_true_def by (rule wp_mono [OF cpp_wrap_makes [OF c t]], simp, erule makes_gives, simp add: e)
  show "wp cpp_false (gives X B s (\<lambda>_. False)) s"
    unfolding cpp_false_def by (rule wp_mono [OF cpp_wrap_makes [OF c t]], simp, erule makes_gives, simp add: e)
qed

lemma var_makes:
  assumes c: "cpp X B s" and k: "bool_level s k"
  shows "wp (cdd_bddvarpp k) (gives X B s (\<lambda>(v, b). b k)) s" "wp (cdd_bddnvarpp k) (gives X B s (\<lambda>(v, b). \<not> b k)) s"
proof -
  have cl: "client X B s" using c by (simp add: cpp_def)
  have y: "wp (cdd_bddvar k) (yields X B s (\<lambda>a. snd a k) k) s"
    by (rule cdd_bddvar_yields [OF cl]) (use k in \<open>simp_all add: bool_level_def\<close>)
  show "wp (cdd_bddvarpp k) (gives X B s (\<lambda>(v, b). b k)) s"
    unfolding cdd_bddvarpp_def by (rule wp_mono [OF wrap_yields [OF c y]]) (erule makes_gives, simp add: at_clocks_def split: prod.split)
  show "wp (cdd_bddnvarpp k) (gives X B s (\<lambda>(v, b). \<not> b k)) s"
    unfolding cdd_bddnvarpp_def wp_bind
    by (rule wp_mono [OF y], rule wp_mono [OF cpp_wrap_makes [OF c yields_neg]], assumption)
      (erule makes_gives, simp add: at_clocks_def split: prod.split)
qed

lemma interval_makes:
  assumes c: "cpp X B s" and b: "range_ok B s i j lo up"
  shows "wp (cdd_intervalpp i j lo up) (gives X B s (\<lambda>(v, b). \<not> bnd_sat (v i - v j) lo \<and> bnd_sat (v i - v j) up)) s"
proof -
  have cl: "client X B s" using c by (simp add: cpp_def)
  obtain k where k: "i \<noteq> j" "level_at s (max i j) (min i j) k" "flippable lo" "flippable up" "lo < up" "- bnd_INF < lo \<or> up < bnd_INF"
    "if j < i then {lo, up} - {- bnd_INF} \<subseteq> B k else {bnd_u2l up, bnd_l2u lo} - {- bnd_INF} \<subseteq> B k"
    using b unfolding range_ok_def by blast
  show ?thesis
    using wrap_clocks(1) [OF c cdd_interval_meaning [OF cl k]] unfolding cdd_intervalpp_def case_prod_beta .
qed

lemma bound_makes:
  assumes c: "cpp X B s" and b: "bound_ok B s i j bd"
  shows "wp (cdd_upperpp i j bd) (gives X B s (\<lambda>(v, b). bnd_sat (v i - v j) bd)) s"
    "wp (cdd_lowerpp i j bd) (gives X B s (\<lambda>(v, b). \<not> bnd_sat (v i - v j) bd)) s"
proof -
  have cl: "client X B s" using c by (simp add: cpp_def)
  obtain k where k: "i \<noteq> j" "level_at s (max i j) (min i j) k" "flippable bd" "bd \<noteq> - bnd_INF" "if j < i then bd \<in> B k else bnd_u2l bd \<in> B k"
    using b unfolding bound_ok_def by blast
  note w = wrap_clocks [OF c cdd_upper_meaning [OF cl k]]
  show "wp (cdd_upperpp i j bd) (gives X B s (\<lambda>(v, b). bnd_sat (v i - v j) bd)) s"
    using w(1) unfolding cdd_upperpp_def case_prod_beta .
  show "wp (cdd_lowerpp i j bd) (gives X B s (\<lambda>(v, b). \<not> bnd_sat (v i - v j) bd)) s"
    using w(2) unfolding cdd_lowerpp_def case_prod_beta .
qed

lemma wp_gives: "wp m (makes X B s \<phi> k) s \<Longrightarrow> (\<And>w. \<phi> (at_clocks (cdd_levelinfo s) w) = f w) \<Longrightarrow> wp m (gives X B s f) s"
  by (erule wp_mono) (rule makes_gives)

text \<open>An assignment operator, with the object's own token set apart.\<close>

lemma update_gives:
  assumes r: "related B s hs ms" and i: "i < length hs"
    and m: "wp m (makes (objs hs) B s \<phi> k) s" and f: "\<And>w. \<phi> (at_clocks (cdd_levelinfo s) w) = f w"
  shows "wp (updated (stmt (cpp_update (hs ! i) m)) i hs) (\<lambda>hs' t. related B t hs' (ms[i := f])) s"
proof (rule updated_related [OF r i], rule wp_gives [where \<phi> = \<phi>, OF stmt_update_makes])
  have e: "with_toks (objs (rest i hs)) [hs ! i] = objs hs" using objs_rest [OF i, of "hs ! i"] by (simp add: with_toks_append)
  show "cpp (with_toks (objs (rest i hs)) [hs ! i]) B s" using r unfolding e related_def by blast
  show "wp m (makes (with_toks (objs (rest i hs)) [hs ! i]) B s \<phi> k) s" using m unfolding e .
  show "\<phi> (at_clocks (cdd_levelinfo s) w) = f w" for w by (rule f)
qed

lemma destroy_related:
  assumes r: "related B s hs ms" and i: "i < length hs"
  shows "wp (thenM (cpp_destroy (hs ! i)) (ret (rest i hs))) (\<lambda>hs' t. related B t hs' (rest i ms)) s"
  unfolding wp_then wp_ret
proof (rule wp_mono [OF cpp_destroy_spec])
  have c: "cpp (objs hs) B s" and ms: "map (means s) hs = ms" using r by (simp_all add: related_def)
  show "cpp (objs (hs ! i # rest i hs)) B s" using c objs_rest [OF i, of "hs ! i"] by simp
  fix u t assume t: "cpp (objs (rest i hs)) B t \<and> sim s t"
  then have "cont t = cont s" "cdd_levelinfo t = cdd_levelinfo s"
    using sim_fields(1) sim_same_env by (auto simp: same_env_def)
  then have "means t p w = means s p w" for p w by (simp only: means_def)
  then have "means t = means s" by blast
  then show "related B t (rest i hs) (rest i ms)" using t ms by (auto simp: related_def rest_def take_map drop_map)
qed

lemma exec_related:
  assumes r: "related B s hs ms" and e: "enabled B s hs c"
  shows "wp (exec c hs) (\<lambda>hs' t. related B t hs' (spec c ms)) s"
proof -
  have c: "cpp (objs hs) B s" and ms: "map (means s) hs = ms" using r by (simp_all add: related_def)
  have x: "list_all (\<lambda>x. x < length hs) (operands c)" using e by (simp add: enabled_def)
  have o: "reach (objs hs) s (hs ! i)" "eval (cont s) (at_clocks (cdd_levelinfo s) w) (hs ! i) = (ms ! i) w" if "i < length hs" for i w
    using obj_reach [of "hs ! i" hs s] that ms by (auto simp: means_def)
  note up = cpp_and_assign_def cpp_or_assign_def cpp_minus_assign_def cpp_xor_assign_def
  note new = made_related [OF r] and bin = made_related [OF r wp_gives] and asg = update_gives [OF r]
  show ?thesis
  proof (cases c)
    case MkTrue then show ?thesis using new [OF const_makes(1) [OF c]] by simp
  next
    case MkFalse then show ?thesis using new [OF const_makes(2) [OF c]] by simp
  next
    case (MkVar k) then show ?thesis using new [OF var_makes(1) [OF c]] e by (simp add: enabled_def)
  next
    case (MkNVar k) then show ?thesis using new [OF var_makes(2) [OF c]] e by (simp add: enabled_def)
  next
    case (MkInterval i j lo up) then show ?thesis using new [OF interval_makes [OF c]] e by (simp add: enabled_def)
  next
    case (MkUpper i j b) then show ?thesis using new [OF bound_makes(1) [OF c]] e by (simp add: enabled_def)
  next
    case (MkLower i j b) then show ?thesis using new [OF bound_makes(2) [OF c]] e by (simp add: enabled_def)
  next
    case (MkCopy i) then show ?thesis using bin [OF cpp_copy_makes [OF c], of "hs ! i" "ms ! i"] o x by simp
  next
    case (MkNot i) then show ?thesis using bin [OF cpp_not_makes [OF c], of "hs ! i"] o x by simp
  next
    case (MkAnd i j) then show ?thesis using bin [OF cpp_and_makes [OF c], of "hs ! i" "hs ! j"] o x by simp
  next
    case (MkOr i j) then show ?thesis using bin [OF cpp_or_makes [OF c], of "hs ! i" "hs ! j"] o x by simp
  next
    case (MkXor i j) then show ?thesis using bin [OF cpp_xor_makes [OF c], of "hs ! i" "hs ! j"] o x by simp
  next
    case (MkMinus i j) then show ?thesis using bin [OF cpp_minus_makes [OF c], of "hs ! i" "hs ! j"] o x by simp
  next
    case (MkIte i j k) then show ?thesis using bin [OF cpp_ite_makes [OF c], of "hs ! i" "hs ! j" "hs ! k"] o x by simp
  next
    case (AndAssign i j) then show ?thesis using asg [OF _ cpp_and_makes [OF c], of i "hs ! i" "hs ! j"] o x by (simp add: up)
  next
    case (OrAssign i j) then show ?thesis using asg [OF _ cpp_or_makes [OF c], of i "hs ! i" "hs ! j"] o x by (simp add: up)
  next
    case (MinusAssign i j) then show ?thesis using asg [OF _ cpp_minus_makes [OF c], of i "hs ! i" "hs ! j"] o x by (simp add: up)
  next
    case (XorAssign i j) then show ?thesis using asg [OF _ cpp_xor_makes [OF c], of i "hs ! i" "hs ! j"] o x by (simp add: up)
  next
    case (Destroy i) then show ?thesis using destroy_related [OF r] x by simp
  qed
qed

section \<open>Runs\<close>

inductive runs :: "(nat \<Rightarrow> raw_t set) \<Rightarrow> kstate \<Rightarrow> command list \<Rightarrow> ptr list \<Rightarrow> kstate \<Rightarrow> bool" for B s0 where
  runs_Nil: "runs B s0 [] [] s0"
| runs_step: "runs B s0 cs hs s \<Longrightarrow> enabled B s hs c \<Longrightarrow> exec c hs s = Inr (hs', t) \<Longrightarrow> runs B s0 (cs @ [c]) hs' t"

inductive_cases runs_NilE: "runs B s0 [] hs s"

theorem runs_related:
  assumes "cpp (\<lambda>_. 0) B s0" "runs B s0 cs hs s"
  shows "related B s hs (fold spec cs [])"
  using assms(2)
proof (induction rule: runs.induct)
  case runs_Nil
  then show ?case using assms(1) by (simp add: related_def)
next
  case (runs_step cs hs s c hs' t)
  then show ?case using wp_InrD [OF exec_related [OF runs_step.IH runs_step.hyps(2)] runs_step.hyps(3)] by simp
qed

text \<open>No enabled command gets stuck or faults; only memory can run out.\<close>

theorem runs_progress:
  assumes "cpp (\<lambda>_. 0) B s0" "runs B s0 cs hs s" "enabled B s hs c"
  shows "(\<exists>hs' t. exec c hs s = Inr (hs', t) \<and> runs B s0 (cs @ [c]) hs' t) \<or> exec c hs s = Inl NoMem"
  using wp_cases [OF exec_related [OF runs_related [OF assms(1,2)] assms(3)]] runs_step [OF assms(2,3)] by (metis)

section \<open>Starting a session\<close>

definition open_session :: "nat \<Rightarrow> nat \<Rightarrow> nat \<Rightarrow> nat \<Rightarrow> nat \<Rightarrow> nat K" where
  "open_session mx cs stacksize n m = bindM (cdd_init mx cs stacksize) (\<lambda>_. thenM (cdd_add_clocks n) (cdd_add_bddvar m))"

lemma extended_fields:
  assumes "extended L s t"
  shows "cdd_running t = cdd_running s" "cdd_maxcddsize t = cdd_maxcddsize s" "cdd_levelcnt t = cdd_levelcnt s + length L"
    "man_of s i = None \<Longrightarrow> man_of t i = None" "cdd_levelinfo t = cdd_levelinfo s @ L"
  using assms level_free_fields(5,7) [of t s] by (simp_all add: extended_def)

theorem open_session_spec:
  assumes s: "\<not> cdd_running s" "cdd_errorcond s = 0" "fresh_memory s" and mx: "2 \<le> mx" "mx \<le> 8190"
    and cs: "0 < cs" "28 * cs < 2 ^ 32" and sk: "8 * stacksize < 2 ^ 32" and B: "bounds_ok B mx"
    and l: "cdd_difference_count n + m \<le> MAXLEVEL"
  shows "wp (open_session mx cs stacksize n m) (\<lambda>r t. cpp (\<lambda>_. 0) B t \<and> clocks_ok t \<and> cdd_clocknum t = n \<and>
     list_all (\<lambda>j. bool_level t (r + j)) [0..<m]) s"
  unfolding open_session_def wp_bind wp_then
proof (rule wp_mono [OF cdd_init_spec [OF s mx cs sk B]], elim conjE)
  fix r t assume "started B mx t"
  then have t: "client (\<lambda>_. 0) B t" "cdd_running t" "cdd_levelcnt t = 0" "cdd_clocknum t = 0" "cdd_diff2level t = []"
      "\<And>k. man_of t (CddMan k) = None" by (simp_all add: started_def)
  have k: "clocks_ok t" by (simp add: clocks_ok_def t cdd_difference_count_def)
  show "wp (cdd_add_clocks n) (\<lambda>_. wp (cdd_add_bddvar m) (\<lambda>r t. cpp (\<lambda>_. 0) B t \<and> clocks_ok t \<and> cdd_clocknum t = n \<and>
     list_all (\<lambda>j. bool_level t (r + j)) [0..<m])) t"
  proof (rule wp_mono [OF cdd_add_clocks_spec [OF t(1) k t(6)]], goal_cases)
    case 1
    then show ?case using l t by (simp add: cdd_difference_count_def)
  next
    case (2 x u)
    then have u: "client (\<lambda>_. 0) B u" "clocks_ok u" "cdd_clocknum u = n" "extended (map diff_info (clock_pairs 0 n)) t u"
      by (simp_all add: t)
    note f = extended_fields [OF u(4)]
    have "length (clock_pairs 0 n) = cdd_difference_count n" using length_clock_pairs [of 0 n] by (simp add: cdd_difference_count_def)
    then have lu: "cdd_levelcnt u = cdd_difference_count n" using f(3) t(3) by simp
    show ?case
    proof (rule wp_mono [OF cdd_add_bddvar_spec [OF u(1,2)]], goal_cases)
      case 1
      show ?case by (rule f(4), rule t(6))
    next
      case 2
      show ?case using l lu by simp
    next
      case (3 r v)
      then obtain L where v: "r = cdd_levelcnt u" "client (\<lambda>_. 0) B v" "clocks_ok v" "length L = m" "extended L u v"
        "list_all (\<lambda>l. li_type l = TYPE_BDD) L" "cdd_clocknum v = cdd_clocknum u" by blast
      note g = extended_fields [OF v(5)]
      have len: "length (cdd_levelinfo u) = cdd_levelcnt u" using u(1) core_levels(1) by (auto simp: client_def)
      have "bool_level v (r + j)" if "j < m" for j
        using that v(1,4,6) len by (simp add: bool_level_def g(3,5) nth_append list_all_length)
      moreover have "cdd_clocknum v = n" using v(7) u(3) by simp
      ultimately show ?case using v(2,3) f(1) g(1) t(2) by (simp add: cpp_def list_all_iff)
    qed
  qed
qed

end
