(* ===== verification/Bellman_Ford.thy ===== *)
theory Bellman_Ford
  imports Constraint_Graph
begin

text \<open>
  Correctness of \<^verbatim>\<open>cdd_bf_consistent\<close>: whatever the distances left by an earlier run, it returns
  1 if and only if the difference constraints of the graph have a solution.  Distances with the
  order of \<^verbatim>\<open>less\<close> form an ordered group (\<open>weight\<close>); in such a group the rounds are analysed in a
  locale, relative to a potential that exists when the constraints are satisfiable.
\<close>

section \<open>Distances as an ordered group\<close>

datatype weight = Weight (w_value: int) (w_strict: int)

instantiation weight :: linordered_ab_group_add
begin

definition "0 = Weight 0 0"
definition "a + b = Weight (w_value a + w_value b) (w_strict a + w_strict b)"
definition "a - b = Weight (w_value a - w_value b) (w_strict a - w_strict b)"
definition "- a = Weight (- w_value a) (- w_strict a)"
definition "a < b \<longleftrightarrow> w_value a < w_value b \<or> w_value a = w_value b \<and> w_strict b < w_strict a"
definition "a \<le> b \<longleftrightarrow> w_value a < w_value b \<or> w_value a = w_value b \<and> w_strict b \<le> w_strict a"

instance
  by standard (auto simp: zero_weight_def plus_weight_def minus_weight_def uminus_weight_def
      less_weight_def less_eq_weight_def weight.expand)

end

definition wt :: "distance \<Rightarrow> weight" where
  "wt d = Weight (d_value d) (d_strictness d)"

definition edge_wt :: "extlib \<Rightarrow> raw_t \<Rightarrow> weight" where
  "edge_wt lib c = Weight (dbm_raw2bound lib c) (dbm_rawIsStrict lib c)"

lemma dist_add_wt: "wt (dist_add lib d c) = wt d + edge_wt lib c"
  by (simp add: wt_def edge_wt_def dist_add_def plus_weight_def)

lemma dist_less_wt: "dist_less d e \<longleftrightarrow> wt d < wt e"
  by (auto simp: wt_def dist_less_def less_weight_def)

section \<open>Rounds of relaxations\<close>

text \<open>An edge \<open>(i, j, w)\<close> improves the distance of \<open>j\<close> to that of \<open>i\<close> plus \<open>w\<close>.\<close>

definition improving :: "(nat \<Rightarrow> 'w::linordered_ab_group_add) \<Rightarrow> nat \<times> nat \<times> 'w \<Rightarrow> bool" where
  "improving d = (\<lambda>(i, j, w). d i + w < d j)"

definition relax1 :: "nat \<times> nat \<times> 'w \<Rightarrow> (nat \<Rightarrow> 'w::linordered_ab_group_add) \<Rightarrow> nat \<Rightarrow> 'w" where
  "relax1 = (\<lambda>(i, j, w) d. if d i + w < d j then d(j := d i + w) else d)"

locale weighted_graph =
  fixes es :: "(nat \<times> nat \<times> 'w::linordered_ab_group_add) list" and n :: nat
  assumes in_range: "(i, j, w) \<in> set es \<Longrightarrow> i < n \<and> j < n"
begin

definition stable :: "(nat \<Rightarrow> 'w) \<Rightarrow> bool" where
  "stable d \<longleftrightarrow> (\<forall>(i, j, w) \<in> set es. d j \<le> d i + w)"

lemma stable_no_improving: "stable d \<longleftrightarrow> (\<forall>e \<in> set es. \<not> improving d e)"
  by (auto simp: stable_def improving_def not_less)

lemma relax_decreases: "relax1 e d v \<le> d v"
  by (cases e) (auto simp: relax1_def)

text \<open>
  With a potential \<open>p\<close> the reduced weights are not negative.  \<open>S\<close> is settled: its reduced
  distances are the smallest, and its outgoing edges are relaxed.
\<close>

definition settled :: "(nat \<Rightarrow> 'w) \<Rightarrow> (nat \<Rightarrow> 'w) \<Rightarrow> nat set \<Rightarrow> bool" where
  "settled p d S \<longleftrightarrow> S \<subseteq> {..<n} \<and>
     (\<forall>u v. u \<in> S \<longrightarrow> v < n \<longrightarrow> v \<notin> S \<longrightarrow> d u - p u \<le> d v - p v) \<and>
     (\<forall>i j w. (i, j, w) \<in> set es \<longrightarrow> i \<in> S \<longrightarrow> d j \<le> d i + w)"

text \<open>During a round the distance of the smallest unsettled vertex \<open>m\<close> does not change either.\<close>

definition frontier :: "(nat \<Rightarrow> 'w) \<Rightarrow> (nat \<Rightarrow> 'w) \<Rightarrow> nat set \<Rightarrow> nat \<Rightarrow> bool" where
  "frontier p d S m \<longleftrightarrow> settled p d S \<and> m < n \<and> m \<notin> S \<and> (\<forall>v. v < n \<longrightarrow> v \<notin> S \<longrightarrow> d m - p m \<le> d v - p v)"

lemma relax_frontier:
  assumes p: "stable p" and f: "frontier p d S m" and e: "(i, j, w) \<in> set es"
  shows "frontier p (relax1 (i, j, w) d) S m" "relax1 (i, j, w) d m = d m"
    "i = m \<Longrightarrow> relax1 (i, j, w) d j \<le> relax1 (i, j, w) d m + w"
proof -
  let ?q = "\<lambda>v. d v - p v"
  have ij: "i < n" "j < n" using in_range [OF e] by simp_all
  have "p j \<le> p i + w" using p e by (auto simp: stable_def)
  then have up: "?q i \<le> d i + w - p j" by (simp add: algebra_simps)
  have st: "settled p d S" and m: "m < n" "m \<notin> S" and mn: "\<And>v. v < n \<Longrightarrow> v \<notin> S \<Longrightarrow> ?q m \<le> ?q v"
    using f by (auto simp: frontier_def)
  have keep: "\<not> d i + w < d j" if "j \<in> insert m S"
  proof
    assume less: "d i + w < d j"
    then have i: "i \<notin> S" using st e by (fastforce simp: settled_def)
    have "?q j \<le> ?q m" using that st m by (auto simp: settled_def)
    also have "?q m \<le> ?q i" using mn [OF ij(1) i] .
    finally have "?q j \<le> d i + w - p j" using up by (rule order_trans)
    then show False using less by simp
  qed
  show "relax1 (i, j, w) d m = d m" using keep by (auto simp: relax1_def)
  have new: "relax1 (i, j, w) d v - p v = (if v = j \<and> d i + w < d j then d i + w - p j else ?q v)" for v
    by (simp add: relax1_def)
  have inS: "relax1 (i, j, w) d u = d u" if "u \<in> S" for u using keep that by (auto simp: relax1_def)
  have low: "?q m \<le> relax1 (i, j, w) d v - p v" if "v < n" "v \<notin> S" for v
  proof (cases "v = j \<and> d i + w < d j")
    case True
    then have "i \<notin> S" using st e by (fastforce simp: settled_def)
    then have "?q m \<le> d i + w - p j" using mn [OF ij(1)] up by (blast intro: order_trans)
    then show ?thesis using True new by simp
  next
    case False
    then have "relax1 (i, j, w) d v - p v = ?q v" using new [of v] by auto
    then show ?thesis using mn [OF that] by simp
  qed
  have below: "?q u \<le> ?q m" if "u \<in> S" for u using st m that by (auto simp: settled_def)
  have out: "relax1 (i, j, w) d v \<le> d u + w'" if "(u, v, w') \<in> set es" "u \<in> S" for u v w'
    using relax_decreases [of "(i, j, w)" d v] st that by (fastforce simp: settled_def)
  have "settled p (relax1 (i, j, w) d) S"
    unfolding settled_def
  proof (intro conjI allI impI)
    show "S \<subseteq> {..<n}" using st by (simp add: settled_def)
    show "relax1 (i, j, w) d u - p u \<le> relax1 (i, j, w) d v - p v" if "u \<in> S" "v < n" "v \<notin> S" for u v
      using below [OF that(1)] low [OF that(2,3)] inS [OF that(1)] by simp
    show "relax1 (i, j, w) d v \<le> relax1 (i, j, w) d u + w'" if "(u, v, w') \<in> set es" "u \<in> S" for u v w'
      using out [OF that] inS [OF that(2)] by simp
  qed
  then show "frontier p (relax1 (i, j, w) d) S m"
    using m low \<open>relax1 (i, j, w) d m = d m\<close> by (simp add: frontier_def)
  show "relax1 (i, j, w) d j \<le> relax1 (i, j, w) d m + w" if "i = m"
    using that \<open>relax1 (i, j, w) d m = d m\<close> by (auto simp: relax1_def not_less)
qed

lemma round_frontier:
  assumes p: "stable p"
  shows "frontier p d S m \<Longrightarrow> set xs \<subseteq> set es \<Longrightarrow>
    frontier p (fold relax1 xs d) S m \<and> fold relax1 xs d m = d m \<and> (\<forall>v. fold relax1 xs d v \<le> d v) \<and>
    (\<forall>j w. (m, j, w) \<in> set xs \<longrightarrow> fold relax1 xs d j \<le> d m + w)"
proof (induction xs arbitrary: d)
  case (Cons e xs)
  obtain i j w where e: "e = (i, j, w)" by (cases e)
  note r = relax_frontier [OF p Cons.prems(1), of i j w]
  have ie: "(i, j, w) \<in> set es" "set xs \<subseteq> set es" using Cons.prems(2) e by auto
  note IH = Cons.IH [OF r(1) [OF ie(1)] ie(2)]
  have "fold relax1 xs (relax1 (i, j, w) d) v \<le> d v" for v
    using IH relax_decreases [of "(i, j, w)" d v] by (meson order_trans)
  moreover have "fold relax1 xs (relax1 (i, j, w) d) j \<le> d m + w" if "i = m"
    using IH r(3) [OF ie(1) that] r(2) [OF ie(1)] by (metis order_trans)
  ultimately show ?case using IH r(2) [OF ie(1)] by (auto simp: e)
qed simp

text \<open>A round settles one more vertex.\<close>

lemma round_settles:
  assumes p: "stable p" and S: "settled p d S" and ne: "S \<noteq> {..<n}"
  shows "\<exists>m. m < n \<and> m \<notin> S \<and> settled p (fold relax1 es d) (insert m S)"
proof -
  have sub: "S \<subseteq> {..<n}" using S by (simp add: settled_def)
  then have "{..<n} - S \<noteq> {}" using ne by blast
  then have "Min ((\<lambda>v. d v - p v) ` ({..<n} - S)) \<in> (\<lambda>v. d v - p v) ` ({..<n} - S)" by (intro Min_in) auto
  then obtain m where mm: "m \<in> {..<n} - S" "Min ((\<lambda>v. d v - p v) ` ({..<n} - S)) = d m - p m" by blast
  have m: "m \<in> {..<n} - S" "\<forall>v \<in> {..<n} - S. d m - p m \<le> d v - p v"
    using mm by (auto simp flip: mm(2))
  then have f: "frontier p d S m" using S by (auto simp: frontier_def)
  from round_frontier [OF p f order_refl] have r: "frontier p (fold relax1 es d) S m" "fold relax1 es d m = d m"
    "\<forall>j w. (m, j, w) \<in> set es \<longrightarrow> fold relax1 es d j \<le> d m + w" by simp_all
  have "settled p (fold relax1 es d) (insert m S)"
    unfolding settled_def
  proof (intro conjI allI impI)
    show "insert m S \<subseteq> {..<n}" using m sub by auto
    show "fold relax1 es d u - p u \<le> fold relax1 es d v - p v" if "u \<in> insert m S" "v < n" "v \<notin> insert m S" for u v
      using r(1) that by (auto simp: frontier_def settled_def)
    show "fold relax1 es d v \<le> fold relax1 es d u + w" if "(u, v, w) \<in> set es" "u \<in> insert m S" for u v w
      using r that by (auto simp: frontier_def settled_def)
  qed
  then show ?thesis using m by blast
qed

lemma rounds_settle:
  assumes p: "stable p"
  shows "\<exists>S. settled p ((fold relax1 es ^^ k) d) S \<and> min n k \<le> card S"
proof (induction k)
  case 0
  show ?case by (rule exI [of _ "{}"]) (simp add: settled_def)
next
  case (Suc k)
  then obtain S where S: "settled p ((fold relax1 es ^^ k) d) S" "min n k \<le> card S" by blast
  have fin: "finite S" using S(1) by (auto simp: settled_def intro: finite_subset)
  show ?case
  proof (cases "S = {..<n}")
    case True
    let ?d = "(fold relax1 es ^^ k) d"
    have le: "d' j \<le> d' i + w" if "d' = ?d" "(i, j, w) \<in> set es" for d' i j w
      using S(1) True in_range that by (fastforce simp: settled_def)
    have "relax1 e ?d = ?d" if "e \<in> set es" for e
    proof (cases e)
      case (fields i j w)
      then show ?thesis using le [OF refl, of i j w] that by (simp add: relax1_def not_less [symmetric])
    qed
    then have "fold relax1 xs ?d = ?d" if "set xs \<subseteq> set es" for xs
      using that by (induction xs) auto
    then have "(fold relax1 es ^^ Suc k) d = ?d" by simp
    then show ?thesis using S True by auto
  next
    case False
    from round_settles [OF p S(1) False] obtain m where "m \<notin> S" "settled p ((fold relax1 es ^^ Suc k) d) (insert m S)" by auto
    then show ?thesis using S(2) fin by (intro exI [of _ "insert m S"]) auto
  qed
qed

theorem rounds_stable:
  assumes "stable p"
  shows "stable ((fold relax1 es ^^ n) d)"
proof -
  obtain S where S: "settled p ((fold relax1 es ^^ n) d) S" "n \<le> card S" using rounds_settle [OF assms, of n d] by auto
  have "S = {..<n}" using S by (intro card_subset_eq) (auto simp: settled_def intro: antisym card_mono [of "{..<n}" S, simplified])
  then show ?thesis using S(1) in_range by (fastforce simp: settled_def stable_def)
qed

end

section \<open>The graph of the code\<close>

definition edge_of :: "extlib \<Rightarrow> constraint_t \<Rightarrow> nat \<times> nat \<times> weight" where
  "edge_of lib c = (con_i c, con_j c, edge_wt lib (con_value c))"

definition bf_graph :: "extlib \<Rightarrow> bellmanford \<Rightarrow> (nat \<times> nat \<times> weight) list" where
  "bf_graph lib g =
     map (edge_of lib) (filter (\<lambda>c. con_i c < bf_dim g \<and> con_j c < bf_dim g) (take (bf_count g) (bf_edges g)))"

interpretation bf: weighted_graph "bf_graph lib g" "bf_dim g" for lib g
  by unfold_locales (auto simp: bf_graph_def edge_of_def)

text \<open>A graph built by \<^verbatim>\<open>cdd_bf_init\<close> and \<^verbatim>\<open>cdd_bf_push\<close>: the arrays are large enough, the vertices in range.\<close>

definition bf_wf :: "bellmanford \<Rightarrow> bool" where
  "bf_wf g \<longleftrightarrow> 0 < bf_dim g \<and> bf_dim g \<le> length (bf_dist g) \<and> bf_count g \<le> length (bf_edges g) \<and>
     (\<forall>c \<in> set (take (bf_count g) (bf_edges g)). con_i c < bf_dim g \<and> con_j c < bf_dim g)"

definition dists :: "bellmanford \<Rightarrow> nat \<Rightarrow> weight" where
  "dists g v = wt (bf_dist g ! v)"

definition redist :: "bellmanford \<Rightarrow> bellmanford \<Rightarrow> bool" where
  "redist g h \<longleftrightarrow> (\<exists>ds. length ds = length (bf_dist g) \<and> h = g\<lparr>bf_dist := ds\<rparr>)"

lemma redist_refl [simp]: "redist g g"
  unfolding redist_def by (rule exI [of _ "bf_dist g"]) simp

lemma redist_trans: "redist g h \<Longrightarrow> redist h k \<Longrightarrow> redist g k"
  by (auto simp: redist_def)

lemma redist_fields:
  assumes "redist g h"
  shows "bf_dim h = bf_dim g" "bf_count h = bf_count g" "bf_edges h = bf_edges g" "bf_wf h = bf_wf g"
    "bf_graph lib h = bf_graph lib g"
  using assms by (auto simp: redist_def bf_wf_def bf_graph_def)

lemma bf_graph_wf: "bf_wf g \<Longrightarrow> bf_graph lib g = map (\<lambda>e. edge_of lib (bf_edges g ! e)) [0..<bf_count g]"
  unfolding bf_graph_def bf_wf_def
  by (subst filter_True) (auto simp: list_eq_iff_nth_eq)

lemma bf_improves_eq:
  assumes w: "bf_wf g" and e: "e < bf_count g"
  shows "bf_improves lib e g = Inr (if improving (dists g) (edge_of lib (bf_edges g ! e))
      then Some (dist_add lib (bf_dist g ! con_i (bf_edges g ! e)) (con_value (bf_edges g ! e))) else None, g)"
proof -
  have l: "e < length (bf_edges g)" using w e by (simp add: bf_wf_def)
  have "bf_edges g ! e \<in> set (take (bf_count g) (bf_edges g))" using e l by (auto simp: in_set_conv_nth)
  then have "con_i (bf_edges g ! e) < length (bf_dist g)" "con_j (bf_edges g ! e) < length (bf_dist g)"
    using w by (auto simp: bf_wf_def)
  then show ?thesis
    using l by (simp add: bf_improves_def bindM_def rd_def ret_def Let_def dist_less_wt dist_add_wt improving_def edge_of_def dists_def)
qed

lemma bf_relax_eq:
  assumes w: "bf_wf g" and e: "e < bf_count g"
  shows "\<exists>h. bf_relax lib e g = Inr (improving (dists g) (edge_of lib (bf_edges g ! e)), h) \<and> redist g h \<and>
    dists h = relax1 (edge_of lib (bf_edges g ! e)) (dists g)"
proof -
  let ?c = "bf_edges g ! e"
  let ?h = "g\<lparr>bf_dist := (bf_dist g)[con_j ?c := dist_add lib (bf_dist g ! con_i ?c) (con_value ?c)]\<rparr>"
  have l: "e < length (bf_edges g)" using w e by (simp add: bf_wf_def)
  have "?c \<in> set (take (bf_count g) (bf_edges g))" using e l by (auto simp: in_set_conv_nth)
  then have j: "con_j ?c < length (bf_dist g)" using w by (auto simp: bf_wf_def)
  have up: "dists ?h = (dists g)(con_j ?c := dists g (con_i ?c) + edge_wt lib (con_value ?c))"
    by (auto simp: fun_eq_iff dists_def dist_add_wt nth_list_update j)
  have rh: "redist g ?h"
    unfolding redist_def by (rule exI [of _ "(bf_dist g)[con_j ?c := dist_add lib (bf_dist g ! con_i ?c) (con_value ?c)]"]) simp
  show ?thesis
  proof (cases "improving (dists g) (edge_of lib ?c)")
    case True
    then have "bf_relax lib e g = Inr (True, ?h)"
      using l j by (simp add: bf_relax_def bindM_def thenM_def bf_improves_eq [OF w e] rd_def wr_def ret_def)
    moreover have "dists ?h = relax1 (edge_of lib ?c) (dists g)"
      using True unfolding up by (auto simp: relax1_def edge_of_def improving_def)
    ultimately show ?thesis using True rh by (intro exI [of _ ?h]) simp
  next
    case False
    then have "bf_relax lib e g = Inr (False, g)" by (simp add: bf_relax_def bindM_def bf_improves_eq [OF w e] ret_def)
    moreover have "relax1 (edge_of lib ?c) (dists g) = dists g"
      using False by (auto simp: relax1_def edge_of_def improving_def)
    ultimately show ?thesis using False by auto
  qed
qed

lemma bf_round_eq:
  "bf_wf g \<Longrightarrow> set es \<subseteq> {..<bf_count g} \<Longrightarrow> \<exists>b h. bf_round lib es g = Inr (b, h) \<and> redist g h \<and>
    dists h = fold relax1 (map (\<lambda>e. edge_of lib (bf_edges g ! e)) es) (dists g) \<and>
    (\<not> b \<longrightarrow> dists h = dists g \<and> (\<forall>e \<in> set es. \<not> improving (dists g) (edge_of lib (bf_edges g ! e))))"
proof (induction es arbitrary: g)
  case Nil
  show ?case by (intro exI [of _ False] exI [of _ g]) (simp add: ret_def)
next
  case (Cons e es)
  let ?E = "\<lambda>e. edge_of lib (bf_edges g ! e)"
  from bf_relax_eq [OF Cons.prems(1), of e lib] Cons.prems(2) obtain h where
    h: "bf_relax lib e g = Inr (improving (dists g) (?E e), h)" "redist g h" "dists h = relax1 (?E e) (dists g)" by auto
  note f = redist_fields [OF h(2)]
  from Cons.IH [of h] Cons.prems f obtain b k where
    k: "bf_round lib es h = Inr (b, k)" "redist h k" "dists k = fold relax1 (map ?E es) (dists h)"
      "\<not> b \<longrightarrow> dists k = dists h \<and> (\<forall>e \<in> set es. \<not> improving (dists h) (?E e))" by auto
  have "\<not> improving (dists g) (?E e) \<Longrightarrow> dists h = dists g"
    using h(3) by (auto simp: relax1_def improving_def edge_of_def)
  then show ?case
    using h k redist_trans [OF h(2) k(2)]
    by (intro exI [of _ "improving (dists g) (?E e) \<or> b"] exI [of _ k]) (auto simp: bindM_def ret_def)
qed

lemma bf_any_eq:
  "bf_wf g \<Longrightarrow> set es \<subseteq> {..<bf_count g} \<Longrightarrow>
    bf_any lib es g = Inr (\<exists>e \<in> set es. improving (dists g) (edge_of lib (bf_edges g ! e)), g)"
  by (induction es) (auto simp: ret_def bindM_def bf_improves_eq)

lemma stable_indices:
  assumes "bf_wf g"
  shows "bf.stable lib g d \<longleftrightarrow> (\<forall>e < bf_count g. \<not> improving d (edge_of lib (bf_edges g ! e)))"
  using bf.stable_no_improving [of lib g d] bf_graph_wf [OF assms, of lib] by auto

lemma bf_rounds_eq:
  "bf_wf g \<Longrightarrow> \<exists>b h. bf_rounds lib (bf_count g) v g = Inr (b, h) \<and> redist g h \<and>
    (if b then dists h = (fold relax1 (bf_graph lib g) ^^ Suc v) (dists g) else bf.stable lib g (dists h))"
proof (induction v arbitrary: g)
  have one: "\<exists>b h. bf_round lib [0..<bf_count g] g = Inr (b, h) \<and> redist g h \<and>
      dists h = fold relax1 (bf_graph lib g) (dists g) \<and> (\<not> b \<longrightarrow> bf.stable lib g (dists h))" if "bf_wf g" for g
    using bf_round_eq [OF that, of "[0..<bf_count g]" lib] stable_indices [OF that, of lib]
    by (fastforce simp: bf_graph_wf [OF that])
  {
    case 0
    with one show ?case by fastforce
  next
    case (Suc v)
    from one [OF Suc.prems] obtain b h where
      h: "bf_round lib [0..<bf_count g] g = Inr (b, h)" "redist g h" "dists h = fold relax1 (bf_graph lib g) (dists g)"
        "\<not> b \<longrightarrow> bf.stable lib g (dists h)" by blast
    note f = redist_fields [OF h(2)]
    show ?case
    proof (cases b)
      case False
      then show ?thesis using h by (auto simp: bindM_def ret_def)
    next
      case True
      have "bf_wf h" using f(4) Suc.prems by simp
      from Suc.IH [OF this] obtain b' k where
        k: "bf_rounds lib (bf_count h) v h = Inr (b', k)" "redist h k"
          "if b' then dists k = (fold relax1 (bf_graph lib h) ^^ Suc v) (dists h) else bf.stable lib h (dists k)" by blast
      have st: "bf.stable lib h d = bf.stable lib g d" for d by (simp add: bf.stable_no_improving f(5))
      have "(fold relax1 (bf_graph lib g) ^^ Suc v) (dists h) = (fold relax1 (bf_graph lib g) ^^ Suc (Suc v)) (dists g)"
        unfolding h(3) by (simp add: funpow_swap1)
      then show ?thesis
        using True h(1) k redist_trans [OF h(2) k(2)] f by (intro exI [of _ b'] exI [of _ k]) (auto simp: bindM_def st split: if_splits)
    qed
  }
qed

lemma cdd_bf_consistent_stable:
  assumes w: "bf_wf g"
  shows "\<exists>h. cdd_bf_consistent lib g = Inr (\<exists>p. bf.stable lib g p, h) \<and> redist g h"
proof -
  have dm: "0 < bf_dim g" using w by (simp add: bf_wf_def)
  from bf_rounds_eq [OF w, of lib "bf_dim g - 1"] obtain b h where
    h: "bf_rounds lib (bf_count g) (bf_dim g - 1) g = Inr (b, h)" "redist g h"
      "if b then dists h = (fold relax1 (bf_graph lib g) ^^ bf_dim g) (dists g) else bf.stable lib g (dists h)"
    using dm by auto
  note f = redist_fields [OF h(2)]
  have wh: "bf_wf h" using f(4) w by simp
  have any: "bf_any lib [0..<bf_count g] h = Inr (\<not> bf.stable lib g (dists h), h)"
    unfolding stable_indices [OF w] using bf_any_eq [OF wh, of "[0..<bf_count g]" lib] f(2,3)
    by (simp add: atLeast0LessThan Bex_def)
  have "(\<exists>p. bf.stable lib g p) \<longleftrightarrow> bf.stable lib g (dists h)"
    using h(3) bf.rounds_stable [of lib g _ "dists g"] by (auto split: if_splits)
  then show ?thesis
    using h any dm by (cases b) (auto simp: cdd_bf_consistent_def bindM_def thenM_def gets_def guardM_def ret_def)
qed

section \<open>Solutions of the constraints\<close>

definition holds_at :: "(nat \<Rightarrow> real) \<Rightarrow> constraint_t \<Rightarrow> bool" where
  "holds_at x c \<longleftrightarrow> bnd_sat (x (con_i c) - x (con_j c)) (con_value c)"

definition pushed :: "bellmanford \<Rightarrow> constraint_t list" where
  "pushed g = take (bf_count g) (bf_edges g)"

definition finite_values :: "bellmanford \<Rightarrow> bool" where
  "finite_values g \<longleftrightarrow> list_all (\<lambda>c. \<bar>con_value c\<bar> < bnd_INF) (pushed g)"

lemma edge_wt_bounds:
  assumes "bounds_lib lib"
  shows "edge_wt lib b = Weight (b div 2) (if b mod 2 = 1 then 0 else 1)"
  using assms by (simp add: edge_wt_def bounds_lib_def bnd_get_limit_def bnd_is_upper_strict_def drop_bit_eq_div and_one_eq)

lemma bnd_sat_finite:
  "\<bar>b\<bar> < bnd_INF \<Longrightarrow> bnd_sat x b = (if b mod 2 = 1 then x \<le> of_int (b div 2) else x < of_int (b div 2))"
  by (auto simp: bnd_sat_def)

text \<open>From a potential: the strict constraints on a path push a vertex down by a fraction each.\<close>

lemma potential_solution:
  assumes p: "p j \<le> p i + Weight k s" and s: "s = 0 \<or> s = 1"
    and K: "\<bar>w_strict (p i)\<bar> \<le> K" "\<bar>w_strict (p j)\<bar> \<le> K"
    and x: "\<And>v. x v = real_of_int (w_strict (p v)) / real_of_int (2 * K + 1) - real_of_int (w_value (p v))"
  shows "x i - x j \<le> of_int k" "s = 1 \<Longrightarrow> x i - x j < of_int k"
proof -
  let ?e = "1 / real_of_int (2 * K + 1)"
  have e: "0 < ?e" using K by simp
  have diff: "x i - x j = of_int (w_value (p j) - w_value (p i)) + ?e * of_int (w_strict (p i) - w_strict (p j))"
    by (simp add: x diff_divide_distrib)
  consider "w_value (p j) - w_value (p i) \<le> k - 1"
    | "w_value (p j) - w_value (p i) = k" "w_strict (p i) - w_strict (p j) \<le> - s"
    using p by (auto simp: less_eq_weight_def plus_weight_def)
  then have "x i - x j < of_int k \<or> x i - x j \<le> of_int k - ?e * of_int s"
  proof cases
    case 1
    have "w_strict (p i) - w_strict (p j) \<le> 2 * K" using K by linarith
    then have "?e * of_int (w_strict (p i) - w_strict (p j)) \<le> ?e * of_int (2 * K)" using e by (intro mult_left_mono) auto
    also have "\<dots> < 1" using K by simp
    finally have "?e * of_int (w_strict (p i) - w_strict (p j)) < 1" .
    moreover have "real_of_int (w_value (p j) - w_value (p i)) \<le> of_int k - 1" using 1 by linarith
    ultimately show ?thesis unfolding diff by linarith
  next
    case 2
    have "?e * of_int (w_strict (p i) - w_strict (p j)) \<le> ?e * of_int (- s)" using e 2(2) by (intro mult_left_mono) auto
    then show ?thesis unfolding diff 2(1) by simp
  qed
  moreover have "0 \<le> ?e * of_int s" "s = 1 \<Longrightarrow> 0 < ?e * of_int s" using s e by auto
  ultimately show "x i - x j \<le> of_int k" "s = 1 \<Longrightarrow> x i - x j < of_int k" by linarith+
qed

text \<open>From a solution: the integral part, and the rank of the fraction among the vertices.\<close>

definition frac_rank :: "nat \<Rightarrow> (nat \<Rightarrow> real) \<Rightarrow> nat \<Rightarrow> int" where
  "frac_rank n x v = int (card {u. u < n \<and> frac (x u) < frac (x v)})"

lemma frac_rank_mono: "frac (x i) \<le> frac (x j) \<Longrightarrow> frac_rank n x i \<le> frac_rank n x j"
  unfolding frac_rank_def by (intro of_nat_le_iff [THEN iffD2] card_mono) auto

lemma frac_rank_strict: "i < n \<Longrightarrow> frac (x i) < frac (x j) \<Longrightarrow> frac_rank n x i < frac_rank n x j"
  unfolding frac_rank_def by (intro of_nat_less_iff [THEN iffD2] psubset_card_mono) auto

lemma solution_potential:
  assumes i: "i < n" and s: "s = 0 \<or> s = 1" and le: "x i - x j \<le> of_int k" "s = 1 \<Longrightarrow> x i - x j < of_int k"
  shows "Weight (- \<lfloor>x j\<rfloor>) (frac_rank n x j) \<le> Weight (- \<lfloor>x i\<rfloor>) (frac_rank n x i) + Weight k s"
proof -
  have d: "x i - x j = of_int (\<lfloor>x i\<rfloor> - \<lfloor>x j\<rfloor>) + (frac (x i) - frac (x j))" by (simp add: frac_def)
  have f: "0 \<le> frac (x i)" "frac (x j) < 1" by (simp_all add: frac_lt_1)
  have "\<lfloor>x i\<rfloor> - \<lfloor>x j\<rfloor> \<le> k"
  proof (rule ccontr)
    assume "\<not> \<lfloor>x i\<rfloor> - \<lfloor>x j\<rfloor> \<le> k"
    then have "real_of_int k + 1 \<le> of_int (\<lfloor>x i\<rfloor> - \<lfloor>x j\<rfloor>)" by linarith
    then show False using d le(1) f by linarith
  qed
  moreover have "frac_rank n x i + s \<le> frac_rank n x j" if e: "\<lfloor>x i\<rfloor> - \<lfloor>x j\<rfloor> = k"
    using s
  proof
    assume "s = 0"
    moreover have "frac (x i) \<le> frac (x j)" using d le(1) e by simp
    ultimately show ?thesis using frac_rank_mono by simp
  next
    assume s1: "s = 1"
    then have "frac (x i) < frac (x j)" using d le(2) e by simp
    then show ?thesis using s1 frac_rank_strict [OF i] by (simp add: zless_imp_add1_zle)
  qed
  ultimately show ?thesis by (auto simp: less_eq_weight_def plus_weight_def)
qed

lemma stable_solvable:
  assumes w: "bf_wf g" and l: "bounds_lib lib" and v: "finite_values g"
  shows "(\<exists>p. bf.stable lib g p) \<longleftrightarrow> (\<exists>x. list_all (holds_at x) (pushed g))"
proof -
  let ?st = "\<lambda>c. if con_value c mod 2 = 1 then 0 else 1 :: int"
  have stable: "bf.stable lib g p \<longleftrightarrow> (\<forall>c \<in> set (pushed g). p (con_j c) \<le> p (con_i c) + Weight (con_value c div 2) (?st c))" for p
    unfolding bf.stable_def using w by (auto simp: bf_graph_def edge_of_def bf_wf_def pushed_def edge_wt_bounds [OF l])
  have rng: "con_i c < bf_dim g" "con_j c < bf_dim g" "\<bar>con_value c\<bar> < bnd_INF" if "c \<in> set (pushed g)" for c
    using that w v by (auto simp: bf_wf_def pushed_def finite_values_def list_all_iff)
  show ?thesis
  proof
    assume "\<exists>p. bf.stable lib g p"
    then obtain p where p: "bf.stable lib g p" ..
    define K where "K = Max ((\<lambda>u. \<bar>w_strict (p u)\<bar>) ` {..<bf_dim g})"
    have K: "\<bar>w_strict (p u)\<bar> \<le> K" if "u < bf_dim g" for u unfolding K_def using that by (intro Max_ge) auto
    define x where "x u = real_of_int (w_strict (p u)) / real_of_int (2 * K + 1) - real_of_int (w_value (p u))" for u
    have "holds_at x c" if c: "c \<in> set (pushed g)" for c
    proof -
      have "p (con_j c) \<le> p (con_i c) + Weight (con_value c div 2) (?st c)" using p c stable by blast
      from potential_solution [OF this _ K [OF rng(1) [OF c]] K [OF rng(2) [OF c]] x_def] show ?thesis
        by (auto simp: holds_at_def bnd_sat_finite [OF rng(3) [OF c]])
    qed
    then show "\<exists>x. list_all (holds_at x) (pushed g)" by (auto simp: list_all_iff)
  next
    assume "\<exists>x. list_all (holds_at x) (pushed g)"
    then obtain x where x: "\<And>c. c \<in> set (pushed g) \<Longrightarrow> holds_at x c" by (auto simp: list_all_iff)
    have "bf.stable lib g (\<lambda>u. Weight (- \<lfloor>x u\<rfloor>) (frac_rank (bf_dim g) x u))"
      unfolding stable
    proof
      fix c assume c: "c \<in> set (pushed g)"
      show "Weight (- \<lfloor>x (con_j c)\<rfloor>) (frac_rank (bf_dim g) x (con_j c))
          \<le> Weight (- \<lfloor>x (con_i c)\<rfloor>) (frac_rank (bf_dim g) x (con_i c)) + Weight (con_value c div 2) (?st c)"
        by (rule solution_potential [OF rng(1) [OF c]])
          (use x [OF c] in \<open>auto simp: holds_at_def bnd_sat_finite [OF rng(3) [OF c]] split: if_splits\<close>)
    qed
    then show "\<exists>p. bf.stable lib g p" by blast
  qed
qed

theorem cdd_bf_consistent_spec:
  assumes "bf_wf g" "bounds_lib lib" "finite_values g"
  shows "\<exists>h. cdd_bf_consistent lib g = Inr (\<exists>x. list_all (holds_at x) (pushed g), h) \<and> redist g h"
  using cdd_bf_consistent_stable [OF assms(1), of lib] stable_solvable [OF assms] by simp

section \<open>Building the graph\<close>

lemma bf_unique_eq:
  assumes "bf_count g \<le> length (bf_edges g)"
  shows "set idxs \<subseteq> {..<bf_count g} \<Longrightarrow>
    bf_unique i j idxs g = Inr (\<forall>k \<in> set idxs. \<not> (con_i (bf_edges g ! k) = i \<and> con_j (bf_edges g ! k) = j), g)"
  using assms by (induction idxs) (auto simp: ret_def bindM_def rd_def)

definition joined :: "bellmanford \<Rightarrow> nat \<Rightarrow> nat \<Rightarrow> bool" where
  "joined g i j \<longleftrightarrow> list_ex (\<lambda>c. con_i c = i \<and> con_j c = j) (pushed g)"

lemma cdd_bf_push_spec:
  assumes w: "bf_wf g" "finite_values g" and room: "bf_count g < length (bf_edges g)" and lib: "dbm_LS_INFINITY lib = bnd_INF"
    and e: "i < bf_dim g" "j < bf_dim g" "i \<noteq> j" "\<not> joined g i j" "\<bar>c\<bar> < bnd_INF"
  shows "\<exists>h. cdd_bf_push lib i j c g = Inr ((), h) \<and> bf_wf h \<and> finite_values h \<and> bf_dim h = bf_dim g \<and> bf_dist h = bf_dist g \<and>
    pushed h = pushed g @ [\<lparr>con_i = i, con_j = j, con_value = c\<rparr>]"
proof -
  let ?h = "g\<lparr>bf_count := bf_count g + 1, bf_edges := (bf_edges g)[bf_count g := \<lparr>con_i = i, con_j = j, con_value = c\<rparr>]\<rparr>"
  have "\<forall>k \<in> set [0..<bf_count g]. \<not> (con_i (bf_edges g ! k) = i \<and> con_j (bf_edges g ! k) = j)"
  proof
    fix k assume "k \<in> set [0..<bf_count g]"
    then have "bf_edges g ! k \<in> set (pushed g)" using room by (auto simp: pushed_def in_set_conv_nth)
    then show "\<not> (con_i (bf_edges g ! k) = i \<and> con_j (bf_edges g ! k) = j)" using e(4) by (auto simp: joined_def list_ex_iff)
  qed
  then have u: "bf_unique i j [0..<bf_count g] g = Inr (True, g)"
    using bf_unique_eq [of g "[0..<bf_count g]" i j] room by (auto simp: atLeast0LessThan)
  have "cdd_bf_push lib i j c g = Inr ((), ?h)"
    using u room e lib by (simp add: cdd_bf_push_def bindM_def thenM_def guardM_def gets_def modifyM_def wr_def)
  moreover have p: "pushed ?h = pushed g @ [\<lparr>con_i = i, con_j = j, con_value = c\<rparr>]"
    using room by (simp add: pushed_def take_Suc_conv_app_nth)
  moreover have "bf_wf ?h"
  proof -
    have "set (take (bf_count ?h) (bf_edges ?h)) = insert \<lparr>con_i = i, con_j = j, con_value = c\<rparr> (set (take (bf_count g) (bf_edges g)))"
      using arg_cong [OF p, of set] by (simp add: pushed_def)
    then show ?thesis using w(1) room e by (simp add: bf_wf_def)
  qed
  moreover have "finite_values ?h" using w(2) e unfolding finite_values_def p by simp
  ultimately show ?thesis by (intro exI [of _ ?h]) simp
qed

lemma cdd_bf_pop_spec:
  assumes w: "bf_wf g" "finite_values g" and ne: "pushed g \<noteq> []"
  shows "\<exists>h. cdd_bf_pop g = Inr ((), h) \<and> bf_wf h \<and> finite_values h \<and> bf_dim h = bf_dim g \<and> bf_dist h = bf_dist g \<and>
    pushed h = butlast (pushed g)"
proof -
  let ?h = "g\<lparr>bf_count := bf_count g - 1\<rparr>"
  have l: "0 < bf_count g" "bf_count g \<le> length (bf_edges g)" using w ne by (auto simp: pushed_def bf_wf_def)
  then have p: "pushed ?h = butlast (pushed g)" by (simp add: pushed_def butlast_take)
  have "cdd_bf_pop g = Inr ((), ?h)" using l by (simp add: cdd_bf_pop_def bindM_def thenM_def gets_def guardM_def modifyM_def)
  moreover have "bf_wf ?h" using w(1) l set_take_subset_set_take [of "bf_count g - 1" "bf_count g" "bf_edges g"]
    by (fastforce simp: bf_wf_def)
  moreover have "finite_values ?h" using w(2) in_set_butlastD unfolding finite_values_def p by (fastforce simp: list_all_iff)
  ultimately show ?thesis using p by (intro exI [of _ ?h]) simp
qed

lemma cdd_bf_init_spec:
  assumes "0 < n" "n \<le> length ds"
  shows "\<exists>h. cdd_bf_init n ds es g = Inr ((), h) \<and> bf_wf h \<and> finite_values h \<and> pushed h = [] \<and> bf_dim h = n"
  using assms by (simp add: cdd_bf_init_def thenM_def bindM_def guardM_def modifyM_def bf_wf_def finite_values_def pushed_def)

text \<open>\<^verbatim>\<open>cdd_bf_pop\<close> undoes \<^verbatim>\<open>cdd_bf_push\<close>.\<close>

lemma cdd_bf_push_pop:
  assumes "bf_wf g" "finite_values g" "bf_count g < length (bf_edges g)" "dbm_LS_INFINITY lib = bnd_INF"
    "i < bf_dim g" "j < bf_dim g" "i \<noteq> j" "\<not> joined g i j" "\<bar>c\<bar> < bnd_INF"
  shows "\<exists>h k. cdd_bf_push lib i j c g = Inr ((), h) \<and> bf_wf h \<and> finite_values h \<and>
     pushed h = pushed g @ [\<lparr>con_i = i, con_j = j, con_value = c\<rparr>] \<and> cdd_bf_pop h = Inr ((), k) \<and> pushed k = pushed g"
proof -
  from cdd_bf_push_spec [OF assms] obtain h where h: "cdd_bf_push lib i j c g = Inr ((), h)" "bf_wf h" "finite_values h"
    "pushed h = pushed g @ [\<lparr>con_i = i, con_j = j, con_value = c\<rparr>]" by blast
  with cdd_bf_pop_spec [OF h(2,3)] show ?thesis by auto
qed

end
