(* ===== verification/Marking.thy ===== *)
theory Marking
  imports Cpp_Spec
begin

text \<open>
  Marks: the operations that set and reset them change nothing the invariant reads, the
  traversals terminate, \<^verbatim>\<open>cdd_nodecount\<close> and \<^verbatim>\<open>cdd_edgecount\<close> count the nodes and edges of a diagram
  that has no marked node, and leave no mark behind.
\<close>

declare split_paired_All [simp del]

section \<open>States that differ in marks only\<close>

definition marks :: "kstate \<Rightarrow> ptr set" where
  "marks s = {p. \<exists>n. nodes s p = Some n \<and> n_flag n AND MARKON \<noteq> 0}"

definition remarked :: "ptr set \<Rightarrow> kstate \<Rightarrow> kstate \<Rightarrow> bool" where
  "remarked M s t \<longleftrightarrow> t = s\<lparr>nodes := nodes t\<rparr> \<and> cont t = cont s \<and> rf t = rf s \<and> marks t = M"

lemma remarked_refl [simp]: "remarked (marks s) s s"
  by (simp add: remarked_def)

lemma remarked_trans: "remarked M s t \<Longrightarrow> remarked N t u \<Longrightarrow> remarked N s u"
proof -
  assume a: "remarked M s t" "remarked N t u"
  have "t = s\<lparr>nodes := nodes t\<rparr>" "u = t\<lparr>nodes := nodes u\<rparr>" using a by (auto simp: remarked_def)
  then have "u = s\<lparr>nodes := nodes u\<rparr>" by (metis kstate.update_convs(2) kstate.surjective)
  then show "remarked N s u" using a by (simp add: remarked_def)
qed

lemma remarked_fields:
  assumes "remarked M s t"
  shows "env t = env s" "chunk_man t = chunk_man s" "os_chunks t = os_chunks s" "bddmanager t = bddmanager s"
    "cddmanager t = cddmanager s" "cdd_levelcnt t = cdd_levelcnt s" "cdd_levelinfo t = cdd_levelinfo s"
    "cdd_maxcddsize t = cdd_maxcddsize s" "cdd_errorcond t = cdd_errorcond s" "postgbc_handler t = postgbc_handler s"
    "postrehash_handler t = postrehash_handler s" "applycache t = applycache s" "quantcache t = quantcache s"
    "replacecache t = replacecache s" "cdd_varnum t = cdd_varnum s" "cdd_clocknum t = cdd_clocknum s"
    "cont t = cont s" "rf t = rf s" "marks t = M"
proof -
  obtain N where t: "t = s\<lparr>nodes := N\<rparr>" using assms unfolding remarked_def by metis
  show "env t = env s" "chunk_man t = chunk_man s" "os_chunks t = os_chunks s" "bddmanager t = bddmanager s"
    "cddmanager t = cddmanager s" "cdd_levelcnt t = cdd_levelcnt s" "cdd_levelinfo t = cdd_levelinfo s"
    "cdd_maxcddsize t = cdd_maxcddsize s" "cdd_errorcond t = cdd_errorcond s" "postgbc_handler t = postgbc_handler s"
    "postrehash_handler t = postrehash_handler s" "applycache t = applycache s" "quantcache t = quantcache s"
    "replacecache t = replacecache s" "cdd_varnum t = cdd_varnum s" "cdd_clocknum t = cdd_clocknum s"
    by (simp_all add: t)
qed (use assms in \<open>simp_all add: remarked_def\<close>)

lemma remarked_views:
  assumes "remarked M s t"
  shows "man_of t i = man_of s i" "tbl t i k = tbl s i k" "tabled t = tabled s" "reach X t p = reach X s p"
    "(nodes t p = None) = (nodes s p = None)"
proof -
  note f = remarked_fields [OF assms]
  show 2: "man_of t i = man_of s i" for i by (cases i) (simp_all add: f)
  show 3: "tbl t i k = tbl s i k" for i k by (simp add: tbl_def 2)
  show "tabled t = tabled s" by (simp add: tabled_def 3)
  show "reach X t p = reach X s p" by (simp add: reach_def f)
  have "cont t p = None \<longleftrightarrow> cont s p = None" by (simp add: f)
  then show "(nodes t p = None) = (nodes s p = None)" by (simp add: cont_def)
qed

lemma remarked_core:
  assumes "remarked M s t"
  shows "core t X F W B = core s X F W B"
proof -
  note f = remarked_fields [OF assms] remarked_views [OF assms]
  have tm: "(\<exists>fl. nodes u cddfalse = Some \<lparr>n_level = MAXLEVEL, n_ref = MAXREF, n_flag = fl, n_body = Term\<rparr>) \<longleftrightarrow>
      cont u cddfalse = Some (MAXLEVEL, Term) \<and> rf u cddfalse = MAXREF" for u
  proof (cases "nodes u cddfalse")
    case (Some n)
    then show ?thesis by (cases n) (auto simp: cont_def rf_def)
  qed (simp add: cont_def)
  have "static_ok t B \<longleftrightarrow> static_ok s B" by (simp add: static_ok_def f tm)
  moreover have "tables_ok t \<longleftrightarrow> tables_ok s" by (simp add: tables_ok_def f)
  moreover have "mans_ok t \<longleftrightarrow> mans_ok s" by (simp add: mans_ok_def man_ok_def cell_ok_def f)
  ultimately show ?thesis by (simp add: core_def refs_ok_def owners_sound_def dead_ok_def f)
qed

lemma remarked_client:
  assumes "remarked M s t"
  shows "client X B t = client X B s"
proof -
  note f = remarked_fields [OF assms] remarked_views [OF assms]
  have "apply_entry_ok t B = apply_entry_ok s B" "entry_means any_meaning t B = entry_means any_meaning s B"
    by (simp_all add: fun_eq_iff apply_entry_ok_def entry_means_def entry_sound_def f)
  then have "caches_ok t B = caches_ok s B" by (simp add: caches_ok_def f)
  then show ?thesis by (simp add: client_def remarked_core [OF assms])
qed

section \<open>Setting, resetting and reading a mark\<close>

lemma flag_on [simp]: "((k::nat) OR MARKON) AND MARKON \<noteq> 0"
  by (simp add: MARKON_def and_one_eq mod2_eq_if even_or_iff)

lemma flag_off [simp]: "((k::nat) AND MARKOFF) AND MARKON = 0"
proof -
  have "(2::nat) AND 1 = 0" by simp
  then show ?thesis by (simp add: MARKON_def MARKOFF_def and.assoc del: and_Suc_0_eq)
qed

lemma upd_flag:
  assumes "nodes s (cdd_rglr p) = Some n" "\<And>n. n_level (f n) = n_level n \<and> n_body (f n) = n_body n \<and> n_ref (f n) = n_ref n"
  shows "wp (upd_node p f) (\<lambda>_. remarked ((marks s - {cdd_rglr p}) \<union> (if n_flag (f n) AND MARKON \<noteq> 0 then {cdd_rglr p} else {})) s) s"
proof -
  have "wp (upd_node p f) (\<lambda>_ t. t = set_node p (f n) s) s"
    by (simp add: upd_node_def wp_simps get_node_def wp_def bindM_def someM_def assms(1) modifyM_def)
  moreover have "remarked ((marks s - {cdd_rglr p}) \<union> (if n_flag (f n) AND MARKON \<noteq> 0 then {cdd_rglr p} else {})) s (set_node p (f n) s)"
    using assms by (auto simp: remarked_def set_node_def marks_def cont_def rf_def fun_eq_iff)
  ultimately show ?thesis by (auto elim: wp_mono)
qed

lemma setmark_spec:
  assumes "nodes s (cdd_rglr p) \<noteq> None"
  shows "wp (cdd_setmark p) (\<lambda>_. remarked (insert (cdd_rglr p) (marks s)) s) s"
proof -
  obtain n where n: "nodes s (cdd_rglr p) = Some n" using assms by blast
  show ?thesis unfolding cdd_setmark_def
    by (rule wp_mono [OF upd_flag [OF n]]) (simp_all add: insert_absorb2)
qed

lemma resetmark_spec:
  assumes "nodes s (cdd_rglr p) \<noteq> None"
  shows "wp (cdd_resetmark p) (\<lambda>_. remarked (marks s - {cdd_rglr p}) s) s"
proof -
  obtain n where n: "nodes s (cdd_rglr p) = Some n" using assms by blast
  show ?thesis unfolding cdd_resetmark_def
    by (rule wp_mono [OF upd_flag [OF n]]) simp_all
qed

lemma ismarked_eq:
  assumes "nodes s (cdd_rglr p) \<noteq> None"
  shows "cdd_ismarked p s = Inr (cdd_rglr p \<in> marks s, s)"
  using assms by (auto simp: cdd_ismarked_def bindM_def get_node_def someM_def ret_def marks_def)

section \<open>The nodes of a diagram\<close>

definition diagram :: "contents \<Rightarrow> ptr \<Rightarrow> ptr set" where
  "diagram C p = held C (\<lambda>q. if q = cdd_rglr p then 1 else 0) - {cddfalse}"

lemma diagram_self: "cdd_rglr p \<noteq> cddfalse \<Longrightarrow> cdd_rglr p \<in> diagram C p"
  by (auto simp: diagram_def intro: held_token)

lemma diagram_kid: "q \<in> diagram C p \<Longrightarrow> c \<in> set (kids_of C q) \<Longrightarrow> cdd_rglr c \<noteq> cddfalse \<Longrightarrow> cdd_rglr c \<in> diagram C p"
  by (auto simp: diagram_def intro: held_kid)

lemma diagram_induct [consumes 2, case_names self kid]:
  assumes "q \<in> diagram C p" "kids_of C cddfalse = []" "cdd_rglr p \<noteq> cddfalse \<Longrightarrow> P (cdd_rglr p)"
    and step: "\<And>q c. q \<in> diagram C p \<Longrightarrow> P q \<Longrightarrow> c \<in> set (kids_of C q) \<Longrightarrow> cdd_rglr c \<noteq> cddfalse \<Longrightarrow> P (cdd_rglr c)"
  shows "P q"
proof -
  have "q \<in> held C (\<lambda>q. if q = cdd_rglr p then 1 else 0) \<Longrightarrow> q = cddfalse \<or> P q" for q
  proof (induction rule: held.induct)
    case (held_kid q c)
    show ?case
    proof (cases "q = cddfalse")
      case True
      then show ?thesis using held_kid assms(2) by simp
    next
      case False
      then have "q \<in> diagram C p" using held_kid by (simp add: diagram_def)
      then show ?thesis using step [of q c] held_kid False by blast
    qed
  qed (use assms(3) in \<open>auto split: if_splits\<close>)
  then show ?thesis using assms(1) by (auto simp: diagram_def)
qed

lemma diagram_sub:
  assumes "kids_of C cddfalse = []" "cdd_rglr p \<in> diagram C r"
  shows "diagram C p \<subseteq> diagram C r"
proof
  fix q assume "q \<in> diagram C p"
  from this assms(1) show "q \<in> diagram C r"
    by (induction rule: diagram_induct) (use assms diagram_kid in auto)
qed

lemma diagram_term:
  assumes "kids_of C cddfalse = []" "cdd_rglr p = cddfalse"
  shows "diagram C p = {}"
proof -
  have "cdd_rglr p \<noteq> cddfalse" if "q \<in> diagram C p" for q
    using that assms(1) by (induction rule: diagram_induct) auto
  then show ?thesis using assms(2) by auto
qed

lemma term_kids: "core s X F W B \<Longrightarrow> kids_of (cont s) cddfalse = []"
  by (simp add: kids_of_def core_term)

lemma reach_diagram:
  assumes "core s X F {} B" "reach X s p" "q \<in> diagram (cont s) p"
  shows "reach X s q"
  using assms(3) term_kids [OF assms(1)]
proof (induction rule: diagram_induct)
  case (kid q c)
  then show ?case using reach_kid [of X s q c] by simp
qed (use assms(2) in simp)

section \<open>Visiting a node\<close>

lemma node_at:
  assumes c: "core s X F {} B" and r: "reach X s p" "cdd_rglr p \<noteq> cddfalse"
  shows "nodes s (cdd_rglr p) \<noteq> None" "cdd_isterminal p s = Inr (False, s)" "lv (cont s) p < cdd_levelcnt s"
    "\<exists>cs. node_children p s = Inr (cs, s) \<and> map cdd_rglr cs = map cdd_rglr (kids_of (cont s) p) \<and>
       (\<forall>c \<in> set cs. reach X s c \<and> lv (cont s) p < lv (cont s) c)"
proof -
  have rr: "reach X s (cdd_rglr p)" "cdd_rglr (cdd_rglr p) = cdd_rglr p" using r(1) by simp_all
  note nr = node_reads [OF c r]
  obtain bd where bd: "cont s (cdd_rglr p) = Some (lv (cont s) p, bd)" "shape_ok (cdd_levelinfo s) B (lv (cont s) p) bd"
    "\<And>c. c \<in> set (kids bd) \<Longrightarrow> reach X s c \<and> lv (cont s) p < lv (cont s) c"
    using reach_node [OF c rr r(2)] by (metis lv_rglr)
  show "nodes s (cdd_rglr p) \<noteq> None" using bd(1) by (auto simp: cont_def)
  show "cdd_isterminal p s = Inr (False, s)" "lv (cont s) p < cdd_levelcnt s" using nr by simp_all
  obtain n where n: "nodes s (cdd_rglr p) = Some n" "n_level n = lv (cont s) p" "n_body n = bd"
    using bd(1) by (auto simp: cont_def)
  have g: "get_node p s = Inr (n, s)" by (simp add: get_node_def someM_def n)
  have info: "cdd_info p s = Inr (cdd_levelinfo s ! lv (cont s) p, s)"
    using nr(3) core_levels(1) [OF c] by (simp add: cdd_info_def level_of_def bindM_def g ret_def n levelinfo_at_def)
  have kd: "kids_of (cont s) p = kids bd" by (simp add: kids_of_def bd(1))
  show "\<exists>cs. node_children p s = Inr (cs, s) \<and> map cdd_rglr cs = map cdd_rglr (kids_of (cont s) p) \<and>
      (\<forall>c \<in> set cs. reach X s c \<and> lv (cont s) p < lv (cont s) c)"
  proof (cases bd)
    case (Bdd lo hi)
    then have "node_children p s = Inr ([lo, hi], s)"
      using bd(2) by (simp add: node_children_def bindM_def info shape_ok_def bdd_node_def g n ret_def)
    then show ?thesis using bd(3) Bdd kd by auto
  next
    case (Cdd es)
    have sh: "li_type (cdd_levelinfo s ! lv (cont s) p) = TYPE_CDD" "es \<noteq> []" "sorted_wrt (<) (map e_bnd es)" "e_bnd (last es) = bnd_INF"
      using bd(2) Cdd by (auto simp: shape_ok_def)
    then have "it_run es (- bnd_INF) = Some es"
      by (intro it_run_full) (simp_all add: bnd_INF_def)
    then have "node_children p s = Inr (map (\<lambda>e. cdd_neg_cond (e_child e) (cdd_mask p)) es, s)"
      using sh(1) Cdd by (simp add: node_children_def bindM_def info cdd_it_children_def cdd_elems_def g n ret_def someM_def)
    then show ?thesis using bd(3) Cdd kd by (auto simp: comp_def)
  qed (use bd(2) in \<open>auto simp: shape_ok_def\<close>)
qed

section \<open>Traversals\<close>

text \<open>
  \<open>visited C W cs K\<close>: a traversal from \<open>cs\<close> that skips the nodes outside \<open>W\<close> has visited the nodes \<open>K\<close>: nodes of \<open>W\<close>
  below \<open>cs\<close>, none of which has a child that is still to be visited.  When marking, \<open>W\<close> is the set of
  nodes without a mark; when unmarking, the set of nodes with one.
\<close>

definition visited :: "contents \<Rightarrow> ptr set \<Rightarrow> ptr list \<Rightarrow> ptr set \<Rightarrow> bool" where
  "visited C W cs K \<longleftrightarrow> finite K \<and> K \<subseteq> W \<and> K \<subseteq> (\<Union>c \<in> set cs. diagram C c) \<and>
     (\<forall>c \<in> set cs. cdd_rglr c = cddfalse \<or> cdd_rglr c \<notin> W - K) \<and>
     (\<forall>q \<in> K. \<forall>c \<in> set (kids_of C q). cdd_rglr c = cddfalse \<or> cdd_rglr c \<notin> W - K)"

lemma visited_Nil [simp]: "visited C W [] {}"
  by (simp add: visited_def)

lemma visited_skip: "cdd_rglr p = cddfalse \<or> cdd_rglr p \<notin> W \<Longrightarrow> visited C W [p] {}"
  by (simp add: visited_def)

lemma visited_Cons:
  assumes "visited C W [c] K" "visited C (W - K) cs L"
  shows "visited C W (c # cs) (K \<union> L)" "K \<inter> L = {}" "finite K" "finite L"
  using assms unfolding visited_def by auto

lemma visited_node:
  assumes k: "kids_of C cddfalse = []" and p: "cdd_rglr p \<noteq> cddfalse" "cdd_rglr p \<in> W"
    and v: "visited C (W - {cdd_rglr p}) cs K" and cs: "map cdd_rglr cs = map cdd_rglr (kids_of C p)"
  shows "visited C W [p] (insert (cdd_rglr p) K)" "cdd_rglr p \<notin> K" "finite K"
proof -
  have e: "cdd_rglr ` set cs = cdd_rglr ` set (kids_of C p)"
    using cs by (metis list.set_map)
  have kc: "cdd_rglr c = cddfalse \<or> cdd_rglr c \<notin> W - insert (cdd_rglr p) K" if "c \<in> set (kids_of C p)" for c
  proof -
    have "cdd_rglr c \<in> cdd_rglr ` set cs" using that e by simp
    then show ?thesis using v unfolding visited_def by fastforce
  qed
  have "diagram C c \<subseteq> diagram C p" if "c \<in> set cs" for c
  proof (cases "cdd_rglr c = cddfalse")
    case True
    show ?thesis by (simp add: diagram_term [OF k True])
  next
    case False
    have "cdd_rglr c \<in> cdd_rglr ` set (kids_of C p)" using that e by blast
    then have "cdd_rglr c \<in> diagram C p"
      using diagram_kid [OF diagram_self [OF p(1)], of _ C] False by auto
    then show ?thesis by (rule diagram_sub [OF k])
  qed
  then have "K \<subseteq> diagram C p" using v unfolding visited_def by blast
  then show "visited C W [p] (insert (cdd_rglr p) K)"
    using v kc p diagram_self [OF p(1)] unfolding visited_def by auto
  show "cdd_rglr p \<notin> K" "finite K" using v unfolding visited_def by auto
qed

lemma visited_all:
  assumes k: "kids_of C cddfalse = []" and v: "visited C W [p] K" and m: "diagram C p \<subseteq> W"
  shows "K = diagram C p"
proof
  show "K \<subseteq> diagram C p" using v by (simp add: visited_def)
  show "diagram C p \<subseteq> K"
  proof
    fix q assume "q \<in> diagram C p"
    from this k show "q \<in> K"
    proof (induction rule: diagram_induct)
      case self
      then show ?case using v m diagram_self [of p] by (auto simp: visited_def)
    next
      case (kid q c)
      have "cdd_rglr c \<in> diagram C p" using kid diagram_kid by blast
      then have "cdd_rglr c \<in> W" using m by blast
      then show ?case using kid v unfolding visited_def by blast
    qed
  qed
qed

section \<open>Counting\<close>

text \<open>
  The two counting traversals differ in what a node contributes: itself, or its edges.
\<close>

locale marking_walk =
  fixes walk :: "nat \<Rightarrow> ptr \<Rightarrow> nat K" and weight :: "nat \<Rightarrow> nat"
  assumes walk_0: "walk 0 p = fail NoFuel"
    and walk_Suc: "walk (Suc n) p =
      bindM (cdd_isterminal p) (\<lambda>t. bindM (if t then ret True else cdd_ismarked p) (\<lambda>skip.
      if skip then ret 0 else
      thenM (cdd_setmark p) (
      bindM (node_children p) (\<lambda>cs.
      bindM (sumM cs (walk n)) (\<lambda>k. ret (weight (length cs) + k))))))"
begin

definition total :: "contents \<Rightarrow> ptr set \<Rightarrow> nat" where
  "total C K = (\<Sum>q \<in> K. weight (length (kids_of C q)))"

definition counts :: "kstate \<Rightarrow> ptr list \<Rightarrow> nat \<Rightarrow> kstate \<Rightarrow> bool" where
  "counts s cs k t \<longleftrightarrow> (\<exists>K. visited (cont s) (- marks s) cs K \<and> remarked (marks s \<union> K) s t \<and> k = total (cont s) K)"

lemma sum_counts:
  assumes step: "\<And>t c. c \<in> set cs \<Longrightarrow> core t X F {} B \<Longrightarrow> cont t = cont s \<Longrightarrow> cdd_levelcnt t = cdd_levelcnt s \<Longrightarrow>
      wp (f c) (\<lambda>k u. counts t [c] k u) t"
    and t: "core t X F {} B" "cont t = cont s" "cdd_levelcnt t = cdd_levelcnt s"
  shows "wp (sumM cs f) (\<lambda>k u. counts t cs k u) t"
  using assms
proof (induction cs arbitrary: t)
  case Nil
  then show ?case by (auto simp: wp_simps counts_def total_def intro!: exI [where x = "{}"])
next
  case (Cons c cs)
  show ?case
    unfolding sumM.simps wp_bind wp_ret
  proof (rule wp_mono [OF Cons.prems(1)])
    fix a u assume "counts t [c] a u"
    then obtain K where K: "visited (cont t) (- marks t) [c] K" "remarked (marks t \<union> K) t u" "a = total (cont t) K" by (auto simp: counts_def)
    note f = remarked_fields [OF K(2)]
    show "wp (sumM cs f) (\<lambda>b v. counts t (c # cs) (a + b) v) u"
    proof (rule wp_mono [OF Cons.IH [of u]])
      fix b v assume "counts u cs b v"
      then obtain L where L: "visited (cont u) (- marks u) cs L" "remarked (marks u \<union> L) u v" "b = total (cont u) L" by (auto simp: counts_def)
      have "- marks u = - marks t - K" using f by auto
      note n = visited_Cons [OF K(1) L(1) [unfolded this f(17)]]
      have "remarked (marks t \<union> (K \<union> L)) t v" using remarked_trans [OF K(2) L(2)] f by (simp add: Un_assoc)
      moreover have "a + b = total (cont t) (K \<union> L)"
        unfolding K(3) L(3) total_def f by (rule sum.union_disjoint [OF n(3,4,2), symmetric])
      ultimately show "counts t (c # cs) (a + b) v" using n(1) by (auto simp: counts_def)
    qed (use Cons.prems remarked_core [OF K(2)] f in auto)
  qed (use Cons.prems in auto)
qed

lemma walk_counts:
  assumes "core s X F {} B" "reach X s p" "cdd_levelcnt s < min (lv (cont s) p) (cdd_levelcnt s) + n"
  shows "wp (walk n p) (\<lambda>k t. counts s [p] k t) s"
  using assms
proof (induction n arbitrary: s p)
  case (Suc n)
  note c = Suc.prems(1)
  have skip: "counts s [p] 0 s" if "cdd_rglr p = cddfalse \<or> cdd_rglr p \<in> marks s"
    using that by (auto simp: counts_def total_def visited_skip intro!: exI [where x = "{}"])
  show ?case
  proof (cases "cdd_rglr p = cddfalse")
    case True
    then have "cdd_isterminal p s = Inr (True, s)"
      using isterminal_term [OF c] by simp
    from wp_eq [where m = "cdd_isterminal p", OF this] show ?thesis using skip True by (simp add: walk_Suc wp_bind wp_ret)
  next
    case nt: False
    note n = node_at [OF c Suc.prems(2) nt]
    have im: "cdd_ismarked p s = Inr (cdd_rglr p \<in> marks s, s)" by (rule ismarked_eq [OF n(1)])
    show ?thesis
    proof (cases "cdd_rglr p \<in> marks s")
      case True
      then show ?thesis
        using skip by (simp add: walk_Suc wp_bind wp_eq [where m = "cdd_isterminal p", OF n(2)] wp_eq [where m = "cdd_ismarked p", OF im] wp_ret)
    next
      case False
      have "wp (thenM (cdd_setmark p) (bindM (node_children p) (\<lambda>cs. bindM (sumM cs (walk n)) (\<lambda>k. ret (weight (length cs) + k)))))
          (\<lambda>k t. counts s [p] k t) s"
        unfolding wp_then
      proof (rule wp_mono [OF setmark_spec [OF n(1)]])
        fix x u assume u: "remarked (insert (cdd_rglr p) (marks s)) s u"
        note f = remarked_fields [OF u]
        have cu: "core u X F {} B" using c by (simp add: remarked_core [OF u])
        have ru: "reach X u p" using remarked_views(4) [OF u] Suc.prems(2) by simp
        obtain cs where cs: "node_children p u = Inr (cs, u)" "map cdd_rglr cs = map cdd_rglr (kids_of (cont s) p)"
          "\<forall>c \<in> set cs. reach X u c \<and> lv (cont s) p < lv (cont s) c"
          using node_at(4) [OF cu ru nt, unfolded f(17)] by blast
        have "wp (sumM cs (walk n)) (\<lambda>k v. counts u cs k v) u"
        proof (rule sum_counts [where X = X and F = F and B = B])
          fix t c assume t: "c \<in> set cs" "core t X F {} B" "cont t = cont u" "cdd_levelcnt t = cdd_levelcnt u"
          have "reach X t c" using cs(3) t by (simp add: reach_def)
          moreover have "cdd_levelcnt t < min (lv (cont t) c) (cdd_levelcnt t) + n"
            using cs(3) t(1) Suc.prems(3) n(3) by (auto simp: t(3,4) f)
          ultimately show "wp (walk n c) (\<lambda>k v. counts t [c] k v) t" by (rule Suc.IH [OF t(2)])
        qed (use cu in simp_all)
        then show "wp (bindM (node_children p) (\<lambda>cs. bindM (sumM cs (walk n)) (\<lambda>k. ret (weight (length cs) + k)))) (\<lambda>k t. counts s [p] k t) u"
          unfolding wp_bind wp_eq [where m = "node_children p", OF cs(1)] wp_ret
        proof (rule wp_mono)
          fix k v assume "counts u cs k v"
          then obtain K where K: "visited (cont u) (- marks u) cs K" "remarked (marks u \<union> K) u v" "k = total (cont u) K" by (auto simp: counts_def)
          have "- marks u = - marks s - {cdd_rglr p}" "cdd_rglr p \<in> - marks s" using f False by auto
          note vn = visited_node [OF term_kids [OF c] nt this(2) K(1) [unfolded this(1) f(17)] cs(2)]
          have "length cs = length (kids_of (cont s) (cdd_rglr p))" using arg_cong [OF cs(2), of length] by simp
          then have "weight (length cs) + k = total (cont s) (insert (cdd_rglr p) K)"
            using vn(2,3) K(3) f by (simp add: total_def)
          moreover have "remarked (marks s \<union> insert (cdd_rglr p) K) s v"
            using remarked_trans [OF u K(2)] f by simp
          ultimately show "counts s [p] (weight (length cs) + k) v" using vn(1) by (auto simp: counts_def)
        qed
      qed
      then show ?thesis
        using False by (simp add: walk_Suc wp_bind wp_eq [where m = "cdd_isterminal p", OF n(2)] wp_eq [where m = "cdd_ismarked p", OF im] wp_ret)
    qed
  qed
qed (simp add: min_def split: if_splits)

text \<open>From a diagram without marks, the whole diagram is counted.\<close>

lemma walk_all:
  assumes c: "core s X F {} B" and r: "reach X s p" and m: "marks s \<inter> diagram (cont s) p = {}"
  shows "wp (walk (cdd_levelcnt s + 2) p)
    (\<lambda>k t. remarked (marks s \<union> diagram (cont s) p) s t \<and> k = total (cont s) (diagram (cont s) p)) s"
proof (rule wp_mono [OF walk_counts [OF c r]])
  fix k t assume "counts s [p] k t"
  then obtain K where K: "visited (cont s) (- marks s) [p] K" "remarked (marks s \<union> K) s t" "k = total (cont s) K"
    by (auto simp: counts_def)
  have "K = diagram (cont s) p" by (rule visited_all [OF term_kids [OF c] K(1)]) (use m in auto)
  then show "remarked (marks s \<union> diagram (cont s) p) s t \<and> k = total (cont s) (diagram (cont s) p)"
    using K by simp
qed simp

end

interpretation nodecount: marking_walk markcount_rec "\<lambda>_. 1"
  by unfold_locales (simp_all only: markcount_rec.simps plus_1_eq_Suc)

interpretation edgecount: marking_walk markedgecount_rec "\<lambda>n. n"
  by unfold_locales simp_all

text \<open>\<^verbatim>\<open>cdd_mark\<close> visits as \<^verbatim>\<open>cdd_markcount\<close> does.\<close>

lemma bind_assoc: "bindM (bindM m f) g = bindM m (\<lambda>x. bindM (f x) g)"
  by (auto simp: bindM_def fun_eq_iff split: sum.splits)

lemma bind_ret: "bindM (ret x) f = f x"
  by (simp add: bindM_def ret_def fun_eq_iff)

lemma bind_if: "bindM (if c then m else n) f = (if c then bindM m f else bindM n f)"
  by simp

lemma mark_counts: "mark_rec n p = bindM (markcount_rec n p) (\<lambda>_. ret ())"
proof (induction n arbitrary: p)
  case (Suc n)
  have fe: "forM cs (mark_rec n) = bindM (sumM cs (markcount_rec n)) (\<lambda>_. ret ())" for cs
    by (induction cs) (simp_all add: Suc.IH thenM_def bind_assoc bind_ret)
  show ?case
    unfolding mark_rec.simps markcount_rec.simps thenM_def bind_assoc bind_ret bind_if fe by (rule refl)
qed (simp add: fun_eq_iff bindM_def fail_def)

section \<open>Unmarking\<close>

definition unmarks :: "kstate \<Rightarrow> ptr list \<Rightarrow> kstate \<Rightarrow> bool" where
  "unmarks s cs t \<longleftrightarrow> (\<exists>K. visited (cont s) (marks s) cs K \<and> remarked (marks s - K) s t)"

lemma for_unmarks:
  assumes step: "\<And>t c. c \<in> set cs \<Longrightarrow> core t X F {} B \<Longrightarrow> cont t = cont s \<Longrightarrow> cdd_levelcnt t = cdd_levelcnt s \<Longrightarrow>
      wp (f c) (\<lambda>_ u. unmarks t [c] u) t"
    and t: "core t X F {} B" "cont t = cont s" "cdd_levelcnt t = cdd_levelcnt s"
  shows "wp (forM cs f) (\<lambda>_ u. unmarks t cs u) t"
  using assms
proof (induction cs arbitrary: t)
  case Nil
  then show ?case by (auto simp: wp_simps unmarks_def intro!: exI [where x = "{}"])
next
  case (Cons c cs)
  show ?case
    unfolding forM.simps wp_then
  proof (rule wp_mono [OF Cons.prems(1)])
    fix x u assume "unmarks t [c] u"
    then obtain K where K: "visited (cont t) (marks t) [c] K" "remarked (marks t - K) t u" by (auto simp: unmarks_def)
    note f = remarked_fields [OF K(2)]
    show "wp (forM cs f) (\<lambda>_ v. unmarks t (c # cs) v) u"
    proof (rule wp_mono [OF Cons.IH [of u]])
      fix x v assume "unmarks u cs v"
      then obtain L where L: "visited (cont u) (marks u) cs L" "remarked (marks u - L) u v" by (auto simp: unmarks_def)
      note n = visited_Cons [OF K(1) L(1) [unfolded f]]
      have "remarked (marks t - (K \<union> L)) t v" using remarked_trans [OF K(2) L(2)] f by (simp add: Diff_eq Int_assoc)
      then show "unmarks t (c # cs) v" using n(1) by (auto simp: unmarks_def)
    qed (use Cons.prems remarked_core [OF K(2)] f in auto)
  qed (use Cons.prems in auto)
qed

lemma unmark_rec_spec:
  assumes "core s X F {} B" "reach X s p" "cdd_levelcnt s < min (lv (cont s) p) (cdd_levelcnt s) + n"
  shows "wp (unmark_rec n p) (\<lambda>_ t. unmarks s [p] t) s"
  using assms
proof (induction n arbitrary: s p)
  case (Suc n)
  note c = Suc.prems(1)
  have skip: "unmarks s [p] s" if "cdd_rglr p = cddfalse \<or> cdd_rglr p \<notin> marks s"
    using that by (auto simp: unmarks_def visited_skip intro!: exI [where x = "{}"])
  show ?case
  proof (cases "cdd_rglr p = cddfalse")
    case True
    then show ?thesis using skip by (simp add: wp_simps cdd_is_tfterminal_def)
  next
    case nt: False
    note n = node_at [OF c Suc.prems(2) nt]
    have im: "cdd_ismarked p s = Inr (cdd_rglr p \<in> marks s, s)" by (rule ismarked_eq [OF n(1)])
    show ?thesis
    proof (cases "cdd_rglr p \<in> marks s")
      case False
      then show ?thesis
        using skip nt by (simp add: wp_simps cdd_is_tfterminal_def wp_eq [where m = "cdd_ismarked p", OF im])
    next
      case True
      have "wp (thenM (cdd_resetmark p) (bindM (cdd_is_extra_terminal p) (\<lambda>x. if x then ret () else
          bindM (node_children p) (\<lambda>cs. forM cs (unmark_rec n))))) (\<lambda>_ t. unmarks s [p] t) s"
        unfolding wp_then
      proof (rule wp_mono [OF resetmark_spec [OF n(1)]])
        fix x u assume u: "remarked (marks s - {cdd_rglr p}) s u"
        note f = remarked_fields [OF u]
        have cu: "core u X F {} B" using c by (simp add: remarked_core [OF u])
        have ru: "reach X u p" using remarked_views(4) [OF u] Suc.prems(2) by simp
        obtain cs where cs: "node_children p u = Inr (cs, u)" "map cdd_rglr cs = map cdd_rglr (kids_of (cont s) p)"
          "\<forall>c \<in> set cs. reach X u c \<and> lv (cont s) p < lv (cont s) c"
          using node_at(4) [OF cu ru nt, unfolded f(17)] by blast
        have et: "cdd_is_extra_terminal p u = Inr (False, u)"
          using node_at(2) [OF cu ru nt] nt by (simp add: cdd_is_extra_terminal_def)
        have "wp (forM cs (unmark_rec n)) (\<lambda>_ v. unmarks u cs v) u"
        proof (rule for_unmarks [where X = X and F = F and B = B])
          fix t c assume t: "c \<in> set cs" "core t X F {} B" "cont t = cont u" "cdd_levelcnt t = cdd_levelcnt u"
          have "reach X t c" using cs(3) t by (simp add: reach_def)
          moreover have "cdd_levelcnt t < min (lv (cont t) c) (cdd_levelcnt t) + n"
            using cs(3) t(1) Suc.prems(3) n(3) by (auto simp: t(3,4) f)
          ultimately show "wp (unmark_rec n c) (\<lambda>_ v. unmarks t [c] v) t" by (rule Suc.IH [OF t(2)])
        qed (use cu in simp_all)
        then show "wp (bindM (cdd_is_extra_terminal p) (\<lambda>x. if x then ret () else
            bindM (node_children p) (\<lambda>cs. forM cs (unmark_rec n)))) (\<lambda>_ t. unmarks s [p] t) u"
          unfolding wp_bind wp_eq [where m = "cdd_is_extra_terminal p", OF et] if_False
            wp_eq [where m = "node_children p", OF cs(1)]
        proof (rule wp_mono)
          fix x v assume "unmarks u cs v"
          then obtain K where K: "visited (cont u) (marks u) cs K" "remarked (marks u - K) u v" by (auto simp: unmarks_def)
          note vn = visited_node [OF term_kids [OF c] nt True K(1) [unfolded f] cs(2)]
          have "marks s - insert (cdd_rglr p) K = marks u - K" using f by auto
          then have "remarked (marks s - insert (cdd_rglr p) K) s v"
            using remarked_trans [OF u K(2)] by simp
          then show "unmarks s [p] v" using vn(1) by (auto simp: unmarks_def)
        qed
      qed
      then show ?thesis
        using True nt by (simp add: wp_bind cdd_is_tfterminal_def wp_eq [where m = "cdd_ismarked p", OF im])
    qed
  qed
qed (simp add: min_def split: if_splits)

lemma cdd_unmark_all:
  assumes c: "core s X F {} B" and r: "reach X s p"
  shows "wp (cdd_unmark p) (\<lambda>_ t. \<exists>K. remarked (marks s - K) s t \<and> K \<subseteq> diagram (cont s) p \<and>
     (diagram (cont s) p \<subseteq> marks s \<longrightarrow> K = diagram (cont s) p)) s"
  unfolding cdd_unmark_def wp_bind wp_gets
proof (rule wp_mono [OF unmark_rec_spec [OF c r]])
  fix x t assume "unmarks s [p] t"
  then obtain K where K: "visited (cont s) (marks s) [p] K" "remarked (marks s - K) s t" by (auto simp: unmarks_def)
  then show "\<exists>K. remarked (marks s - K) s t \<and> K \<subseteq> diagram (cont s) p \<and> (diagram (cont s) p \<subseteq> marks s \<longrightarrow> K = diagram (cont s) p)"
    using visited_all [OF term_kids [OF c] K(1)] by (intro exI [of _ K]) (auto simp: visited_def)
qed simp

section \<open>The numbers of nodes and edges\<close>

definition edges :: "contents \<Rightarrow> ptr \<Rightarrow> nat" where
  "edges C p = (\<Sum>q \<in> diagram C p. length (kids_of C q))"

lemma count_all:
  assumes c: "core s X F {} B" and r: "reach X s p" and m: "marks s \<inter> diagram (cont s) p = {}"
    and w: "wp (walk (cdd_levelcnt s + 2) p) (\<lambda>k t. remarked (marks s \<union> diagram (cont s) p) s t \<and> k = N) s"
  shows "wp (if p = 0 then cdd_error CDD_ILLCDD else
      bindM (bindM (gets cdd_levelcnt) (\<lambda>n. walk (n + 2) p)) (\<lambda>n. thenM (cdd_unmark p) (ret (int n))))
    (\<lambda>k t. remarked (marks s) s t \<and> k = int N) s"
proof -
  have "p \<noteq> 0" using sound_nonzero [OF c reach_sound [OF c r]] by (auto simp: cdd_rglr_def)
  moreover have "wp (bindM (bindM (gets cdd_levelcnt) (\<lambda>n. walk (n + 2) p)) (\<lambda>n. thenM (cdd_unmark p) (ret (int n))))
      (\<lambda>k t. remarked (marks s) s t \<and> k = int N) s"
    unfolding wp_bind wp_gets
  proof (rule wp_mono [OF w], elim conjE)
    fix k t assume t: "remarked (marks s \<union> diagram (cont s) p) s t" "k = N"
    note f = remarked_fields [OF t(1)]
    have ct: "core t X F {} B" and rt: "reach X t p" using c r by (simp_all add: remarked_core [OF t(1)] remarked_views(4) [OF t(1)])
    show "wp (thenM (cdd_unmark p) (ret (int k))) (\<lambda>k t. remarked (marks s) s t \<and> k = int N) t"
      unfolding wp_then wp_ret
    proof (rule wp_mono [OF cdd_unmark_all [OF ct rt]])
      fix x u assume "\<exists>K. remarked (marks t - K) t u \<and> K \<subseteq> diagram (cont t) p \<and>
        (diagram (cont t) p \<subseteq> marks t \<longrightarrow> K = diagram (cont t) p)"
      then have "remarked (marks t - diagram (cont s) p) t u" by (auto simp: f)
      moreover have "marks t - diagram (cont s) p = marks s" using m f by auto
      ultimately show "remarked (marks s) s u \<and> int k = int N" using remarked_trans [OF t(1)] t(2) by simp
    qed
  qed
  ultimately show ?thesis by simp
qed

lemma cdd_nodecount_spec:
  assumes c: "core s X F {} B" and r: "reach X s p" and m: "marks s \<inter> diagram (cont s) p = {}"
  shows "wp (cdd_nodecount p) (\<lambda>k t. remarked (marks s) s t \<and> k = int (card (diagram (cont s) p))) s"
  unfolding cdd_nodecount_def cdd_markcount_def
  by (rule count_all [OF assms]) (use nodecount.walk_all [OF assms, unfolded nodecount.total_def] in \<open>simp del: markcount_rec.simps\<close>)

lemma cdd_edgecount_spec:
  assumes c: "core s X F {} B" and r: "reach X s p" and m: "marks s \<inter> diagram (cont s) p = {}"
  shows "wp (cdd_edgecount p) (\<lambda>k t. remarked (marks s) s t \<and> k = int (edges (cont s) p)) s"
  unfolding cdd_edgecount_def cdd_markedgecount_def
  by (rule count_all [OF assms]) (use edgecount.walk_all [OF assms] in \<open>simp add: edgecount.total_def edges_def del: markedgecount_rec.simps\<close>)

lemma cdd_mark_spec:
  assumes c: "core s X F {} B" and r: "reach X s p" and m: "marks s \<inter> diagram (cont s) p = {}"
  shows "wp (cdd_mark p) (\<lambda>_ t. remarked (marks s \<union> diagram (cont s) p) s t) s"
  unfolding cdd_mark_def mark_counts wp_bind wp_gets wp_ret
  by (rule wp_mono [OF nodecount.walk_all [OF assms]]) simp

lemma nodecount_client:
  assumes "client X B s" "reach X s p" "marks s \<inter> diagram (cont s) p = {}"
  shows "wp (cdd_nodecount p) (\<lambda>k t. k = int (card (diagram (cont s) p)) \<and> client X B t \<and> cont t = cont s \<and> rf t = rf s \<and> marks t = marks s) s"
proof -
  obtain F where c: "core s X F {} B" using assms(1) by (auto simp: client_def)
  show ?thesis
  proof (rule wp_mono [OF cdd_nodecount_spec [OF c assms(2,3)]], elim conjE)
    fix k t assume t: "remarked (marks s) s t" "k = int (card (diagram (cont s) p))"
    show "k = int (card (diagram (cont s) p)) \<and> client X B t \<and> cont t = cont s \<and> rf t = rf s \<and> marks t = marks s"
      using assms(1) remarked_client [OF t(1)] remarked_fields(17-19) [OF t(1)] t(2) by blast
  qed
qed

end
