(* ===== verification/Temporaries.thy ===== *)
theory Temporaries
  imports Test_Spec Quantify
begin

text \<open>
  The operators of \<^verbatim>\<open>cddop.c\<close> keep their intermediate diagrams in local variables, referenced while
  they are needed and given back afterwards.  \<open>keeping s0 m\<close> describes the state in the middle of such
  a function: \<open>m\<close> lists the temporaries with their meanings.  The rules for taking a new result, for
  giving one back and for returning the last one are the proof rules for these functions; with them come
  the loops over the children of a node, and the caches with one argument.
\<close>

declare split_paired_All [simp del]

section \<open>Temporaries\<close>

definition keeping :: "meaning \<Rightarrow> (ptr \<Rightarrow> nat) \<Rightarrow> (nat \<Rightarrow> raw_t set) \<Rightarrow> kstate \<Rightarrow> (ptr \<times> (asg \<Rightarrow> bool)) list \<Rightarrow>
    kstate \<Rightarrow> bool" where
  "keeping T X B s0 m t \<longleftrightarrow> (\<exists>F. core s0 X F {} B) \<and> client_with T (with_toks X (map fst m)) B t \<and> kframes X s0 t \<and>
     (\<forall>x \<in> set m. \<forall>a. eval (cont t) a (fst x) = snd x a)"

lemma keeping_start: "client_with T X B s \<Longrightarrow> keeping T X B s [] s"
  by (auto simp: keeping_def client_with_def)

text \<open>A terminal needs no reference.\<close>

lemma client_terminal:
  assumes "client_with T X B s" "cdd_rglr p = cddfalse"
  shows "client_with T (with_toks X [p]) B s"
proof -
  obtain F where c: "core s X F {} B" "caches_mean T s B" using assms(1) by (auto simp: client_with_def)
  have "cddfalse \<notin> tabled s" using term_not_tabled [OF c(1)] .
  then have "refs_ok s (with_toks X [p]) F {}"
    using c(1) assms(2) by (auto simp: core_def refs_ok_def with_toks_def)
  then have "core s (with_toks X [p]) F {} B" using c(1) by (simp add: core_def)
  then show ?thesis using c(2) by (auto simp: client_with_def)
qed

lemma keeping_false:
  assumes "client_with T X B s"
  shows "keeping T X B s [(cddfalse, \<lambda>_. False)] s"
proof -
  obtain F where c: "core s X F {} B" using assms(1) by (auto simp: client_with_def)
  then show ?thesis using client_terminal [OF assms, of cddfalse] eval_tf(1) [OF c] by (auto simp: keeping_def)
qed

lemma keeping_client: "keeping T X B s0 m t \<Longrightarrow> client_with T (with_toks X (map fst m)) B t"
  by (simp add: keeping_def)

lemma keeping_env:
  "keeping T X B s0 m t \<Longrightarrow> cdd_levelcnt t = cdd_levelcnt s0 \<and> cdd_levelinfo t = cdd_levelinfo s0 \<and>
     cdd_diff2level t = cdd_diff2level s0 \<and> cdd_clocknum t = cdd_clocknum s0 \<and> opid t = opid s0"
  by (simp add: keeping_def kframes_def frames_def same_env_def)

lemma keeping_has:
  assumes "keeping T X B s0 m t" "(p, \<phi>) \<in> set m"
  shows "reach (with_toks X (map fst m)) t p" "eval (cont t) a p = \<phi> a"
proof -
  show "reach (with_toks X (map fst m)) t p" by (rule reach_tok) (use assms(2) in force)
  show "eval (cont t) a p = \<phi> a" using assms by (force simp: keeping_def)
qed

text \<open>What the client could reach before is still there.\<close>

lemma keeping_frame:
  assumes k: "keeping T X B s0 m t" and r: "reach X s0 q"
  shows "reach (with_toks X (map fst m)) t q" "lv (cont t) q = lv (cont s0) q" "eval (cont t) a q = eval (cont s0) a q"
    "cont t (cdd_rglr q) = cont s0 (cdd_rglr q)"
proof -
  obtain F where c: "core s0 X F {} B" and f: "kframes X s0 t" using k by (auto simp: keeping_def)
  note rk = reach_kframes [OF c f r]
  show "reach (with_toks X (map fst m)) t q" using reach_mono [of X "with_toks X (map fst m)", OF toks_pos] rk(1) by blast
  show "lv (cont t) q = lv (cont s0) q" "eval (cont t) a q = eval (cont s0) a q" by (rule rk(2,3))+
  show "cont t (cdd_rglr q) = cont s0 (cdd_rglr q)" using f r by (simp add: kframes_def frames_def reach_def)
qed

lemma keeping_some:
  assumes k: "keeping T X B s0 m t"
    and p: "wp op (\<lambda>p u. \<exists>\<phi>. R \<phi> \<and> yields_with T (with_toks X (map fst m)) B t \<phi> n p u) t"
  shows "wp (refd op) (\<lambda>p u. \<exists>\<phi>. R \<phi> \<and> keeping T X B s0 ((p, \<phi>) # m) u) t"
proof -
  let ?Y = "with_toks X (map fst m)"
  obtain F where c: "core s0 X F {} B" and f: "kframes X s0 t" using k by (auto simp: keeping_def)
  note ct = keeping_client [OF k]
  show ?thesis
    unfolding refd_def wp_bind wp_then wp_ret
  proof (rule wp_mono [OF p], elim exE conjE)
    fix p u \<phi> assume R: "R \<phi>" and y: "yields_with T ?Y B t \<phi> n p u"
    show "wp (cdd_ref p) (\<lambda>_ u. \<exists>\<phi>. R \<phi> \<and> keeping T X B s0 ((p, \<phi>) # m) u) u"
    proof (rule wp_mono [OF ref_yields [OF ct y]])
      fix x u assume u: "keeps_one_with T ?Y B t \<phi> n p u"
      have "kframes X s0 u"
        by (rule kframes_trans [OF c f, of ?Y]) (use u in \<open>simp_all add: keeps_one_with_def toks_pos\<close>)
      moreover have "\<forall>x \<in> set m. \<forall>a. eval (cont u) a (fst x) = snd x a"
        using keeps_one_reach(3) [OF ct u] keeping_has [OF k] by fastforce
      ultimately have "keeping T X B s0 ((p, \<phi>) # m) u"
        using c u by (auto simp: keeping_def keeps_one_with_def)
      with R show "\<exists>\<phi>. R \<phi> \<and> keeping T X B s0 ((p, \<phi>) # m) u" by blast
    qed
  qed
qed

lemma keeping_new:
  assumes "keeping T X B s0 m t" "wp op (yields_with T (with_toks X (map fst m)) B t \<phi> n) t"
  shows "wp (refd op) (\<lambda>p u. keeping T X B s0 ((p, \<phi>) # m) u) t"
  using keeping_some [OF assms(1), of op "\<lambda>\<psi>. \<psi> = \<phi>"] assms(2) by simp

lemma keeping_drop:
  assumes k: "keeping T X B s0 m t" and m: "mset m = mset ((p, \<phi>) # m')"
  shows "wp (cdd_rec_deref p) (\<lambda>_ u. keeping T X B s0 m' u) t"
proof -
  have "mset (map fst m) = mset (p # map fst m')" using arg_cong [OF m, of "image_mset fst"] by simp
  then have "client_with T (with_toks X (p # map fst m')) B t" using keeping_client [OF k] with_toks_perm by metis
  from rec_deref_client [OF this] show ?thesis
  proof (rule wp_mono, elim conjE)
    fix x u assume u: "client_with T (with_toks X (map fst m')) B u" "sim t u"
    obtain F where c: "core s0 X F {} B" and f: "kframes X s0 t" using k by (auto simp: keeping_def)
    have "kframes X s0 u" by (rule kframes_trans [OF c f frames_kframes [OF sim_frames [OF u(2)]]]) simp_all
    moreover have "set m' \<subseteq> set m" using m by (metis set_mset_mset set_subset_Cons)
    ultimately show "keeping T X B s0 m' u" using k c u sim_fields(1) [OF u(2)] by (auto simp: keeping_def)
  qed
qed

lemma keeping_return:
  assumes k: "keeping T X B s0 [(p, \<phi>)] t"
  shows "wp (thenM (cdd_deref p) (ret p)) (yields_with T X B s0 \<phi> 0) t"
proof -
  obtain F where c: "core s0 X F {} B" using k by (auto simp: keeping_def)
  show ?thesis
    unfolding wp_then wp_ret by (rule client_deref [OF _ _ c]) (use k in \<open>auto simp: keeping_def\<close>)
qed

lemma keeping_cong:
  assumes "keeping T X B s0 ((p, \<phi>) # m) t" "\<And>a. \<phi> a = \<psi> a"
  shows "keeping T X B s0 ((p, \<psi>) # m) t"
  using assms by (simp add: keeping_def)

text \<open>The operators on two or three temporaries.\<close>

lemma keeping_and:
  assumes "keeping T X B s0 m t" "(p, \<phi>) \<in> set m" "(q, \<psi>) \<in> set m"
  shows "wp (refd (cdd_and p q)) (\<lambda>r u. keeping T X B s0 ((r, \<lambda>a. \<phi> a \<and> \<psi> a) # m) u) t"
  by (rule keeping_new [OF assms(1) wp_mono [OF cdd_and_yields [OF keeping_client [OF assms(1)]
        keeping_has(1) [OF assms(1,2)] keeping_has(1) [OF assms(1,3)]]]])
    (erule yields_cong, simp add: keeping_has(2) [OF assms(1,2)] keeping_has(2) [OF assms(1,3)])

lemma keeping_or:
  assumes "keeping T X B s0 m t" "(p, \<phi>) \<in> set m" "(q, \<psi>) \<in> set m"
  shows "wp (refd (cdd_or p q)) (\<lambda>r u. keeping T X B s0 ((r, \<lambda>a. \<phi> a \<or> \<psi> a) # m) u) t"
  by (rule keeping_new [OF assms(1) wp_mono [OF cdd_or_yields [OF keeping_client [OF assms(1)]
        keeping_has(1) [OF assms(1,2)] keeping_has(1) [OF assms(1,3)]]]])
    (erule yields_cong, simp add: keeping_has(2) [OF assms(1,2)] keeping_has(2) [OF assms(1,3)])

lemma keeping_ite:
  assumes "keeping T X B s0 m t" "(p, \<phi>) \<in> set m" "(q, \<psi>) \<in> set m" "(r, \<chi>) \<in> set m"
  shows "wp (refd (cdd_ite p q r)) (\<lambda>r u. keeping T X B s0 ((r, \<lambda>a. if \<phi> a then \<psi> a else \<chi> a) # m) u) t"
  by (rule keeping_new [OF assms(1) wp_mono [OF cdd_ite_yields [OF keeping_client [OF assms(1)]
        keeping_has(1) [OF assms(1,2)] keeping_has(1) [OF assms(1,3)] keeping_has(1) [OF assms(1,4)]]]])
    (erule yields_cong, simp add: keeping_has(2) [OF assms(1,2)] keeping_has(2) [OF assms(1,3)] keeping_has(2) [OF assms(1,4)])

section \<open>Reading a node\<close>

lemma get_node_reads:
  assumes "cont s (cdd_rglr p) = Some (k, b)"
  shows "level_of p s = Inr (k, s)" "b = Bdd lo hi \<Longrightarrow> bdd_node p s = Inr ((lo, hi), s)"
    "b = Cdd es \<Longrightarrow> cdd_elems p s = Inr (es, s)"
  using assms by (auto simp: cont_def level_of_def bdd_node_def cdd_elems_def get_node_def bindM_def someM_def ret_def)

lemma node_view:
  assumes c: "core s X F {} B" and r: "reach X s p" "cdd_rglr p \<noteq> cddfalse"
  obtains b where "cont s (cdd_rglr p) = Some (lv (cont s) p, b)" "shape_ok (cdd_levelinfo s) B (lv (cont s) p) b"
    "\<And>c. c \<in> set (kids b) \<Longrightarrow> reach X s c \<and> lv (cont s) p < lv (cont s) c"
    "lv (cont s) p < cdd_levelcnt s" "lv (cont s) p < MAXLEVEL"
    "cdd_info p s = Inr (cdd_levelinfo s ! lv (cont s) p, s)"
proof -
  have rr: "reach X s (cdd_rglr p)" "cdd_rglr (cdd_rglr p) = cdd_rglr p" using r(1) by simp_all
  obtain b where b: "cont s (cdd_rglr p) = Some (lv (cont s) p, b)" "shape_ok (cdd_levelinfo s) B (lv (cont s) p) b"
    "\<And>c. c \<in> set (kids b) \<Longrightarrow> reach X s c \<and> lv (cont s) p < lv (cont s) c"
    "lv (cont s) p < cdd_levelcnt s" "lv (cont s) p < MAXLEVEL"
    using reach_node [OF c rr r(2)] by (metis lv_rglr)
  have "cdd_info p s = Inr (cdd_levelinfo s ! lv (cont s) p, s)"
    using get_node_reads(1) [OF b(1)] b(4) core_levels(1) [OF c] by (simp add: cdd_info_def bindM_def levelinfo_at_def)
  then show ?thesis using that b by blast
qed

text \<open>The two children of a boolean node, with its negation pushed into them.\<close>

lemma bdd_children:
  assumes c: "core s X F {} B" and r: "reach X s p" "cdd_rglr p \<noteq> cddfalse"
    and t: "li_type (cdd_levelinfo s ! lv (cont s) p) = TYPE_BDD"
  obtains lo hi where "bdd_low p s = Inr (cdd_neg_cond lo (cdd_mask p), s)" "bdd_high p s = Inr (cdd_neg_cond hi (cdd_mask p), s)"
    "cont s (cdd_rglr p) = Some (lv (cont s) p, Bdd lo hi)" "reach X s lo" "reach X s hi"
    "lv (cont s) p < lv (cont s) lo" "lv (cont s) p < lv (cont s) hi"
    "\<And>a. eval (cont s) a p = (if snd a (lv (cont s) p) then eval (cont s) a (cdd_neg_cond hi (cdd_mask p))
       else eval (cont s) a (cdd_neg_cond lo (cdd_mask p)))"
proof -
  obtain b where b: "cont s (cdd_rglr p) = Some (lv (cont s) p, b)" "shape_ok (cdd_levelinfo s) B (lv (cont s) p) b"
    "\<And>c. c \<in> set (kids b) \<Longrightarrow> reach X s c \<and> lv (cont s) p < lv (cont s) c" "lv (cont s) p < MAXLEVEL"
    using node_view [OF c r] by metis
  obtain lo hi where bd: "b = Bdd lo hi" using b(2) t by (auto simp: shape_ok_def split: body.splits)
  have ev: "eval (cont s) a (cdd_rglr p) = (if snd a (lv (cont s) p) then eval (cont s) a hi else eval (cont s) a lo)" for a
    using eval_bdd [of s "cdd_rglr p" "lv (cont s) p" lo hi a] b bd by simp
  show ?thesis
  proof (rule that [of lo hi])
    show "eval (cont s) a p = (if snd a (lv (cont s) p) then eval (cont s) a (cdd_neg_cond hi (cdd_mask p))
       else eval (cont s) a (cdd_neg_cond lo (cdd_mask p)))" for a
      using ev [of a] eval_split [of "cont s" a p] unfolding eval_neg_cond by auto
  qed (use get_node_reads(2) [OF b(1) bd] b bd in \<open>simp_all add: bdd_low_def bdd_high_def bindM_def ret_def\<close>)
qed

lemma keeping_reads:
  assumes "keeping T X B s m t" "reach X s p" "cont s (cdd_rglr p) = Some (k, b)"
  shows "level_of p t = Inr (k, t)" "b = Cdd es \<Longrightarrow> cdd_elems p t = Inr (es, t)" "b = Bdd lo hi \<Longrightarrow> bdd_node p t = Inr ((lo, hi), t)"
  using get_node_reads [of t p k b] keeping_frame(4) [OF assms(1,2)] assms(3) by simp_all

section \<open>The children of a clock node\<close>

text \<open>\<open>low_of es j\<close>: the lower bound that the iterator has at the \<open>j\<close>-th element.\<close>

definition low_of :: "elem list \<Rightarrow> nat \<Rightarrow> raw_t" where
  "low_of es j = (if j = 0 then - bnd_INF else e_bnd (es ! (j - 1)))"

definition it_at :: "ptr \<Rightarrow> elem list \<Rightarrow> nat \<Rightarrow> cdd_iterator" where
  "it_at p es j = \<lparr>it_low = low_of es j, it_neg = cdd_mask p, it_node = cdd_rglr p, it_p = j\<rparr>"

definition in_elem :: "elem list \<Rightarrow> nat \<Rightarrow> real \<Rightarrow> bool" where
  "in_elem es j x \<longleftrightarrow> \<not> bnd_sat x (low_of es j) \<and> bnd_sat x (e_bnd (es ! j))"

definition elem_list :: "elem list \<Rightarrow> bool" where
  "elem_list es \<longleftrightarrow> es \<noteq> [] \<and> sorted_wrt (<) (map e_bnd es) \<and> e_bnd (last es) = bnd_INF"

lemma it_reads:
  assumes "cdd_elems p s = Inr (es, s)" "j < length es"
  shows "cdd_it_upper (it_at p es j) s = Inr (e_bnd (es ! j), s)"
    "cdd_it_child (it_at p es j) s = Inr (cdd_neg_cond (e_child (es ! j)) (cdd_mask p), s)"
    "cdd_it_next (it_at p es j) s = Inr (it_at p es (Suc j), s)" "cdd_it_lower (it_at p es j) = low_of es j"
proof -
  have "get_node (cdd_rglr p) = get_node p" by (simp add: fun_eq_iff get_node_def bindM_def)
  then have "cdd_elems (cdd_rglr p) s = Inr (es, s)" using assms(1) by (simp add: cdd_elems_def)
  then have "elem_at (cdd_rglr p) j s = Inr (es ! j, s)" using assms(2) by (simp add: elem_at_def bindM_def ret_def)
  then show "cdd_it_upper (it_at p es j) s = Inr (e_bnd (es ! j), s)"
    "cdd_it_child (it_at p es j) s = Inr (cdd_neg_cond (e_child (es ! j)) (cdd_mask p), s)"
    "cdd_it_next (it_at p es j) s = Inr (it_at p es (Suc j), s)" "cdd_it_lower (it_at p es j) = low_of es j"
    by (simp_all add: cdd_it_upper_def cdd_it_child_def cdd_it_next_def cdd_it_lower_def it_at_def low_of_def bindM_def ret_def)
qed

lemma elem_less:
  assumes "elem_list es" "i < j" "j < length es"
  shows "e_bnd (es ! i) < e_bnd (es ! j)"
  using assms sorted_wrt_nth_less [of "(<)" "map e_bnd es" i j] by (simp add: elem_list_def)

lemma elem_at_end:
  assumes "elem_list es" "j \<le> length es"
  shows "cdd_it_atend (it_at p es j) \<longleftrightarrow> j = length es"
proof -
  have l: "e_bnd (es ! (length es - 1)) = bnd_INF" "0 < length es"
    using assms(1) last_conv_nth [of es] by (auto simp: elem_list_def)
  have "e_bnd (es ! (j - 1)) < bnd_INF" if "0 < j" "j < length es"
    using elem_less [OF assms(1), of "j - 1" "length es - 1"] that l by simp
  then show ?thesis using l assms(2) by (cases "j = length es") (auto simp: cdd_it_atend_def it_at_def low_of_def bnd_INF_def)
qed

lemma elem_order:
  assumes es: "elem_list es" "2 \<le> length es" and b: "\<And>i. i < length es \<Longrightarrow> - bnd_INF < e_bnd (es ! i)" and j: "j < length es"
  shows "low_of es j < e_bnd (es ! j)" "- bnd_INF < low_of es j \<or> e_bnd (es ! j) < bnd_INF" "- bnd_INF \<le> low_of es j"
    "low_of es j = - bnd_INF \<or> low_of es j \<in> e_bnd ` set es"
proof -
  have hi: "e_bnd (es ! 0) < bnd_INF" using elem_less [OF es(1), of 0 "length es - 1"] es(1,2) last_conv_nth [of es]
    by (auto simp: elem_list_def)
  have "low_of es j = - bnd_INF \<and> e_bnd (es ! j) < bnd_INF \<or>
      low_of es j < e_bnd (es ! j) \<and> - bnd_INF < low_of es j \<and> low_of es j \<in> e_bnd ` set es"
    using b [of "j - 1"] j hi elem_less [OF es(1), of "j - 1" j] by (cases "j = 0") (simp_all add: low_of_def)
  then show "low_of es j < e_bnd (es ! j)" "- bnd_INF < low_of es j \<or> e_bnd (es ! j) < bnd_INF" "- bnd_INF \<le> low_of es j"
    "low_of es j = - bnd_INF \<or> low_of es j \<in> e_bnd ` set es"
    using b [OF j] by auto
qed

text \<open>The loop over the children: one round for each element.\<close>

lemma it_loop_rule:
  assumes es: "elem_list es"
    and step: "\<And>j acc t. j < length es \<Longrightarrow> I j acc t \<Longrightarrow> wp (f (it_at p es j) acc) (I (Suc j)) t"
    and rd: "\<And>j acc t. I j acc t \<Longrightarrow> cdd_elems p t = Inr (es, t)"
  shows "j \<le> length es \<Longrightarrow> length es - j < m \<Longrightarrow> I j acc t \<Longrightarrow> wp (it_loop m f (it_at p es j) acc) (I (length es)) t"
proof (induction m arbitrary: j acc t)
  case (Suc m)
  show ?case
  proof (cases "j = length es")
    case True
    then show ?thesis
      using Suc.prems elem_at_end [OF es, of j p] by (simp add: it_loop.simps [of "Suc m"] wp_ret)
  next
    case False
    then have j: "j < length es" using Suc.prems(1) by simp
    have "wp (bindM (f (it_at p es j) acc) (\<lambda>acc. bindM (cdd_it_next (it_at p es j)) (\<lambda>it. it_loop m f it acc))) (I (length es)) t"
      unfolding wp_bind
    proof (rule wp_mono [OF step [OF j Suc.prems(3)]])
      fix acc u assume u: "I (Suc j) acc u"
      show "wp (cdd_it_next (it_at p es j)) (\<lambda>it. wp (it_loop m f it acc) (I (length es))) u"
        unfolding wp_eq [where m = "cdd_it_next _", OF it_reads(3) [OF rd [OF u] j]]
        by (rule Suc.IH) (use j u Suc.prems(2) in auto)
    qed
    then show ?thesis
      using False elem_at_end [OF es, of j p] Suc.prems(1) by (simp add: it_loop.simps [of "Suc m"])
  qed
qed simp

lemma it_for_rule:
  assumes "elem_list es" "I 0 acc t"
    and "\<And>j acc t. j < length es \<Longrightarrow> I j acc t \<Longrightarrow> wp (f (it_at p es j) acc) (I (Suc j)) t"
    and "\<And>j acc t. I j acc t \<Longrightarrow> cdd_elems p t = Inr (es, t)"
  shows "wp (it_for p f acc) (I (length es)) t"
proof -
  have "cdd_it_init p = it_at p es 0" by (simp add: cdd_it_init_def it_at_def low_of_def)
  then show ?thesis
    using it_loop_rule [where I = I and f = f and p = p and j = 0, OF assms(1,3,4)] assms(2)
    by (simp add: it_for_def wp_bind wp_eq [where m = "cdd_elems p", OF assms(4) [OF assms(2)]])
qed

text \<open>Each value lies in the interval of the element it selects, and of no other.\<close>

lemma in_elem_pick:
  assumes es: "elem_list es"
  shows "(\<exists>j < length es. in_elem es j x \<and> P (e_child (es ! j))) \<longleftrightarrow> P (pick x es)"
proof -
  have "bnd_sat x (e_bnd (es ! (length es - 1)))" "length es - 1 < length es"
    using es last_conv_nth [of es] by (auto simp: elem_list_def)
  then have "\<exists>j. j < length es \<and> bnd_sat x (e_bnd (es ! j))" by blast
  then obtain j where j: "j < length es" "bnd_sat x (e_bnd (es ! j))" "\<And>i. i < j \<Longrightarrow> \<not> bnd_sat x (e_bnd (es ! i))"
    using exists_least_iff [of "\<lambda>j. j < length es \<and> bnd_sat x (e_bnd (es ! j))"] by (auto dest: less_trans)
  have "in_elem es i x \<longleftrightarrow> i = j" if i: "i < length es" for i
  proof
    assume e: "in_elem es i x"
    have "\<not> i < j" using e j(3) by (auto simp: in_elem_def)
    moreover have "\<not> j < i"
    proof
      assume "j < i"
      then have "e_bnd (es ! j) \<le> e_bnd (es ! (i - 1))"
        using elem_less [OF es, of j "i - 1"] i by (cases "j = i - 1") (auto simp: less_imp_le)
      then have "bnd_sat x (e_bnd (es ! (i - 1)))" using j(2) bnd_sat_mono by blast
      then show False using e \<open>j < i\<close> by (simp add: in_elem_def low_of_def)
    qed
    ultimately show "i = j" by simp
  next
    assume "i = j"
    then show "in_elem es i x" using j by (auto simp: in_elem_def low_of_def)
  qed
  moreover have "pick x es = e_child (es ! j)"
  proof -
    have "find (\<lambda>e. bnd_sat x (e_bnd e)) es = Some (es ! j)"
      unfolding find_Some_iff using j by blast
    then show ?thesis by (simp add: pick_def select_def)
  qed
  ultimately show ?thesis using j(1) by auto
qed

lemma cdd_children:
  assumes c: "core s X F {} B" and r: "reach X s p" "cdd_rglr p \<noteq> cddfalse"
    and t: "li_type (cdd_levelinfo s ! lv (cont s) p) = TYPE_CDD"
  obtains es where "cont s (cdd_rglr p) = Some (lv (cont s) p, Cdd es)" "elem_list es"
    "\<And>e. e \<in> set es \<Longrightarrow> reach X s (e_child e) \<and> lv (cont s) p < lv (cont s) (e_child e) \<and> e_bnd e \<in> B (lv (cont s) p)"
    "2 \<le> length es"
    "\<And>a. eval (cont s) a p = (\<exists>j < length es. in_elem es j (fst a (lv (cont s) p)) \<and>
       eval (cont s) a (cdd_neg_cond (e_child (es ! j)) (cdd_mask p)))"
proof -
  let ?k = "lv (cont s) p"
  obtain b where b: "cont s (cdd_rglr p) = Some (?k, b)" "shape_ok (cdd_levelinfo s) B ?k b"
    "\<And>c. c \<in> set (kids b) \<Longrightarrow> reach X s c \<and> ?k < lv (cont s) c" "?k < MAXLEVEL"
    using node_view [OF c r] by metis
  obtain es where bd: "b = Cdd es" using b(2) t by (auto simp: shape_ok_def split: body.splits)
  have sh: "2 \<le> length es" "elem_list es" "e_bnd ` set es \<subseteq> B ?k" using b(2) bd by (auto simp: shape_ok_def elem_list_def)
  have ev: "eval (cont s) a (cdd_rglr p) = eval (cont s) a (pick (fst a ?k) es)" for a
    using eval_cdd [of s "cdd_rglr p" ?k es a] b bd sh(2) by (auto simp: elem_list_def)
  show ?thesis
  proof (rule that [of es])
    show "eval (cont s) a p = (\<exists>j < length es. in_elem es j (fst a ?k) \<and> eval (cont s) a (cdd_neg_cond (e_child (es ! j)) (cdd_mask p)))" for a
      using in_elem_pick [OF sh(2), of "fst a ?k" "\<lambda>c. eval (cont s) a (cdd_neg_cond c (cdd_mask p))"]
        ev [of a] eval_split [of "cont s" a p] by (auto simp: eval_neg_cond)
  qed (use b bd sh in auto)
qed

section \<open>The caches with one argument\<close>

text \<open>A hit returns the remembered diagram alive.\<close>

lemma unary_hit:
  assumes c: "client_with T X B s" and e: "entry_sound s B e"
  shows "wp (thenM (revive (c_res e)) (ret (c_res e))) (yields_with T X B s (\<lambda>a. eval (cont s) a (c_res e)) 0) s"
proof -
  obtain F where cs: "core s X F {} B" "caches_mean T s B" using c by (auto simp: client_with_def)
  have so: "sound (cont s) (tabled s) (cdd_levelinfo s) B (c_res e)" using e by (simp add: entry_sound_def cache_ptrs_def)
  show ?thesis
    unfolding wp_then wp_ret
  proof (rule wp_mono [OF revive_spec [OF cs(1) so sound_place [OF so]]], elim conjE)
    fix x t assume t: "core t X {cdd_rglr (c_res e)} {} B" "sim s t"
    note f = sim_fields [OF t(2)] blank_fields [OF sim_fields(2) [OF t(2)]]
    show "yields_with T X B s (\<lambda>a. eval (cont s) a (c_res e)) 0 (c_res e) t"
      using t so sim_caches [OF t(2) cs(2)] frames_kframes [OF sim_frames [OF t(2)]] by (simp add: yields_with_def f)
  qed
qed

text \<open>Writing an entry of the cache for quantification or for renaming.\<close>

definition remember :: "nat \<Rightarrow> ptr \<Rightarrow> ptr \<Rightarrow> int \<Rightarrow> cddcache \<Rightarrow> cddcache" where
  "remember i res node op = upd_entry i (\<lambda>e. e\<lparr>c_res := res, c_a := node, c_c := op\<rparr>)"

lemma remember_ok:
  assumes c: "unary_cache c" "opcache.all_live P c"
    and P: "\<And>e. c_b e = 0 \<Longrightarrow> P (e\<lparr>c_res := res, c_a := node, c_c := op\<rparr>)"
  shows "unary_cache (remember i res node op c)" "opcache.all_live P (remember i res node op c)"
proof -
  let ?f = "\<lambda>e. e\<lparr>c_res := res, c_a := node, c_c := op\<rparr>"
  have e: "e \<in> set (cache_table c) \<or> e = ?f (cache_table c ! i) \<and> i < length (cache_table c)"
    if "e \<in> set ((cache_table c)[i := ?f (cache_table c ! i)])" for e
    using that set_update_subset_insert [of "cache_table c" i "?f (cache_table c ! i)"] by (cases "i < length (cache_table c)") (auto simp: list_update_beyond not_less)
  show "unary_cache (remember i res node op c)"
    using c(1) e by (fastforce simp: unary_cache_def cache_shape_def remember_def upd_entry_def)
  show "opcache.all_live P (remember i res node op c)"
    using c e P by (fastforce simp: unary_cache_def opcache.all_live_def remember_def upd_entry_def)
qed

definition with_unary :: "cddcache \<Rightarrow> cddcache \<Rightarrow> kstate \<Rightarrow> kstate" where
  "with_unary q r s = s\<lparr>quantcache := q, replacecache := r\<rparr>"

lemma yields_unary:
  assumes y: "yields_with T X B s \<phi> k p t" and q: "unary_cache q" "opcache.all_live (entry_means T t B) q"
    and r: "unary_cache r" "opcache.all_live (entry_means T t B) r"
  shows "yields_with T X B s \<phi> k p (with_unary q r t)"
proof -
  let ?t = "with_caches (applycache t) q r (relaxcache t) t"
  have e: "with_unary q r t = ?t" by (simp add: with_unary_def with_caches_def)
  have "applyop ?t = applyop t" by (simp add: with_caches_def)
  then have "kframes X s ?t" using y same_env_trans [of _ t ?t] by (auto simp: yields_with_def kframes_def frames_def)
  then show ?thesis
    using y q r unfolding e by (simp add: yields_with_def caches_mean_def core_with_caches)
qed

lemma remember_means:
  assumes y: "yields_with T X B s \<phi> k res t" and n: "reach X t node"
    and m: "T op (\<lambda>a. eval (cont t) a node) \<phi>" and e: "c_b e = 0"
  shows "entry_means T t B (e\<lparr>c_res := res, c_a := node, c_c := op\<rparr>)"
proof -
  obtain F where c: "core t X F {} B" using y by (auto simp: yields_with_def)
  have "(\<lambda>a. eval (cont t) a res) = \<phi>" using y by (simp add: yields_with_def fun_eq_iff)
  then show ?thesis
    using y m e reach_sound [OF c n] by (simp add: entry_means_def entry_sound_def cache_ptrs_def yields_with_def)
qed

lemma remember_quant:
  assumes y: "yields_with T X B s \<phi> k res t" and n: "reach X t node" and m: "T op (\<lambda>a. eval (cont t) a node) \<phi>"
  shows "yields_with T X B s \<phi> k res (t\<lparr>quantcache := remember i res node op (quantcache t)\<rparr>)"
proof -
  have k: "caches_mean T t B" using y by (simp add: yields_with_def)
  have "yields_with T X B s \<phi> k res (with_unary (remember i res node op (quantcache t)) (replacecache t) t)"
    by (rule yields_unary [OF y]) (use k remember_ok [where P = "entry_means T t B" and res = res and node = node and op = op, OF _ _ remember_means [OF y n m]] in \<open>auto simp: caches_mean_def\<close>)
  then show ?thesis by (simp add: with_unary_def)
qed

lemma remember_replace:
  assumes y: "yields_with T X B s \<phi> k res t" and n: "reach X t node" and m: "T op (\<lambda>a. eval (cont t) a node) \<phi>"
  shows "yields_with T X B s \<phi> k res (t\<lparr>replacecache := remember i res node op (replacecache t)\<rparr>)"
proof -
  have k: "caches_mean T t B" using y by (simp add: yields_with_def)
  have "yields_with T X B s \<phi> k res (with_unary (quantcache t) (remember i res node op (replacecache t)) t)"
    by (rule yields_unary [OF y]) (use k remember_ok [where P = "entry_means T t B" and res = res and node = node and op = op, OF _ _ remember_means [OF y n m]] in \<open>auto simp: caches_mean_def\<close>)
  then show ?thesis by (simp add: with_unary_def)
qed

text \<open>A call numbered \<open>op\<close> can rely on the entries with its number.\<close>

lemma unary_entry:
  assumes k: "caches_mean T s B" and e: "e \<in> set (cache_table (quantcache s)) \<or> e \<in> set (cache_table (replacecache s))"
    and key: "c_a e = node" "c_c e = op" and nz: "cdd_rglr node \<noteq> 0"
  shows "entry_sound s B e" "T op (\<lambda>a. eval (cont s) a node) (\<lambda>a. eval (cont s) a (c_res e))"
proof -
  have "cdd_rglr 0 = 0" by (simp add: cdd_rglr_def)
  then have "cache_live e" using key nz by (auto simp: cache_live_def)
  then have "entry_means T s B e" using k e by (auto simp: caches_mean_def opcache.all_live_def)
  then show "entry_sound s B e" "T op (\<lambda>a. eval (cont s) a node) (\<lambda>a. eval (cont s) a (c_res e))"
    using key by (simp_all add: entry_means_def)
qed

section \<open>Recursion through a cache\<close>

text \<open>
  \<^verbatim>\<open>cdd_exist_rec\<close> and \<^verbatim>\<open>cdd_replace_rec\<close> share their frame: a terminal is its own result; then the
  cache is asked for the node under the number of the call; a miss does the \<open>work\<close> and writes the entry.
\<close>

definition memoised :: "(kstate \<Rightarrow> cddcache) \<Rightarrow> ((cddcache \<Rightarrow> cddcache) \<Rightarrow> kstate \<Rightarrow> kstate) \<Rightarrow> ptr \<Rightarrow> (LevelInfo \<Rightarrow> ptr K) \<Rightarrow> ptr K" where
  "memoised sel put node work =
     bindM (cdd_isterminal node) (\<lambda>t. if t then ret node else
     bindM (cache_slot sel node) (\<lambda>slot.
     bindM (cache_entry sel slot) (\<lambda>e.
     bindM (gets opid) (\<lambda>op.
     if c_a e = node \<and> c_c e = op then thenM (revive (c_res e)) (ret (c_res e))
     else bindM (cdd_info node) (\<lambda>info. bindM (work info) (\<lambda>res. bindM (gets opid) (\<lambda>op.
       thenM (modifyM (put (remember slot res node op))) (ret res))))))))"

text \<open>\<open>results T X B s \<phi>\<close>: the result is a diagram that the entries of the call may state for \<open>\<phi>\<close>.\<close>

definition results :: "meaning \<Rightarrow> (ptr \<Rightarrow> nat) \<Rightarrow> (nat \<Rightarrow> raw_t set) \<Rightarrow> kstate \<Rightarrow> (asg \<Rightarrow> bool) \<Rightarrow> ptr \<Rightarrow> kstate \<Rightarrow> bool" where
  "results T X B s \<phi> q u \<longleftrightarrow> (\<exists>\<psi>. T (opid s) \<phi> \<psi> \<and> yields_with T X B s \<psi> 0 q u)"

locale result_cache =
  fixes sel :: "kstate \<Rightarrow> cddcache" and put :: "(cddcache \<Rightarrow> cddcache) \<Rightarrow> kstate \<Rightarrow> kstate"
  assumes shape: "caches_mean T s B \<Longrightarrow> cache_shape (sel s)"
    and known: "e \<in> set (cache_table (sel s)) \<Longrightarrow> e \<in> set (cache_table (quantcache s)) \<or> e \<in> set (cache_table (replacecache s))"
    and remembers: "yields_with T X B s \<phi> k res t \<Longrightarrow> reach X t node \<Longrightarrow> T op (\<lambda>a. eval (cont t) a node) \<phi> \<Longrightarrow>
      yields_with T X B s \<phi> k res (put (remember i res node op) t)"
begin

lemma hit:
  assumes c: "client_with T X B s" and p: "reach X s p"
    and e: "e \<in> set (cache_table (sel s))" "c_a e = p" "c_c e = opid s"
  shows "wp (thenM (revive (c_res e)) (ret (c_res e))) (results T X B s (\<lambda>a. eval (cont s) a p)) s"
proof -
  obtain F where cs: "core s X F {} B" "caches_mean T s B" using c by (auto simp: client_with_def)
  note en = unary_entry [OF cs(2) known [OF e(1)] e(2,3) sound_nonzero [OF cs(1) reach_sound [OF cs(1) p]]]
  show ?thesis by (rule wp_mono [OF unary_hit [OF c en(1)]]) (use en(2) in \<open>auto simp: results_def\<close>)
qed

lemma fill:
  assumes c: "client_with T X B s" and p: "reach X s p" and u: "results T X B s (\<lambda>a. eval (cont s) a p) res u"
  shows "results T X B s (\<lambda>a. eval (cont s) a p) res (put (remember i res p (opid u)) u)"
proof -
  obtain F where cs: "core s X F {} B" using c by (auto simp: client_with_def)
  obtain \<psi> where \<psi>: "T (opid s) (\<lambda>a. eval (cont s) a p) \<psi>" "yields_with T X B s \<psi> 0 res u" using u by (auto simp: results_def)
  have k: "kframes X s u" using \<psi>(2) by (simp add: yields_with_def)
  note ru = reach_kframes [OF cs k p]
  have "opid u = opid s" using k by (simp add: kframes_def frames_def same_env_def)
  then have "T (opid u) (\<lambda>a. eval (cont u) a p) \<psi>" using \<psi>(1) by (simp add: ru(3))
  from remembers [OF \<psi>(2) ru(1) this] \<psi>(1) show ?thesis by (auto simp: results_def)
qed

lemma memoised_spec:
  assumes c: "client_with T X B s" and p: "reach X s p"
    and base: "cdd_rglr p = cddfalse \<Longrightarrow> T (opid s) (\<lambda>a. eval (cont s) a p) (\<lambda>a. eval (cont s) a p)"
    and work: "cdd_rglr p \<noteq> cddfalse \<Longrightarrow> wp (work (cdd_levelinfo s ! lv (cont s) p)) (results T X B s (\<lambda>a. eval (cont s) a p)) s"
  shows "wp (memoised sel put p work) (results T X B s (\<lambda>a. eval (cont s) a p)) s"
proof -
  obtain F where cs: "core s X F {} B" "caches_mean T s B" using c by (auto simp: client_with_def)
  let ?post = "results T X B s (\<lambda>a. eval (cont s) a p)"
  show ?thesis
  proof (cases "cdd_rglr p = cddfalse")
    case True
    have "wp (ret p) ?post s"
      using ret_yields [OF c p, of 0 "\<lambda>a. eval (cont s) a p"] base [OF True] by (auto simp: wp_ret results_def)
    then show ?thesis
      unfolding memoised_def wp_bind wp_eq [where m = "cdd_isterminal p", OF isterminal_term [OF cs(1) True]] if_True .
  next
    case False
    have info: "cdd_info p s = Inr (cdd_levelinfo s ! lv (cont s) p, s)" using node_view [OF cs(1) p False] by metis
    obtain j where j: "cache_slot sel p s = Inr (j, s)" "j < length (cache_table (sel s))"
      "cache_entry sel j s = Inr (cache_table (sel s) ! j, s)"
      by (rule cache_reads [of sel s p, OF shape [OF cs(2)]])
    have "wp (work (cdd_levelinfo s ! lv (cont s) p)) (\<lambda>res u. ?post res (put (remember j res p (opid u)) u)) s"
      by (rule wp_mono [OF work [OF False]]) (rule fill [OF c p])
    then show ?thesis
      using hit [OF c p nth_mem [OF j(2)]]
      unfolding memoised_def wp_bind wp_eq [where m = "cdd_isterminal p", OF node_reads(1) [OF cs(1) p False]] if_False
        wp_eq [where m = "cache_slot _ _", OF j(1)] wp_eq [where m = "cache_entry _ _", OF j(3)] wp_gets wp_if
        wp_eq [where m = "cdd_info p", OF info] wp_then wp_modify wp_ret by simp
  qed
qed

end

definition put_quant :: "(cddcache \<Rightarrow> cddcache) \<Rightarrow> kstate \<Rightarrow> kstate" where
  "put_quant f s = s\<lparr>quantcache := f (quantcache s)\<rparr>"

definition put_replace :: "(cddcache \<Rightarrow> cddcache) \<Rightarrow> kstate \<Rightarrow> kstate" where
  "put_replace f s = s\<lparr>replacecache := f (replacecache s)\<rparr>"

interpretation quant: result_cache quantcache put_quant
  by unfold_locales (auto simp: caches_mean_def unary_cache_def put_quant_def intro: remember_quant)

interpretation rename: result_cache replacecache put_replace
  by unfold_locales (auto simp: caches_mean_def unary_cache_def put_replace_def intro: remember_replace)

end
