(* ===== verification/Exist_Spec.thy ===== *)
theory Exist_Spec
  imports Temporaries Canonical
begin

text \<open>
  Correctness of \<^verbatim>\<open>cdd_exist\<close> for boolean variables: with no clocks to remove, the result is the
  existential quantification of the diagram over the listed levels.  The recursion looks up results in a
  cache that outlives the call; the entries of the call are told from older ones by \<^verbatim>\<open>opid\<close>, and the
  meaning of the entries carried through the operators of the store is that they state the
  quantification.
\<close>

declare split_paired_All [simp del]

section \<open>Quantification\<close>

definition exists_over :: "nat set \<Rightarrow> (asg \<Rightarrow> bool) \<Rightarrow> asg \<Rightarrow> bool" where
  "exists_over S \<phi> a \<longleftrightarrow> (\<exists>y. \<phi> (fst a, \<lambda>k. if k \<in> S then y k else snd a k))"

definition levels_in :: "int list \<Rightarrow> nat \<Rightarrow> nat set" where
  "levels_in levels nb = {k. int k \<in> set (take nb levels)}"

text \<open>The entries of the call \<open>i\<close> state the quantification; all others are older.\<close>

definition exists_meaning :: "int \<Rightarrow> nat set \<Rightarrow> meaning" where
  "exists_meaning i S c \<phi> \<psi> \<longleftrightarrow> c \<le> i \<and> (c = i \<longrightarrow> \<psi> = exists_over S \<phi>)"

lemma exists_over_cong: "(\<And>a. \<phi> a = \<psi> a) \<Longrightarrow> exists_over S \<phi> = exists_over S \<psi>"
  by (simp add: exists_over_def fun_eq_iff)

lemma exists_over_free:
  assumes "\<And>y. \<phi> (fst a, y) = \<phi> a"
  shows "exists_over S \<phi> a = \<phi> a"
  using assms by (simp add: exists_over_def)

lemma exists_over_split:
  assumes \<phi>: "\<And>a. \<phi> a = (if snd a k then h a else l a)"
    and free: "\<And>a y. h (set_var k y a) = h a" "\<And>a y. l (set_var k y a) = l a"
  shows "exists_over S \<phi> a = (if k \<in> S then exists_over S l a \<or> exists_over S h a
     else if snd a k then exists_over S h a else exists_over S l a)"
proof (cases "k \<in> S")
  case True
  define u where "u y = (fst a, \<lambda>i. if i \<in> S then y i else snd a i)" for y
  have e: "u (y(k := b)) = set_var k b (u y)" for y b
    using True by (auto simp: u_def set_var_def fun_eq_iff)
  have s: "snd (set_var k b c) k = b" for b c by (simp add: set_var_def)
  have x: "exists_over S \<psi> a = (\<exists>y. \<psi> (u y))" for \<psi> by (simp add: exists_over_def u_def)
  have "\<phi> (u (y(k := True))) = h (u y)" "\<phi> (u (y(k := False))) = l (u y)" for y
    unfolding e \<phi> s free by simp_all
  then have "\<exists>y. \<phi> (u y)" if "(\<exists>y. l (u y)) \<or> (\<exists>y. h (u y))" using that by metis
  moreover have "(\<exists>y. l (u y)) \<or> (\<exists>y. h (u y))" if "\<phi> (u y)" for y
    using that unfolding \<phi> [of "u y"] by (cases "snd (u y) k") auto
  ultimately show ?thesis using True unfolding x by auto
qed (simp add: exists_over_def \<phi>)

lemma exists_over_clocks:
  assumes "\<And>a. \<phi> a = (\<exists>j < n. C j (fst a) \<and> \<psi> j a)"
  shows "exists_over S \<phi> a = (\<exists>j < n. C j (fst a) \<and> exists_over S (\<psi> j) a)"
  using assms by (auto simp: exists_over_def)

lemma any_at_eq:
  assumes "nb \<le> length xs"
  shows "any_at xs [0..<nb] P s = Inr (\<exists>x \<in> set (take nb xs). P x, s)"
proof -
  have "any_at xs is P s = Inr (\<exists>i \<in> set is. P (xs ! i), s)" if "\<forall>i \<in> set is. i < length xs" for "is"
    using that by (induction "is") (auto simp: nthM_def bindM_def ret_def)
  moreover have "(\<exists>i \<in> {0..<nb}. P (xs ! i)) \<longleftrightarrow> (\<exists>x \<in> set (take nb xs). P x)"
    by (simp flip: nth_image [OF assms])
  ultimately show ?thesis using assms by simp
qed

section \<open>The children of a clock node\<close>

text \<open>What a node asks of the recursive calls on its children.\<close>

definition rec_exists :: "meaning \<Rightarrow> (nat \<Rightarrow> raw_t set) \<Rightarrow> nat set \<Rightarrow> kstate \<Rightarrow> nat \<Rightarrow> (ptr \<Rightarrow> ptr K) \<Rightarrow> bool" where
  "rec_exists T B S s k rec \<longleftrightarrow> (\<forall>X t c. client_with T X B t \<longrightarrow> opid t = opid s \<longrightarrow> cdd_levelcnt t = cdd_levelcnt s \<longrightarrow>
     reach X t c \<longrightarrow> k < lv (cont t) c \<longrightarrow>
     wp (rec c) (yields_with T X B t (exists_over S (\<lambda>a. eval (cont t) a c)) 0) t)"

lemma keeping_rec:
  assumes r: "rec_exists T B S s k rec" and t: "keeping T X B s m t" and c: "reach X s c" "k < lv (cont s) c"
  shows "wp (refd (rec c)) (\<lambda>p u. keeping T X B s ((p, exists_over S (\<lambda>a. eval (cont s) a c)) # m) u) t"
proof (rule keeping_new [OF t])
  note f = keeping_frame [OF t c(1)] keeping_env [OF t]
  have "exists_over S (\<lambda>a. eval (cont t) a c) = exists_over S (\<lambda>a. eval (cont s) a c)"
    by (rule exists_over_cong) (rule f(3))
  with r [unfolded rec_exists_def, rule_format, OF keeping_client [OF t] _ _ f(1)] c(2) f
  show "wp (rec c) (yields_with T (with_toks X (map fst m)) B t (exists_over S (\<lambda>a. eval (cont s) a c)) 0) t" by simp
qed

text \<open>The interval of a child is a proper one: no bound of a diagram is minus infinity.\<close>

lemma keeping_interval:
  assumes t: "keeping T X B s m t" and k: "k < cdd_levelcnt s" "li_type (cdd_levelinfo s ! k) = TYPE_CDD"
    and B: "- bnd_INF \<notin> B k" and es: "elem_list es" "2 \<le> length es" "\<And>e. e \<in> set es \<Longrightarrow> e_bnd e \<in> B k" and j: "j < length es"
  shows "wp (refd (cdd_interval_from_level k (low_of es j) (e_bnd (es ! j))))
    (\<lambda>p u. keeping T X B s ((p, \<lambda>a. in_elem es j (fst a k)) # m) u) t"
proof (rule keeping_new [OF t])
  note env = keeping_env [OF t]
  have b: "e_bnd (es ! i) \<in> B k" "- bnd_INF < e_bnd (es ! i)" if "i < length es" for i
  proof -
    show "e_bnd (es ! i) \<in> B k" using es(3) that by simp
    moreover from this have "e_bnd (es ! i) \<noteq> - bnd_INF" "- bnd_INF \<le> e_bnd (es ! i)"
      using B bound_le(1) [OF keeping_client [OF t]] by auto
    ultimately show "- bnd_INF < e_bnd (es ! i)" by linarith
  qed
  note ord = elem_order [OF es(1,2) b(2) j]
  have low: "- bnd_INF < low_of es j \<longrightarrow> low_of es j \<in> B k" using ord(4) es(3) by auto
  have "wp (cdd_interval_from_level k (low_of es j) (e_bnd (es ! j))) (yields_with T (with_toks X (map fst m)) B t
      (\<lambda>a. \<not> bnd_sat (fst a k) (low_of es j) \<and> bnd_sat (fst a k) (e_bnd (es ! j))) k) t"
    by (rule cdd_interval_from_level_yields [OF keeping_client [OF t] _ _ ord(1,2) low ord(3) b(1) [OF j]]) (use k env in simp_all)
  then show "wp (cdd_interval_from_level k (low_of es j) (e_bnd (es ! j))) (yields_with T (with_toks X (map fst m)) B t
      (\<lambda>a. in_elem es j (fst a k)) k) t"
    by (simp add: in_elem_def)
qed

lemma exist_kept_spec:
  assumes t: "keeping T X B s [(res, \<rho>)] t" and rec: "rec_exists T B S s k rec"
    and p: "reach X s p" "cont s (cdd_rglr p) = Some (k, Cdd es)" and k: "k < cdd_levelcnt s" "li_type (cdd_levelinfo s ! k) = TYPE_CDD"
    and B: "- bnd_INF \<notin> B k" and es: "elem_list es" "2 \<le> length es"
      "\<And>e. e \<in> set es \<Longrightarrow> reach X s (e_child e) \<and> k < lv (cont s) (e_child e) \<and> e_bnd e \<in> B k"
    and j: "j < length es"
  defines "c \<equiv> cdd_neg_cond (e_child (es ! j)) (cdd_mask p)"
  shows "wp (exist_kept rec p (it_at p es j) res) (\<lambda>r u. keeping T X B s
    [(r, \<lambda>a. \<rho> a \<or> in_elem es j (fst a k) \<and> exists_over S (\<lambda>a. eval (cont s) a c) a)] u) t"
proof -
  let ?i = "\<lambda>a. in_elem es j (fst a k)" and ?e = "exists_over S (\<lambda>a. eval (cont s) a c)"
  let ?ie = "\<lambda>a. ?i a \<and> ?e a"
  have c: "reach X s c" "k < lv (cont s) c" using es(3) [of "es ! j"] j by (simp_all add: c_def)
  note rd = keeping_reads [OF _ p]
  note it = it_reads [OF _ j]
  note st = wp_eq [where m = "level_of p", OF rd(1) [OF t]] wp_eq [where m = "cdd_it_upper _", OF it(1) [OF rd(2) [OF t refl]]] it(4) [OF rd(2) [OF t refl]]
  show ?thesis
    unfolding exist_kept_def wp_bind wp_then wp_ret st
  proof (rule wp_mono [OF keeping_interval [OF t k B es(1,2) _ j]])
    fix q1 t1 assume t1: "keeping T X B s [(q1, ?i), (res, \<rho>)] t1"
    show "wp (cdd_it_child (it_at p es j)) (\<lambda>child. wp (refd (rec child)) (\<lambda>q2. wp (refd (cdd_and q1 q2)) (\<lambda>q3.
        wp (refd (cdd_or res q3)) (\<lambda>q4. wp (cdd_rec_deref res) (\<lambda>_. wp (cdd_rec_deref q1) (\<lambda>_. wp (cdd_rec_deref q2) (\<lambda>_.
        wp (cdd_rec_deref q3) (\<lambda>_ u. keeping T X B s [(q4, \<lambda>a. \<rho> a \<or> ?ie a)] u)))))))) t1"
      unfolding wp_eq [where m = "cdd_it_child _", OF it(2) [OF rd(2) [OF t1 refl]]] c_def [symmetric]
    proof (rule wp_mono [OF keeping_rec [OF rec t1 c]])
      fix q2 t2 assume t2: "keeping T X B s [(q2, ?e), (q1, ?i), (res, \<rho>)] t2"
      show "wp (refd (cdd_and q1 q2)) (\<lambda>q3.
        wp (refd (cdd_or res q3)) (\<lambda>q4. wp (cdd_rec_deref res) (\<lambda>_. wp (cdd_rec_deref q1) (\<lambda>_. wp (cdd_rec_deref q2) (\<lambda>_.
        wp (cdd_rec_deref q3) (\<lambda>_ u. keeping T X B s [(q4, \<lambda>a. \<rho> a \<or> ?ie a)] u)))))) t2"
      proof (rule wp_mono [OF keeping_and [OF t2, of q1 ?i q2 ?e]])
        fix q3 t3 assume t3: "keeping T X B s [(q3, ?ie), (q2, ?e), (q1, ?i), (res, \<rho>)] t3"
        show "wp (refd (cdd_or res q3)) (\<lambda>q4. wp (cdd_rec_deref res) (\<lambda>_. wp (cdd_rec_deref q1) (\<lambda>_. wp (cdd_rec_deref q2) (\<lambda>_.
          wp (cdd_rec_deref q3) (\<lambda>_ u. keeping T X B s [(q4, \<lambda>a. \<rho> a \<or> ?ie a)] u))))) t3"
        proof (rule wp_mono [OF keeping_or [OF t3, of res \<rho> q3 ?ie]])
          fix q4 t4 assume t4: "keeping T X B s [(q4, \<lambda>a. \<rho> a \<or> ?ie a), (q3, ?ie), (q2, ?e), (q1, ?i), (res, \<rho>)] t4"
          let ?o = "\<lambda>a. \<rho> a \<or> ?ie a"
          show "wp (cdd_rec_deref res) (\<lambda>_. wp (cdd_rec_deref q1) (\<lambda>_. wp (cdd_rec_deref q2) (\<lambda>_.
            wp (cdd_rec_deref q3) (\<lambda>_ u. keeping T X B s [(q4, ?o)] u)))) t4"
            by (rule wp_mono [OF keeping_drop [OF t4, where m' = "[(q4, ?o), (q3, ?ie), (q2, ?e), (q1, ?i)]"]], simp,
                rule wp_mono [OF keeping_drop [where m' = "[(q4, ?o), (q3, ?ie), (q2, ?e)]"]], assumption, simp,
                rule wp_mono [OF keeping_drop [where m' = "[(q4, ?o), (q3, ?ie)]"]], assumption, simp,
                rule keeping_drop, assumption, simp)
        qed simp_all
      qed simp_all
    qed
  qed (use es(3) in simp)
qed

lemma exist_cdd_spec:
  assumes c: "client_with T X B s" and p: "reach X s p" "cdd_rglr p \<noteq> cddfalse"
    and ty: "li_type (cdd_levelinfo s ! lv (cont s) p) = TYPE_CDD"
    and rec: "rec_exists T B S s (lv (cont s) p) rec" and B: "- bnd_INF \<notin> B (lv (cont s) p)"
  shows "wp (bindM (it_for p (exist_kept rec p) cddfalse) (\<lambda>res. thenM (cdd_deref res) (ret res)))
    (yields_with T X B s (exists_over S (\<lambda>a. eval (cont s) a p)) 0) s"
proof -
  let ?k = "lv (cont s) p"
  obtain F where cs: "core s X F {} B" using c by (auto simp: client_with_def)
  obtain es where es: "cont s (cdd_rglr p) = Some (?k, Cdd es)" "elem_list es"
    "\<And>e. e \<in> set es \<Longrightarrow> reach X s (e_child e) \<and> ?k < lv (cont s) (e_child e) \<and> e_bnd e \<in> B ?k"
    "2 \<le> length es"
    "\<And>a. eval (cont s) a p = (\<exists>j < length es. in_elem es j (fst a ?k) \<and> eval (cont s) a (cdd_neg_cond (e_child (es ! j)) (cdd_mask p)))"
    using cdd_children [OF cs p ty] by metis
  have k: "?k < cdd_levelcnt s" using node_view [OF cs p] by metis
  let ?c = "\<lambda>j a. exists_over S (\<lambda>a. eval (cont s) a (cdd_neg_cond (e_child (es ! j)) (cdd_mask p))) a"
  let ?I = "\<lambda>n acc. keeping T X B s [(acc, \<lambda>a. \<exists>j < n. in_elem es j (fst a ?k) \<and> ?c j a)]"
  have "wp (it_for p (exist_kept rec p) cddfalse) (?I (length es)) s"
  proof (rule it_for_rule [OF es(2)])
    show "?I 0 cddfalse s" using keeping_false [OF c] by simp
  next
    fix j acc t assume j: "j < length es" and t: "?I j acc t"
    show "wp (exist_kept rec p (it_at p es j) acc) (?I (Suc j)) t"
      by (rule wp_mono [OF exist_kept_spec [OF t rec p(1) es(1) k ty B es(2,4,3) j]], assumption, erule keeping_cong)
        (auto simp: less_Suc_eq)
  qed (rule keeping_reads(2) [OF _ p(1) es(1) refl])
  then show ?thesis
    unfolding wp_bind
  proof (rule wp_mono)
    fix q t assume t: "?I (length es) q t"
    have e: "exists_over S (\<lambda>a. eval (cont s) a p) a = (\<exists>j < length es. in_elem es j (fst a ?k) \<and> ?c j a)" for a
      using exists_over_clocks [where C = "\<lambda>j x. in_elem es j (x ?k)", OF es(5)] .
    show "wp (thenM (cdd_deref q) (ret q)) (yields_with T X B s (exists_over S (\<lambda>a. eval (cont s) a p)) 0) t"
      by (rule keeping_return) (rule keeping_cong [OF t], rule e [symmetric])
  qed
qed

section \<open>The children of a boolean node\<close>

definition exist_bdd :: "(ptr \<Rightarrow> ptr K) \<Rightarrow> ptr \<Rightarrow> int list \<Rightarrow> nat \<Rightarrow> ptr K" where
  "exist_bdd rec p levels_bool nb =
     bindM (bdd_low p) (\<lambda>lo.
     bindM (refd (rec lo)) (\<lambda>tmp1.
     bindM (bdd_high p) (\<lambda>hi.
     bindM (refd (rec hi)) (\<lambda>tmp2.
     bindM (level_of p) (\<lambda>k.
     bindM (any_at levels_bool [0..<nb] (\<lambda>x. x = int k)) (\<lambda>affected.
     bindM (if affected then refd (cdd_or tmp1 tmp2)
            else bindM (refd (cdd_bddvar k)) (\<lambda>tmp3.
                 bindM (refd (cdd_ite tmp3 tmp2 tmp1)) (\<lambda>res.
                 thenM (cdd_rec_deref tmp3) (ret res)))) (\<lambda>res.
     thenM (cdd_rec_deref tmp1) (
     thenM (cdd_rec_deref tmp2) (
     thenM (cdd_deref res) (ret res))))))))))"

lemma exist_bdd_spec:
  assumes c: "client_with T X B s" and p: "reach X s p" "cdd_rglr p \<noteq> cddfalse"
    and ty: "li_type (cdd_levelinfo s ! lv (cont s) p) = TYPE_BDD"
    and rec: "rec_exists T B S s (lv (cont s) p) rec" and nb: "nb \<le> length levels" and S: "S = levels_in levels nb"
  shows "wp (exist_bdd rec p levels nb) (yields_with T X B s (exists_over S (\<lambda>a. eval (cont s) a p)) 0) s"
proof -
  let ?k = "lv (cont s) p"
  obtain F where cs: "core s X F {} B" using c by (auto simp: client_with_def)
  obtain lo hi where ch: "bdd_low p s = Inr (cdd_neg_cond lo (cdd_mask p), s)"
    "cont s (cdd_rglr p) = Some (?k, Bdd lo hi)" "reach X s lo" "reach X s hi"
    "?k < lv (cont s) lo" "?k < lv (cont s) hi"
    "\<And>a. eval (cont s) a p = (if snd a ?k then eval (cont s) a (cdd_neg_cond hi (cdd_mask p))
       else eval (cont s) a (cdd_neg_cond lo (cdd_mask p)))"
    using bdd_children [OF cs p ty] by metis
  have k: "?k < cdd_levelcnt s" using node_view [OF cs p] by metis
  define l h where d: "l = cdd_neg_cond lo (cdd_mask p)" "h = cdd_neg_cond hi (cdd_mask p)"
  let ?l = "exists_over S (\<lambda>a. eval (cont s) a l)" and ?h = "exists_over S (\<lambda>a. eval (cont s) a h)"
  let ?e = "exists_over S (\<lambda>a. eval (cont s) a p)"
  have r: "reach X s l" "reach X s h" "?k < lv (cont s) l" "?k < lv (cont s) h" using ch d by simp_all
  have e: "?e a = (if ?k \<in> S then ?l a \<or> ?h a else if snd a ?k then ?h a else ?l a)" for a
    by (rule exists_over_split [where h = "\<lambda>a. eval (cont s) a h" and l = "\<lambda>a. eval (cont s) a l", OF ch(7) [folded d]])
      (simp_all add: r)
  have aff: "any_at levels [0..<nb] (\<lambda>x. x = int ?k) t = Inr (?k \<in> S, t)" for t
    using any_at_eq [OF nb, of "\<lambda>x. x = int ?k" t] by (simp add: S levels_in_def)
  have t0: "keeping T X B s [] s" by (rule keeping_start [OF c])
  let ?post = "yields_with T X B s ?e 0"
  show ?thesis
    unfolding exist_bdd_def wp_bind wp_eq [where m = "bdd_low p", OF ch(1)] d(1) [symmetric]
  proof (rule wp_mono [OF keeping_rec [OF rec t0 r(1,3)]])
    fix q1 t1 assume t1: "keeping T X B s [(q1, ?l)] t1"
    have "bdd_high p t1 = Inr (h, t1)"
      using keeping_reads(3) [OF t1 p(1) ch(2) refl] by (simp add: bdd_high_def bindM_def ret_def d)
    note hi1 = wp_eq [where m = "bdd_high p", OF this]
    show "wp (bdd_high p) (\<lambda>hi. wp (refd (rec hi)) (\<lambda>q2. wp (level_of p) (\<lambda>k. wp (any_at levels [0..<nb] (\<lambda>x. x = int k)) (\<lambda>affected.
        wp (if affected then refd (cdd_or q1 q2) else bindM (refd (cdd_bddvar k)) (\<lambda>q3. bindM (refd (cdd_ite q3 q2 q1)) (\<lambda>res.
          thenM (cdd_rec_deref q3) (ret res)))) (\<lambda>res. wp (thenM (cdd_rec_deref q1) (thenM (cdd_rec_deref q2) (thenM (cdd_deref res) (ret res)))) ?post))))) t1"
      unfolding hi1
    proof (rule wp_mono [OF keeping_rec [OF rec t1 r(2,4)]])
      fix q2 t2 assume t2: "keeping T X B s [(q2, ?h), (q1, ?l)] t2"
      have finish: "wp (thenM (cdd_rec_deref q1) (thenM (cdd_rec_deref q2) (thenM (cdd_deref res) (ret res)))) ?post u"
        if "keeping T X B s [(res, ?e), (q2, ?h), (q1, ?l)] u" for res u
        unfolding wp_then [of "cdd_rec_deref _"]
        by (rule wp_mono [OF keeping_drop [OF that, where m' = "[(res, ?e), (q2, ?h)]"]], simp,
            rule wp_mono [OF keeping_drop [where m' = "[(res, ?e)]"]], assumption, simp, rule keeping_return)
      have res: "wp (if ?k \<in> S then refd (cdd_or q1 q2) else bindM (refd (cdd_bddvar ?k)) (\<lambda>q3. bindM (refd (cdd_ite q3 q2 q1)) (\<lambda>res.
          thenM (cdd_rec_deref q3) (ret res)))) (\<lambda>res u. keeping T X B s [(res, ?e), (q2, ?h), (q1, ?l)] u) t2"
      proof (cases "?k \<in> S")
        case True
        have "wp (refd (cdd_or q1 q2)) (\<lambda>res u. keeping T X B s [(res, ?e), (q2, ?h), (q1, ?l)] u) t2"
          by (rule wp_mono [OF keeping_or [OF t2, of q1 ?l q2 ?h]], simp, simp, erule keeping_cong) (simp add: e True)
        then show ?thesis using True by simp
      next
        case False
        let ?v = "\<lambda>a. snd a ?k"
        have v: "wp (cdd_bddvar ?k) (yields_with T (with_toks X (map fst [(q2, ?h), (q1, ?l)])) B t2 ?v ?k) t2"
          by (rule cdd_bddvar_yields [OF keeping_client [OF t2]]) (use k ty keeping_env [OF t2] in simp_all)
        have "wp (bindM (refd (cdd_bddvar ?k)) (\<lambda>q3. bindM (refd (cdd_ite q3 q2 q1)) (\<lambda>res. thenM (cdd_rec_deref q3) (ret res))))
            (\<lambda>res u. keeping T X B s [(res, ?e), (q2, ?h), (q1, ?l)] u) t2"
          unfolding wp_bind wp_then wp_ret
        proof (rule wp_mono [OF keeping_new [OF t2 v]])
          fix q3 t3 assume t3: "keeping T X B s [(q3, ?v), (q2, ?h), (q1, ?l)] t3"
          show "wp (refd (cdd_ite q3 q2 q1)) (\<lambda>res. wp (cdd_rec_deref q3) (\<lambda>_ u. keeping T X B s [(res, ?e), (q2, ?h), (q1, ?l)] u)) t3"
          proof (rule wp_mono [OF keeping_ite [OF t3, of q3 ?v q2 ?h q1 ?l]])
            fix res t4 assume "keeping T X B s [(res, \<lambda>a. if ?v a then ?h a else ?l a), (q3, ?v), (q2, ?h), (q1, ?l)] t4"
            then have t4: "keeping T X B s [(res, ?e), (q3, ?v), (q2, ?h), (q1, ?l)] t4"
              by (rule keeping_cong) (simp add: e False)
            show "wp (cdd_rec_deref q3) (\<lambda>_ u. keeping T X B s [(res, ?e), (q2, ?h), (q1, ?l)] u) t4"
              by (rule keeping_drop [OF t4, where \<phi> = ?v]) simp
          qed simp_all
        qed
        then show ?thesis using False by simp
      qed
      show "wp (level_of p) (\<lambda>k. wp (any_at levels [0..<nb] (\<lambda>x. x = int k)) (\<lambda>affected.
        wp (if affected then refd (cdd_or q1 q2) else bindM (refd (cdd_bddvar k)) (\<lambda>q3. bindM (refd (cdd_ite q3 q2 q1)) (\<lambda>res.
          thenM (cdd_rec_deref q3) (ret res)))) (\<lambda>res. wp (thenM (cdd_rec_deref q1) (thenM (cdd_rec_deref q2) (thenM (cdd_deref res) (ret res)))) ?post))) t2"
        unfolding wp_eq [where m = "level_of p", OF keeping_reads(1) [OF t2 p(1) ch(2)]] wp_eq [where m = "any_at _ _ _", OF aff]
        by (rule wp_mono [OF res]) (rule finish)
    qed
  qed
qed

section \<open>The recursion\<close>

lemma exist_rec_Suc:
  "cdd_exist_rec (Suc n) node levels_bool clocks nb 0 rc =
     memoised quantcache put_quant node (\<lambda>info. case li_type info of
         TYPE_CDD \<Rightarrow> bindM (gets cdd_levelcnt) (\<lambda>lc.
           bindM (it_for node (exist_kept (\<lambda>c. cdd_exist_rec n c levels_bool clocks nb 0 rc) node) cddfalse) (\<lambda>res.
           thenM (cdd_deref res) (ret res)))
       | TYPE_BDD \<Rightarrow> exist_bdd (\<lambda>c. cdd_exist_rec n c levels_bool clocks nb 0 rc) node levels_bool nb)"
proof -
  have b: "bindM (ret x) f = f x" for x :: 'a and f :: "'a \<Rightarrow> 'b K" by (simp add: fun_eq_iff bindM_def ret_def)
  have n: "any_at clocks [0..<0] P = ret False" for P by simp
  show ?thesis
    unfolding cdd_exist_rec.simps n b if_False remember_def exist_bdd_def memoised_def put_quant_def ..
qed

lemma exists_over_terminal:
  assumes "core s X F W B" "cdd_rglr p = cddfalse"
  shows "exists_over S (\<lambda>a. eval (cont s) a p) = (\<lambda>a. eval (cont s) a p)"
  using eval_split [of "cont s" _ p] eval_tf(1) [OF assms(1)] assms(2) by (simp add: fun_eq_iff exists_over_def)

lemma exist_rec_spec:
  assumes B: "\<And>k. - bnd_INF \<notin> B k" and nb: "nb \<le> length levels" and S: "S = levels_in levels nb" and T: "T = exists_meaning i S"
  shows "client_with T X B s \<Longrightarrow> opid s = i \<Longrightarrow> reach X s p \<Longrightarrow>
    cdd_levelcnt s < n + min (lv (cont s) p) (cdd_levelcnt s) \<Longrightarrow>
    wp (cdd_exist_rec n p levels clocks nb 0 rc) (yields_with T X B s (exists_over S (\<lambda>a. eval (cont s) a p)) 0) s"
proof (induction n arbitrary: s X p)
  case (Suc n)
  note c = Suc.prems(1) and r = Suc.prems(3)
  let ?\<phi> = "\<lambda>a. eval (cont s) a p" and ?rec = "\<lambda>c. cdd_exist_rec n c levels clocks nb 0 rc"
  obtain F where cs: "core s X F {} B" using c by (auto simp: client_with_def)
  have gives: "results T X B s ?\<phi> = yields_with T X B s (exists_over S ?\<phi>) 0"
    using Suc.prems(2) by (simp add: results_def [abs_def] T exists_meaning_def)
  have "wp (cdd_exist_rec (Suc n) p levels clocks nb 0 rc) (results T X B s ?\<phi>) s"
    unfolding exist_rec_Suc
  proof (rule quant.memoised_spec [OF c r])
    assume "cdd_rglr p = cddfalse"
    from exists_over_terminal [OF cs this] show "T (opid s) ?\<phi> ?\<phi>" using Suc.prems(2) by (simp add: T exists_meaning_def)
  next
    assume nt: "cdd_rglr p \<noteq> cddfalse"
    have lt: "lv (cont s) p < cdd_levelcnt s" using node_view [OF cs r nt] by metis
    have rec: "rec_exists T B S s (lv (cont s) p) ?rec"
      unfolding rec_exists_def
    proof (intro allI impI)
      fix Y t c assume t: "client_with T Y B t" "opid t = opid s" "cdd_levelcnt t = cdd_levelcnt s" "reach Y t c" "lv (cont s) p < lv (cont t) c"
      then have "cdd_levelcnt t < n + min (lv (cont t) c) (cdd_levelcnt t)" using Suc.prems(4) lt by auto
      with t Suc.prems(2) show "wp (?rec c) (yields_with T Y B t (exists_over S (\<lambda>a. eval (cont t) a c)) 0) t"
        by (intro Suc.IH) simp_all
    qed
    show "wp (case li_type (cdd_levelinfo s ! lv (cont s) p) of
        TYPE_CDD \<Rightarrow> bindM (gets cdd_levelcnt) (\<lambda>lc. bindM (it_for p (exist_kept ?rec p) cddfalse) (\<lambda>res. thenM (cdd_deref res) (ret res)))
      | TYPE_BDD \<Rightarrow> exist_bdd ?rec p levels nb) (results T X B s ?\<phi>) s"
      unfolding gives using exist_cdd_spec [OF c r nt _ rec B] exist_bdd_spec [OF c r nt _ rec nb S]
      by (cases "li_type (cdd_levelinfo s ! lv (cont s) p)") (simp_all add: wp_bind [of "gets _"] wp_gets)
  qed
  then show ?case unfolding gives .
qed (simp add: min_def split: if_splits)

section \<open>\<^verbatim>\<open>cdd_exist\<close>\<close>

text \<open>\<open>older (opid s)\<close>: no cache entry is of a call that is still to come.\<close>

definition older :: "int \<Rightarrow> meaning" where
  "older i c \<phi> \<psi> \<longleftrightarrow> c \<le> i"

lemma caches_mean_mono:
  assumes "caches_mean T s B" "\<And>c \<phi> \<psi>. T c \<phi> \<psi> \<Longrightarrow> U c \<phi> \<psi>"
  shows "caches_mean U s B"
  using assms by (auto simp: caches_mean_def opcache.all_live_def entry_means_def)

lemma client_with_mono:
  "client_with T X B s \<Longrightarrow> (\<And>c \<phi> \<psi>. T c \<phi> \<psi> \<Longrightarrow> U c \<phi> \<psi>) \<Longrightarrow> client_with U X B s"
  unfolding client_with_def using caches_mean_mono [of T s B U] by blast

lemma yields_with_mono:
  "yields_with T X B s \<phi> k p t \<Longrightarrow> (\<And>c \<phi> \<psi>. T c \<phi> \<psi> \<Longrightarrow> U c \<phi> \<psi>) \<Longrightarrow> yields_with U X B s \<phi> k p t"
  unfolding yields_with_def using caches_mean_mono [of T t B U] by blast

lemma client_opid: "client_with T X B (s\<lparr>opid := i\<rparr>) = client_with T X B s"
  by (simp add: client_with_def view_core [OF view_upd(5)] view_caches [OF view_upd(5)])

lemma cont_opid [simp]: "cont (s\<lparr>opid := i\<rparr>) = cont s"
  by (rule view_views(1) [OF view_upd(5)])

lemma cdd_exist_yields:
  assumes c: "client_with (older (opid s)) X B s" and p: "reach X s p" and B: "\<And>k. - bnd_INF \<notin> B k"
    and nb: "nb \<le> length levels" and n: "cdd_levelcnt s < n + min (lv (cont s) p) (cdd_levelcnt s)"
  shows "wp (cdd_exist n p levels clocks nb 0) (\<lambda>q t. opid t = opid s + 1 \<and>
     yields_with (older (opid t)) X B (s\<lparr>opid := opid s + 1\<rparr>) (exists_over (levels_in levels nb) (\<lambda>a. eval (cont s) a p)) 0 q t) s"
proof -
  let ?s = "s\<lparr>opid := opid s + 1\<rparr>" and ?S = "levels_in levels nb"
  let ?T = "exists_meaning (opid s + 1) ?S"
  have "client_with ?T X B s" by (rule client_with_mono [OF c]) (simp add: older_def exists_meaning_def)
  then have cs: "client_with ?T X B ?s" by (simp add: client_opid)
  have ps: "reach X ?s p" using p by (simp add: reach_def)
  have "wp (cdd_exist_rec n p levels clocks nb 0 rc) (yields_with ?T X B ?s (exists_over ?S (\<lambda>a. eval (cont ?s) a p)) 0) ?s" for rc
    by (rule exist_rec_spec [OF B nb refl refl cs _ ps]) (use n in simp_all)
  note rec = this [unfolded cont_opid]
  show ?thesis
    unfolding cdd_exist_def wp_bind wp_gets wp_then wp_modify
  proof (rule wp_mono [OF rec])
    fix q t assume t: "yields_with ?T X B ?s (exists_over ?S (\<lambda>a. eval (cont s) a p)) 0 q t"
    then have "opid t = opid s + 1" by (simp add: yields_with_def kframes_def frames_def same_env_def)
    then show "opid t = opid s + 1 \<and> yields_with (older (opid t)) X B ?s (exists_over ?S (\<lambda>a. eval (cont s) a p)) 0 q t"
      using yields_with_mono [OF t, of "older (opid s + 1)"] by (simp add: older_def exists_meaning_def)
  qed
qed

end
