(* ===== verification/Rename_Spec.thy ===== *)
theory Rename_Spec
  imports Exist_Spec
begin

text \<open>
  Correctness of \<^verbatim>\<open>cdd_replace\<close>: the result means the diagram with its boolean variables and its
  clocks renamed.  A clock constraint is moved to the level of the renamed clocks, and turned round when
  their order is the other one, so the meaning is stated over valuations of the clocks.
\<close>

declare split_paired_All [simp del]

section \<open>Renaming\<close>

text \<open>
  \<open>renamed L levels clocks a a'\<close>: \<open>a\<close> gives the variables of the result their values under a valuation,
  and \<open>a'\<close> those of the argument: a variable has the value of the one it is replaced by.
\<close>

definition renamed :: "LevelInfo list \<Rightarrow> nat list \<Rightarrow> nat list \<Rightarrow> asg \<Rightarrow> asg \<Rightarrow> bool" where
  "renamed L levels clocks a a' \<longleftrightarrow> (\<exists>v. clock_asg L v a \<and> clock_asg L (\<lambda>i. v (clocks ! i)) a' \<and>
     (\<forall>k < length levels. snd a' k = snd a (levels ! k)))"

definition same_under :: "(asg \<Rightarrow> asg \<Rightarrow> bool) \<Rightarrow> (asg \<Rightarrow> bool) \<Rightarrow> (asg \<Rightarrow> bool) \<Rightarrow> bool" where
  "same_under A \<phi> \<psi> \<longleftrightarrow> (\<forall>a a'. A a a' \<longrightarrow> \<psi> a = \<phi> a')"

definition rename_meaning :: "int \<Rightarrow> (asg \<Rightarrow> asg \<Rightarrow> bool) \<Rightarrow> meaning" where
  "rename_meaning i A c \<phi> \<psi> \<longleftrightarrow> c \<le> i \<and> (c = i \<longrightarrow> same_under A \<phi> \<psi>)"

text \<open>
  What the arrays must hold: a boolean level for each boolean level, and for the two clocks of a level
  two different clocks whose level admits its bounds, in the orientation it has.
\<close>

definition moves :: "(nat \<Rightarrow> raw_t set) \<Rightarrow> kstate \<Rightarrow> nat \<Rightarrow> nat \<Rightarrow> nat \<Rightarrow> bool" where
  "moves B s k i j \<longleftrightarrow> i \<noteq> j \<and> (\<exists>k'. level_at s (max i j) (min i j) k' \<and>
     (\<forall>b \<in> B k. flippable b \<and> b \<noteq> - bnd_INF \<and>
        (if j < i then b \<in> B k' else bnd_u2l b \<in> insert (- bnd_INF) (B k') \<and> bnd_l2u b \<in> insert (- bnd_INF) (B k'))))"

definition rename_ok :: "(nat \<Rightarrow> raw_t set) \<Rightarrow> kstate \<Rightarrow> nat list \<Rightarrow> nat list \<Rightarrow> bool" where
  "rename_ok B s levels clocks \<longleftrightarrow> (\<forall>k < cdd_levelcnt s. let info = cdd_levelinfo s ! k in
     case li_type info of
       TYPE_BDD \<Rightarrow> k < length levels \<and> levels ! k < cdd_levelcnt s \<and> li_type (cdd_levelinfo s ! (levels ! k)) = TYPE_BDD
     | TYPE_CDD \<Rightarrow> li_clock1 info < length clocks \<and> li_clock2 info < length clocks \<and>
         moves B s k (clocks ! li_clock1 info) (clocks ! li_clock2 info))"

definition same_levels :: "kstate \<Rightarrow> kstate \<Rightarrow> bool" where
  "same_levels s t \<longleftrightarrow> cdd_levelcnt t = cdd_levelcnt s \<and> cdd_levelinfo t = cdd_levelinfo s \<and>
     cdd_diff2level t = cdd_diff2level s \<and> opid t = opid s"

lemma keeping_levels: "keeping T X B s m t \<Longrightarrow> same_levels s t"
  using keeping_env [of T X B s m t] by (simp add: same_levels_def)

lemma rename_ok_levels: "same_levels s t \<Longrightarrow> rename_ok B t levels clocks = rename_ok B s levels clocks"
proof -
  assume st: "same_levels s t"
  then have "moves B t = moves B s" by (simp add: fun_eq_iff same_levels_def moves_def level_at_def)
  with st show ?thesis by (simp add: rename_ok_def same_levels_def Let_def split: node_type.split)
qed

text \<open>The interval of a child, over the renamed clocks.\<close>

lemma keeping_moved:
  assumes t: "keeping T X B s m t" and mv: "moves B s k (clocks ! i) (clocks ! j)"
    and k: "k < cdd_levelcnt s" "cdd_levelinfo s ! k = info" "li_type info = TYPE_CDD" "li_clock1 info = i" "li_clock2 info = j"
    and L: "length (cdd_levelinfo s) = cdd_levelcnt s" and A: "A = renamed (cdd_levelinfo s) levels clocks"
    and es: "elem_list es" "2 \<le> length es" "\<And>e. e \<in> set es \<Longrightarrow> e_bnd e \<in> B k" and n: "n < length es"
  shows "wp (refd (cdd_interval (clocks ! i) (clocks ! j) (low_of es n) (e_bnd (es ! n))))
    (\<lambda>p u. \<exists>\<phi>. same_under A (\<lambda>a. in_elem es n (fst a k)) \<phi> \<and> keeping T X B s ((p, \<phi>) # m) u) t"
proof (rule keeping_some [OF t])
  let ?i = "clocks ! i" and ?j = "clocks ! j" and ?low = "low_of es n" and ?high = "e_bnd (es ! n)"
  note env = keeping_levels [OF t, unfolded same_levels_def]
  obtain k' where k': "level_at s (max ?i ?j) (min ?i ?j) k'" and ij: "?i \<noteq> ?j"
    and b: "\<And>b. b \<in> B k \<Longrightarrow> flippable b \<and> b \<noteq> - bnd_INF \<and>
        (if ?j < ?i then b \<in> B k' else bnd_u2l b \<in> insert (- bnd_INF) (B k') \<and> bnd_l2u b \<in> insert (- bnd_INF) (B k'))"
    using mv unfolding moves_def by blast
  have kt: "level_at t (max ?i ?j) (min ?i ?j) k'" using k' env by (simp add: level_at_def)
  have inB: "e_bnd (es ! x) \<in> B k" if "x < length es" for x using es(3) that by simp
  have pos: "- bnd_INF < e_bnd (es ! x)" if "x < length es" for x using b [OF inB [OF that]] by (auto simp: flippable_def)
  note ord = elem_order [OF es(1,2) pos n]
  have low: "?low = - bnd_INF \<or> ?low \<in> B k" using ord(4) es(3) by auto
  have fl: "flippable ?low" "flippable ?high" using low b inB [OF n] by (auto simp: flippable_def bnd_INF_def)
  have INF: "bnd_INF \<in> B k'" using bound_INF [OF keeping_client [OF t]] .
  have l2u: "bnd_l2u (- bnd_INF) = bnd_INF" using flip_eq(2) [of "- bnd_INF"] by simp
  have sub: "if ?j < ?i then {?low, ?high} - {- bnd_INF} \<subseteq> B k' else {bnd_u2l ?high, bnd_l2u ?low} - {- bnd_INF} \<subseteq> B k'"
    using b [OF inB [OF n]] low b [of ?low] INF l2u by (auto split: if_splits)
  show "wp (cdd_interval ?i ?j ?low ?high) (\<lambda>p u. \<exists>\<phi>. same_under A (\<lambda>a. in_elem es n (fst a k)) \<phi> \<and>
      yields_with T (with_toks X (map fst m)) B t \<phi> 0 p u) t"
  proof (rule wp_mono [OF cdd_interval_meaning [OF keeping_client [OF t] ij kt fl ord(1,2) sub]])
    fix p u assume u: "yields_clocks_with T (with_toks X (map fst m)) B t
        (\<lambda>v. \<not> bnd_sat (v ?i - v ?j) ?low \<and> bnd_sat (v ?i - v ?j) ?high) p u"
    have "same_under A (\<lambda>a. in_elem es n (fst a k)) (\<lambda>a. eval (cont u) a p)"
      unfolding same_under_def A renamed_def
    proof (intro allI impI, elim exE conjE)
      fix a a' v assume v: "clock_asg (cdd_levelinfo s) v a" "clock_asg (cdd_levelinfo s) (\<lambda>i. v (clocks ! i)) a'"
      have "fst a' k = v ?i - v ?j" using v(2) k L by (auto simp: clock_asg_def)
      then show "eval (cont u) a p = in_elem es n (fst a' k)"
        using u v(1) env by (auto simp: yields_clocks_with_def in_elem_def)
    qed
    moreover have "yields_with T (with_toks X (map fst m)) B t (\<lambda>a. eval (cont u) a p) 0 p u"
      using u by (simp add: yields_with_def yields_clocks_with_def)
    ultimately show "\<exists>\<phi>. same_under A (\<lambda>a. in_elem es n (fst a k)) \<phi> \<and> yields_with T (with_toks X (map fst m)) B t \<phi> 0 p u" by blast
  qed
qed

section \<open>The children of a node\<close>

definition rec_renames :: "meaning \<Rightarrow> (nat \<Rightarrow> raw_t set) \<Rightarrow> (asg \<Rightarrow> asg \<Rightarrow> bool) \<Rightarrow> kstate \<Rightarrow> nat \<Rightarrow> (ptr \<Rightarrow> ptr K) \<Rightarrow> bool" where
  "rec_renames T B A s k rec \<longleftrightarrow> (\<forall>X t c. client_with T X B t \<longrightarrow> same_levels s t \<longrightarrow> reach X t c \<longrightarrow> k < lv (cont t) c \<longrightarrow>
     wp (rec c) (\<lambda>q u. \<exists>\<phi>. same_under A (\<lambda>a. eval (cont t) a c) \<phi> \<and> yields_with T X B t \<phi> 0 q u) t)"

lemma keeping_renamed:
  assumes r: "rec_renames T B A s k rec" and t: "keeping T X B s m t" and c: "reach X s c" "k < lv (cont s) c"
  shows "wp (refd (rec c)) (\<lambda>p u. \<exists>\<phi>. same_under A (\<lambda>a. eval (cont s) a c) \<phi> \<and> keeping T X B s ((p, \<phi>) # m) u) t"
proof (rule keeping_some [OF t])
  note f = keeping_frame [OF t c(1)]
  have e: "(\<lambda>a. eval (cont t) a c) = (\<lambda>a. eval (cont s) a c)" by (rule ext) (rule f(3))
  from r [unfolded rec_renames_def, rule_format, OF keeping_client [OF t] keeping_levels [OF t] f(1)] c(2) f
  show "wp (rec c) (\<lambda>p u. \<exists>\<phi>. same_under A (\<lambda>a. eval (cont s) a c) \<phi> \<and> yields_with T (with_toks X (map fst m)) B t \<phi> 0 p u) t"
    by (simp add: e)
qed

lemma replace_child_spec:
  assumes t: "keeping T X B s [(res, \<rho>)] t" and rec: "rec_renames T B A s k rec"
    and p: "reach X s p" "cont s (cdd_rglr p) = Some (k, Cdd es)"
    and k: "k < cdd_levelcnt s" "cdd_levelinfo s ! k = info" "li_type info = TYPE_CDD"
    and L: "length (cdd_levelinfo s) = cdd_levelcnt s" and A: "A = renamed (cdd_levelinfo s) levels clocks"
    and ok: "rename_ok B s levels clocks" and es: "elem_list es" "2 \<le> length es"
      "\<And>e. e \<in> set es \<Longrightarrow> reach X s (e_child e) \<and> k < lv (cont s) (e_child e) \<and> e_bnd e \<in> B k"
    and n: "n < length es" and \<rho>: "same_under A \<phi> \<rho>"
  defines "c \<equiv> cdd_neg_cond (e_child (es ! n)) (cdd_mask p)"
  shows "wp (replace_child rec info clocks (it_at p es n) res) (\<lambda>r u. \<exists>\<psi>.
    same_under A (\<lambda>a. \<phi> a \<or> in_elem es n (fst a k) \<and> eval (cont s) a c) \<psi> \<and> keeping T X B s [(r, \<psi>)] u) t"
    (is "wp _ ?post _")
proof -
  have c: "reach X s c" "k < lv (cont s) c" using es(3) [of "es ! n"] n by (simp_all add: c_def)
  have mv: "li_clock1 info < length clocks" "li_clock2 info < length clocks"
    "moves B s k (clocks ! li_clock1 info) (clocks ! li_clock2 info)"
    using ok k unfolding rename_ok_def Let_def by auto
  let ?i = "\<lambda>a. in_elem es n (fst a k)" and ?e = "\<lambda>a. eval (cont s) a c"
  note rd = keeping_reads [OF _ p]
  note it = it_reads [OF _ n]
  have nth: "nthM clocks (li_clock1 info) t = Inr (clocks ! li_clock1 info, t)" "nthM clocks (li_clock2 info) t = Inr (clocks ! li_clock2 info, t)"
    using mv by (simp_all add: nthM_def ret_def)
  note st = wp_eq [where m = "nthM _ _", OF nth(1)] wp_eq [where m = "nthM _ _", OF nth(2)]
    wp_eq [where m = "cdd_it_upper _", OF it(1) [OF rd(2) [OF t refl]]] it(4) [OF rd(2) [OF t refl]]
  show ?thesis
    unfolding replace_child_def wp_bind wp_then wp_ret st
  proof (rule wp_mono [OF keeping_moved [OF t mv(3) k refl refl L A es(1,2) _ n]], use es(3) in simp, elim exE conjE)
    fix q1 t1 \<phi>1 assume t1: "keeping T X B s [(q1, \<phi>1), (res, \<rho>)] t1" and \<phi>1: "same_under A ?i \<phi>1"
    show "wp (cdd_it_child (it_at p es n)) (\<lambda>child. wp (refd (rec child)) (\<lambda>q2. wp (refd (cdd_and q1 q2)) (\<lambda>q3.
        wp (cdd_rec_deref q1) (\<lambda>_. wp (cdd_rec_deref q2) (\<lambda>_. wp (refd (cdd_or res q3)) (\<lambda>q4. wp (cdd_rec_deref res) (\<lambda>_.
        wp (cdd_rec_deref q3) (\<lambda>_. ?post q4)))))))) t1"
      unfolding wp_eq [where m = "cdd_it_child _", OF it(2) [OF rd(2) [OF t1 refl]]] c_def [symmetric]
    proof (rule wp_mono [OF keeping_renamed [OF rec t1 c]], elim exE conjE)
      fix q2 t2 \<phi>2 assume t2: "keeping T X B s [(q2, \<phi>2), (q1, \<phi>1), (res, \<rho>)] t2" and \<phi>2: "same_under A ?e \<phi>2"
      let ?ie = "\<lambda>a. \<phi>1 a \<and> \<phi>2 a"
      have post: "same_under A (\<lambda>a. \<phi> a \<or> ?i a \<and> ?e a) (\<lambda>a. \<rho> a \<or> ?ie a)"
        using \<rho> \<phi>1 \<phi>2 by (simp add: same_under_def)
      show "wp (refd (cdd_and q1 q2)) (\<lambda>q3.
        wp (cdd_rec_deref q1) (\<lambda>_. wp (cdd_rec_deref q2) (\<lambda>_. wp (refd (cdd_or res q3)) (\<lambda>q4. wp (cdd_rec_deref res) (\<lambda>_.
        wp (cdd_rec_deref q3) (\<lambda>_. ?post q4)))))) t2"
      proof (rule wp_mono [OF keeping_and [OF t2, of q1 \<phi>1 q2 \<phi>2]])
        fix q3 t3 assume t3: "keeping T X B s [(q3, ?ie), (q2, \<phi>2), (q1, \<phi>1), (res, \<rho>)] t3"
        have or: "wp (refd (cdd_or res q3)) (\<lambda>q4. wp (cdd_rec_deref res) (\<lambda>_. wp (cdd_rec_deref q3) (\<lambda>_. ?post q4))) t5"
          if t5: "keeping T X B s [(q3, ?ie), (res, \<rho>)] t5" for t5
        proof (rule wp_mono [OF keeping_or [OF t5, of res \<rho> q3 ?ie]])
          fix q4 t6 assume t6: "keeping T X B s [(q4, \<lambda>a. \<rho> a \<or> ?ie a), (q3, ?ie), (res, \<rho>)] t6"
          let ?o = "\<lambda>a. \<rho> a \<or> ?ie a"
          have "wp (cdd_rec_deref res) (\<lambda>_. wp (cdd_rec_deref q3) (\<lambda>_ u. keeping T X B s [(q4, ?o)] u)) t6"
            by (rule wp_mono [OF keeping_drop [OF t6, where m' = "[(q4, ?o), (q3, ?ie)]"]], simp,
                rule keeping_drop, assumption, simp)
          then show "wp (cdd_rec_deref res) (\<lambda>_. wp (cdd_rec_deref q3) (\<lambda>_. ?post q4)) t6"
            by (rule wp_mono) (erule wp_mono, use post in blast)
        qed simp_all
        show "wp (cdd_rec_deref q1) (\<lambda>_. wp (cdd_rec_deref q2) (\<lambda>_. wp (refd (cdd_or res q3)) (\<lambda>q4. wp (cdd_rec_deref res) (\<lambda>_.
          wp (cdd_rec_deref q3) (\<lambda>_. ?post q4))))) t3"
          by (rule wp_mono [OF keeping_drop [OF t3, where m' = "[(q3, ?ie), (q2, \<phi>2), (res, \<rho>)]"]], simp,
              rule wp_mono [OF keeping_drop [where m' = "[(q3, ?ie), (res, \<rho>)]"]], assumption, simp, rule or)
      qed simp_all
    qed
  qed
qed

text \<open>The result of a node: the renamed diagram, not yet referenced.\<close>

definition gives_renamed :: "meaning \<Rightarrow> (ptr \<Rightarrow> nat) \<Rightarrow> (nat \<Rightarrow> raw_t set) \<Rightarrow> (asg \<Rightarrow> asg \<Rightarrow> bool) \<Rightarrow> kstate \<Rightarrow> (asg \<Rightarrow> bool) \<Rightarrow>
    ptr \<Rightarrow> kstate \<Rightarrow> bool" where
  "gives_renamed T X B A s \<phi> q u \<longleftrightarrow> (\<exists>\<psi>. same_under A \<phi> \<psi> \<and> yields_with T X B s \<psi> 0 q u)"

lemma replace_cdd_spec:
  assumes c: "client_with T X B s" and p: "reach X s p" "cdd_rglr p \<noteq> cddfalse"
    and ty: "li_type (cdd_levelinfo s ! lv (cont s) p) = TYPE_CDD" and rec: "rec_renames T B A s (lv (cont s) p) rec"
    and A: "A = renamed (cdd_levelinfo s) levels clocks" and ok: "rename_ok B s levels clocks"
  shows "wp (bindM (it_for p (replace_child rec (cdd_levelinfo s ! lv (cont s) p) clocks) cddfalse) (\<lambda>res. thenM (cdd_deref res) (ret res)))
    (gives_renamed T X B A s (\<lambda>a. eval (cont s) a p)) s"
proof -
  let ?k = "lv (cont s) p" and ?f = "replace_child rec (cdd_levelinfo s ! lv (cont s) p) clocks"
  obtain F where cs: "core s X F {} B" using c by (auto simp: client_with_def)
  obtain es where es: "cont s (cdd_rglr p) = Some (?k, Cdd es)" "elem_list es"
    "\<And>e. e \<in> set es \<Longrightarrow> reach X s (e_child e) \<and> ?k < lv (cont s) (e_child e) \<and> e_bnd e \<in> B ?k" "2 \<le> length es"
    "\<And>a. eval (cont s) a p = (\<exists>j < length es. in_elem es j (fst a ?k) \<and> eval (cont s) a (cdd_neg_cond (e_child (es ! j)) (cdd_mask p)))"
    using cdd_children [OF cs p ty] by metis
  have k: "?k < cdd_levelcnt s" using node_view [OF cs p] by metis
  let ?c = "\<lambda>j a. eval (cont s) a (cdd_neg_cond (e_child (es ! j)) (cdd_mask p))"
  let ?\<phi> = "\<lambda>n a. \<exists>j < n. in_elem es j (fst a ?k) \<and> ?c j a"
  let ?I = "\<lambda>n acc u. \<exists>\<psi>. same_under A (?\<phi> n) \<psi> \<and> keeping T X B s [(acc, \<psi>)] u"
  have "wp (it_for p ?f cddfalse) (?I (length es)) s"
  proof (rule it_for_rule [OF es(2)])
    show "?I 0 cddfalse s" using keeping_false [OF c] by (auto simp: same_under_def)
  next
    fix j acc t assume j: "j < length es" and "?I j acc t"
    then obtain \<psi> where t: "same_under A (?\<phi> j) \<psi>" "keeping T X B s [(acc, \<psi>)] t" by blast
    have e: "(\<lambda>a. ?\<phi> j a \<or> in_elem es j (fst a ?k) \<and> ?c j a) = ?\<phi> (Suc j)" by (auto simp: less_Suc_eq fun_eq_iff)
    show "wp (?f (it_at p es j) acc) (?I (Suc j)) t"
      using replace_child_spec [OF t(2) rec p(1) es(1) k refl ty core_levels(1) [OF cs] A ok es(2,4,3) j t(1)] unfolding e .
  next
    fix j acc t assume "?I j acc t"
    then show "cdd_elems p t = Inr (es, t)" using keeping_reads(2) [OF _ p(1) es(1) refl] by blast
  qed
  then show ?thesis
    unfolding wp_bind
  proof (rule wp_mono, elim exE conjE)
    fix q t \<psi> assume t: "same_under A (?\<phi> (length es)) \<psi>" "keeping T X B s [(q, \<psi>)] t"
    have "?\<phi> (length es) = (\<lambda>a. eval (cont s) a p)" by (rule ext) (simp add: es(5))
    with t(1) show "wp (thenM (cdd_deref q) (ret q)) (gives_renamed T X B A s (\<lambda>a. eval (cont s) a p)) t"
      by (intro wp_mono [OF keeping_return [OF t(2)]]) (auto simp: gives_renamed_def)
  qed
qed

definition replace_bdd :: "(ptr \<Rightarrow> ptr K) \<Rightarrow> ptr \<Rightarrow> nat list \<Rightarrow> ptr K" where
  "replace_bdd rec node levels =
     bindM (level_of node) (\<lambda>k. bindM (nthM levels k) (\<lambda>k'.
     bindM (refd (cdd_bddvar k')) (\<lambda>tmp1.
     bindM (bdd_low node) (\<lambda>lo.
     bindM (refd (rec lo)) (\<lambda>tmp2.
     bindM (bdd_high node) (\<lambda>hi.
     bindM (refd (rec hi)) (\<lambda>tmp3.
     bindM (refd (cdd_ite tmp1 tmp3 tmp2)) (\<lambda>res.
     thenM (cdd_rec_deref tmp1) (
     thenM (cdd_rec_deref tmp2) (
     thenM (cdd_rec_deref tmp3) (
     thenM (cdd_deref res) (ret res))))))))))))"

lemma replace_bdd_spec:
  assumes c: "client_with T X B s" and p: "reach X s p" "cdd_rglr p \<noteq> cddfalse"
    and ty: "li_type (cdd_levelinfo s ! lv (cont s) p) = TYPE_BDD" and rec: "rec_renames T B A s (lv (cont s) p) rec"
    and A: "A = renamed (cdd_levelinfo s) levels clocks" and ok: "rename_ok B s levels clocks"
  shows "wp (replace_bdd rec p levels) (gives_renamed T X B A s (\<lambda>a. eval (cont s) a p)) s"
proof -
  let ?k = "lv (cont s) p"
  obtain F where cs: "core s X F {} B" using c by (auto simp: client_with_def)
  obtain lo hi where ch: "cont s (cdd_rglr p) = Some (?k, Bdd lo hi)" "reach X s lo" "reach X s hi"
    "?k < lv (cont s) lo" "?k < lv (cont s) hi"
    "\<And>a. eval (cont s) a p = (if snd a ?k then eval (cont s) a (cdd_neg_cond hi (cdd_mask p))
       else eval (cont s) a (cdd_neg_cond lo (cdd_mask p)))"
    using bdd_children [OF cs p ty] by metis
  have k: "?k < cdd_levelcnt s" using node_view [OF cs p] by metis
  let ?k' = "levels ! ?k"
  have lk: "?k < length levels" "?k' < cdd_levelcnt s" "li_type (cdd_levelinfo s ! ?k') = TYPE_BDD"
    using ok k ty unfolding rename_ok_def Let_def by auto
  define l h where d: "l = cdd_neg_cond lo (cdd_mask p)" "h = cdd_neg_cond hi (cdd_mask p)"
  let ?l = "\<lambda>a. eval (cont s) a l" and ?h = "\<lambda>a. eval (cont s) a h" and ?v = "\<lambda>a. snd a ?k'"
  have r: "reach X s l" "reach X s h" "?k < lv (cont s) l" "?k < lv (cont s) h" using ch d by simp_all
  have t0: "keeping T X B s [] s" by (rule keeping_start [OF c])
  have v: "wp (cdd_bddvar ?k') (yields_with T (with_toks X (map fst ([] :: (ptr \<times> (asg \<Rightarrow> bool)) list))) B s ?v ?k') s"
    by (rule cdd_bddvar_yields [OF keeping_client [OF t0] lk(2,3)])
  have low: "bdd_low p t = Inr (l, t)" and high: "bdd_high p t = Inr (h, t)" if "keeping T X B s m t" for m t
    using keeping_reads(3) [OF that p(1) ch(1) refl] by (simp_all add: bdd_low_def bdd_high_def bindM_def ret_def d)
  have nth: "nthM levels ?k s = Inr (?k', s)" using lk(1) by (simp add: nthM_def ret_def)
  let ?post = "gives_renamed T X B A s (\<lambda>a. eval (cont s) a p)"
  let ?fin = "\<lambda>q1 q2 q3 res. wp (cdd_rec_deref q1) (\<lambda>_. wp (cdd_rec_deref q2) (\<lambda>_. wp (cdd_rec_deref q3) (\<lambda>_.
      wp (cdd_deref res) (\<lambda>_. ?post res))))"
  have finish: "?fin q1 q2 q3 res u" if u: "keeping T X B s [(res, \<psi>), (q3, \<phi>3), (q2, \<phi>2), (q1, ?v)] u"
    and \<psi>: "same_under A (\<lambda>a. eval (cont s) a p) \<psi>" for q1 q2 q3 res u \<psi> \<phi>2 \<phi>3
  proof -
    have "wp (thenM (cdd_deref res) (ret res)) ?post w" if "keeping T X B s [(res, \<psi>)] w" for w
      by (rule wp_mono [OF keeping_return [OF that]]) (use \<psi> in \<open>auto simp: gives_renamed_def\<close>)
    note last = this [unfolded wp_then wp_ret]
    show ?thesis
      by (rule wp_mono [OF keeping_drop [OF u, where m' = "[(res, \<psi>), (q3, \<phi>3), (q2, \<phi>2)]"]], simp,
          rule wp_mono [OF keeping_drop [where m' = "[(res, \<psi>), (q3, \<phi>3)]"]], assumption, simp,
          rule wp_mono [OF keeping_drop [where m' = "[(res, \<psi>)]"]], assumption, simp, rule last)
  qed
  show ?thesis
    unfolding replace_bdd_def wp_bind wp_then wp_ret wp_eq [where m = "level_of p", OF keeping_reads(1) [OF t0 p(1) ch(1)]]
      wp_eq [where m = "nthM _ _", OF nth]
  proof (rule wp_mono [OF keeping_new [OF t0 v]])
    fix q1 t1 assume t1: "keeping T X B s [(q1, ?v)] t1"
    show "wp (bdd_low p) (\<lambda>lo. wp (refd (rec lo)) (\<lambda>q2. wp (bdd_high p) (\<lambda>hi. wp (refd (rec hi)) (\<lambda>q3.
        wp (refd (cdd_ite q1 q3 q2)) (?fin q1 q2 q3))))) t1"
      unfolding wp_eq [where m = "bdd_low p", OF low [OF t1]]
    proof (rule wp_mono [OF keeping_renamed [OF rec t1 r(1,3)]], elim exE conjE)
      fix q2 t2 \<phi>2 assume t2: "keeping T X B s [(q2, \<phi>2), (q1, ?v)] t2" and \<phi>2: "same_under A ?l \<phi>2"
      show "wp (bdd_high p) (\<lambda>hi. wp (refd (rec hi)) (\<lambda>q3. wp (refd (cdd_ite q1 q3 q2)) (?fin q1 q2 q3))) t2"
        unfolding wp_eq [where m = "bdd_high p", OF high [OF t2]]
      proof (rule wp_mono [OF keeping_renamed [OF rec t2 r(2,4)]], elim exE conjE)
        fix q3 t3 \<phi>3 assume t3: "keeping T X B s [(q3, \<phi>3), (q2, \<phi>2), (q1, ?v)] t3" and \<phi>3: "same_under A ?h \<phi>3"
        have "snd a' ?k = snd a ?k'" if "A a a'" for a a' using that lk(1) by (auto simp: A renamed_def)
        then have \<psi>: "same_under A (\<lambda>a. eval (cont s) a p) (\<lambda>a. if ?v a then \<phi>3 a else \<phi>2 a)"
          using \<phi>2 \<phi>3 by (simp add: same_under_def ch(6) d)
        show "wp (refd (cdd_ite q1 q3 q2)) (?fin q1 q2 q3) t3"
          by (rule wp_mono [OF keeping_ite [OF t3, of q1 ?v q3 \<phi>3 q2 \<phi>2]], simp, simp, simp, erule finish [OF _ \<psi>])
      qed
    qed
  qed
qed

section \<open>The recursion\<close>

lemma replace_rec_Suc:
  "cdd_replace_rec (Suc n) node levels clocks =
     memoised replacecache put_replace node (\<lambda>info. case li_type info of
         TYPE_BDD \<Rightarrow> replace_bdd (\<lambda>c. cdd_replace_rec n c levels clocks) node levels
       | TYPE_CDD \<Rightarrow>
           bindM (it_for node (replace_child (\<lambda>c. cdd_replace_rec n c levels clocks) info clocks) cddfalse) (\<lambda>res.
           thenM (cdd_deref res) (ret res)))"
  unfolding cdd_replace_rec.simps remember_def replace_bdd_def memoised_def put_replace_def ..

lemma replace_rec_spec:
  assumes T: "T = rename_meaning i A" and A: "A = renamed L levels clocks"
  shows "client_with T X B s \<Longrightarrow> opid s = i \<Longrightarrow> cdd_levelinfo s = L \<Longrightarrow> rename_ok B s levels clocks \<Longrightarrow> reach X s p \<Longrightarrow>
    cdd_levelcnt s < n + min (lv (cont s) p) (cdd_levelcnt s) \<Longrightarrow>
    wp (cdd_replace_rec n p levels clocks) (gives_renamed T X B A s (\<lambda>a. eval (cont s) a p)) s"
proof (induction n arbitrary: s X p)
  case (Suc n)
  note c = Suc.prems(1) and ok = Suc.prems(4) and r = Suc.prems(5)
  let ?\<phi> = "\<lambda>a. eval (cont s) a p" and ?rec = "\<lambda>c. cdd_replace_rec n c levels clocks"
  have As: "A = renamed (cdd_levelinfo s) levels clocks" using A Suc.prems(3) by simp
  obtain F where cs: "core s X F {} B" using c by (auto simp: client_with_def)
  have gives: "results T X B s ?\<phi> = gives_renamed T X B A s ?\<phi>"
    using Suc.prems(2) by (auto simp: fun_eq_iff results_def gives_renamed_def T rename_meaning_def)
  have "wp (cdd_replace_rec (Suc n) p levels clocks) (results T X B s ?\<phi>) s"
    unfolding replace_rec_Suc
  proof (rule rename.memoised_spec [OF c r])
    assume nt: "cdd_rglr p = cddfalse"
    have "eval (cont s) a p = eval (cont s) a' p" for a a'
      using eval_split [of "cont s" a p] eval_split [of "cont s" a' p] eval_tf(1) [OF cs] nt by simp
    then show "T (opid s) ?\<phi> ?\<phi>" using Suc.prems(2) by (simp add: T rename_meaning_def same_under_def)
  next
    assume nt: "cdd_rglr p \<noteq> cddfalse"
    have lt: "lv (cont s) p < cdd_levelcnt s" using node_view [OF cs r nt] by metis
    have rec: "rec_renames T B A s (lv (cont s) p) ?rec"
      unfolding rec_renames_def
    proof (intro allI impI)
      fix Y t c assume t: "client_with T Y B t" "same_levels s t" "reach Y t c" "lv (cont s) p < lv (cont t) c"
      then have "cdd_levelcnt t < n + min (lv (cont t) c) (cdd_levelcnt t)" using Suc.prems(6) lt by (auto simp: same_levels_def)
      with t Suc.prems(2-4) show "wp (?rec c) (\<lambda>q u. \<exists>\<phi>. same_under A (\<lambda>a. eval (cont t) a c) \<phi> \<and> yields_with T Y B t \<phi> 0 q u) t"
        using Suc.IH [of Y t c] by (simp add: gives_renamed_def [abs_def] same_levels_def rename_ok_levels [of s t])
    qed
    show "wp (case li_type (cdd_levelinfo s ! lv (cont s) p) of
         TYPE_BDD \<Rightarrow> replace_bdd ?rec p levels
       | TYPE_CDD \<Rightarrow> bindM (it_for p (replace_child ?rec (cdd_levelinfo s ! lv (cont s) p) clocks) cddfalse) (\<lambda>res.
           thenM (cdd_deref res) (ret res))) (results T X B s ?\<phi>) s"
      unfolding gives using replace_cdd_spec [OF c r nt _ rec As ok] replace_bdd_spec [OF c r nt _ rec As ok]
      by (cases "li_type (cdd_levelinfo s ! lv (cont s) p)") simp_all
  qed
  then show ?case unfolding gives .
qed (simp add: min_def split: if_splits)

section \<open>\<^verbatim>\<open>cdd_replace\<close>\<close>

lemma cdd_replace_yields:
  assumes c: "client_with (older (opid s)) X B s" and p: "reach X s p" and ok: "rename_ok B s levels clocks"
  shows "wp (cdd_replace p levels clocks) (\<lambda>q t. opid t = opid s + 1 \<and>
     gives_renamed (older (opid t)) X B (renamed (cdd_levelinfo s) levels clocks) (s\<lparr>opid := opid s + 1\<rparr>) (\<lambda>a. eval (cont s) a p) q t) s"
proof -
  let ?s = "s\<lparr>opid := opid s + 1\<rparr>" and ?A = "renamed (cdd_levelinfo s) levels clocks"
  let ?T = "rename_meaning (opid s + 1) ?A" and ?\<phi> = "\<lambda>a. eval (cont s) a p"
  obtain F where cs: "core s X F {} B" using c by (auto simp: client_with_def)
  have "client_with ?T X B s" by (rule client_with_mono [OF c]) (simp add: older_def rename_meaning_def)
  then have ct: "client_with ?T X B ?s" by (simp add: client_opid)
  have "moves B ?s = moves B s" by (simp add: fun_eq_iff moves_def level_at_def)
  then have ok': "rename_ok B ?s levels clocks" using ok by (simp add: rename_ok_def Let_def split: node_type.splits)
  have n: "cdd_levelcnt s < cdd_levelcnt s + 1 + min (lv (cont s) p) (cdd_levelcnt s)" by simp
  have "wp (cdd_replace_rec (cdd_levelcnt s + 1) p levels clocks) (gives_renamed ?T X B ?A ?s (\<lambda>a. eval (cont ?s) a p)) ?s"
    by (rule replace_rec_spec [OF refl refl ct _ _ ok']) (use p n in \<open>simp_all add: reach_def\<close>)
  note rec = this [unfolded cont_opid]
  have lc: "cdd_levelcnt ?s = cdd_levelcnt s" by simp
  show ?thesis
    unfolding cdd_replace_def wp_bind wp_gets wp_then wp_modify lc
  proof (rule wp_mono [OF rec])
    fix q t assume "gives_renamed ?T X B ?A ?s ?\<phi> q t"
    then obtain \<psi> where \<psi>: "same_under ?A ?\<phi> \<psi>" and t: "yields_with ?T X B ?s \<psi> 0 q t" by (auto simp: gives_renamed_def)
    then have "opid t = opid s + 1" by (simp add: yields_with_def kframes_def frames_def same_env_def)
    then show "opid t = opid s + 1 \<and> gives_renamed (older (opid t)) X B ?A ?s ?\<phi> q t"
      using yields_with_mono [OF t, of "older (opid s + 1)"] \<psi> by (auto simp: older_def rename_meaning_def gives_renamed_def)
  qed
qed

end
