(* ===== verification/Demo.thy ===== *)
theory Demo
  imports From_Dbm Matrix_Spec Session Bellman_Ford Marking Rename_Spec
begin

text \<open>
  A small concrete store, on which the hypotheses of the theorems hold: one boolean variable
  at level 0, one difference of two clocks at level 1, and one node of each kind with a
  reference held by the client.
\<close>

section \<open>The store\<close>

definition demo_lib :: extlib where
  "demo_lib = \<lparr>dbm_LS_INFINITY = bnd_INF, dbm_raw2bound = bnd_get_limit,
     dbm_rawIsStrict = (\<lambda>b. if bnd_is_upper_strict b then 1 else 0),
     dbm_rawIsWeak = (\<lambda>b. if bnd_is_upper_strict b then 0 else 1), base_resetBits = (\<lambda>bs n. replicate n 0),
     base_getOneBit = (\<lambda>bs k. k < length bs \<and> bs ! k \<noteq> 0), base_readOneBit = (\<lambda>bs k. k < length bs \<and> bs ! k \<noteq> 0),
     base_setOneBit = (\<lambda>bs k. bs[k := 1]), base_toggleOneBit = (\<lambda>bs k. bs[k := 1 - bs ! k]), bits2intsize = (\<lambda>n. n),
     dbm_init = (\<lambda>n. replicate (n * n) bnd_INF), dbm_isValid = (\<lambda>d n. True), dbm_constrainN = (\<lambda>d n cs. (True, d)),
     dbm_constrain = (\<lambda>d n i j b t. (d[i * n + j := b], t)), dbm_closex = (\<lambda>d n t. d),
     dbm_analyzeForMinDBM = (\<lambda>d n. map (\<lambda>k. if k div n = k mod n \<or> d ! k = bnd_INF then 0 else 1) [0..<n * n]), dbm_up = (\<lambda>d n. d), dbm_down = (\<lambda>d n. d),
     dbm_updateValue = (\<lambda>d n c v. d), dbm_freeClock = (\<lambda>d n c. d), fed_of_dbm = (\<lambda>d n. [d]), fed_new = (\<lambda>n. []),
     fed_add = (\<lambda>f d n. f @ [d]), fed_isEmpty = (\<lambda>f. f = []), fed_predt = (\<lambda>f g. f)\<rparr>"

definition demo_env :: environment where
  "demo_env = \<lparr>env_lib = demo_lib, env_hash = (\<lambda>ws i. fold (\<lambda>w h. h * 31 + w) ws i),
     env_chunk = (\<lambda>n. if n = 2 then 0x30000 else if n = 3 then 0x40000 else 0), env_xterm = (\<lambda>_. 0)\<rparr>"

definition bnode :: ptr where "bnode = 0x10020"
definition cnode :: ptr where "cnode = 0x20020"

definition demo_nodes :: "ptr \<Rightarrow> ddnode option" where
  "demo_nodes = [
     16 \<mapsto> \<lparr>n_level = MAXLEVEL, n_ref = MAXREF, n_flag = 0, n_body = Term\<rparr>,
     0x10010 \<mapsto> \<lparr>n_level = 0, n_ref = 0, n_flag = 0, n_body = Bdd 0 0\<rparr>,
     0x10020 \<mapsto> \<lparr>n_level = 0, n_ref = 1, n_flag = 0, n_body = Bdd cddfalse cddtrue\<rparr>,
     0x20008 \<mapsto> \<lparr>n_level = 0, n_ref = 0, n_flag = 0, n_body = Cdd [\<lparr>e_child = 0, e_bnd = 0\<rparr>, \<lparr>e_child = 0, e_bnd = 0\<rparr>]\<rparr>,
     0x20020 \<mapsto> \<lparr>n_level = 1, n_ref = 1, n_flag = 0,
       n_body = Cdd [\<lparr>e_child = cddfalse, e_bnd = 3\<rparr>, \<lparr>e_child = cddtrue, e_bnd = bnd_INF\<rparr>]\<rparr>]"

definition demo_table :: "nat \<Rightarrow> ptr \<Rightarrow> subtable" where
  "demo_table k p = \<lparr>t_level = k, t_deadcnt = 0, t_keys = 1, t_maxkeys = 4, t_shift = 32, t_hash = [[p]]\<rparr>"

definition demo_man :: "nat \<Rightarrow> ptr \<Rightarrow> ptr list \<Rightarrow> ptr \<Rightarrow> subtable option list \<Rightarrow> nodemanager" where
  "demo_man sz chunk free sent tabs = \<lparr>m_nodesize = sz, m_freecnt = int (length free), m_chunkcnt = 1,
     m_alloccnt = 4, m_deadcnt = 0, m_usedcnt = 2, m_gbccnt = 0, m_free = free, m_nodes = [chunk],
     m_sentinel = sent, m_subtables = tabs\<rparr>"

definition demo_cache :: cddcache where
  "demo_cache = \<lparr>cache_table = [\<lparr>c_res = 0, c_a = 0, c_b = 0, c_c = 0\<rparr>], cache_tablesize = 1\<rparr>"

definition demo_bman :: nodemanager where
  "demo_bman = demo_man 16 0x10000 [0x10030, 0x10040] 0x10010 [Some (demo_table 0 bnode), None]"

definition demo_cman :: nodemanager where
  "demo_cman = demo_man 24 0x20000 [0x20038] 0x20008 [None, Some (demo_table 1 cnode)]"

definition demo_levels :: "LevelInfo list" where
  "demo_levels = [\<lparr>li_type = TYPE_BDD, li_clock1 = 0, li_clock2 = 0, li_diff = 0\<rparr>,
     \<lparr>li_type = TYPE_CDD, li_clock1 = 1, li_clock2 = 0, li_diff = 0\<rparr>]"

definition demo :: kstate where
  "demo = \<lparr>env = demo_env, nodes = demo_nodes, cell_flag = (\<lambda>_. 0),
     chunk_man = [0x10000 \<mapsto> BddMan, 0x20000 \<mapsto> CddMan 2], os_chunks = 2,
     bddmanager = Some demo_bman, cddmanager = [None, None, Some demo_cman, None, None],
     cdd_levelcnt = 2, cdd_gbccnt = 0, cdd_rehashcnt = 0, cdd_maxcddsize = 4, cdd_maxcddused = 2, cdd_chunkcnt = 2,
     bdd_start_level = 0, cdd_clocknum = 2, cdd_varnum = 1, cdd_levelinfo = demo_levels, cdd_diff2level = [1],
     cdd_running = True, cdd_errorcond = 0, cdd_refstack = [], cdd_refstacksize = 100,
     pregbc_handler = False, postgbc_handler = False, prerehash_handler = False, postrehash_handler = False,
     extra_terminals = [], applycache = demo_cache, quantcache = demo_cache, replacecache = demo_cache,
     relaxcache = \<lparr>relax_table = [], relax_tablesize = 0\<rparr>, applyop = 0, opid = 0, stderr = []\<rparr>"

text \<open>The client holds one reference to each node; the bounds in use are \<open>3\<close> (at most 1) and infinity.\<close>

definition demo_refs :: "ptr \<Rightarrow> nat" where
  "demo_refs p = (if p = bnode \<or> p = cnode then 1 else 0)"

definition demo_bounds :: "nat \<Rightarrow> raw_t set" where
  "demo_bounds k = {3, bnd_INF}"

section \<open>The invariant holds\<close>

lemma addresses [simp]:
  "cdd_rglr 0 = 0" "cdd_rglr 0x10020 = 0x10020" "cdd_rglr 0x20020 = 0x20020" "cdd_rglr 0x10010 = 0x10010" "cdd_rglr 0x20008 = 0x20008"
  "cdd_rglr 0x10030 = 0x10030" "cdd_rglr 0x10040 = 0x10040" "cdd_rglr 0x20038 = 0x20038" "cdd_rglr 16 = 16"
  "cdd_node2chunk 0x10020 = 0x10000" "cdd_node2chunk 0x20020 = 0x20000" "cdd_node2chunk 0x10010 = 0x10000"
  "cdd_node2chunk 0x20008 = 0x20000" "cdd_node2chunk 0x10030 = 0x10000" "cdd_node2chunk 0x10040 = 0x10000"
  "cdd_node2chunk 0x20038 = 0x20000" "cdd_node2chunk 16 = 0"
  by (simp_all add: cdd_rglr_def cdd_node2chunk_def)

lemma demo_fields [simp]:
  "env demo = demo_env" "chunk_man demo = [0x10000 \<mapsto> BddMan, 0x20000 \<mapsto> CddMan 2]" "os_chunks demo = 2"
  "bddmanager demo = Some demo_bman" "cddmanager demo = [None, None, Some demo_cman, None, None]" "cdd_levelcnt demo = 2"
  "cdd_maxcddsize demo = 4" "cdd_levelinfo demo = demo_levels" "cdd_errorcond demo = 0" "nodes demo = demo_nodes"
  "postgbc_handler demo = False" "postrehash_handler demo = False" "applycache demo = demo_cache"
  "quantcache demo = demo_cache" "replacecache demo = demo_cache" "cdd_diff2level demo = [1]" "cdd_clocknum demo = 2"
  "cdd_refstack demo = []" "extra_terminals demo = []" "applyop demo = 0" "opid demo = 0"
  by (simp_all add: demo_def)

lemma demo_man_of: "man_of demo i = (case i of BddMan \<Rightarrow> Some demo_bman | CddMan n \<Rightarrow> if n = 2 then Some demo_cman else None)"
  by (cases i) (auto simp: nth_Cons split: nat.split)

lemma demo_tbl: "tbl demo i k = (if i = BddMan \<and> k = 0 then Some (demo_table 0 bnode)
    else if i = CddMan 2 \<and> k = 1 then Some (demo_table 1 cnode) else None)"
  unfolding tbl_def demo_man_of
  by (cases i) (auto simp: table_of_def demo_bman_def demo_cman_def demo_man_def nth_Cons split: nat.split)

lemma demo_tabled: "tabled demo = {bnode, cnode}"
  by (auto simp: tabled_def demo_tbl demo_table_def chained_def)

lemma demo_cont:
  "cont demo bnode = Some (0, Bdd cddfalse cddtrue)"
  "cont demo cnode = Some (1, Cdd [\<lparr>e_child = cddfalse, e_bnd = 3\<rparr>, \<lparr>e_child = cddtrue, e_bnd = bnd_INF\<rparr>])"
  "cont demo cddfalse = Some (MAXLEVEL, Term)" "rf demo bnode = 1" "rf demo cnode = 1" "rf demo cddfalse = MAXREF"
  by (simp_all add: cont_def rf_def demo_nodes_def bnode_def cnode_def cddfalse_def)

lemma demo_nodes_rglr [simp]: "cdd_rglr bnode = bnode" "cdd_rglr cnode = cnode"
  "cdd_node2chunk bnode = 0x10000" "cdd_node2chunk cnode = 0x20000"
  by (simp_all add: bnode_def cnode_def)

lemma demo_tables_ok: "tables_ok demo"
  unfolding tables_ok_def
proof (intro allI impI)
  fix i k t assume "tbl demo i k = Some t"
  then consider "i = BddMan" "k = 0" "t = demo_table 0 bnode" | "i = CddMan 2" "k = 1" "t = demo_table 1 cnode"
    by (auto simp: demo_tbl split: if_splits)
  then show "table_ok (env demo) (cont demo) (chunk_man demo) i k t"
  proof cases
    case 1
    then show ?thesis
      by (simp add: table_ok_def demo_table_def descending_def in_place_def demo_cont bucket_index_def)
  next
    case 2
    then show ?thesis
      by (simp add: table_ok_def demo_table_def descending_def in_place_def demo_cont bucket_index_def bnd_INF_def)
  qed
qed

lemma demo_sound:
  "sound (cont demo) (tabled demo) (cdd_levelinfo demo) demo_bounds bnode"
  "sound (cont demo) (tabled demo) (cdd_levelinfo demo) demo_bounds cnode"
proof -
  have lv: "lv (cont demo) cddfalse = MAXLEVEL" "lv (cont demo) cddtrue = MAXLEVEL"
    by (simp_all add: lv_def demo_cont)
  show "sound (cont demo) (tabled demo) (cdd_levelinfo demo) demo_bounds bnode"
    by (rule sound_node [of _ _ 0 "Bdd cddfalse cddtrue"])
      (auto simp: demo_cont demo_tabled shape_ok_def demo_levels_def lv MAXLEVEL_def cddtrue_def)
  show "sound (cont demo) (tabled demo) (cdd_levelinfo demo) demo_bounds cnode"
    by (rule sound_node [of _ _ 1 "Cdd [\<lparr>e_child = cddfalse, e_bnd = 3\<rparr>, \<lparr>e_child = cddtrue, e_bnd = bnd_INF\<rparr>]"])
      (auto simp: demo_cont demo_tabled shape_ok_def demo_levels_def lv MAXLEVEL_def cddtrue_def demo_bounds_def bnd_INF_def)
qed

lemma demo_static: "static_ok demo demo_bounds"
proof -
  have chunk: "env_chunk (env demo) n = (if n = 2 then 0x30000 else if n = 3 then 0x40000 else 0)" for n
    by (simp add: demo_env_def)
  have em: "nodes demo p = None" if "cdd_node2chunk p = 0x30000 \<or> cdd_node2chunk p = 0x40000" for p
    using that by (auto simp: demo_nodes_def)
  show ?thesis
    unfolding static_ok_def chunk
    by (auto simp: em cddfalse_def demo_nodes_def demo_bounds_def demo_levels_def MAXLEVEL_def bnd_INF_def)
qed

lemma demo_zero: "zero_body (CddMan 2) = Cdd [\<lparr>e_child = 0, e_bnd = 0\<rparr>, \<lparr>e_child = 0, e_bnd = 0\<rparr>]"
  by (simp add: numeral_2_eq_2)

lemma demo_mans: "mans_ok demo"
  unfolding mans_ok_def
proof (intro allI impI)
  fix i m assume "man_of demo i = Some m"
  then consider "i = BddMan" "m = demo_bman" | "i = CddMan 2" "m = demo_cman"
    unfolding demo_man_of by (auto split: mid.splits if_splits)
  then show "man_ok demo i m"
    by cases (auto simp: man_ok_def demo_bman_def demo_cman_def demo_man_def demo_table_def table_deads_def cell_ok_def
        demo_tabled demo_nodes_def cont_def bnode_def cnode_def demo_zero simp del: zero_body.simps(2))
qed

lemma demo_own: "own (tabled demo) (rf demo) {} {} = {bnode, cnode}"
  by (auto simp: own_def demo_tabled demo_cont)

lemma demo_refs_ok: "refs_ok demo demo_refs {} {}"
proof -
  have "kids_of (cont demo) bnode = [cddfalse, cddtrue]" "kids_of (cont demo) cnode = [cddfalse, cddtrue]"
    by (simp_all add: kids_of_def demo_cont)
  then have "indeg (cont demo) {bnode, cnode} q = 0" if "q \<noteq> cddfalse" for q
    using that by (simp add: indeg_def)
  moreover have "bnode \<noteq> cddfalse" "cnode \<noteq> cddfalse" by (simp_all add: bnode_def cnode_def cddfalse_def)
  ultimately show ?thesis
    by (auto simp: refs_ok_def demo_own [unfolded demo_tabled] demo_tabled demo_cont demo_refs_def MAXREF_def)
qed

lemma demo_dead: "dead_ok demo {} {}"
  by (auto simp: dead_ok_def demo_tbl demo_table_def split: if_splits)

lemma demo_owners: "owners_sound demo {} {} demo_bounds"
  using demo_sound by (simp add: owners_sound_def demo_own)

lemma demo_core: "core demo demo_refs {} {} demo_bounds"
  unfolding core_def
  using demo_static demo_tables_ok demo_mans demo_refs_ok demo_owners demo_dead by blast

lemma demo_caches: "caches_ok demo demo_bounds"
  by (simp add: caches_ok_def cache_shape_def unary_cache_def demo_cache_def opcache.all_live_def cache_live_def)

lemma demo_INV: "INV demo demo_refs {} demo_bounds"
  by (simp add: INV_def demo_core demo_caches)

section \<open>The client of the store\<close>

lemma demo_client: "client demo_refs demo_bounds demo"
  unfolding client_def using demo_core demo_caches by blast

lemma demo_reach: "reach demo_refs demo bnode" "reach demo_refs demo cnode"
  by (simp_all add: reach_def held_token demo_refs_def)

lemma demo_finite: "finite_bounds demo_bounds"
  by (simp add: finite_bounds_def demo_bounds_def bnd_INF_def)

lemma demo_level_at: "level_at demo 1 0 1"
  by (simp add: level_at_def demo_levels_def cdd_difference_def cdd_difference_count_def)

lemma demo_kinds [simp]: "li_type (demo_levels ! 0) = TYPE_BDD" "li_type (demo_levels ! Suc 0) = TYPE_CDD"
  by (simp_all add: demo_levels_def)

lemma demo_lv: "lv (cont demo) bnode = 0" "lv (cont demo) cnode = 1" "lv (cont demo) cddfalse = MAXLEVEL" "lv (cont demo) cddtrue = MAXLEVEL"
  by (simp_all add: lv_def demo_cont)

lemma demo_usable: "usable demo demo_bounds F bnode" "usable demo demo_bounds F cnode"
  "usable demo demo_bounds F cddfalse" "usable demo demo_bounds F cddtrue"
  using demo_sound by (simp_all add: usable_def demo_cont)

section \<open>The store after the client has given up the boolean node\<close>

definition demo_dropped :: kstate where
  "demo_dropped = put_man BddMan (count_dead 1 0 demo_bman (demo_table 0 bnode))
     (set_node bnode \<lparr>n_level = 0, n_ref = 0, n_flag = 0, n_body = Bdd cddfalse cddtrue\<rparr> demo)"

definition cnode_refs :: "ptr \<Rightarrow> nat" where
  "cnode_refs p = (if p = cnode then 1 else 0)"

lemma demo_refs_toks: "demo_refs = with_toks cnode_refs [bnode]"
  by (auto simp: with_toks_def demo_refs_def cnode_refs_def bnode_def cnode_def)

lemma demo_node:
  "demo_nodes bnode = Some \<lparr>n_level = 0, n_ref = 1, n_flag = 0, n_body = Bdd cddfalse cddtrue\<rparr>"
  "demo_nodes cddfalse = Some \<lparr>n_level = MAXLEVEL, n_ref = MAXREF, n_flag = 0, n_body = Term\<rparr>"
  by (simp_all add: demo_nodes_def bnode_def cddfalse_def)

lemma deref_terminal:
  assumes n: "nodes s cddfalse = Some \<lparr>n_level = k, n_ref = MAXREF, n_flag = fl, n_body = b\<rparr>" and p: "cdd_rglr p = cddfalse"
  shows "rec_deref_loop (p # stk) s = rec_deref_loop stk s"
proof -
  have "rec_deref_step cddfalse s = Inr (Some [], s)"
    using n by (simp add: rec_deref_step_def cdd_deref_def upd_node_def bindM_def thenM_def get_node_def someM_def modifyM_def
        set_node_def cdd_satdec_def ret_def MAXREF_def fun_upd_idem)
  then show ?thesis using p by simp
qed

lemma demo_drop: "cdd_rec_deref bnode demo = Inr ((), demo_dropped)"
proof -
  let ?n = "\<lparr>n_level = 0, n_ref = 0, n_flag = 0, n_body = Bdd cddfalse cddtrue\<rparr>"
  let ?s = "set_node bnode ?n demo"
  have d: "cdd_deref bnode demo = Inr ((), ?s)"
    by (simp add: cdd_deref_def upd_node_def bindM_def get_node_def someM_def modifyM_def cdd_satdec_def MAXREF_def demo_node)
  have m: "man_of ?s BddMan = Some demo_bman" "table_of demo_bman 0 = Some (demo_table 0 bnode)"
    "chunk_man ?s (cdd_node2chunk bnode) = Some BddMan"
    by (simp_all add: set_node_def table_of_def demo_bman_def demo_man_def)
  have nd: "nodes demo_dropped bnode = Some ?n" by (simp add: demo_dropped_def)
  have lv: "cdd_levelcnt demo_dropped = 2" "cdd_levelinfo demo_dropped = demo_levels"
    by (simp_all add: demo_dropped_def set_node_def)
  have pc: "pushed_children bnode demo_dropped = Inr ([cddfalse, cddtrue], demo_dropped)"
    by (simp add: pushed_children_def cdd_info_def level_of_def levelinfo_at_def bindM_def get_node_def someM_def nd lv
        ret_def gets_def demo_levels_def bdd_node_def)
  have "rec_deref_step bnode demo = Inr (Some [cddfalse, cddtrue], demo_dropped)"
    using bury_eq [OF m]
    by (simp add: rec_deref_step_def bindM_def thenM_def get_node_def someM_def demo_node d pc ret_def flip: demo_dropped_def
        del: put_man.simps)
  moreover have "nodes demo_dropped cddfalse = Some \<lparr>n_level = MAXLEVEL, n_ref = MAXREF, n_flag = 0, n_body = Term\<rparr>"
    by (simp add: demo_dropped_def demo_nodes_def bnode_def cddfalse_def)
  ultimately show ?thesis
    unfolding cdd_rec_deref_def
    by (subst rec_deref_loop.simps(2)) (simp add: deref_terminal ret_def del: rec_deref_loop.simps(2))
qed

lemma dropped_core: "core demo_dropped cnode_refs {} {} demo_bounds"
  using cdd_rec_deref_spec [of demo cnode_refs bnode "[]" "{}" demo_bounds] demo_core
  by (simp add: wp_def demo_drop demo_refs_toks)

lemma dropped_sim: "sim demo demo_dropped"
  using cdd_rec_deref_spec [of demo cnode_refs bnode "[]" "{}" demo_bounds] demo_core
  by (simp add: wp_def demo_drop demo_refs_toks)

lemma dropped_dead: "rf demo_dropped bnode = 0" "bnode \<in> tabled demo_dropped"
  "sound (cont demo_dropped) (tabled demo_dropped) (cdd_levelinfo demo_dropped) demo_bounds bnode"
proof -
  show "rf demo_dropped bnode = 0" by (simp add: rf_def demo_dropped_def)
  have f: "cont demo_dropped = cont demo" "tabled demo_dropped = tabled demo" "cdd_levelinfo demo_dropped = cdd_levelinfo demo"
    using sim_fields [OF dropped_sim] blank_fields [OF sim_fields(2) [OF dropped_sim]] by simp_all
  show "bnode \<in> tabled demo_dropped" using f(2) demo_tabled by simp
  show "sound (cont demo_dropped) (tabled demo_dropped) (cdd_levelinfo demo_dropped) demo_bounds bnode"
    unfolding f using demo_sound(1) .
qed

lemma dropped_caches: "caches_ok demo_dropped demo_bounds"
  using sim_caches [OF dropped_sim demo_caches] .

lemma dropped_caches_live: "caches_live demo_dropped"
  by (simp add: caches_live_def demo_dropped_def set_node_def demo_cache_def opcache.all_live_def cache_live_def)

lemma dropped_man: "man_of demo_dropped BddMan = Some (count_dead 1 0 demo_bman (demo_table 0 bnode))"
  by (simp add: demo_dropped_def)

section \<open>Before the library is started\<close>

definition demo_off :: kstate where
  "demo_off = demo\<lparr>nodes := (\<lambda>_. None), chunk_man := (\<lambda>_. None), cdd_running := False\<rparr>"

lemma demo_fresh: "fresh_memory demo_off"
  by (auto simp: fresh_memory_def demo_off_def demo_env_def)

lemma demo_off_fields: "\<not> cdd_running demo_off" "cdd_errorcond demo_off = 0"
  by (simp_all add: demo_off_def)

lemma demo_bounds_ok: "bounds_ok demo_bounds 4"
  by (auto simp: bounds_ok_def demo_bounds_def bnd_INF_def)

lemma demo_cpp: "cpp demo_refs demo_bounds demo"
  by (simp add: cpp_def demo_client) (simp add: demo_def)

lemma demo_cpp_toks: "cpp (with_toks cnode_refs [bnode]) demo_bounds demo"
  using demo_cpp by (simp add: demo_refs_toks)

lemma demo_clocks: "clocks_ok demo"
  using demo_level_at by (auto simp: clocks_ok_def cdd_difference_count_def less_Suc_eq numeral_2_eq_2)

lemma demo_boolean: "boolean (cont demo) bnode"
proof (rule boolean_node)
  show "cont demo (cdd_rglr bnode) = Some (0, Bdd cddfalse cddtrue)" by (simp add: demo_cont)
qed (rule boolean_term, simp)+

lemma demo_marks: "marks demo = {}"
proof -
  have "n_flag n = 0" if "demo_nodes p = Some n" for p n
    using that by (auto simp: demo_nodes_def split: if_splits)
  then show ?thesis by (auto simp: marks_def demo_fields)
qed

lemma demo_varnum: "cdd_varnum demo = 1"
  by (simp add: demo_def)

lemma demo_bools: "bools demo (lv (cont demo) bnode) \<le> cdd_varnum demo" "bnode \<noteq> cddfalse"
proof -
  show "bools demo (lv (cont demo) bnode) \<le> cdd_varnum demo" by (simp add: bools_def demo_lv numeral_2_eq_2 demo_varnum)
  show "bnode \<noteq> cddfalse" by (simp add: bnode_def cddfalse_def)
qed

lemma demo_last: "man_of demo (CddMan (cdd_maxcddsize demo)) = None"
  by (simp add: numeral_nat)

section \<open>A session and a graph\<close>

lemma demo_idle: "cpp (\<lambda>_. 0) demo_bounds demo"
proof -
  have "demo_refs = with_toks (\<lambda>_. 0) [bnode, cnode]"
    by (auto simp: with_toks_def demo_refs_def bnode_def cnode_def)
  then show ?thesis using cpp_fewer [of "\<lambda>_. 0" "[bnode, cnode]" demo_bounds demo] demo_cpp by simp
qed

lemma demo_ref_terminal: "cdd_rglr p = cddfalse \<Longrightarrow> cdd_ref p demo = Inr ((), demo)"
  by (simp add: cdd_ref_def upd_node_def bindM_def get_node_def someM_def modifyM_def cdd_satinc_def MAXREF_def demo_node
      set_node_def fun_upd_idem demo_def)

lemma demo_runs: "runs demo_bounds demo [MkTrue, MkNot 0] [cddfalse, cddtrue] demo"
proof -
  have wrap: "cpp_wrap p demo = Inr (p, demo)" if "cdd_rglr p = cddfalse" "p \<noteq> 0" for p
    using that demo_cpp by (simp add: cpp_wrap_def cdd_isrunning_def bindM_def thenM_def gets_def guardM_def ret_def demo_ref_terminal cpp_def)
  have tf: "cddtrue \<noteq> 0" "cddfalse \<noteq> 0" "cdd_neg cddtrue = cddfalse" by (simp_all add: cddtrue_def cddfalse_def cdd_neg_def)
  have "runs demo_bounds demo ([] @ [MkTrue]) [cddtrue] demo"
    by (rule runs_step [OF runs_Nil]) (simp_all add: enabled_def made_def bindM_def ret_def cpp_true_def wrap tf)
  then have "runs demo_bounds demo (([] @ [MkTrue]) @ [MkNot 0]) [cddfalse, cddtrue] demo"
    by (rule runs_step) (simp_all add: enabled_def made_def bindM_def ret_def cpp_not_def wrap tf)
  then show ?thesis by simp
qed

lemma demo_enabled: "enabled demo_bounds demo [cddfalse, cddtrue] (MkVar 0)"
  by (simp add: enabled_def bool_level_def)

text \<open>Two clocks with one constraint, \<open>x1 - x0 \<le> 1\<close>, and room for another.\<close>

definition demo_graph :: bellmanford where
  "demo_graph = \<lparr>bf_dim = 2, bf_count = 1, bf_dist = [dist_zero, dist_zero],
     bf_edges = [\<lparr>con_i = 1, con_j = 0, con_value = 3\<rparr>, \<lparr>con_i = 0, con_j = 0, con_value = 0\<rparr>]\<rparr>"

lemma demo_graph_wf: "bf_wf demo_graph" "finite_values demo_graph"
  by (simp_all add: bf_wf_def finite_values_def pushed_def demo_graph_def bnd_INF_def)

lemma demo_bounds_lib: "bounds_lib demo_lib"
  by (simp add: bounds_lib_def demo_lib_def)

text \<open>The zone \<open>x1 - x0 \<le> 1\<close> as a DBM.\<close>

definition demo_dbm :: "raw_t list" where
  "demo_dbm = [1, bnd_INF, 3, 1]"

lemma demo_entry: "entry demo_dbm 2 0 0 = 1" "entry demo_dbm 2 0 (Suc 0) = bnd_INF" "entry demo_dbm 2 (Suc 0) 0 = 3"
  "entry demo_dbm 2 (Suc 0) (Suc 0) = 1" "length demo_dbm = 4"
  by (simp_all add: entry_def demo_dbm_def)

lemma demo_marked:
  "marked (env_lib demo_env) (dbm_analyzeForMinDBM (env_lib demo_env) demo_dbm 2) 2 (Suc 0) 0"
  "\<not> marked (env_lib demo_env) (dbm_analyzeForMinDBM (env_lib demo_env) demo_dbm 2) 2 0 0"
  "\<not> marked (env_lib demo_env) (dbm_analyzeForMinDBM (env_lib demo_env) demo_dbm 2) 2 0 (Suc 0)"
  "\<not> marked (env_lib demo_env) (dbm_analyzeForMinDBM (env_lib demo_env) demo_dbm 2) 2 (Suc 0) (Suc 0)"
proof -
  have m: "dbm_analyzeForMinDBM (env_lib demo_env) demo_dbm 2 = [0, 0, 1, 0]"
    by (simp add: demo_env_def demo_lib_def demo_dbm_def upt_rec bnd_INF_def)
  show "marked (env_lib demo_env) (dbm_analyzeForMinDBM (env_lib demo_env) demo_dbm 2) 2 (Suc 0) 0"
    "\<not> marked (env_lib demo_env) (dbm_analyzeForMinDBM (env_lib demo_env) demo_dbm 2) 2 0 0"
    "\<not> marked (env_lib demo_env) (dbm_analyzeForMinDBM (env_lib demo_env) demo_dbm 2) 2 0 (Suc 0)"
    "\<not> marked (env_lib demo_env) (dbm_analyzeForMinDBM (env_lib demo_env) demo_dbm 2) 2 (Suc 0) (Suc 0)"
    unfolding m by (simp_all add: marked_def demo_env_def demo_lib_def)
qed

lemma demo_ready: "dbm_ready demo_bounds demo demo_dbm 2"
  by (auto simp: dbm_ready_def Let_def level_ready_def demo_marked demo_entry less_2_cases_iff demo_levels_def demo_bounds_def bnd_INF_def)

lemma demo_min: "min_dbm_lib (env_lib (env demo)) demo_dbm 2"
  by (auto simp: min_dbm_lib_def in_marked_def in_zone_def demo_marked demo_entry less_2_cases_iff) (auto simp: bnd_sat_def bnd_INF_def)

lemma demo_entries: "\<forall>i < 2. \<forall>j < 2. flippable (entry demo_dbm 2 i j) \<and> entry demo_dbm 2 i j \<noteq> - bnd_INF"
  by (auto simp: less_2_cases_iff demo_entry flippable_def bnd_INF_def)

text \<open>The caches are empty, so no entry is of a later call; renaming each clock and variable by itself is possible.\<close>

lemma demo_older: "client_with (older (opid demo)) demo_refs demo_bounds demo"
  unfolding client_with_def using demo_core
  by (auto simp: caches_mean_def cache_shape_def unary_cache_def demo_cache_def opcache.all_live_def cache_live_def)

lemma demo_rename: "rename_ok demo_bounds demo [0] [0, 1]"
proof -
  have "moves demo_bounds demo 1 1 0"
    using demo_level_at by (auto simp: moves_def demo_bounds_def flippable_def bnd_INF_def)
  then show ?thesis by (auto simp: rename_ok_def less_2_cases_iff demo_levels_def)
qed

end
