(* ===== verification/Cpp_Zones.thy ===== *)
theory Cpp_Zones
  imports Cpp_Class
begin

text \<open>
  The functions of \<^verbatim>\<open>src/cppext.cpp\<close> that take a diagram apart into zones and boolean parts,
  change the zones with functions of UDBM and put the parts together again.  A zone is a DBM
  over all clocks; \<^verbatim>\<open>malloc\<close> and \<^verbatim>\<open>free\<close> of these arrays are left out.  A loop that runs until
  no zone is left is given a number of rounds, \<open>fuel\<close>.  Local objects that are assigned to are
  threaded through as their root pointers; the others are scopes (\<open>with_tmp\<close>).
\<close>

section \<open>Uninitialised memory\<close>

text \<open>What the arrays hold that the functions below declare: the graph of the reduction, and the
  bit set of \<^verbatim>\<open>cdd_extract_dbm\<close>.\<close>

record junk =
  junk_graph :: tarjan
  junk_bits :: "32 word list"

section \<open>Parts of a diagram\<close>

definition cdd_isBDD :: "ptr \<Rightarrow> bool K" where
  "cdd_isBDD state =
     bindM (cdd_isterminal state) (\<lambda>t. if t then ret True else
     bindM (cdd_info state) (\<lambda>info. ret (li_type info = TYPE_BDD)))"

record extraction_result =
  CDD_part :: ptr
  BDD_part :: ptr
  ex_dbm :: "raw_t list"

definition cdd_extract_bdd_and_dbm :: "junk \<Rightarrow> ptr \<Rightarrow> extraction_result K" where
  "cdd_extract_bdd_and_dbm junk state =
     bindM (gets cdd_clocknum) (\<lambda>n.
     bindM (cpp_extract_bdd state n) (\<lambda>bdd_part.
     bindM (cpp_extract_dbm (junk_bits junk) state n) (\<lambda>(cdd_part, d).
     bindM cpp_default (\<lambda>c. bindM cpp_default (\<lambda>b.
     bindM (cpp_assign b bdd_part) (\<lambda>b.
     bindM (cpp_assign c cdd_part) (\<lambda>c.
     thenM (cpp_destroy cdd_part) (thenM (cpp_destroy bdd_part)
     (ret \<lparr>CDD_part = c, BDD_part = b, ex_dbm = d\<rparr>)))))))))"

definition destroy_result :: "extraction_result \<Rightarrow> unit K" where
  "destroy_result res = thenM (cpp_destroy (BDD_part res)) (cpp_destroy (CDD_part res))"

text \<open>\<^verbatim>\<open>x = cdd_reduce(r)\<close> and \<^verbatim>\<open>x = cdd_reduce(cdd_remove_negative(r))\<close>, the latter with two temporaries.\<close>

definition reduce_to :: "junk \<Rightarrow> ptr \<Rightarrow> ptr \<Rightarrow> ptr K" where
  "reduce_to junk x r = assign_to x (cpp_reduce (junk_graph junk) r)"

definition positive_to :: "junk \<Rightarrow> ptr \<Rightarrow> ptr \<Rightarrow> ptr K" where
  "positive_to junk x r = with_tmp (cpp_remove_negative r) (reduce_to junk x)"

text \<open>\<^verbatim>\<open>copy = cdd_extract_dbm(copy, dbm, cdd_clocknum)\<close>\<close>

definition extract_to :: "junk \<Rightarrow> ptr \<Rightarrow> (ptr \<times> raw_t list) K" where
  "extract_to junk copy =
     bindM (gets cdd_clocknum) (\<lambda>n.
     bindM (cpp_extract_dbm (junk_bits junk) copy n) (\<lambda>(t, d).
     bindM (cpp_assign copy t) (\<lambda>copy. thenM (cpp_destroy t) (ret (copy, d)))))"

text \<open>\<^verbatim>\<open>res |= (cdd(dbm, cdd_clocknum) & bottom)\<close>\<close>

definition add_zone :: "ptr \<Rightarrow> raw_t list \<Rightarrow> ptr \<Rightarrow> ptr K" where
  "add_zone res d bottom =
     bindM (gets cdd_clocknum) (\<lambda>n.
     with_tmp (cpp_from_dbm d n) (\<lambda>z. with_tmp (cpp_and z bottom) (\<lambda>t. stmt (cpp_or_assign res t))))"

section \<open>Delays\<close>

fun delay_loop :: "nat \<Rightarrow> junk \<Rightarrow> ptr \<Rightarrow> ptr \<Rightarrow> (ptr \<times> ptr) K" where
  "delay_loop fuel junk copy res =
     bindM (cdd_isBDD copy) (\<lambda>b. if b then ret (copy, res) else case fuel of 0 \<Rightarrow> fail NoFuel | Suc fuel \<Rightarrow>
     bindM get_lib (\<lambda>lib. bindM (gets cdd_clocknum) (\<lambda>n.
     bindM (reduce_to junk copy copy) (\<lambda>copy.
     bindM (cpp_extract_bdd copy n) (\<lambda>bottom.
     bindM (extract_to junk copy) (\<lambda>(copy, d).
     bindM (positive_to junk copy copy) (\<lambda>copy.
     bindM (cpp_from_dbm (dbm_up lib d n) n) (\<lambda>fixed_cdd.
     bindM (stmt (cpp_and_assign fixed_cdd bottom)) (\<lambda>fixed_cdd.
     bindM (stmt (cpp_or_assign res fixed_cdd)) (\<lambda>res.
     thenM (cpp_destroy fixed_cdd) (thenM (cpp_destroy bottom)
     (delay_loop fuel junk copy res))))))))))))"

definition cdd_delay :: "nat \<Rightarrow> junk \<Rightarrow> ptr \<Rightarrow> ptr K" where
  "cdd_delay fuel junk state =
     bindM (cdd_isBDD state) (\<lambda>b. if b then cpp_copy state else
     bindM (cpp_copy state) (\<lambda>copy. bindM cpp_false (\<lambda>res.
     bindM (delay_loop fuel junk copy res) (\<lambda>(copy, res).
     thenM (cpp_destroy copy) (ret res)))))"

definition cdd_delay_invariant :: "nat \<Rightarrow> junk \<Rightarrow> ptr \<Rightarrow> ptr \<Rightarrow> ptr K" where
  "cdd_delay_invariant fuel junk state invar =
     bindM (cdd_delay fuel junk state) (\<lambda>res. stmt (cpp_and_assign res invar))"

fun past_loop :: "nat \<Rightarrow> junk \<Rightarrow> ptr \<Rightarrow> ptr \<Rightarrow> (ptr \<times> ptr) K" where
  "past_loop fuel junk copy res =
     bindM (cdd_isBDD copy) (\<lambda>b. if b then ret (copy, res) else case fuel of 0 \<Rightarrow> fail NoFuel | Suc fuel \<Rightarrow>
     bindM get_lib (\<lambda>lib. bindM (gets cdd_clocknum) (\<lambda>n.
     bindM (reduce_to junk copy copy) (\<lambda>copy.
     bindM (cpp_extract_bdd copy n) (\<lambda>bottom.
     bindM (extract_to junk copy) (\<lambda>(copy, d).
     bindM (positive_to junk copy copy) (\<lambda>copy.
     bindM (add_zone res (dbm_down lib d n) bottom) (\<lambda>res.
     thenM (cpp_destroy bottom) (past_loop fuel junk copy res)))))))))"

definition cdd_past :: "nat \<Rightarrow> junk \<Rightarrow> ptr \<Rightarrow> ptr K" where
  "cdd_past fuel junk state =
     bindM (cdd_isBDD state) (\<lambda>b. if b then cpp_copy state else
     bindM (cpp_copy state) (\<lambda>copy. bindM cpp_false (\<lambda>res.
     bindM (past_loop fuel junk copy res) (\<lambda>(copy, res).
     thenM (cpp_destroy copy) (ret res)))))"

section \<open>Federations\<close>

fun fed_loop :: "fed_t \<Rightarrow> nat \<Rightarrow> ptr \<Rightarrow> ptr K" where
  "fed_loop [] n res = ret res"
| "fed_loop (z # zs) n res =
     bindM (with_tmp (cpp_from_dbm z n) (\<lambda>t. stmt (cpp_or_assign res t))) (\<lambda>res. fed_loop zs n res)"

definition cdd_from_fed :: "fed_t \<Rightarrow> ptr K" where
  "cdd_from_fed fed =
     bindM cpp_false (\<lambda>res. bindM (gets cdd_clocknum) (\<lambda>n. fed_loop fed n res))"

section \<open>Timed predecessors\<close>

text \<open>The conjunction of literals that number \<open>i\<close> stands for.\<close>

fun literals :: "nat \<Rightarrow> nat list \<Rightarrow> ptr \<Rightarrow> ptr K" where
  "literals i [] all_booleans = ret all_booleans"
| "literals i (j # js) all_booleans =
     bindM (gets bdd_start_level) (\<lambda>start.
     bindM (with_tmp (if bit i j then cdd_bddvarpp (start + j) else cdd_bddnvarpp (start + j))
              (\<lambda>t. stmt (cpp_and_assign all_booleans t))) (\<lambda>all_booleans.
     literals i js all_booleans))"

fun good_loop :: "nat \<Rightarrow> junk \<Rightarrow> ptr \<Rightarrow> fed_t \<Rightarrow> (ptr \<times> fed_t) K" where
  "good_loop fuel junk good_copy fed =
     bindM (cdd_isBDD good_copy) (\<lambda>b. if b then ret (good_copy, fed) else case fuel of 0 \<Rightarrow> fail NoFuel | Suc fuel \<Rightarrow>
     bindM get_lib (\<lambda>lib. bindM (gets cdd_clocknum) (\<lambda>n.
     bindM (cdd_extract_bdd_and_dbm junk good_copy) (\<lambda>res_good.
     bindM (positive_to junk good_copy (CDD_part res_good)) (\<lambda>good_copy.
     bindM (cpp_copy (BDD_part res_good)) (\<lambda>bdd_good.
     thenM (cpp_destroy bdd_good) (thenM (destroy_result res_good)
     (good_loop fuel junk good_copy (fed_add lib fed (ex_dbm res_good) n)))))))))"

text \<open>One valuation of the booleans, after the test that the target admits it.\<close>

definition predt_valuation :: "nat \<Rightarrow> junk \<Rightarrow> raw_t list \<Rightarrow> ptr \<Rightarrow> ptr \<Rightarrow> ptr \<Rightarrow> ptr K" where
  "predt_valuation fuel junk dbm_target good_part all_booleans result =
     bindM get_lib (\<lambda>lib. bindM (gets cdd_clocknum) (\<lambda>n.
     bindM (cpp_and good_part all_booleans) (\<lambda>good_copy.
     bindM (cpp_eval_false good_copy) (\<lambda>e.
     bindM (if \<not> e then
         bindM (good_loop fuel junk good_copy (fed_new lib n)) (\<lambda>(good_copy, good_fed).
         let good_fed = (if fed_isEmpty lib good_fed then fed_add lib good_fed (dbm_init lib n) n else good_fed);
             pred_fed = fed_predt lib (fed_of_dbm lib dbm_target n) good_fed
         in bindM (with_tmp (cdd_from_fed pred_fed) (\<lambda>p. with_tmp (cpp_and p all_booleans)
                    (\<lambda>t. stmt (cpp_or_assign result t)))) (\<lambda>result. ret (good_copy, result)))
       else
         bindM (with_tmp (with_tmp (cpp_from_dbm (dbm_down lib dbm_target n) n) (\<lambda>z. cpp_and z all_booleans))
                    (\<lambda>past. stmt (cpp_or_assign result past))) (\<lambda>result. ret (good_copy, result)))
       (\<lambda>(good_copy, result). thenM (cpp_destroy good_copy) (ret result))))))"

fun predt_loop :: "nat \<Rightarrow> junk \<Rightarrow> raw_t list \<Rightarrow> ptr \<Rightarrow> ptr \<Rightarrow> nat list \<Rightarrow> ptr \<Rightarrow> ptr K" where
  "predt_loop fuel junk dbm_target bdd_target good_part [] result = ret result"
| "predt_loop fuel junk dbm_target bdd_target good_part (i # is) result =
     bindM (gets cdd_varnum) (\<lambda>vn.
     bindM cpp_true (\<lambda>all_booleans.
     bindM (literals i [0..<vn] all_booleans) (\<lambda>all_booleans.
     bindM (with_tmp (cpp_and all_booleans bdd_target) (\<lambda>t.
              with_tmp cpp_false (cpp_equiv (junk_graph junk) t))) (\<lambda>skip.
     bindM (if skip then ret result
       else
         bindM (with_tmp (cpp_and all_booleans bdd_target) cpp_eval_false) (\<lambda>b. thenM (guardM AssertFail (\<not> b))
         (predt_valuation fuel junk dbm_target good_part all_booleans result))) (\<lambda>result.
     thenM (cpp_destroy all_booleans)
     (predt_loop fuel junk dbm_target bdd_target good_part is result))))))"

text \<open>Shifting \<open>1u\<close> by 32 or more is undefined; the array \<open>dbm_target\<close> is changed only in the last
  branch, where its new contents are not read again by the callers.\<close>

definition cdd_predt_dbm :: "nat \<Rightarrow> junk \<Rightarrow> raw_t list \<Rightarrow> ptr \<Rightarrow> ptr \<Rightarrow> ptr K" where
  "cdd_predt_dbm fuel junk dbm_target bdd_target safe =
     bindM cpp_false (\<lambda>result.
     with_tmp (cpp_and bdd_target safe) (\<lambda>good_part.
     bindM (with_tmp cpp_false (\<lambda>f. ret (cpp_neq good_part f))) (\<lambda>overlap.
     if overlap then
       bindM (gets cdd_varnum) (\<lambda>vn. thenM (guardM Segv (vn < 32))
       (predt_loop fuel junk dbm_target bdd_target good_part [0..<2 ^ vn] result))
     else
       bindM get_lib (\<lambda>lib. bindM (gets cdd_clocknum) (\<lambda>n.
       with_tmp (with_tmp (cpp_from_dbm (dbm_down lib dbm_target n) n) (\<lambda>z. cpp_and z bdd_target))
         (\<lambda>past. stmt (cpp_or_assign result past)))))))"

text \<open>The boolean part is passed by value.\<close>

definition predt_call :: "nat \<Rightarrow> junk \<Rightarrow> raw_t list \<Rightarrow> ptr \<Rightarrow> ptr \<Rightarrow> ptr K" where
  "predt_call fuel junk d bdd_target safe =
     with_tmp (cpp_copy bdd_target) (\<lambda>b. cdd_predt_dbm fuel junk d b safe)"

fun target_loop :: "nat \<Rightarrow> junk \<Rightarrow> ptr \<Rightarrow> ptr \<Rightarrow> ptr \<Rightarrow> (ptr \<times> ptr) K" where
  "target_loop fuel junk safe copy res =
     bindM (cdd_isBDD copy) (\<lambda>b. if b then ret (copy, res) else case fuel of 0 \<Rightarrow> fail NoFuel | Suc fuel \<Rightarrow>
     bindM (cdd_extract_bdd_and_dbm junk copy) (\<lambda>ex.
     bindM (positive_to junk copy (CDD_part ex)) (\<lambda>copy.
     bindM (cpp_copy (BDD_part ex)) (\<lambda>bdd_target.
     bindM (with_tmp (predt_call fuel junk (ex_dbm ex) bdd_target safe)
              (\<lambda>t. stmt (cpp_or_assign res t))) (\<lambda>res.
     thenM (cpp_destroy bdd_target) (thenM (destroy_result ex)
     (target_loop fuel junk safe copy res)))))))"

definition cdd_predt :: "nat \<Rightarrow> junk \<Rightarrow> ptr \<Rightarrow> ptr \<Rightarrow> ptr K" where
  "cdd_predt fuel junk target safe =
     bindM (with_tmp cpp_false (\<lambda>f. ret (cpp_eq target f))) (\<lambda>empty. if empty then cpp_copy target else
     bindM (with_tmp cpp_true (\<lambda>t. ret (cpp_eq safe t))) (\<lambda>all. if all then cpp_false else
     bindM cpp_false (\<lambda>kills.
     bindM (cpp_copy target) (\<lambda>copy.
     bindM (cdd_isBDD target) (\<lambda>b.
     if b then
       bindM get_lib (\<lambda>lib. bindM (gets cdd_clocknum) (\<lambda>n.
       bindM (predt_call fuel junk (dbm_init lib n) target safe) (\<lambda>result.
       thenM (cpp_destroy copy) (thenM (cpp_destroy kills) (ret result)))))
     else
       bindM (target_loop fuel junk safe copy kills) (\<lambda>(copy, kills).
       thenM (cpp_destroy copy) (ret kills)))))))"

section \<open>Resets and transitions\<close>

text \<open>The levels and values of the booleans to be reset are arrays; \<^verbatim>\<open>copy = cdd_apply(...)\<close> has the literal as a temporary.\<close>

definition bool_reset :: "int list \<Rightarrow> int list \<Rightarrow> nat \<Rightarrow> ptr \<Rightarrow> ptr K" where
  "bool_reset bool_resets bool_values i copy =
     bindM (nthM bool_values i) (\<lambda>v. bindM (nthM bool_resets i) (\<lambda>k.
     thenM (guardM Segv (0 \<le> k))
     (with_tmp (if v = 1 then cdd_bddvarpp (nat k) else cdd_bddnvarpp (nat k))
       (\<lambda>t. assign_to copy (cpp_apply copy t 0)))))"

fun bool_reset_loop :: "int list \<Rightarrow> int list \<Rightarrow> nat list \<Rightarrow> ptr \<Rightarrow> ptr K" where
  "bool_reset_loop bool_resets bool_values [] copy = ret copy"
| "bool_reset_loop bool_resets bool_values (i # is) copy =
     bindM (bool_reset bool_resets bool_values i copy) (bool_reset_loop bool_resets bool_values is)"

fun update_clocks :: "int list \<Rightarrow> int list \<Rightarrow> nat \<Rightarrow> nat list \<Rightarrow> raw_t list \<Rightarrow> raw_t list K" where
  "update_clocks clock_resets clock_values n [] d = ret d"
| "update_clocks clock_resets clock_values n (i # is) d =
     bindM get_lib (\<lambda>lib. bindM (nthM clock_resets i) (\<lambda>c. bindM (nthM clock_values i) (\<lambda>v.
     update_clocks clock_resets clock_values n is (dbm_updateValue lib d n c v))))"

fun reset_loop :: "nat \<Rightarrow> junk \<Rightarrow> int list \<Rightarrow> int list \<Rightarrow> nat \<Rightarrow> ptr \<Rightarrow> ptr \<Rightarrow> (ptr \<times> ptr) K" where
  "reset_loop fuel junk clock_resets clock_values nc copy res =
     bindM (cdd_isBDD copy) (\<lambda>b. if b then ret (copy, res) else case fuel of 0 \<Rightarrow> fail NoFuel | Suc fuel \<Rightarrow>
     bindM (gets cdd_clocknum) (\<lambda>n.
     bindM (reduce_to junk copy copy) (\<lambda>copy.
     bindM (cdd_extract_bdd_and_dbm junk copy) (\<lambda>exres.
     bindM (cpp_copy (BDD_part exres)) (\<lambda>bottom.
     bindM (positive_to junk copy (CDD_part exres)) (\<lambda>copy.
     bindM (update_clocks clock_resets clock_values n [0..<nc] (ex_dbm exres)) (\<lambda>d.
     bindM (add_zone res d bottom) (\<lambda>res.
     thenM (cpp_destroy bottom) (thenM (destroy_result exres)
     (reset_loop fuel junk clock_resets clock_values nc copy res))))))))))"

definition quantify_bools :: "nat \<Rightarrow> ptr \<Rightarrow> int list \<Rightarrow> nat \<Rightarrow> ptr K" where
  "quantify_bools fuel copy bool_resets nb =
     (if 0 < nb then assign_to copy (cpp_exist fuel copy bool_resets [] nb 0) else ret copy)"

definition cdd_apply_reset ::
  "nat \<Rightarrow> junk \<Rightarrow> ptr \<Rightarrow> int list \<Rightarrow> int list \<Rightarrow> nat \<Rightarrow> int list \<Rightarrow> int list \<Rightarrow> nat \<Rightarrow> ptr K" where
  "cdd_apply_reset fuel junk state clock_resets clock_values nc bool_resets bool_values nb =
     bindM (cpp_copy state) (\<lambda>copy.
     bindM (quantify_bools fuel copy bool_resets nb) (\<lambda>copy.
     bindM (bool_reset_loop bool_resets bool_values [0..<nb] copy) (\<lambda>copy.
     bindM (assign_to copy (cpp_remove_negative copy)) (\<lambda>copy.
     if nc = 0 then ret copy else
     bindM (cdd_isBDD copy) (\<lambda>b. if b then ret copy else
     bindM cpp_false (\<lambda>res.
     bindM (reset_loop fuel junk clock_resets clock_values nc copy res) (\<lambda>(copy, res).
     thenM (cpp_destroy copy) (ret res))))))))"

definition cdd_transition ::
  "nat \<Rightarrow> junk \<Rightarrow> ptr \<Rightarrow> ptr \<Rightarrow> int list \<Rightarrow> int list \<Rightarrow> nat \<Rightarrow> int list \<Rightarrow> int list \<Rightarrow> nat \<Rightarrow> ptr K" where
  "cdd_transition fuel junk state guard clock_resets clock_values nc bool_resets bool_values nb =
     bindM (cpp_copy state) (\<lambda>copy.
     bindM (stmt (cpp_and_assign copy guard)) (\<lambda>copy.
     bindM (cdd_apply_reset fuel junk copy clock_resets clock_values nc bool_resets bool_values nb) (\<lambda>r.
     thenM (cpp_destroy copy) (ret r))))"

fun free_clocks :: "int list \<Rightarrow> nat \<Rightarrow> nat list \<Rightarrow> raw_t list \<Rightarrow> raw_t list K" where
  "free_clocks clock_resets n [] d = ret d"
| "free_clocks clock_resets n (i # is) d =
     bindM get_lib (\<lambda>lib. bindM (nthM clock_resets i) (\<lambda>c.
     free_clocks clock_resets n is (dbm_freeClock lib d n c)))"

fun back_loop :: "nat \<Rightarrow> junk \<Rightarrow> int list \<Rightarrow> nat \<Rightarrow> ptr \<Rightarrow> ptr \<Rightarrow> (ptr \<times> ptr) K" where
  "back_loop fuel junk clock_resets nc copy res =
     bindM (cdd_isBDD copy) (\<lambda>b. if b then ret (copy, res) else case fuel of 0 \<Rightarrow> fail NoFuel | Suc fuel \<Rightarrow>
     bindM (gets cdd_clocknum) (\<lambda>n.
     bindM (reduce_to junk copy copy) (\<lambda>copy.
     bindM (cdd_extract_bdd_and_dbm junk copy) (\<lambda>exres.
     bindM (cpp_copy (BDD_part exres)) (\<lambda>bottom.
     bindM (positive_to junk copy (CDD_part exres)) (\<lambda>copy.
     bindM (free_clocks clock_resets n [0..<nc] (ex_dbm exres)) (\<lambda>d.
     bindM (add_zone res d bottom) (\<lambda>res.
     thenM (cpp_destroy bottom) (thenM (destroy_result exres)
     (back_loop fuel junk clock_resets nc copy res))))))))))"

definition cdd_transition_back ::
  "nat \<Rightarrow> junk \<Rightarrow> ptr \<Rightarrow> ptr \<Rightarrow> ptr \<Rightarrow> int list \<Rightarrow> nat \<Rightarrow> int list \<Rightarrow> nat \<Rightarrow> ptr K" where
  "cdd_transition_back fuel junk state guard update clock_resets nc bool_resets nb =
     bindM (cpp_copy state) (\<lambda>copy.
     bindM (stmt (cpp_and_assign copy update)) (\<lambda>copy.
     bindM (with_tmp cpp_false (\<lambda>f. ret (cpp_eq copy f))) (\<lambda>empty. if empty then ret copy else
     bindM (quantify_bools fuel copy bool_resets nb) (\<lambda>copy.
     let finish = bindM (cpp_and copy guard) (\<lambda>r. thenM (cpp_destroy copy) (ret r)) in
     if nc = 0 then finish else
     bindM (cdd_isterminal copy) (\<lambda>t.
     bindM (if t then ret False else bindM (cdd_info copy) (\<lambda>info. ret (li_type info = TYPE_BDD))) (\<lambda>b.
     if b then finish else
     bindM cpp_false (\<lambda>res.
     bindM (assign_to copy (cpp_remove_negative copy)) (\<lambda>copy.
     bindM (back_loop fuel junk clock_resets nc copy res) (\<lambda>(copy, res).
     bindM (cpp_and res guard) (\<lambda>r.
     thenM (cpp_destroy res) (thenM (cpp_destroy copy) (ret r))))))))))))"

definition cdd_transition_back_past ::
  "nat \<Rightarrow> junk \<Rightarrow> ptr \<Rightarrow> ptr \<Rightarrow> ptr \<Rightarrow> int list \<Rightarrow> nat \<Rightarrow> int list \<Rightarrow> nat \<Rightarrow> ptr K" where
  "cdd_transition_back_past fuel junk state guard update clock_resets nc bool_resets nb =
     with_tmp (cdd_transition_back fuel junk state guard update clock_resets nc bool_resets nb)
       (cdd_past fuel junk)"

end
