(* ===== verification/Printing.thy ===== *)
theory Printing
  imports Convert
begin

text \<open>
  \<^verbatim>\<open>src/print.c\<close>: a diagram as a graph in the language of dot, and as code or a reduced graph
  with the boolean tests of a path folded into one.  A file is the list of the calls of
  \<^verbatim>\<open>fprintf\<close> on it, each with its format string and its arguments.
\<close>

section \<open>Output\<close>

datatype arg = P ptr | S string | D int

type_synonym outfile = "(string \<times> arg list) list"

definition fprintf :: "outfile \<Rightarrow> string \<Rightarrow> arg list \<Rightarrow> outfile" where
  "fprintf f fmt args = f @ [(fmt, args)]"

definition printInterval :: "extlib \<Rightarrow> outfile \<Rightarrow> raw_t \<Rightarrow> raw_t \<Rightarrow> outfile" where
  "printInterval lib f lower upper =
     (let f = (if lower = - dbm_LS_INFINITY lib then fprintf f '']-INF;'' []
               else let l = bnd_l2u lower in
                 fprintf f ''%s%d;'' [S (if dbm_rawIsStrict lib l \<noteq> 0 then '']'' else ''[''), D (- dbm_raw2bound lib l)])
      in if upper = dbm_LS_INFINITY lib then fprintf f ''INF['' []
         else fprintf f ''%d%s'' [D (dbm_raw2bound lib upper), S (if dbm_rawIsStrict lib upper \<noteq> 0 then ''['' else '']'')])"

section \<open>The visited boolean nodes\<close>

text \<open>
  An element is the text \<open>"%p%s\n"\<close> for a pointer and one digit; two such texts are equal
  when the arguments are.  A realloc that fails leaves the array as it is.
\<close>

record Array =
  arr_used :: nat
  arr_size :: nat
  arr_array :: "(ptr \<times> string) list"

definition initArray :: "nat \<Rightarrow> bool \<times> Array" where
  "initArray n =
     (let success = malloc_ok (n * 40) in
      (success, \<lparr>arr_used = 0, arr_size = (if success then n else 0), arr_array = []\<rparr>))"

definition insertArray :: "Array \<Rightarrow> ptr \<times> string \<Rightarrow> (bool \<times> Array) K" where
  "insertArray a x =
     (let full = (arr_used a = arr_size a);
          success = (full \<longrightarrow> malloc_ok (2 * arr_size a * 40));
          a = (if full \<and> success then a\<lparr>arr_size := arr_size a * 2\<rparr> else a)
      in if success
         then thenM (guardM Segv (arr_used a < arr_size a))
           (ret (True, a\<lparr>arr_array := arr_array a @ [x], arr_used := arr_used a + 1\<rparr>))
         else ret (False, a))"

definition contains :: "Array \<Rightarrow> ptr \<times> string \<Rightarrow> bool" where
  "contains a x \<longleftrightarrow> x \<in> set (take (arr_used a) (arr_array a))"

section \<open>The graph of a diagram\<close>

text \<open>
  The loop over the elements of a clock node \<open>r\<close>; \<open>app\<close> is \<^verbatim>\<open>child_neg_appendix\<close>, which the loop
  changes, and \<open>rec\<close> the recursive call.
\<close>

fun dot_elems :: "(outfile \<Rightarrow> ptr \<Rightarrow> Array \<Rightarrow> (outfile \<times> Array) K) \<Rightarrow> extlib \<Rightarrow> ptr \<Rightarrow> string \<Rightarrow>
    elem list \<Rightarrow> raw_t \<Rightarrow> string \<Rightarrow> outfile \<Rightarrow> Array \<Rightarrow> (outfile \<times> Array) K" where
  "dot_elems rec lib r cur [] bnd app f a = fail Segv"
| "dot_elems rec lib r cur (e # es) bnd app f a =
     (let child = e_child e in
      bindM (if child \<noteq> cddfalse then
          let app = (if child = cddtrue then '''' else app);
              f = fprintf f ''\"%p%s\" -> \"%p%s\" [style=%s, label=\"''
                [P r, S cur, P child, S app, S (if cdd_mask child \<noteq> 0 then ''dashed'' else ''filled'')];
              f = printInterval lib f bnd (e_bnd e);
              f = fprintf f ''\"];\<newline>'' []
          in bindM (rec f child a) (\<lambda>(f, a). ret (app, f, a))
        else ret (app, f, a))
      (\<lambda>(app, f, a).
        if e_bnd e < bnd_INF then dot_elems rec lib r cur es (e_bnd e) app f a else ret (f, a)))"

text \<open>The lines for a boolean node \<open>r\<close>; \<open>thi\<close> and \<open>tlo\<close> tell whether its children are terminals.\<close>

definition dot_bdd_node :: "outfile \<Rightarrow> ptr \<Rightarrow> string \<Rightarrow> string \<Rightarrow> nat \<Rightarrow> bool \<Rightarrow> bool \<Rightarrow> ptr \<Rightarrow> bool \<Rightarrow> ptr \<Rightarrow> bool \<Rightarrow> outfile" where
  "dot_bdd_node f r cur node_color level flip_negated neg' high thi low tlo =
     (let high_app = (if thi then '''' else if neg' then ''1'' else ''0'');
          low_app = (if tlo then '''' else if neg' then ''1'' else ''0'');
          f = fprintf f ''\"%p%s\" [shape=circle, color = %s, label=\"b%d\"];\<newline>''
                [P r, S cur, S node_color, D (int level)];
          f = (if flip_negated \<and> neg' \<and> thi
               then fprintf f ''\"%p%s\" -> \"%p\" [style=\"filled'' [P r, S cur, P (cdd_neg high)]
               else fprintf f ''\"%p%s\" -> \"%p%s\" [style=\"filled'' [P r, S cur, P high, S high_app]);
          f = fprintf f ''\"];\<newline>'' [];
          f = (if flip_negated \<and> neg' \<and> tlo
               then fprintf f ''\"%p%s\" -> \"%p\" [style=\"dashed'' [P r, S cur, P (cdd_neg low)]
               else fprintf f ''\"%p%s\" -> \"%p%s\" [style=\"dashed'' [P r, S cur, P low, S low_app])
      in fprintf f ''\"];\<newline>'' [])"

fun cdd_fprintdot_rec :: "nat \<Rightarrow> outfile \<Rightarrow> ptr \<Rightarrow> bool \<Rightarrow> bool \<Rightarrow> Array \<Rightarrow> (outfile \<times> Array) K" where
  "cdd_fprintdot_rec 0 f r flip_negated negated a = fail NoFuel"
| "cdd_fprintdot_rec (Suc n) f r flip_negated negated a =
     bindM (cdd_isterminal r) (\<lambda>t. if t then ret (f, a) else
     let node_color = (if cdd_is_negated r \<noteq> 0 then ''red'' else ''black'');
         neg' = ((cdd_is_negated r \<noteq> 0) \<noteq> negated);
         cur = (if negated then ''1'' else ''0'') in
     bindM (cdd_info r) (\<lambda>info.
     case li_type info of
       TYPE_BDD \<Rightarrow>
         bindM (bdd_node r) (\<lambda>(low, high).
         bindM (level_of r) (\<lambda>level.
         bindM (cdd_isterminal high) (\<lambda>th.
         bindM (cdd_isterminal low) (\<lambda>tl.
         bindM (if contains a (r, cur) then ret (f, a) else
           bindM (insertArray a (r, cur)) (\<lambda>(_, a).
           let f = dot_bdd_node f r cur node_color level flip_negated neg' high th low tl
           in bindM (cdd_fprintdot_rec n f high flip_negated neg' a) (\<lambda>(f, a).
              cdd_fprintdot_rec n f low flip_negated neg' a)))
         (\<lambda>(f, a). thenM (cdd_setmark r) (ret (f, a)))))))
     | TYPE_CDD \<Rightarrow>
         bindM (cdd_ismarked (cdd_rglr r)) (\<lambda>marked. if marked then ret (f, a) else
         let app = (if neg' then ''1'' else ''0'');
             f = fprintf f ''\"%p%s\" [shape=octagon, color = %s, label=\"x%d-x%d\"];\<newline>''
               [P r, S cur, S node_color, D (int (li_clock1 info)), D (int (li_clock2 info))] in
         bindM get_lib (\<lambda>lib.
         bindM (cdd_elems r) (\<lambda>es.
         bindM (dot_elems (\<lambda>f child a. cdd_fprintdot_rec n f child flip_negated neg' a)
           lib r cur es (- bnd_INF) app f a) (\<lambda>(f, a).
         thenM (cdd_setmark r) (ret (f, a))))))))"

definition cdd_print_terminal_node :: "outfile \<Rightarrow> ptr \<Rightarrow> int \<Rightarrow> outfile" where
  "cdd_print_terminal_node f r label =
     fprintf f ''\"%p\" [shape=box, label=\"%d\", style=filled, height=0.3, width=0.3];\<newline>'' [P r, D label]"

definition cdd_fprintdot :: "outfile \<Rightarrow> ptr \<Rightarrow> bool \<Rightarrow> outfile K" where
  "cdd_fprintdot f r push_negate =
     (let a = snd (initArray 100);
          f = fprintf f ''digraph G {\<newline>'' [];
          bit = cdd_is_negated r in
      bindM (cdd_isterminal r) (\<lambda>t.
      bindM (gets cdd_levelcnt) (\<lambda>lc.
      bindM (if t then ret (cdd_print_terminal_node f r (uint bit), a)
        else
          let f = cdd_print_terminal_node f cddtrue 1;
              f = cdd_print_terminal_node f cddfalse 0
          in if push_negate then cdd_fprintdot_rec (lc + 2) f r True False a
             else cdd_fprintdot_rec (lc + 2) f r False False a)
      (\<lambda>(f, a).
      let f = fprintf f ''}\<newline>'' [] in
      thenM (cdd_unmark r) (ret f)))))"

definition cdd_printdot :: "outfile \<Rightarrow> ptr \<Rightarrow> bool \<Rightarrow> outfile K" where
  "cdd_printdot stdout r push_negate = cdd_fprintdot stdout r push_negate"

section \<open>Code and reduced graphs\<close>

text \<open>
  The callbacks of the user, with what they write as their result (\<^verbatim>\<open>data\<close> is fixed).  A record
  \<open>infor\<close> belongs to a boolean node under exploration; the recursive call on a child changes it when it
  can fold the child into the node, so it is returned.
\<close>

record printers =
  labelPrinter :: "32 word list \<Rightarrow> 32 word list \<Rightarrow> nat \<Rightarrow> outfile"
  clockPrinter :: "nat \<Rightarrow> nat \<Rightarrow> outfile"

record infor =
  in_current :: ptr
  in_other :: ptr
  in_mask :: "32 word list"
  in_value :: "32 word list"
  in_stringFound :: bool

definition print_node2label :: "outfile \<Rightarrow> ptr \<Rightarrow> outfile K" where
  "print_node2label f node =
     (if node = cddfalse then ret (fprintf f ''_error'' [])
      else bindM (cdd_is_extra_terminal node) (\<lambda>x.
        if x then bindM (cdd_get_tautology_id node) (\<lambda>k. ret (fprintf f ''_action%d'' [D k]))
        else ret (fprintf f ''_%p'' [P node])))"

fun dump_elems :: "(outfile \<Rightarrow> ptr \<Rightarrow> outfile K) \<Rightarrow> extlib \<Rightarrow> printers \<Rightarrow> bool \<Rightarrow> ptr \<Rightarrow> LevelInfo \<Rightarrow>
    elem list \<Rightarrow> raw_t \<Rightarrow> bool \<Rightarrow> outfile \<Rightarrow> (outfile \<times> bool) K" where
  "dump_elems rec lib pr dotFormat node info [] bnd ifstatement f = fail Segv"
| "dump_elems rec lib pr dotFormat node info (e # es) bnd ifstatement f =
     (let child = e_child e in
      bindM (if child \<noteq> cddfalse then
          bindM (rec f (cdd_rglr child)) (\<lambda>f.
          if dotFormat then
            let f = fprintf f ''\"%p\" -> \"%p\" [style=%s, label=\"''
                  [P node, P (cdd_rglr child), S (if cdd_mask child \<noteq> 0 then ''dashed'' else ''filled'')];
                f = printInterval lib f bnd (e_bnd e)
            in ret (fprintf f ''\"];\<newline>'' [], ifstatement)
          else
            let lower = bnd_l2u bnd;
                f = fprintf f ''_%p : if ('' [P node];
                f = f @ clockPrinter pr (li_clock1 info) (li_clock2 info);
                f = fprintf f ''%s%d'' [S (if dbm_rawIsWeak lib lower \<noteq> 0 then ''>='' else ''>''), D (- dbm_raw2bound lib lower)];
                f = (if e_bnd e \<noteq> dbm_LS_INFINITY lib then
                       let f = fprintf f '' && '' [];
                           f = f @ clockPrinter pr (li_clock1 info) (li_clock2 info)
                       in fprintf f ''%s%d'' [S (if dbm_rawIsWeak lib (e_bnd e) \<noteq> 0 then ''<='' else ''<''), D (dbm_raw2bound lib (e_bnd e))]
                     else f);
                f = fprintf f '') goto '' []
            in bindM (print_node2label f (cdd_rglr child)) (\<lambda>f. ret (fprintf f '';\<newline>'' [], True)))
        else ret (f, ifstatement))
      (\<lambda>(f, ifstatement).
        if e_bnd e < bnd_INF then dump_elems rec lib pr dotFormat node info es (e_bnd e) ifstatement f
        else ret (f, ifstatement)))"

text \<open>What is printed for a boolean node once its children have been explored.\<close>

definition dump_bdd_node :: "printers \<Rightarrow> bool \<Rightarrow> nat \<Rightarrow> ptr \<Rightarrow> infor \<Rightarrow> outfile \<Rightarrow> outfile K" where
  "dump_bdd_node pr dotFormat maskSize node my f =
     (if dotFormat then
        let f = fprintf f ''\"%p\" [label=\"_%p\"];\<newline>'' [P node, P node];
            f = (if in_current my \<noteq> cddfalse
                 then fprintf f ''\"%p\" -> \"%p\" [style=filled];\<newline>'' [P node, P (in_current my)] else f)
        in ret (if in_other my \<noteq> cddfalse
                then fprintf f ''\"%p\" -> \"%p\" [style=dashed];\<newline>'' [P node, P (in_other my)] else f)
      else
        let f = fprintf f ''_%p: if '' [P node];
            f = f @ labelPrinter pr (in_mask my) (in_value my) (32 * maskSize);
            f = fprintf f '' goto '' []
        in bindM (print_node2label f (in_current my)) (\<lambda>f.
           bindM (print_node2label (fprintf f ''; else goto '' []) (in_other my)) (\<lambda>f.
           ret (fprintf f '';\<newline>'' []))))"

fun cdd_freduce_dump_rec :: "nat \<Rightarrow> printers \<Rightarrow> bool \<Rightarrow> nat \<Rightarrow> outfile \<Rightarrow> ptr \<Rightarrow> infor option \<Rightarrow> (outfile \<times> infor option) K" where
  "cdd_freduce_dump_rec 0 pr dotFormat maskSize f r parentInfo = fail NoFuel"
| "cdd_freduce_dump_rec (Suc n) pr dotFormat maskSize f r parentInfo =
     bindM get_lib (\<lambda>lib.
     bindM cdd_get_level_count (\<lambda>lc.
     thenM (guardM AssertFail (lc \<le> maskSize * 32)) (
     bindM (cdd_is_extra_terminal r) (\<lambda>x.
     bindM (cdd_ismarked r) (\<lambda>marked.
     if x \<and> \<not> marked then
       bindM (if dotFormat then bindM (cdd_get_tautology_id r)
           (\<lambda>k. ret (fprintf f ''\"%p\" [label=\"_action%d\"];\<newline>'' [P r, D k]))
         else ret f) (\<lambda>f.
       thenM (cdd_setmark r) (ret (f, parentInfo)))
     else if cdd_is_tfterminal r \<or> marked then ret (f, parentInfo)
     else
       bindM (cdd_info r) (\<lambda>info.
       case li_type info of
         TYPE_CDD \<Rightarrow>
           let f = (if dotFormat then
                 let f = fprintf f ''\"%p\" [label=\"'' [P (cdd_rglr r)];
                     f = f @ clockPrinter pr (li_clock1 info) (li_clock2 info)
                 in fprintf f ''\"];\<newline>'' []
               else f) in
           bindM (cdd_elems r) (\<lambda>es.
           bindM (dump_elems (\<lambda>f c. bindM (cdd_freduce_dump_rec n pr dotFormat maskSize f c None) (\<lambda>(f, _). ret f))
             lib pr dotFormat (cdd_rglr r) info es (- bnd_INF) False f) (\<lambda>(f, ifstatement).
           let f = (if ifstatement then fprintf f ''else goto _error;\<newline>'' [] else f) in
           thenM (cdd_setmark r) (ret (f, parentInfo))))
       | TYPE_BDD \<Rightarrow>
           bindM (bdd_node r) (\<lambda>(low, high).
           bindM (level_of r) (\<lambda>level.
           case (case parentInfo of None \<Rightarrow> None
                 | Some i \<Rightarrow> if in_other i \<noteq> high \<and> in_other i \<noteq> low then None else Some i) of
             None \<Rightarrow>
               thenM (guardM NoMem (malloc_ok (maskSize * 4))) (
               let my = \<lparr>in_current = low, in_other = high,
                     in_mask = base_setOneBit lib (replicate maskSize 0) level,
                     in_value = replicate maskSize 0, in_stringFound = False\<rparr> in
               bindM (cdd_freduce_dump_rec n pr dotFormat maskSize f low (Some my)) (\<lambda>(f, my).
               bindM (someM Segv my) (\<lambda>my.
               bindM (if in_stringFound my then
                   bindM (cdd_freduce_dump_rec n pr dotFormat maskSize f high None) (\<lambda>(f, _). ret (f, my))
                 else
                   bindM (nthM (in_value my) 0) (\<lambda>v.
                   thenM (guardM AssertFail (v = 0)) (
                   let my = my\<lparr>in_current := high, in_other := low,
                         in_value := base_setOneBit lib (in_value my) level\<rparr> in
                   bindM (cdd_freduce_dump_rec n pr dotFormat maskSize f high (Some my)) (\<lambda>(f, my).
                   bindM (someM Segv my) (\<lambda>my. ret (f, my))))))
               (\<lambda>(f, my).
               bindM (dump_bdd_node pr dotFormat maskSize (cdd_rglr r) my f) (\<lambda>f.
               thenM (cdd_setmark r) (ret (f, parentInfo)))))))
           | Some i \<Rightarrow>
               let i = i\<lparr>in_stringFound := True, in_mask := base_setOneBit lib (in_mask i) level\<rparr> in
               if in_other i = high then
                 let i = i\<lparr>in_current := low\<rparr> in
                 bindM (cdd_freduce_dump_rec n pr dotFormat maskSize f low (Some i)) (\<lambda>(f, i).
                 bindM (cdd_freduce_dump_rec n pr dotFormat maskSize f high None) (\<lambda>(f, _).
                 ret (f, i)))
               else
                 thenM (guardM AssertFail (in_other i = low)) (
                 let i = i\<lparr>in_current := high, in_value := base_setOneBit lib (in_value i) level\<rparr> in
                 bindM (cdd_freduce_dump_rec n pr dotFormat maskSize f high (Some i)) (\<lambda>(f, i).
                 bindM (cdd_freduce_dump_rec n pr dotFormat maskSize f low None) (\<lambda>(f, _).
                 ret (f, i))))))))))))"

definition cdd_fprint_code :: "outfile \<Rightarrow> ptr \<Rightarrow> printers \<Rightarrow> outfile K" where
  "cdd_fprint_code f r pr =
     (let f = fprintf f ''goto _%p;\<newline>'' [P r] in
      bindM cdd_get_level_count (\<lambda>lc.
      bindM (cdd_freduce_dump_rec (lc + 2) pr False (lc div 32 + 1) f (cdd_rglr r) None) (\<lambda>(f, _).
      thenM (cdd_force_unmark r) (ret f))))"

definition cdd_fprint_graph :: "outfile \<Rightarrow> ptr \<Rightarrow> printers \<Rightarrow> outfile K" where
  "cdd_fprint_graph f r pr =
     (let f = fprintf f ''digraph G {\<newline>'' [] in
      bindM cdd_get_level_count (\<lambda>lc.
      bindM (cdd_freduce_dump_rec (lc + 2) pr True (lc div 32 + 1) f (cdd_rglr r) None) (\<lambda>(f, _).
      thenM (cdd_force_unmark r) (ret (fprintf f ''}\<newline>'' [])))))"

section \<open>The functions on objects of the class\<close>

definition cpp_fprintdot :: "outfile \<Rightarrow> ptr \<Rightarrow> bool \<Rightarrow> outfile K" where
  "cpp_fprintdot f this push_negate = cdd_fprintdot f this push_negate"

definition cpp_printdot :: "outfile \<Rightarrow> ptr \<Rightarrow> bool \<Rightarrow> outfile K" where
  "cpp_printdot stdout this push_negate = cdd_printdot stdout this push_negate"

definition cpp_fprint_code :: "outfile \<Rightarrow> ptr \<Rightarrow> printers \<Rightarrow> outfile K" where
  "cpp_fprint_code f this pr = cdd_fprint_code f this pr"

definition cpp_fprint_graph :: "outfile \<Rightarrow> ptr \<Rightarrow> printers \<Rightarrow> outfile K" where
  "cpp_fprint_graph f this pr = cdd_fprint_graph f this pr"

end
