(* ===== verification/Print_Spec.thy ===== *)
theory Print_Spec
  imports Marking Printing Matrix_Spec
begin

text \<open>
  What \<^verbatim>\<open>cdd_fprintdot\<close> writes for a boolean diagram.  \<open>leads\<close> reads the file as a graph: follow the
  filled arrow of a node where its variable is true and the dashed arrow where it is false, to the label of
  a box; as the header says, when negations are not pushed, every red node on the way negates the label.
\<close>

declare split_paired_All [simp del]

section \<open>Reading the graph\<close>

definition circle :: "ptr \<Rightarrow> string \<Rightarrow> string \<Rightarrow> int \<Rightarrow> string \<times> arg list" where
  "circle r x color k = (''\"%p%s\" [shape=circle, color = %s, label=\"b%d\"];\<newline>'', [P r, S x, S color, D k])"

definition box :: "ptr \<Rightarrow> int \<Rightarrow> string \<times> arg list" where
  "box p v = (''\"%p\" [shape=box, label=\"%d\", style=filled, height=0.3, width=0.3];\<newline>'', [P p, D v])"

definition arrow :: "bool \<Rightarrow> ptr \<Rightarrow> string \<Rightarrow> ptr \<Rightarrow> string \<Rightarrow> string \<times> arg list" where
  "arrow b r x q y =
     (if b then ''\"%p%s\" -> \"%p%s\" [style=\"filled'' else ''\"%p%s\" -> \"%p%s\" [style=\"dashed'', [P r, S x, P q, S y])"

definition arrow_box :: "bool \<Rightarrow> ptr \<Rightarrow> string \<Rightarrow> ptr \<Rightarrow> string \<times> arg list" where
  "arrow_box b r x q =
     (if b then ''\"%p%s\" -> \"%p\" [style=\"filled'' else ''\"%p%s\" -> \"%p\" [style=\"dashed'', [P r, S x, P q])"

definition edge :: "outfile \<Rightarrow> bool \<Rightarrow> ptr \<Rightarrow> string \<Rightarrow> ptr \<times> string \<Rightarrow> bool" where
  "edge f b r x y \<longleftrightarrow> arrow b r x (fst y) (snd y) \<in> set f \<or> snd y = '''' \<and> arrow_box b r x (fst y) \<in> set f"

inductive leads :: "outfile \<Rightarrow> bool \<Rightarrow> (nat \<Rightarrow> bool) \<Rightarrow> ptr \<times> string \<Rightarrow> bool \<Rightarrow> bool" for f push b where
  leads_box: "box p v \<in> set f \<Longrightarrow> leads f push b (p, '''') (v \<noteq> 0)"
| leads_circle: "circle r x color k \<in> set f \<Longrightarrow> edge f (b (nat k)) r x y \<Longrightarrow> leads f push b y v \<Longrightarrow>
    leads f push b (r, x) (v \<noteq> (\<not> push \<and> color = ''red''))"

inductive_cases leadsE: "leads f push b y v"

section \<open>What is written for a node\<close>

text \<open>A node of the graph is a pointer and whether it is reached with an odd number of negations.\<close>

definition app :: "bool \<Rightarrow> string" where
  "app g = (if g then ''1'' else ''0'')"

definition color_of :: "ptr \<Rightarrow> string" where
  "color_of r = (if cdd_mask r \<noteq> 0 then ''red'' else ''black'')"

definition pass :: "ptr \<times> bool \<Rightarrow> bool" where
  "pass x \<longleftrightarrow> (cdd_mask (fst x) \<noteq> 0) \<noteq> snd x"

definition draw_arrow :: "bool \<Rightarrow> ptr \<times> bool \<Rightarrow> bool \<Rightarrow> ptr \<Rightarrow> string \<times> arg list" where
  "draw_arrow flip x b c =
     (if flip \<and> pass x \<and> cdd_rglr c = cddfalse then arrow_box b (fst x) (app (snd x)) (cdd_neg c)
      else arrow b (fst x) (app (snd x)) c (if cdd_rglr c = cddfalse then '''' else app (pass x)))"

definition target :: "bool \<Rightarrow> ptr \<times> bool \<Rightarrow> ptr \<Rightarrow> ptr \<times> string" where
  "target flip x c =
     (if cdd_rglr c = cddfalse then (if flip \<and> pass x then cdd_neg c else c, '''') else (c, app (pass x)))"

definition draw :: "bool \<Rightarrow> contents \<Rightarrow> ptr \<times> bool \<Rightarrow> outfile" where
  "draw flip C x = (case C (cdd_rglr (fst x)) of
     Some (k, Bdd lo hi) \<Rightarrow>
       [circle (fst x) (app (snd x)) (color_of (fst x)) (int k), draw_arrow flip x True hi, (''\"];\<newline>'', []),
        draw_arrow flip x False lo, (''\"];\<newline>'', [])]
   | _ \<Rightarrow> [])"

lemma app_eq [simp]: "app g = app h \<longleftrightarrow> g = h" "app g \<noteq> ''''"
  by (simp_all add: app_def)

lemma call_distinct [simp]:
  "circle r x c k \<noteq> arrow b p y q z" "circle r x c k \<noteq> arrow_box b p y q" "circle r x c k \<noteq> box p v"
  "circle r x c k \<noteq> (''\"];\<newline>'', [])" "arrow b p y q z \<noteq> (''\"];\<newline>'', [])" "arrow_box b p y q \<noteq> (''\"];\<newline>'', [])"
  "arrow b p y q z \<noteq> arrow_box d p' y' q'" "arrow_box d p' y' q' \<noteq> arrow b p y q z"
  "arrow b p y q z \<noteq> circle r x c k" "arrow_box b p y q \<noteq> circle r x c k" "box p v \<noteq> circle r x c k"
  "box p v \<noteq> arrow b r x q y" "box p v \<noteq> arrow_box b r x q" "box p v \<noteq> (''\"];\<newline>'', [])"
  "arrow b r x q y \<noteq> box p v" "arrow_box b r x q \<noteq> box p v"
  by (simp_all add: circle_def arrow_def arrow_box_def box_def)

lemma call_eq [simp]:
  "circle r x c k = circle r' x' c' k' \<longleftrightarrow> r = r' \<and> x = x' \<and> c = c' \<and> k = k'"
  "arrow b p y q z = arrow b' p' y' q' z' \<longleftrightarrow> b = b' \<and> p = p' \<and> y = y' \<and> q = q' \<and> z = z'"
  "arrow_box b p y q = arrow_box b' p' y' q' \<longleftrightarrow> b = b' \<and> p = p' \<and> y = y' \<and> q = q'"
  "box p v = box p' v' \<longleftrightarrow> p = p' \<and> v = v'"
  by (auto simp: circle_def arrow_def arrow_box_def box_def)

lemma frame_distinct [simp]:
  "circle r x c k \<noteq> (''digraph G {\<newline>'', [])" "arrow b p y q z \<noteq> (''digraph G {\<newline>'', [])" "arrow_box b p y q \<noteq> (''digraph G {\<newline>'', [])"
  "box p v \<noteq> (''digraph G {\<newline>'', [])" "circle r x c k \<noteq> (''}\<newline>'', [])" "arrow b p y q z \<noteq> (''}\<newline>'', [])"
  "arrow_box b p y q \<noteq> (''}\<newline>'', [])" "box p v \<noteq> (''}\<newline>'', [])"
  by (simp_all add: circle_def arrow_def arrow_box_def box_def)

section \<open>The visited nodes\<close>

definition arr_ok :: "Array \<Rightarrow> bool" where
  "arr_ok a \<longleftrightarrow> arr_used a = length (arr_array a) \<and> arr_used a \<le> arr_size a \<and> 0 < arr_size a"

definition names :: "Array \<Rightarrow> (ptr \<times> bool) set" where
  "names a = {x. (fst x, app (snd x)) \<in> set (arr_array a)}"

lemma contains_iff: "arr_ok a \<Longrightarrow> contains a (r, app g) \<longleftrightarrow> (r, g) \<in> names a"
  by (simp add: arr_ok_def contains_def names_def)

lemma insertArray_ok:
  assumes "arr_ok a"
  obtains b a' where "insertArray a (r, app g) s = Inr ((b, a'), s)" "arr_ok a'" "names a' \<subseteq> insert (r, g) (names a)"
proof -
  have "\<exists>b a'. insertArray a (r, app g) s = Inr ((b, a'), s) \<and> arr_ok a' \<and> names a' \<subseteq> insert (r, g) (names a)"
    using assms by (auto simp: insertArray_def Let_def thenM_def bindM_def guardM_def ret_def arr_ok_def names_def)
  then show ?thesis using that by blast
qed

section \<open>The traversal\<close>

text \<open>\<open>draws\<close>: from the roots \<open>xs\<close> the nodes \<open>N\<close> have been written; the nodes below them are written or were visited before.\<close>

definition below :: "contents \<Rightarrow> ptr \<times> bool \<Rightarrow> (ptr \<times> bool) set" where
  "below C x = {(c, pass x) | c. c \<in> set (kids_of C (fst x)) \<and> cdd_rglr c \<noteq> cddfalse}"

definition draws :: "(ptr \<Rightarrow> nat) \<Rightarrow> kstate \<Rightarrow> bool \<Rightarrow> (ptr \<times> bool) list \<Rightarrow> outfile \<Rightarrow> Array \<Rightarrow> outfile \<Rightarrow> Array \<Rightarrow> bool" where
  "draws X s flip xs f a f' a' \<longleftrightarrow> (\<exists>N. f' = f @ concat (map (draw flip (cont s)) N) \<and>
     arr_ok a' \<and> names a' \<subseteq> names a \<union> set N \<and>
     (\<forall>x \<in> set xs. cdd_rglr (fst x) = cddfalse \<or> x \<in> names a \<union> set N) \<and>
     (\<forall>x \<in> set N. cdd_rglr (fst x) \<noteq> cddfalse \<and> boolean (cont s) (fst x) \<and> reach X s (fst x) \<and> below (cont s) x \<subseteq> names a \<union> set N))"

lemma draws_skip:
  "arr_ok a \<Longrightarrow> cdd_rglr (fst x) = cddfalse \<or> x \<in> names a \<Longrightarrow> draws X s flip [x] f a f a"
  unfolding draws_def by (intro exI [where x = "[]"]) simp

lemma draws_append:
  assumes "draws X s flip xs f a f1 a1" "draws X s flip ys f1 a1 f2 a2"
  shows "draws X s flip (xs @ ys) f a f2 a2"
proof -
  from assms(1) obtain N where N: "f1 = f @ concat (map (draw flip (cont s)) N)" "names a1 \<subseteq> names a \<union> set N"
    "\<forall>x \<in> set xs. cdd_rglr (fst x) = cddfalse \<or> x \<in> names a \<union> set N"
    "\<forall>x \<in> set N. cdd_rglr (fst x) \<noteq> cddfalse \<and> boolean (cont s) (fst x) \<and> reach X s (fst x) \<and> below (cont s) x \<subseteq> names a \<union> set N"
    unfolding draws_def by blast
  from assms(2) obtain M where M: "f2 = f1 @ concat (map (draw flip (cont s)) M)" "arr_ok a2" "names a2 \<subseteq> names a1 \<union> set M"
    "\<forall>x \<in> set ys. cdd_rglr (fst x) = cddfalse \<or> x \<in> names a1 \<union> set M"
    "\<forall>x \<in> set M. cdd_rglr (fst x) \<noteq> cddfalse \<and> boolean (cont s) (fst x) \<and> reach X s (fst x) \<and> below (cont s) x \<subseteq> names a1 \<union> set M"
    unfolding draws_def by blast
  show ?thesis
    unfolding draws_def
  proof (intro exI [where x = "N @ M"] conjI)
    show "\<forall>x \<in> set (xs @ ys). cdd_rglr (fst x) = cddfalse \<or> x \<in> names a \<union> set (N @ M)" using N(2,3) M(4) by auto
    show "\<forall>x \<in> set (N @ M). cdd_rglr (fst x) \<noteq> cddfalse \<and> boolean (cont s) (fst x) \<and> reach X s (fst x) \<and>
        below (cont s) x \<subseteq> names a \<union> set (N @ M)"
      using N(2,4) M(5) by fastforce
  qed (use N(1,2) M(1-3) in auto)
qed

lemma draws_node:
  assumes x: "cdd_rglr (fst x) \<noteq> cddfalse" "boolean (cont s) (fst x)" "reach X s (fst x)"
    and k: "cont s (cdd_rglr (fst x)) = Some (k, Bdd lo hi)" and a: "names a1 \<subseteq> insert x (names a)"
    and d: "draws X s flip [(hi, pass x), (lo, pass x)] (f @ draw flip (cont s) x) a1 f' a'"
  shows "draws X s flip [x] f a f' a'"
proof -
  from d obtain N where N: "f' = (f @ draw flip (cont s) x) @ concat (map (draw flip (cont s)) N)" "arr_ok a'" "names a' \<subseteq> names a1 \<union> set N"
    "\<forall>y \<in> set [(hi, pass x), (lo, pass x)]. cdd_rglr (fst y) = cddfalse \<or> y \<in> names a1 \<union> set N"
    "\<forall>y \<in> set N. cdd_rglr (fst y) \<noteq> cddfalse \<and> boolean (cont s) (fst y) \<and> reach X s (fst y) \<and> below (cont s) y \<subseteq> names a1 \<union> set N"
    unfolding draws_def by blast
  have b: "below (cont s) x \<subseteq> names a \<union> set (x # N)"
    using N(4) a by (auto simp: below_def kids_of_def k)
  show ?thesis
    unfolding draws_def
  proof (intro exI [where x = "x # N"] conjI)
    show "\<forall>y \<in> set (x # N). cdd_rglr (fst y) \<noteq> cddfalse \<and> boolean (cont s) (fst y) \<and> reach X s (fst y) \<and>
        below (cont s) y \<subseteq> names a \<union> set (x # N)"
      using b x a N(5) by fastforce
  qed (use N(1-3) a in auto)
qed

lemma dot_draws:
  assumes "C (cdd_rglr r) = Some (k, Bdd lo hi)"
  shows "dot_bdd_node f r (app g) (color_of r) k flip (pass (r, g)) hi (cdd_rglr hi = cddfalse) lo (cdd_rglr lo = cddfalse) =
    f @ draw flip C (r, g)"
  by (simp add: dot_bdd_node_def Let_def draw_def assms fprintf_def circle_def draw_arrow_def arrow_def arrow_box_def app_def)

lemma isterminal_reach:
  assumes "core s X F {} B" "reach X s p"
  shows "cdd_isterminal p s = Inr (cdd_rglr p = cddfalse, s)"
  using node_at(2) [OF assms] isterminal_term [OF assms(1)] by (cases "cdd_rglr p = cddfalse") auto

lemma negated_mask: "cdd_is_negated p = cdd_mask p"
  by (simp add: cdd_is_negated_def cdd_mask_def)

lemma draws_remarked: "remarked M s t \<Longrightarrow> draws X t = draws X s"
  by (simp add: fun_eq_iff draws_def remarked_fields remarked_views)

lemma fprintdot_rec_spec:
  assumes "core s X F {} B" "reach X s r" "boolean (cont s) r" "arr_ok a"
    "cdd_levelcnt s < min (lv (cont s) r) (cdd_levelcnt s) + n"
  shows "wp (cdd_fprintdot_rec n f r flip g a)
    (\<lambda>(f', a') t. draws X s flip [(r, g)] f a f' a' \<and> (\<exists>M. remarked M s t)) s"
  using assms
proof (induction n arbitrary: s r f a g)
  case (Suc n)
  note c = Suc.prems(1)
  note it = isterminal_reach [OF c Suc.prems(2)]
  let ?post = "\<lambda>(f', a') t. draws X s flip [(r, g)] f a f' a' \<and> (\<exists>M. remarked M s t)"
  have same: "?post (f, a) s" if "cdd_rglr r = cddfalse \<or> (r, g) \<in> names a"
    using draws_skip [OF Suc.prems(4), of "(r, g)" X s flip f] that remarked_refl [of s] by (auto intro: exI [of _ "marks s"])
  show ?case
  proof (cases "cdd_rglr r = cddfalse")
    case True
    then show ?thesis
      unfolding cdd_fprintdot_rec.simps wp_bind wp_eq [where m = "cdd_isterminal r", OF it]
      using same by (simp add: wp_ret)
  next
    case nt: False
    let ?k = "lv (cont s) r" and ?x = "(r, g)"
    from bool_node [OF c Suc.prems(2) nt Suc.prems(3)] obtain lo hi where
      k: "cont s (cdd_rglr r) = Some (?k, Bdd lo hi)" and rd: "bdd_node r s = Inr ((lo, hi), s)" "level_of r s = Inr (?k, s)"
        "cdd_info r s = Inr (cdd_levelinfo s ! ?k, s)" and ty: "li_type (cdd_levelinfo s ! ?k) = TYPE_BDD"
      and ch: "reach X s lo" "reach X s hi" "?k < lv (cont s) lo" "?k < lv (cont s) hi" "boolean (cont s) lo" "boolean (cont s) hi"
        "?k < cdd_levelcnt s"
      by metis
    have m: "((cdd_is_negated r \<noteq> 0) \<noteq> g) = pass ?x" "cdd_rglr r = cddfalse \<longleftrightarrow> False"
      using nt by (simp_all add: pass_def negated_mask)
    have out: "dot_bdd_node f r (app g) (color_of r) ?k flip (pass ?x) hi (cdd_rglr hi = cddfalse) lo (cdd_rglr lo = cddfalse) =
        f @ draw flip (cont s) ?x"
      by (rule dot_draws [where C = "cont s", OF k])
    have mark: "wp (thenM (cdd_setmark r) (ret (f', a'))) ?post t"
      if "draws X s flip [?x] f a f' a'" "remarked M s t" for f' a' M t
    proof -
      have "nodes t (cdd_rglr r) \<noteq> None" using node_at(1) [OF c Suc.prems(2) nt] remarked_views(5) [OF that(2)] by simp
      from setmark_spec [OF this] show ?thesis
        unfolding wp_then wp_ret
        by (rule wp_mono) (use that remarked_trans [OF that(2)] in auto)
    qed
    have rec: "wp (cdd_fprintdot_rec n e c flip h b) (\<lambda>(f', a') u. draws X s flip [(c, h)] e b f' a' \<and> (\<exists>M. remarked M s u)) t"
      if "c = lo \<or> c = hi" "remarked M s t" "arr_ok b" for c h e b t M
    proof -
      note q = remarked_fields [OF that(2)]
      show ?thesis
      proof (rule wp_mono [OF Suc.IH [of t c b e h]])
        show "core t X F {} B" using c by (simp add: remarked_core [OF that(2)])
        show "reach X t c" using that(1) ch by (auto simp: remarked_views [OF that(2)])
        show "boolean (cont t) c" using that(1) ch by (auto simp: q)
        show "cdd_levelcnt t < min (lv (cont t) c) (cdd_levelcnt t) + n" using that(1) ch Suc.prems(5) by (auto simp: q)
      qed (use that(3) remarked_trans [OF that(2)] in \<open>auto simp: draws_remarked [OF that(2)]\<close>)
    qed
    have kids: "wp (bindM (cdd_fprintdot_rec n (f @ draw flip (cont s) ?x) hi flip (pass ?x) a1) (\<lambda>(f', a').
          cdd_fprintdot_rec n f' lo flip (pass ?x) a')) ?post s"
      if a1: "arr_ok a1" "names a1 \<subseteq> insert ?x (names a)" for a1
      unfolding wp_bind
    proof (rule wp_mono [OF rec [where c = hi and M = "marks s" and t = s and b = a1 and e = "f @ draw flip (cont s) ?x" and h = "pass ?x"]])
      fix y t assume "(case y of (f', a') \<Rightarrow> \<lambda>u. draws X s flip [(hi, pass ?x)] (f @ draw flip (cont s) ?x) a1 f' a' \<and> (\<exists>M. remarked M s u)) t"
      then obtain f1 a1' M where d: "y = (f1, a1')" "draws X s flip [(hi, pass ?x)] (f @ draw flip (cont s) ?x) a1 f1 a1'" "remarked M s t"
        by (cases y) auto
      have "arr_ok a1'" using d(2) by (auto simp: draws_def)
      show "wp (case y of (f', a') \<Rightarrow> cdd_fprintdot_rec n f' lo flip (pass ?x) a') ?post t"
        unfolding d(1) prod.case
      proof (rule wp_mono [OF rec [where c = lo and M = M and t = t and b = a1' and e = f1 and h = "pass ?x"]])
        fix y u assume y: "(case y of (f', a') \<Rightarrow> \<lambda>u. draws X s flip [(lo, pass ?x)] f1 a1' f' a' \<and> (\<exists>M. remarked M s u)) u"
        obtain f2 a2 where y2: "y = (f2, a2)" by (cases y)
        then have "draws X s flip [(hi, pass ?x), (lo, pass ?x)] (f @ draw flip (cont s) ?x) a1 f2 a2"
          using draws_append [OF d(2)] y by simp
        then have "draws X s flip [?x] f a f2 a2"
          using draws_node [where x = ?x and s = s and X = X and flip = flip, OF _ _ _ _ a1(2)] nt Suc.prems k by simp
        then show "?post y u" using y y2 by simp
      qed (use d \<open>arr_ok a1'\<close> in simp_all)
    qed (use a1 in simp_all)
    have visit: "wp (if contains a (r, app g) then ret (f, a) else
        bindM (insertArray a (r, app g)) (\<lambda>(_, a).
          bindM (cdd_fprintdot_rec n (f @ draw flip (cont s) ?x) hi flip (pass ?x) a) (\<lambda>(f, a). cdd_fprintdot_rec n f lo flip (pass ?x) a))) ?post s"
    proof (cases "?x \<in> names a")
      case True
      then show ?thesis using same by (simp add: contains_iff [OF Suc.prems(4)] wp_ret)
    next
      case False
      obtain b a1 where a1: "insertArray a (r, app g) s = Inr ((b, a1), s)" "arr_ok a1" "names a1 \<subseteq> insert ?x (names a)"
        by (rule insertArray_ok [OF Suc.prems(4)])
      show ?thesis
        using False kids [OF a1(2,3)]
        by (simp add: contains_iff [OF Suc.prems(4)] wp_bind [of "insertArray _ _"] wp_eq [where m = "insertArray a (r, app g)", OF a1(1)])
    qed
    have e: "(if g then ''1'' else ''0'') = app g" "(if cdd_is_negated r \<noteq> 0 then ''red'' else ''black'') = color_of r"
      by (simp_all add: app_def color_of_def negated_mask)
    have "wp (case y of (f, a) \<Rightarrow> thenM (cdd_setmark r) (ret (f, a))) ?post t" if "?post y t" for y t
      using that mark by (cases y) auto
    from wp_mono [OF visit this] show ?thesis
      by (simp only: cdd_fprintdot_rec.simps Let_def wp_bind [of "cdd_isterminal r"] wp_eq [where m = "cdd_isterminal r", OF it]
        m e if_False wp_bind [of "cdd_info r"] wp_eq [where m = "cdd_info r", OF rd(3)] ty node_type.case wp_bind [of "bdd_node r"]
        wp_eq [where m = "bdd_node r", OF rd(1)] prod.case wp_bind [of "level_of r"] wp_eq [where m = "level_of r", OF rd(2)]
        wp_bind [of "cdd_isterminal hi"] wp_eq [where m = "cdd_isterminal hi", OF isterminal_reach [OF c ch(2)]]
        wp_bind [of "cdd_isterminal lo"] wp_eq [where m = "cdd_isterminal lo", OF isterminal_reach [OF c ch(1)]] out
        wp_bind [of "If _ _ _"])
  qed
qed (simp add: min_def split: if_splits)

section \<open>The graph denotes the diagram\<close>

definition graph_file :: "bool \<Rightarrow> contents \<Rightarrow> (ptr \<times> bool) list \<Rightarrow> outfile" where
  "graph_file flip C N = [(''digraph G {\<newline>'', []), box cddtrue 1, box cddfalse 0] @ concat (map (draw flip C) N) @ [(''}\<newline>'', [])]"

lemma arrow_iff:
  "arrow b r y q z = draw_arrow flip x d c \<or> z = '''' \<and> arrow_box b r y q = draw_arrow flip x d c \<longleftrightarrow>
     b = d \<and> r = fst x \<and> y = app (snd x) \<and> (q, z) = target flip x c"
  by (auto simp: draw_arrow_def target_def)

lemma draw_arrow_distinct [simp]:
  "circle r y col k \<noteq> draw_arrow flip x b c" "box p v \<noteq> draw_arrow flip x b c"
  by (simp_all add: draw_arrow_def)

lemma in_draw:
  assumes "C (cdd_rglr (fst x)) = Some (l, Bdd lo hi)"
  shows "circle r y col k \<in> set (draw flip C x) \<longleftrightarrow> r = fst x \<and> y = app (snd x) \<and> col = color_of r \<and> k = int l"
    "arrow b r y q z \<in> set (draw flip C x) \<or> z = '''' \<and> arrow_box b r y q \<in> set (draw flip C x) \<longleftrightarrow>
       r = fst x \<and> y = app (snd x) \<and> (q, z) = target flip x (if b then hi else lo)"
    "box p v \<notin> set (draw flip C x)"
proof -
  have d: "set (draw flip C x) = {circle (fst x) (app (snd x)) (color_of (fst x)) (int l), draw_arrow flip x True hi,
      draw_arrow flip x False lo, (''\"];\<newline>'', [])}"
    by (auto simp: draw_def assms)
  show "circle r y col k \<in> set (draw flip C x) \<longleftrightarrow> r = fst x \<and> y = app (snd x) \<and> col = color_of r \<and> k = int l"
    and "box p v \<notin> set (draw flip C x)"
    by (auto simp: d)
  have "arrow b r y q z \<in> set (draw flip C x) \<or> z = '''' \<and> arrow_box b r y q \<in> set (draw flip C x) \<longleftrightarrow>
      (arrow b r y q z = draw_arrow flip x True hi \<or> z = '''' \<and> arrow_box b r y q = draw_arrow flip x True hi) \<or>
      (arrow b r y q z = draw_arrow flip x False lo \<or> z = '''' \<and> arrow_box b r y q = draw_arrow flip x False lo)"
    unfolding d by simp blast
  then show "arrow b r y q z \<in> set (draw flip C x) \<or> z = '''' \<and> arrow_box b r y q \<in> set (draw flip C x) \<longleftrightarrow>
       r = fst x \<and> y = app (snd x) \<and> (q, z) = target flip x (if b then hi else lo)"
    unfolding arrow_iff by (cases b) simp_all
qed

definition bdds :: "contents \<Rightarrow> (ptr \<times> bool) list \<Rightarrow> bool" where
  "bdds C N \<longleftrightarrow> (\<forall>x \<in> set N. \<exists>l lo hi. C (cdd_rglr (fst x)) = Some (l, Bdd lo hi))"

lemma in_file:
  assumes N: "bdds C N"
  shows "x \<in> set N \<Longrightarrow> C (cdd_rglr (fst x)) = Some (l, Bdd lo hi) \<Longrightarrow>
      circle (fst x) (app (snd x)) col k \<in> set (graph_file flip C N) \<longleftrightarrow> col = color_of (fst x) \<and> k = int l"
    "x \<in> set N \<Longrightarrow> C (cdd_rglr (fst x)) = Some (l, Bdd lo hi) \<Longrightarrow>
      edge (graph_file flip C N) b (fst x) (app (snd x)) t \<longleftrightarrow> t = target flip x (if b then hi else lo)"
    "box p v \<in> set (graph_file flip C N) \<longleftrightarrow> p = cddtrue \<and> v = 1 \<or> p = cddfalse \<and> v = 0"
    "circle r '''' col k \<notin> set (graph_file flip C N)"
proof -
  have nd: "\<exists>l lo hi. C (cdd_rglr (fst y)) = Some (l, Bdd lo hi)" if "y \<in> set N" for y
    using N that by (simp add: bdds_def)
  have c: "circle r y col k \<in> set (graph_file flip C N) \<longleftrightarrow> (\<exists>x \<in> set N. circle r y col k \<in> set (draw flip C x))" for r y col k
    by (simp add: graph_file_def)
  have e: "edge (graph_file flip C N) b r y t \<longleftrightarrow> (\<exists>x \<in> set N. arrow b r y (fst t) (snd t) \<in> set (draw flip C x) \<or>
      snd t = '''' \<and> arrow_box b r y (fst t) \<in> set (draw flip C x))" for b r y t
    by (auto simp: graph_file_def edge_def)
  show "circle (fst x) (app (snd x)) col k \<in> set (graph_file flip C N) \<longleftrightarrow> col = color_of (fst x) \<and> k = int l"
    if x: "x \<in> set N" "C (cdd_rglr (fst x)) = Some (l, Bdd lo hi)"
    unfolding c
  proof
    assume "\<exists>y \<in> set N. circle (fst x) (app (snd x)) col k \<in> set (draw flip C y)"
    then obtain y where y: "y \<in> set N" "circle (fst x) (app (snd x)) col k \<in> set (draw flip C y)" ..
    from nd [OF y(1)] obtain l' lo' hi' where "C (cdd_rglr (fst y)) = Some (l', Bdd lo' hi')" by blast
    with y(2) x(2) show "col = color_of (fst x) \<and> k = int l" by (auto simp: in_draw [where C = C])
  qed (intro bexI [OF _ x(1)], simp add: in_draw(1) [where C = C, OF x(2)])
  show "edge (graph_file flip C N) b (fst x) (app (snd x)) t \<longleftrightarrow> t = target flip x (if b then hi else lo)"
    if x: "x \<in> set N" "C (cdd_rglr (fst x)) = Some (l, Bdd lo hi)"
    unfolding e
  proof
    assume "\<exists>y \<in> set N. arrow b (fst x) (app (snd x)) (fst t) (snd t) \<in> set (draw flip C y) \<or>
      snd t = '''' \<and> arrow_box b (fst x) (app (snd x)) (fst t) \<in> set (draw flip C y)"
    then obtain y where y: "y \<in> set N" "arrow b (fst x) (app (snd x)) (fst t) (snd t) \<in> set (draw flip C y) \<or>
      snd t = '''' \<and> arrow_box b (fst x) (app (snd x)) (fst t) \<in> set (draw flip C y)" ..
    from nd [OF y(1)] obtain l' lo' hi' where ly: "C (cdd_rglr (fst y)) = Some (l', Bdd lo' hi')" by blast
    from y(2) have yx: "fst x = fst y" "snd x = snd y" "(fst t, snd t) = target flip y (if b then hi' else lo')"
      unfolding in_draw(2) [where C = C, OF ly] by simp_all
    then have "y = x" by (simp add: prod_eq_iff)
    then show "t = target flip x (if b then hi else lo)" using yx ly x(2) by simp
  next
    assume "t = target flip x (if b then hi else lo)"
    then show "\<exists>y \<in> set N. arrow b (fst x) (app (snd x)) (fst t) (snd t) \<in> set (draw flip C y) \<or>
      snd t = '''' \<and> arrow_box b (fst x) (app (snd x)) (fst t) \<in> set (draw flip C y)"
      using x in_draw(2) [where C = C, OF x(2), of b "fst x" "app (snd x)" "fst t" "snd t" flip] by auto
  qed
  have nb: "box p v \<notin> set (draw flip C y)" if "y \<in> set N" for y p v
    using nd [OF that] in_draw(3) [where C = C] by blast
  show "box p v \<in> set (graph_file flip C N) \<longleftrightarrow> p = cddtrue \<and> v = 1 \<or> p = cddfalse \<and> v = 0"
    using nb by (auto simp: graph_file_def)
  have ne: "'''' \<noteq> app g" for g by (simp add: app_def)
  show "circle r '''' col k \<notin> set (graph_file flip C N)"
    unfolding c using nd in_draw(1) [where C = C] ne by metis
qed

text \<open>A box leads to its label, a node to where its arrow leads.\<close>

lemma leads_term:
  assumes "bdds C N" "cdd_rglr p = cddfalse"
  shows "leads (graph_file flip C N) push b (p, '''') v \<longleftrightarrow> v = (cdd_mask p \<noteq> 0)"
proof -
  let ?f = "graph_file flip C N"
  have m: "p = cddtrue \<and> cdd_mask p = 1 \<or> p = cddfalse \<and> cdd_mask p = 0" using tf_cases [OF assms(2)] by auto
  show ?thesis
  proof
    assume "leads ?f push b (p, '''') v"
    then show "v = (cdd_mask p \<noteq> 0)"
    proof (cases rule: leads.cases)
      case (leads_box u)
      then show ?thesis using m in_file(3) [OF assms(1), where flip = flip and p = p and v = u] by auto
    next
      case (leads_circle color k y u)
      then show ?thesis using in_file(4) [OF assms(1)] by blast
    qed
  next
    assume v: "v = (cdd_mask p \<noteq> 0)"
    have "box p (if v then 1 else 0) \<in> set ?f" using v m in_file(3) [OF assms(1), where flip = flip] by auto
    from leads.leads_box [OF this, of push b] show "leads ?f push b (p, '''') v" by (cases v) simp_all
  qed
qed

lemma leads_node:
  assumes N: "bdds C N" and x: "x \<in> set N" "C (cdd_rglr (fst x)) = Some (l, Bdd lo hi)"
  shows "leads (graph_file flip C N) push b (fst x, app (snd x)) v \<longleftrightarrow>
    leads (graph_file flip C N) push b (target flip x (if b l then hi else lo)) (v \<noteq> (\<not> push \<and> cdd_mask (fst x) \<noteq> 0))"
    (is "?l \<longleftrightarrow> leads ?f push b ?t (v \<noteq> ?red)")
proof
  have red: "(\<not> push \<and> color_of (fst x) = ''red'') = ?red" by (simp add: color_of_def)
  show "leads ?f push b ?t (v \<noteq> ?red)" if ?l
    using that
  proof (cases rule: leads.cases)
    case (leads_circle color k y u)
    then have "color = color_of (fst x)" "k = int l" using in_file(1) [OF N x] by auto
    with leads_circle in_file(2) [OF N x] have "leads ?f push b ?t u" "v = (u \<noteq> ?red)" using red by auto
    then show ?thesis by (cases ?red) auto
  qed simp
  show ?l if "leads ?f push b ?t (v \<noteq> ?red)"
  proof -
    have "circle (fst x) (app (snd x)) (color_of (fst x)) (int l) \<in> set ?f" "edge ?f (b (nat (int l))) (fst x) (app (snd x)) ?t"
      using in_file(1,2) [OF N x] by auto
    from leads.leads_circle [OF this that] show ?l unfolding red by (cases ?red) auto
  qed
qed

lemma graph_value:
  assumes core: "core s X F {} B"
    and N: "\<And>x. x \<in> set N \<Longrightarrow> cdd_rglr (fst x) \<noteq> cddfalse \<and> boolean (cont s) (fst x) \<and> reach X s (fst x) \<and> below (cont s) x \<subseteq> set N"
    and x: "x \<in> set N"
  shows "leads (graph_file push (cont s) N) push (snd a) (fst x, app (snd x)) v \<longleftrightarrow> v = (eval (cont s) a (fst x) \<noteq> (push \<and> snd x))"
  using x
proof (induction "MAXLEVEL - lv (cont s) (fst x)" arbitrary: x v rule: less_induct)
  case less
  have nd: "bdds (cont s) N"
    using bool_node [OF core] N unfolding bdds_def by metis
  note n = N [OF less.prems]
  let ?k = "lv (cont s) (fst x)"
  from bool_node [OF core _ _, of "fst x"] n obtain lo hi where
    k: "cont s (cdd_rglr (fst x)) = Some (?k, Bdd lo hi)" and ch: "?k < lv (cont s) lo" "?k < lv (cont s) hi" "?k < cdd_levelcnt s" "cdd_levelcnt s \<le> MAXLEVEL"
    and ev: "eval (cont s) a (fst x) = ((if snd a ?k then eval (cont s) a hi else eval (cont s) a lo) \<noteq> (cdd_mask (fst x) \<noteq> 0))"
    by metis
  define c where "c = (if snd a ?k then hi else lo)"
  have cl: "?k < lv (cont s) c" and ck: "c \<in> set (kids_of (cont s) (fst x))" using ch by (auto simp: c_def kids_of_def k)
  have "leads (graph_file push (cont s) N) push (snd a) (target push x c) w \<longleftrightarrow> w = (eval (cont s) a c \<noteq> (push \<and> pass x))" for w
  proof (cases "cdd_rglr c = cddfalse")
    case True
    have "eval (cont s) a c = (cdd_mask c \<noteq> 0)" using eval_term [of "cont s" MAXLEVEL c a] core_term(1) [OF core] True by simp
    moreover have "cdd_rglr (if push \<and> pass x then cdd_neg c else c) = cddfalse" using True by simp
    ultimately show ?thesis
      using leads_term [OF nd, of "if push \<and> pass x then cdd_neg c else c"] True by (auto simp: target_def mask_neg)
  next
    case False
    have "(c, pass x) \<in> below (cont s) x" using False ck by (auto simp: below_def)
    then have "(c, pass x) \<in> set N" using n by blast
    with less.hyps [of "(c, pass x)" w] ch(3,4) cl False show ?thesis by (simp add: target_def)
  qed
  moreover have "eval (cont s) a (fst x) = (eval (cont s) a c \<noteq> (cdd_mask (fst x) \<noteq> 0))" unfolding ev by (simp add: c_def)
  ultimately show ?case
    unfolding leads_node [where C = "cont s", OF nd less.prems k] c_def [symmetric] pass_def by auto
qed

section \<open>The whole file\<close>

text \<open>The file shows the diagram \<open>r\<close>: reading it from the node of \<open>r\<close> gives the truth value of \<open>r\<close>, and no other.\<close>

definition drawn_name :: "ptr \<Rightarrow> ptr \<times> string" where
  "drawn_name r = (r, if cdd_rglr r = cddfalse then '''' else ''0'')"

definition denotes :: "outfile \<Rightarrow> bool \<Rightarrow> contents \<Rightarrow> ptr \<Rightarrow> bool" where
  "denotes f push C r \<longleftrightarrow> (\<forall>a v. leads f push (snd a) (drawn_name r) v \<longleftrightarrow> v = eval C a r)"

lemma denotes_term:
  assumes core: "core s X F {} B" and r: "cdd_rglr r = cddfalse"
  shows "denotes [(''digraph G {\<newline>'', []), box r (uint (cdd_mask r)), (''}\<newline>'', [])] push (cont s) r"
proof -
  let ?f = "[(''digraph G {\<newline>'', []), box r (uint (cdd_mask r)), (''}\<newline>'', [])]"
  have m: "eval (cont s) a r = (uint (cdd_mask r) \<noteq> 0)" for a
    using eval_term [of "cont s" MAXLEVEL r a] core_term(1) [OF core] r mask_cases [of r] by auto
  have "leads ?f push b (r, '''') v \<longleftrightarrow> v = (uint (cdd_mask r) \<noteq> 0)" for b v
  proof
    show "leads ?f push b (r, '''') v \<Longrightarrow> v = (uint (cdd_mask r) \<noteq> 0)"
      by (cases rule: leads.cases) auto
    have "box r (uint (cdd_mask r)) \<in> set ?f" by simp
    then show "v = (uint (cdd_mask r) \<noteq> 0) \<Longrightarrow> leads ?f push b (r, '''') v"
      using leads.leads_box [of r "uint (cdd_mask r)" ?f push b] by simp
  qed
  then show ?thesis using r m by (simp add: denotes_def drawn_name_def)
qed

lemma denotes_graph:
  assumes core: "core s X F {} B" and r: "cdd_rglr r \<noteq> cddfalse" and a: "names a = {}"
    and d: "draws X s push [(r, False)] [(''digraph G {\<newline>'', []), box cddtrue 1, box cddfalse 0] a f a'"
  shows "denotes (f @ [(''}\<newline>'', [])]) push (cont s) r"
proof -
  from d [unfolded draws_def a] r obtain N where
    N: "f = [(''digraph G {\<newline>'', []), box cddtrue 1, box cddfalse 0] @ concat (map (draw push (cont s)) N)" "(r, False) \<in> set N"
      "\<And>x. x \<in> set N \<Longrightarrow> cdd_rglr (fst x) \<noteq> cddfalse \<and> boolean (cont s) (fst x) \<and> reach X s (fst x) \<and> below (cont s) x \<subseteq> set N"
    by auto
  have "f @ [(''}\<newline>'', [])] = graph_file push (cont s) N" by (simp add: N(1) graph_file_def)
  then show ?thesis
    using graph_value [OF core N(3) N(2), of push] r by (simp add: denotes_def drawn_name_def app_def)
qed

lemma unmark_after:
  assumes c: "client X B s" and r: "reach X s r" and t: "remarked M s t"
  shows "wp (cdd_unmark r) (\<lambda>_ u. client X B u \<and> cont u = cont s \<and> rf u = rf s) t"
proof -
  obtain F where core: "core s X F {} B" using c by (auto simp: client_def)
  have ct: "core t X F {} B" "reach X t r" using core r by (simp_all add: remarked_core [OF t] remarked_views(4) [OF t])
  show ?thesis
  proof (rule wp_mono [OF cdd_unmark_all [OF ct]], elim exE conjE)
    fix u K assume "remarked (marks t - K) t u"
    from remarked_trans [OF t this] have u: "remarked (marks t - K) s u" .
    show "client X B u \<and> cont u = cont s \<and> rf u = rf s"
      using c remarked_client [OF u] remarked_fields [OF u] by simp
  qed
qed

theorem cdd_fprintdot_spec:
  assumes c: "client X B s" and r: "reach X s r" "boolean (cont s) r"
  shows "wp (cdd_fprintdot [] r push) (\<lambda>f t. client X B t \<and> cont t = cont s \<and> rf t = rf s \<and> denotes f push (cont s) r) s"
proof -
  let ?post = "\<lambda>f t. client X B t \<and> cont t = cont s \<and> rf t = rf s \<and> denotes f push (cont s) r"
  obtain F where core: "core s X F {} B" using c by (auto simp: client_def)
  have array: "arr_ok (snd (initArray 100))" "names (snd (initArray 100)) = {}"
    by (simp_all add: initArray_def arr_ok_def names_def malloc_ok_def Let_def)
  let ?head = "[(''digraph G {\<newline>'', []), box cddtrue 1, box cddfalse 0]"
  have run: "wp (if cdd_rglr r = cddfalse
      then ret ([(''digraph G {\<newline>'', []), box r (uint (cdd_mask r))], snd (initArray 100))
      else cdd_fprintdot_rec (cdd_levelcnt s + 2) ?head r push False (snd (initArray 100)))
      (\<lambda>(f, a) t. (\<exists>M. remarked M s t) \<and> denotes (f @ [(''}\<newline>'', [])]) push (cont s) r) s"
  proof (cases "cdd_rglr r = cddfalse")
    case True
    then show ?thesis using denotes_term [OF core True] by (auto simp: wp_ret intro: exI [of _ "marks s"])
  next
    case False
    have "wp (cdd_fprintdot_rec (cdd_levelcnt s + 2) ?head r push False (snd (initArray 100)))
      (\<lambda>(f, a) t. (\<exists>M. remarked M s t) \<and> denotes (f @ [(''}\<newline>'', [])]) push (cont s) r) s"
      by (rule wp_mono [OF fprintdot_rec_spec [OF core r array(1)]])
        (use denotes_graph [OF core False array(2)] in auto)
    with False show ?thesis by simp
  qed
  have pt: "cdd_print_terminal_node f p v = f @ [box p v]" for f p v
    by (simp add: cdd_print_terminal_node_def fprintf_def box_def)
  have pp: "(if push then cdd_fprintdot_rec n f r True False a else cdd_fprintdot_rec n f r False False a) =
      cdd_fprintdot_rec n f r push False a" for n f a
    by simp
  have "wp (case y of (f, a) \<Rightarrow> let f = fprintf f ''}\<newline>'' [] in thenM (cdd_unmark r) (ret f)) ?post t"
    if "(case y of (f, a) \<Rightarrow> \<lambda>t. (\<exists>M. remarked M s t) \<and> denotes (f @ [(''}\<newline>'', [])]) push (cont s) r) t" for y t
  proof -
    obtain f a where y: "y = (f, a)" by (cases y)
    with that obtain M where "remarked M s t" "denotes (f @ [(''}\<newline>'', [])]) push (cont s) r" by auto
    then show ?thesis
      using wp_mono [OF unmark_after [OF c r(1)]] by (simp add: y fprintf_def wp_then wp_ret)
  qed
  from wp_mono [OF run this] show ?thesis
    unfolding cdd_fprintdot_def Let_def wp_bind wp_eq [where m = "cdd_isterminal r", OF isterminal_reach [OF core r(1)]] wp_gets pt
      fprintf_def negated_mask append_Nil append_Cons pp .
qed

end
