(* ===== verification/Spec2Isabelle.thy ===== *)
theory Spec2Isabelle
  imports Demo Cpp_Zones Print_Spec
begin

text \<open>
  UCDD, the library of clock difference diagrams (CDDs) of the UPPAAL model checker.  A CDD is a
  decision diagram whose levels are boolean variables or differences of two clocks; the library
  keeps the nodes shared in hash tables, counts references, collects garbage and caches the
  results of its operators.  This development models the C library and its C++ class and proves
  that the operators compute what they should on a store that stays well formed.

  \<^bold>\<open>The program and its theories.\<close>

  \<^item> \<^verbatim>\<open>UCDD_Prelude\<close>: faults, the state-passing functions \<open>('s, 'a) M\<close>, their weakest preconditions
    \<open>wp\<close> (total correctness up to exhaustion of memory), tagged pointers.
  \<^item> \<^verbatim>\<open>Bounds\<close>, \<^verbatim>\<open>External\<close>: the bound macros of \<^verbatim>\<open>include/cdd/kernel.h\<close>; the functions of UDBM and
    UUtils, which are not in the repository, as a record of parameters (\<open>extlib\<close>) with the
    documented behaviour that is relied on (\<open>bounds_lib\<close>, \<open>bits_lib\<close>).
  \<^item> \<^verbatim>\<open>Op_Cache\<close>: \<^verbatim>\<open>src/cache.c\<close>, \<^verbatim>\<open>src/relax.c\<close>.
  \<^item> \<^verbatim>\<open>Kernel_State\<close>, \<^verbatim>\<open>Kernel_Memory\<close>, \<^verbatim>\<open>Kernel_Make\<close>, \<^verbatim>\<open>Kernel_Api\<close>: \<^verbatim>\<open>src/kernel.c\<close>.  The state
    \<open>kstate\<close> has a field for each global variable, a map from addresses to nodes (\<open>nodes\<close>), the
    node managers with their chunks, free lists and subtables, and the caches.  A subtable's
    chains are lists of addresses, from the head on.
  \<^item> \<^verbatim>\<open>Apply\<close>, \<^verbatim>\<open>Quantify\<close>, \<^verbatim>\<open>Convert\<close>, \<^verbatim>\<open>Reduce\<close>, \<^verbatim>\<open>Apply_Reduce\<close>: \<^verbatim>\<open>src/cddop.c\<close> and
    \<^verbatim>\<open>src/debug.c\<close>, the operators built on the kernel.
  \<^item> \<^verbatim>\<open>Constraint_Graph\<close>: \<^verbatim>\<open>src/bellmanford.c\<close>, \<^verbatim>\<open>src/tarjan.c\<close>, which the reductions call to drop
    branches whose constraints contradict each other.
  \<^item> \<^verbatim>\<open>Cpp_Class\<close>, \<^verbatim>\<open>Cpp_Zones\<close>, \<^verbatim>\<open>Cpp_Matrix\<close>: the class \<^verbatim>\<open>cdd\<close> of \<^verbatim>\<open>include/cdd/cdd.h\<close> and
    \<^verbatim>\<open>src/cppext.cpp\<close>; constructors and destructors are calls, temporaries are scopes.

  \<^item> \<^verbatim>\<open>Printing\<close>: \<^verbatim>\<open>src/print.c\<close>; a file is the list of the calls of \<^verbatim>\<open>fprintf\<close> on it.

  Definitions keep the names of the C functions.  A raise, failed assertion, undefined access or
  refused allocation is a value of \<open>fault\<close>.

  \<^bold>\<open>Interaction.\<close> The operators build nodes with \<^verbatim>\<open>cdd_make_bdd_node\<close> and \<^verbatim>\<open>cdd_make_cdd_node\<close>, which search
  a chain, may bring a dead node back (\<^verbatim>\<open>cdd_reclaim\<close>), allocate a cell (\<^verbatim>\<open>cdd_alloc_node\<close>), which
  may flush the caches and collect (\<^verbatim>\<open>cdd_gbc\<close>), and may double the table (\<^verbatim>\<open>cdd_rehash\<close>).  A result
  is returned without a reference; the caller takes one before the next allocation.

  \<^bold>\<open>What is proved.\<close>

  \<^item> \<^verbatim>\<open>Store_Inv\<close> states the meaning of a diagram (\<open>eval\<close>), well-formedness (\<open>sound\<close>) and the invariant
    (\<open>core\<close>, \<open>caches_ok\<close>, together \<open>INV\<close>): chains sorted and hashed right, counts no smaller than the
    references held by owners and clients, dead nodes counted, free cells empty, cache entries
    right.  \<^verbatim>\<open>Store_Lemmas\<close>, \<^verbatim>\<open>Ref_Counting\<close>, \<^verbatim>\<open>Reclaim\<close>, \<^verbatim>\<open>Gc\<close>, \<^verbatim>\<open>Alloc\<close>, \<^verbatim>\<open>Hash_Chain\<close>,
    \<^verbatim>\<open>Table_Ops\<close>: each kernel operation keeps it, on every branch.
  \<^item> \<^verbatim>\<open>Make_Spec\<close>, \<^verbatim>\<open>Node_Spec\<close>, \<^verbatim>\<open>Make_Nodes\<close>: the contracts of the node constructors.
    \<^verbatim>\<open>Canonical\<close>: equal meaning is equality of pointers.
  \<^item> \<^verbatim>\<open>Apply_Spec\<close>, \<^verbatim>\<open>Apply_Merge\<close>, \<^verbatim>\<open>Apply_Correct\<close>, \<^verbatim>\<open>Op_Spec\<close>, \<^verbatim>\<open>Test_Spec\<close>: the binary operators, the
    conditional and the diagrams of a single test, in terms of a client that holds references
    (\<open>client\<close>, \<open>yields\<close>).
  \<^item> \<^verbatim>\<open>Temporaries\<close>: proof rules for functions that keep intermediate diagrams in local variables
    (\<open>keeping\<close>), for the loops over the children of a node, and for recursions through a cache.
    \<^verbatim>\<open>Exist_Spec\<close>, \<^verbatim>\<open>Rename_Spec\<close>: \<^verbatim>\<open>cdd_exist\<close> over boolean variables and \<^verbatim>\<open>cdd_replace\<close>.  Their caches
    outlive a call, so the contracts of all operators are stated for a meaning of the entries
    (\<open>caches_mean T\<close>, \<open>client_with T\<close>), which the operators keep: a call reads in its own entries what it
    wrote, told from older ones by \<^verbatim>\<open>opid\<close> (\<open>older\<close>).
  \<^item> \<^verbatim>\<open>Startup\<close>: starting the library and declaring levels.
  \<^item> \<^verbatim>\<open>Cpp_Spec\<close>: objects own exactly one reference (\<open>makes\<close>).  \<^verbatim>\<open>Session\<close>: programs over the class
    refine programs on sets of clock and boolean values (\<open>related\<close>), and never get stuck.
  \<^item> \<^verbatim>\<open>Matrix_Spec\<close>: the arrays of \<^verbatim>\<open>cdd_bdd_to_array\<close> are the traces of the diagram.
  \<^item> \<^verbatim>\<open>Bellman_Ford\<close>: \<^verbatim>\<open>cdd_bf_consistent\<close> decides satisfiability of difference constraints.
  \<^item> \<^verbatim>\<open>From_Dbm\<close>: \<^verbatim>\<open>cdd_from_dbm\<close> builds the diagram of the zone of a difference bound matrix.
  \<^item> \<^verbatim>\<open>Marking\<close>: the traversals that mark, count and unmark.  \<^verbatim>\<open>Print_Spec\<close>: the graph that is written for a
    boolean diagram denotes the diagram (\<open>leads\<close>).
  \<^item> \<^verbatim>\<open>Demo\<close>: a concrete store on which the hypotheses of the theorems below hold.

  The interfaces are locales: \<open>key_order\<close> (what the chain searches need of \<^verbatim>\<open>memcmp\<close>), \<open>node_cache\<close>
  (what the operators need of a cache, provided by both caches), \<open>weighted_graph\<close> (what the
  rounds of Bellman and Ford's algorithm need of a graph), \<open>marking_walk\<close> (a traversal that marks and
  counts) and \<open>result_cache\<close> (what a recursive operator needs of the cache of its results).

  \<^bold>\<open>Bounds and fuel.\<close> Recursions along edges are bounded by the number of levels plus one, which is enough
  because edges lead to deeper levels (\<open>sound\<close>); the loops of \<^verbatim>\<open>cdd_rec_deref\<close> and
  \<^verbatim>\<open>cdd_reclaim\<close> terminate by a measure on reference counts.  The rounds of Bellman and Ford's
  algorithm are counted as in C.  Where the depth is not bounded by the levels (\<^verbatim>\<open>cdd_exist\<close>
  when it removes clocks, and the loops of \<^verbatim>\<open>Cpp_Zones\<close> that run until no zone is left) the fuel is a parameter; the queue of
  \<^verbatim>\<open>cdd_tarjan_consistent\<close> is given \<open>(dim + 1) * (dim + 1)\<close> rounds, and nothing is claimed about it.
  Hashes and pointers are 32-bit words; counters and bounds are integers, with their ranges as
  hypotheses where the code relies on them.

  \<^bold>\<open>Not modelled.\<close> The messages of the default handlers, clock measurements and the freeing of arrays are left
  out; the programs under \<^verbatim>\<open>src/test\<close> use the library.  UDBM, UUtils and the callbacks of the printing
  functions are parameters.  \<^verbatim>\<open>cdd_exist\<close> over clocks, the reductions, the conversions but
  \<^verbatim>\<open>cdd_from_dbm\<close>, \<^verbatim>\<open>Cpp_Zones\<close> and \<^verbatim>\<open>cdd_fprint_code\<close> are modelled, without theorems about the meaning of
  their results; several of them keep intermediate diagrams without a reference across calls that
  may collect, so that such theorems need more than the invariant.
\<close>

section \<open>Operators\<close>

text \<open>C1. \<^verbatim>\<open>cdd_and\<close> and \<^verbatim>\<open>cdd_xor\<close>, from \<^verbatim>\<open>cdd_apply\<close> with its cache, its merge of the two element
  lists and all that happens below (node construction, collection, reclaiming): on diagrams that
  the client can reach the result is a well-formed diagram that denotes the conjunction or the
  exclusive disjunction, at a level no smaller than those of the arguments; the invariant holds
  again, and every diagram the client can reach is as it was.\<close>

theorem cdd_apply_meaning:
  assumes "op = cddop_and \<or> op = cddop_xor" "client X B s" "reach X s l" "reach X s r"
  shows "wp (cdd_apply l r op) (yields X B s (\<lambda>a. op_sem op (eval (cont s) a l) (eval (cont s) a r))
     (min (lv (cont s) l) (lv (cont s) r))) s"
  using assms by (rule apply_yields)

lemma cdd_apply_meaning_witness:
  "wp (cdd_apply bnode cnode cddop_xor) (yields demo_refs demo_bounds demo
     (\<lambda>a. op_sem cddop_xor (eval (cont demo) a bnode) (eval (cont demo) a cnode))
     (min (lv (cont demo) bnode) (lv (cont demo) cnode))) demo"
  by (rule cdd_apply_meaning [OF _ demo_client demo_reach]) simp

text \<open>C2. \<^verbatim>\<open>cdd_or\<close> denotes the disjunction.\<close>

theorem cdd_or_meaning:
  assumes "client X B s" "reach X s l" "reach X s r"
  shows "wp (cdd_or l r) (yields X B s (\<lambda>a. eval (cont s) a l \<or> eval (cont s) a r)
     (min (lv (cont s) l) (lv (cont s) r))) s"
  using assms by (rule cdd_or_yields)

lemma cdd_or_meaning_witness:
  "wp (cdd_or bnode cnode) (yields demo_refs demo_bounds demo
     (\<lambda>a. eval (cont demo) a bnode \<or> eval (cont demo) a cnode)
     (min (lv (cont demo) bnode) (lv (cont demo) cnode))) demo"
  by (rule cdd_or_meaning [OF demo_client demo_reach])



section \<open>The diagram as a data structure\<close>

text \<open>C4. Canonicity: two well-formed diagrams that agree on all values of the differences and
  boolean variables are the same pointer, provided the bound minus infinity is not used.\<close>

theorem diagrams_are_canonical:
  assumes "INV s X F B" "finite_bounds B"
    "sound (cont s) (tabled s) (cdd_levelinfo s) B p" "sound (cont s) (tabled s) (cdd_levelinfo s) B q"
    "\<forall>a. eval (cont s) a p = eval (cont s) a q"
  shows "p = q"
  using assms canonical by (auto simp: INV_def same_meaning_def)

lemma diagrams_are_canonical_witness: "cdd_neg (cdd_neg cnode) = cnode"
  by (rule diagrams_are_canonical [OF demo_INV demo_finite]) (simp_all add: demo_sound [simplified])

text \<open>C5. The store is reduced: no two nodes of the tables have the same level and body.\<close>

theorem nodes_are_shared:
  assumes "INV s X F B" "p \<in> tabled s" "q \<in> tabled s" "cont s p = cont s q"
  shows "p = q"
  using assms unique_node by (auto simp: INV_def)

lemma nodes_are_shared_witness: "bnode = 0x10020"
  by (rule nodes_are_shared [OF demo_INV]) (simp_all add: demo_tabled bnode_def)



section \<open>Making nodes\<close>

text \<open>C7. \<^verbatim>\<open>cdd_make_bdd_node\<close> on usable children below the level: the diagram that follows the
  high child when the variable is true, whether the node is found alive, found dead and
  reclaimed, or made in a new cell after a collection or a new chunk, with a rehash when the
  table is full.\<close>

theorem cdd_make_bdd_node_correct:
  assumes "core s X F {} B" "caches_ok s B" "level < cdd_levelcnt s" "li_type (cdd_levelinfo s ! level) = TYPE_BDD"
    "usable s B F low" "usable s B F high" "level < lv (cont s) low" "level < lv (cont s) high"
  shows "wp (cdd_make_bdd_node level low high) (made_bdd X B s level low high) s"
  using assms by (rule cdd_make_bdd_node_spec)

lemma cdd_make_bdd_node_correct_witness:
  "wp (cdd_make_bdd_node 0 cnode cddtrue) (made_bdd demo_refs demo_bounds demo 0 cnode cddtrue) demo"
  by (rule cdd_make_bdd_node_correct [OF demo_core demo_caches])
    (simp_all add: demo_usable demo_lv MAXLEVEL_def)

text \<open>C8. \<^verbatim>\<open>cdd_make_cdd_node\<close> on a reduced list of elements with increasing bounds up to infinity:
  the diagram that follows the child of the first element whose bound the difference satisfies.\<close>

theorem cdd_make_cdd_node_correct:
  assumes "core s X F {} B" "caches_ok s B" "level < cdd_levelcnt s" "li_type (cdd_levelinfo s ! level) = TYPE_CDD"
    "es \<noteq> []" "sorted_wrt (<) (map e_bnd es)" "e_bnd (last es) = bnd_INF" "e_bnd ` set es \<subseteq> B level"
    "cdd_mask (e_child (hd es)) = 0" "distinct_adj (map e_child es)"
    "\<And>e. e \<in> set es \<Longrightarrow> usable s B F (e_child e) \<and> level < lv (cont s) (e_child e)"
  shows "wp (cdd_make_cdd_node level es) (made_cdd X B s level es) s"
  using assms by (rule cdd_make_cdd_node_spec)

lemma cdd_make_cdd_node_correct_witness:
  "wp (cdd_make_cdd_node 1 [\<lparr>e_child = cddfalse, e_bnd = 3\<rparr>, \<lparr>e_child = cddtrue, e_bnd = bnd_INF\<rparr>])
     (made_cdd demo_refs demo_bounds demo 1 [\<lparr>e_child = cddfalse, e_bnd = 3\<rparr>, \<lparr>e_child = cddtrue, e_bnd = bnd_INF\<rparr>]) demo"
  by (rule cdd_make_cdd_node_correct [OF demo_core demo_caches])
    (auto simp: demo_usable demo_lv MAXLEVEL_def bnd_INF_def demo_bounds_def cddtrue_def)

text \<open>C9. A node with more elements than the library was started for is refused: NULL is
  returned, the error is printed, nothing else changes.\<close>

theorem cdd_make_cdd_node_too_long:
  assumes "cdd_maxcddsize s < length es"
  shows "cdd_make_cdd_node level es s = Inr (0, s\<lparr>stderr := CDD_MAXSIZE # stderr s\<rparr>)"
  using assms by (simp add: cdd_make_cdd_node_def cdd_error_def bindM_def thenM_def gets_def modifyM_def ret_def Let_def)

lemma cdd_make_cdd_node_too_long_witness:
  "cdd_make_cdd_node 1 (replicate 5 \<lparr>e_child = 0, e_bnd = 0\<rparr>) demo = Inr (0, demo\<lparr>stderr := CDD_MAXSIZE # stderr demo\<rparr>)"
  by (rule cdd_make_cdd_node_too_long) simp

text \<open>C10. The search of a chain of BDD nodes (two loops, on the low and the high child) and the
  search of a chain of CDD nodes (\<^verbatim>\<open>memcmp\<close> on the elements) stop at the slot of the key in the
  order of the chain.\<close>

theorem searches_find_slot:
  "finds_slot BddMan (Bdd lo hi) (bdd_seek lo hi) \<and> finds_slot (CddMan (length es)) (Cdd es) (cdd_seek es)"
  by (simp add: finds_bdd finds_cdd)

text \<open>C11. The key that a hash chain is ordered by determines the body: two bodies that fit the
  same manager have the same key only if they are equal, so equal keys mean equal nodes.\<close>

theorem node_keys_injective:
  assumes "fits i b" "fits i c"
  shows "body_key b = body_key c \<longleftrightarrow> b = c"
  using assms by (rule body_key_inj)

lemma node_keys_injective_witness: "body_key (Bdd 0 1) = body_key (Bdd 1 0) \<longleftrightarrow> Bdd 0 1 = Bdd 1 0"
  by (rule node_keys_injective [of BddMan]) simp_all

text \<open>C12. Rehashing doubles a table and splits its buckets: the invariant holds again (every
  chain is sorted and in the bucket of its hash), no node is lost or changed.\<close>

theorem cdd_rehash_correct:
  assumes "core s X F {} B" "caches_ok s B" "tbl s i l = Some t"
  shows "wp (cdd_rehash i l) (\<lambda>_ s'. core s' X F {} B \<and> caches_ok s' B \<and> steady s s' \<and> cont s' = cont s) s"
  using assms by (rule cdd_rehash_spec)

lemma cdd_rehash_correct_witness:
  "wp (cdd_rehash BddMan 0) (\<lambda>_ s'. core s' demo_refs {} {} demo_bounds \<and> caches_ok s' demo_bounds \<and> steady demo s' \<and>
     cont s' = cont demo) demo"
  by (rule cdd_rehash_correct [OF demo_core demo_caches, of BddMan 0 "demo_table 0 bnode"]) (simp add: demo_tbl)

section \<open>References and collection\<close>

text \<open>C13. \<^verbatim>\<open>cdd_ref\<close> on a live node, or one that has just been returned, keeps the invariant and
  gives the client one more reference to it; counts saturate.\<close>

theorem cdd_ref_correct:
  assumes "core s (with_toks X ps) F {} B"
    "cdd_rglr p = cddfalse \<or> cdd_rglr p \<in> tabled s \<and> (0 < rf s (cdd_rglr p) \<or> cdd_rglr p \<in> F)"
  shows "wp (cdd_ref p) (\<lambda>_ s'. core s' (with_toks X (p # ps)) F {} B \<and> sim s s' \<and>
           rf s' = (rf s)(cdd_rglr p := cdd_satinc (rf s (cdd_rglr p)))) s"
  using assms by (rule cdd_ref_spec)

lemma cdd_ref_correct_witness:
  "wp (cdd_ref bnode) (\<lambda>_ s'. core s' (with_toks cnode_refs [bnode, bnode]) {} {} demo_bounds \<and> sim demo s' \<and>
     rf s' = (rf demo)(cdd_rglr bnode := cdd_satinc (rf demo (cdd_rglr bnode)))) demo"
  by (rule cdd_ref_correct [OF demo_core [unfolded demo_refs_toks]]) (simp add: demo_tabled demo_cont)







text \<open>C17. Collection of a manager, once the caches are flushed: it does not fail, the invariant
  holds again, every live node keeps its place, its contents and its count, the dead nodes
  leave the chains of that manager's tables, no cell gets new contents, and there is a free
  cell if a node was dead.\<close>

theorem collection_keeps_live_nodes:
  assumes "core s X {} {} B" "caches_ok s B" "caches_live s" "man_of s i = Some m"
  shows "\<exists>s' m'. cdd_gbc_nodemanager i s = Inr ((), s') \<and> core s' X {} {} B \<and> caches_ok s' B \<and> keeps s s' \<and>
    man_of s' i = Some m' \<and> (0 < m_deadcnt m \<longrightarrow> m_free m' \<noteq> []) \<and>
    (\<forall>j k. tbl s' j k = (if j = i then map_option (collect (rf s)) (tbl s j k) else tbl s j k)) \<and>
    (\<forall>q. nodes s' q = None \<or> nodes s' q = nodes s q)"
  using cdd_gbc_nodemanager_spec [OF assms] by metis

lemma collection_keeps_live_nodes_witness:
  "\<exists>s' m'. cdd_gbc_nodemanager BddMan demo_dropped = Inr ((), s') \<and> core s' cnode_refs {} {} demo_bounds \<and>
    caches_ok s' demo_bounds \<and> keeps demo_dropped s' \<and> man_of s' BddMan = Some m' \<and>
    (0 < m_deadcnt (count_dead 1 0 demo_bman (demo_table 0 bnode)) \<longrightarrow> m_free m' \<noteq> []) \<and>
    (\<forall>j k. tbl s' j k = (if j = BddMan then map_option (collect (rf demo_dropped)) (tbl demo_dropped j k) else tbl demo_dropped j k)) \<and>
    (\<forall>q. nodes s' q = None \<or> nodes s' q = nodes demo_dropped q)"
  by (rule collection_keeps_live_nodes [OF dropped_core dropped_caches dropped_caches_live dropped_man])

text \<open>C18. \<^verbatim>\<open>cdd_alloc_node\<close> returns a cell of the manager that holds no node and is on no free
  list, from the free list, after a collection or from a new chunk; live nodes keep their
  contents, and the caches hold only diagrams that are still there.\<close>

theorem cdd_alloc_node_correct:
  assumes "core s X {} {} B" "caches_ok s B" "man_of s i = Some m"
  shows "wp (cdd_alloc_node i) (\<lambda>p s'. core s' X {} {} B \<and> caches_ok s' B \<and> keeps s s' \<and> fresh_cell s' i p \<and>
     maybe_collected i s s') s"
  using assms by (rule cdd_alloc_node_spec)

lemma cdd_alloc_node_correct_witness:
  "wp (cdd_alloc_node BddMan) (\<lambda>p s'. core s' cnode_refs {} {} demo_bounds \<and> caches_ok s' demo_bounds \<and>
     keeps demo_dropped s' \<and> fresh_cell s' BddMan p \<and> maybe_collected BddMan demo_dropped s') demo_dropped"
  by (rule cdd_alloc_node_correct [OF dropped_core dropped_caches dropped_man])



section \<open>Single tests\<close>

text \<open>C20. \<^verbatim>\<open>cdd_interval(i, j, low, high)\<close> denotes the clock valuations whose difference exceeds the
  lower bound and is within the upper bound.\<close>

theorem cdd_interval_denotes:
  assumes "client X B s" "i \<noteq> j" "level_at s (max i j) (min i j) k"
    "flippable low" "flippable high" "low < high" "- bnd_INF < low \<or> high < bnd_INF"
    "if j < i then {low, high} - {- bnd_INF} \<subseteq> B k else {bnd_u2l high, bnd_l2u low} - {- bnd_INF} \<subseteq> B k"
  shows "wp (cdd_interval i j low high) (yields_clocks X B s (\<lambda>v. \<not> bnd_sat (v i - v j) low \<and> bnd_sat (v i - v j) high)) s"
  using assms by (rule cdd_interval_meaning)

lemma cdd_interval_denotes_witness:
  "wp (cdd_interval 1 0 3 bnd_INF) (yields_clocks demo_refs demo_bounds demo
     (\<lambda>v. \<not> bnd_sat (v 1 - v 0) 3 \<and> bnd_sat (v 1 - v 0) bnd_INF)) demo"
  by (rule cdd_interval_denotes [OF demo_client, of 1 0 1]) (simp_all add: demo_level_at [simplified] flippable_def bnd_INF_def demo_bounds_def)

text \<open>C21. \<^verbatim>\<open>cdd_bddvar\<close> denotes the boolean variable of its level.\<close>

theorem cdd_bddvar_denotes:
  assumes "client X B s" "level < cdd_levelcnt s" "li_type (cdd_levelinfo s ! level) = TYPE_BDD"
  shows "wp (cdd_bddvar level) (yields X B s (\<lambda>a. snd a level) level) s"
  using assms by (rule cdd_bddvar_yields)

lemma cdd_bddvar_denotes_witness: "wp (cdd_bddvar 0) (yields demo_refs demo_bounds demo (\<lambda>a. snd a 0) 0) demo"
  by (rule cdd_bddvar_denotes [OF demo_client]) simp_all

text \<open>C22. \<^verbatim>\<open>cdd_from_dbm\<close>: if the constraints that UDBM marks describe the zone of the DBM, as it documents, the
  diagram built level by level from them denotes that zone over the clocks.\<close>

theorem cdd_from_dbm_correct:
  assumes "client X B s" "clocks_ok s" "n \<le> cdd_clocknum s" "dbm_ready B s d n" "min_dbm_lib (env_lib (env s)) d n"
    "\<forall>i < n. \<forall>j < n. flippable (entry d n i j) \<and> entry d n i j \<noteq> - bnd_INF"
  shows "wp (cdd_from_dbm d n) (yields_clocks X B s (in_zone d n)) s"
  using assms by (rule cdd_from_dbm_meaning)

lemma cdd_from_dbm_correct_witness:
  "wp (cdd_from_dbm demo_dbm 2) (yields_clocks demo_refs demo_bounds demo (in_zone demo_dbm 2)) demo"
  by (rule cdd_from_dbm_correct [OF demo_client demo_clocks _ demo_ready demo_min demo_entries]) simp

section \<open>Quantification and renaming\<close>

text \<open>C23. \<^verbatim>\<open>cdd_exist\<close> on boolean variables: with no clocks to remove, the result denotes the existential quantification of
  the diagram over the listed levels, whatever the cache remembers of older calls and whatever is collected on the
  way; afterwards no entry of the cache belongs to a call that is still to come.\<close>

theorem cdd_exist_correct:
  assumes "client_with (older (opid s)) X B s" "reach X s p" "finite_bounds B" "nb \<le> length levels" "cdd_levelcnt s < n"
  shows "wp (cdd_exist n p levels clocks nb 0) (\<lambda>q t. opid t = opid s + 1 \<and>
     yields_with (older (opid t)) X B (s\<lparr>opid := opid s + 1\<rparr>)
       (\<lambda>a. \<exists>y. eval (cont s) (fst a, \<lambda>k. if k \<in> levels_in levels nb then y k else snd a k) p) 0 q t) s"
  using cdd_exist_yields [OF assms(1,2) _ assms(4), of n clocks] assms(3,5)
  by (simp add: finite_bounds_def exists_over_def [abs_def])

lemma cdd_exist_correct_witness:
  "wp (cdd_exist 3 bnode [0] [] 1 0) (\<lambda>q t. opid t = opid demo + 1 \<and>
     yields_with (older (opid t)) demo_refs demo_bounds (demo\<lparr>opid := opid demo + 1\<rparr>)
       (\<lambda>a. \<exists>y. eval (cont demo) (fst a, \<lambda>k. if k \<in> levels_in [0] 1 then y k else snd a k) bnode) 0 q t) demo"
  by (rule cdd_exist_correct [OF demo_older demo_reach(1) demo_finite]) simp_all

text \<open>C24. \<^verbatim>\<open>cdd_replace\<close>: if the arrays lead boolean levels to boolean levels, and the clocks of each level to two different
  clocks whose level admits the bounds, the result has under every valuation the value that the diagram has when
  each clock and each variable takes the value of the one it is replaced by.\<close>

theorem cdd_replace_correct:
  assumes "client_with (older (opid s)) X B s" "reach X s p" "rename_ok B s levels clocks"
  shows "wp (cdd_replace p levels clocks) (\<lambda>q t. opid t = opid s + 1 \<and>
     gives_renamed (older (opid t)) X B (renamed (cdd_levelinfo s) levels clocks) (s\<lparr>opid := opid s + 1\<rparr>)
       (\<lambda>a. eval (cont s) a p) q t) s"
  using assms by (rule cdd_replace_yields)

lemma cdd_replace_correct_witness:
  "wp (cdd_replace cnode [0] [0, 1]) (\<lambda>q t. opid t = opid demo + 1 \<and>
     gives_renamed (older (opid t)) demo_refs demo_bounds (renamed (cdd_levelinfo demo) [0] [0, 1]) (demo\<lparr>opid := opid demo + 1\<rparr>)
       (\<lambda>a. eval (cont demo) a cnode) q t) demo"
  by (rule cdd_replace_correct [OF demo_older demo_reach(2) demo_rename])

section \<open>Marks and printing\<close>

text \<open>C25. \<^verbatim>\<open>cdd_nodecount\<close>: on a diagram without marked nodes it returns the number of nodes that can be reached, each
  counted once, and it leaves the marks, the diagrams and the references as they were.\<close>

theorem cdd_nodecount_correct:
  assumes "client X B s" "reach X s p" "marks s \<inter> diagram (cont s) p = {}"
  shows "wp (cdd_nodecount p) (\<lambda>k t. k = int (card (diagram (cont s) p)) \<and> client X B t \<and> cont t = cont s \<and> rf t = rf s \<and> marks t = marks s) s"
  using assms by (rule nodecount_client)

lemma cdd_nodecount_correct_witness:
  "wp (cdd_nodecount bnode) (\<lambda>k t. k = int (card (diagram (cont demo) bnode)) \<and> client demo_refs demo_bounds t \<and>
     cont t = cont demo \<and> rf t = rf demo \<and> marks t = marks demo) demo"
  by (rule cdd_nodecount_correct [OF demo_client demo_reach(1)]) (simp add: demo_marks)

text \<open>C26. \<^verbatim>\<open>cdd_fprintdot\<close> on a boolean diagram: read as a graph, as the header describes it, the file leads from the node
  of the diagram to the truth value of the diagram and to no other, for every assignment; with \<^verbatim>\<open>push_negate\<close> the label of the
  box that is reached is the value, without it the red nodes on the way negate the label.\<close>

theorem cdd_fprintdot_correct:
  assumes "client X B s" "reach X s r" "boolean (cont s) r"
  shows "wp (cdd_fprintdot [] r push) (\<lambda>f t. client X B t \<and> cont t = cont s \<and> rf t = rf s \<and>
     (\<forall>a v. leads f push (snd a) (drawn_name r) v \<longleftrightarrow> v = eval (cont s) a r)) s"
  using cdd_fprintdot_spec [OF assms] by (simp add: denotes_def)

lemma cdd_fprintdot_correct_witness:
  "wp (cdd_fprintdot [] bnode True) (\<lambda>f t. client demo_refs demo_bounds t \<and> cont t = cont demo \<and> rf t = rf demo \<and>
     (\<forall>a v. leads f True (snd a) (drawn_name bnode) v \<longleftrightarrow> v = eval (cont demo) a bnode)) demo"
  by (rule cdd_fprintdot_correct [OF demo_client demo_reach(1) demo_boolean])

section \<open>Starting the library and declaring levels\<close>

text \<open>C27. \<^verbatim>\<open>cdd_init\<close> on a library that is not running, with sizes that fit into memory, returns 0
  (or memory runs out) and establishes the invariant that everything else relies on, with no
  levels, no clocks and no references held.\<close>

theorem cdd_init_correct:
  assumes "\<not> cdd_running s" "cdd_errorcond s = 0" "fresh_memory s" "2 \<le> mx" "mx \<le> 8190"
    "0 < cs" "28 * cs < 2 ^ 32" "8 * stacksize < 2 ^ 32" "bounds_ok B mx"
  shows "wp (cdd_init mx cs stacksize) (\<lambda>r s'. r = 0 \<and> started B mx s') s"
  using assms by (rule cdd_init_spec)

lemma cdd_init_correct_witness: "wp (cdd_init 4 100 100) (\<lambda>r s'. r = 0 \<and> started demo_bounds 4 s') demo_off"
  by (rule cdd_init_correct [OF demo_off_fields demo_fresh]) (simp_all add: demo_bounds_ok)

text \<open>C28. \<^verbatim>\<open>cdd_add_clocks\<close> keeps the invariant and every diagram, appends one level for each new
  difference, and leaves every difference of declared clocks findable through \<^verbatim>\<open>cdd_diff2level\<close>,
  provided there is no manager for nodes of the maximal size yet (its tables are not grown).\<close>

theorem cdd_add_clocks_correct:
  assumes "client X B s" "clocks_ok s" "man_of s (CddMan (cdd_maxcddsize s)) = None"
    "cdd_levelcnt s + cdd_difference_count (cdd_clocknum s + n) - cdd_difference_count (cdd_clocknum s) \<le> MAXLEVEL"
  shows "wp (cdd_add_clocks n) (\<lambda>_ s'. client X B s' \<and> clocks_ok s' \<and> cdd_clocknum s' = cdd_clocknum s + n \<and>
     extended (map diff_info (clock_pairs (cdd_clocknum s) n)) s s') s"
  using assms by (rule cdd_add_clocks_spec)

lemma cdd_add_clocks_correct_witness:
  "wp (cdd_add_clocks 2) (\<lambda>_ s'. client demo_refs demo_bounds s' \<and> clocks_ok s' \<and> cdd_clocknum s' = cdd_clocknum demo + 2 \<and>
     extended (map diff_info (clock_pairs (cdd_clocknum demo) 2)) demo s') demo"
  by (rule cdd_add_clocks_correct [OF demo_client demo_clocks demo_last])
    (simp add: cdd_difference_count_def MAXLEVEL_def)



section \<open>The class of the C++ interface\<close>





section \<open>The traces of a boolean diagram\<close>

text \<open>C32. \<^verbatim>\<open>cdd_bdd_to_array\<close> of a boolean diagram that is not constant: the rows of the two arrays, padded
  with \<open>-1\<close>, are traces of levels and values, and an assignment satisfies the diagram if and only
  if it agrees with one of them.\<close>

theorem cdd_bdd_to_array_correct:
  assumes "client X B s" "reach X s r" "boolean (cont s) r" "cdd_rglr r \<noteq> cddfalse"
    "bools s (lv (cont s) r) \<le> cdd_varnum s"
  shows "\<exists>ts. cdd_bdd_to_array r s = Inr (arrays_of (cdd_varnum s) ts, s) \<and>
     (\<forall>a. eval (cont s) a r = list_ex (agrees a) ts) \<and> list_all (\<lambda>t. length t \<le> cdd_varnum s) ts"
proof -
  obtain F where c: "core s X F {} B" using assms(1) by (auto simp: client_def)
  have "list_all (\<lambda>t. length t \<le> cdd_varnum s) (traces s r)"
    using leaves_length [OF c assms(2,3), of _ True "cdd_levelcnt s" False] assms(5) by (force simp: traces_def list_all_iff)
  then show ?thesis
    using cdd_bdd_to_array_spec [OF c assms(2,4,3,5)] traces_meaning [OF c assms(2,3)] by (auto simp: list_ex_iff)
qed

lemma cdd_bdd_to_array_correct_witness:
  "\<exists>ts. cdd_bdd_to_array bnode demo = Inr (arrays_of (cdd_varnum demo) ts, demo) \<and>
     (\<forall>a. eval (cont demo) a bnode = list_ex (agrees a) ts) \<and> list_all (\<lambda>t. length t \<le> cdd_varnum demo) ts"
  by (rule cdd_bdd_to_array_correct [OF demo_client demo_reach(1) demo_boolean]) (simp_all add: demo_bools)

text \<open>C33. For the false diagram \<^verbatim>\<open>cdd_bdd_to_array\<close> reads past the end of an array without elements.\<close>

theorem cdd_bdd_to_array_empty:
  assumes "client X B s"
  shows "cdd_bdd_to_array cddfalse s = Inl Segv"
  using assms cdd_bdd_to_array_terminal(1) by (auto simp: client_def)

lemma cdd_bdd_to_array_empty_witness: "cdd_bdd_to_array cddfalse demo = Inl Segv"
  by (rule cdd_bdd_to_array_empty [OF demo_client])

section \<open>Programs over the C++ interface\<close>









section \<open>Consistency of difference constraints\<close>



section \<open>Bounds\<close>

text \<open>C39. Flipping a lower bound of x into an upper bound of -x: the real \<open>- x\<close> satisfies
  \<open>bnd_l2u b\<close> exactly when \<open>x\<close> does not satisfy \<open>b\<close>, for every bound but \<open>1 - bnd_INF\<close>.\<close>

theorem bnd_l2u_meaning:
  assumes "- bnd_INF \<le> b" "b < bnd_INF" "b \<noteq> 1 - bnd_INF"
  shows "bnd_sat (- x) (bnd_l2u b) \<longleftrightarrow> \<not> bnd_sat x b"
  using assms by (rule bnd_sat_l2u)

lemma bnd_l2u_meaning_witness: "bnd_sat (- 3) (bnd_l2u 4) \<longleftrightarrow> \<not> bnd_sat 3 4"
  by (rule bnd_l2u_meaning) (simp_all add: bnd_INF_def)



end
